(* ===== verification/Bb_Prelude.thy ===== *)
theory Bb_Prelude
  imports Main "HOL-Library.Word"
begin

text \<open>
  Shared vocabulary of the development.

  A C string is the \<^typ>\<open>char list\<close> of its bytes before the terminating NUL; a
  \<^verbatim>\<open>const char *\<close> that walks over a string is the suffix it still points at,
  \<open>deref\<close> is \<^verbatim>\<open>*p\<close> and \<open>char_at\<close> is \<^verbatim>\<open>p[i]\<close>: both read the NUL at the end of
  the string.  \<^verbatim>\<open>unsigned char\<close>, \<^verbatim>\<open>uint32_t\<close>, \<^verbatim>\<open>unsigned\<close> and \<^verbatim>\<open>unsigned long long\<close>
  are words of 8, 32, 32 and 64 bits (the LP64 little-endian data model of amd64).
  A call of \<^verbatim>\<open>bb_error_msg_and_die\<close> is the left summand of an \<open>outcome\<close>.
\<close>

unbundle bit_operations_syntax

type_synonym byte = "8 word"
type_synonym u16 = "16 word"
type_synonym u32 = "32 word"
type_synonym u64 = "64 word"
type_synonym cstr = "char list"

named_theorems ctype_simps "character classes as sets of characters"
named_theorems step_simps "unfolding equations of loop bodies"
named_theorems inv_intros "preservation of component invariants"

abbreviation NUL :: char where
  "NUL \<equiv> CHR 0x00"

abbreviation uchar :: "char \<Rightarrow> byte" where
  "uchar c \<equiv> of_char c"

abbreviation ord :: "char \<Rightarrow> nat" where
  "ord c \<equiv> of_char c"

abbreviation byte_char :: "byte \<Rightarrow> char" where
  "byte_char b \<equiv> char_of (unat b)"

definition deref :: "cstr \<Rightarrow> char" where
  "deref s = (case s of [] \<Rightarrow> NUL | c # _ \<Rightarrow> c)"

definition char_at :: "cstr \<Rightarrow> nat \<Rightarrow> char" where
  "char_at s i = (if i < length s then s ! i else NUL)"

definition wf_cstr :: "cstr \<Rightarrow> bool" where
  "wf_cstr s \<longleftrightarrow> NUL \<notin> set s"

lemma uchar_of_nat: "uchar c = of_nat (ord c)"
  by (simp add: of_nat_of_char)

lemma unat_uchar [simp]: "unat (uchar c) = ord c"
  by (simp add: uchar_of_nat unat_of_nat take_bit_nat_def)

lemma byte_char_uchar [simp]: "byte_char (uchar c) = c"
  by simp

lemma ord_less_256 [simp]: "ord c < 256"
  by (rule nat_of_char_less_256)

lemma ord_eq_iff: "ord c = ord d \<longleftrightarrow> c = d"
  by simp

lemma uchar_eq_iff: "uchar c = uchar d \<longleftrightarrow> c = d"
  by (metis byte_char_uchar)

lemma unat_byte_less [simp]: "unat (b :: byte) < 256"
  using unsigned_less [of b] by simp

lemma unat_byte_le: "unat (b :: byte) \<le> 255"
  using unat_byte_less [of b] by linarith

lemma unat_wide: "unat (ucast (b :: byte) :: u32) = unat b"
proof -
  have "unat b < 2 ^ 32" using unat_byte_le [of b] by simp
  then show ?thesis by (simp add: unsigned_ucast_eq take_bit_nat_eq_self)
qed

lemma uchar_byte_char [simp]: "uchar (byte_char b) = b"
  by (simp add: uchar_of_nat)

lemma deref_simps [simp]:
  "deref [] = NUL"
  "deref (c # s) = c"
  by (simp_all add: deref_def)

lemma char_at_simps [simp]:
  "char_at [] i = NUL"
  "char_at (c # s) 0 = c"
  "char_at (c # s) (Suc i) = char_at s i"
  by (simp_all add: char_at_def)

lemma char_at_numeral [simp]:
  "char_at (c # s) (numeral k) = char_at s (pred_numeral k)"
  by (simp add: numeral_eq_Suc)

lemma char_at_0 [simp]: "char_at s 0 = deref s"
  by (cases s) simp_all

lemma wf_cstr_simps [simp]:
  "wf_cstr []"
  "wf_cstr (c # s) \<longleftrightarrow> c \<noteq> NUL \<and> wf_cstr s"
  "wf_cstr (s @ t) \<longleftrightarrow> wf_cstr s \<and> wf_cstr t"
  by (auto simp: wf_cstr_def)

lemma deref_eq_NUL: "wf_cstr s \<Longrightarrow> deref s = NUL \<longleftrightarrow> s = []"
  by (cases s) auto

lemma unat_of_nat_small: "n < 2 ^ LENGTH('a) \<Longrightarrow> unat (of_nat n :: 'a::len word) = n"
  by (simp add: unat_of_nat take_bit_nat_eq_self)

lemma unat_pred: "(x :: 'a::len word) \<noteq> 0 \<Longrightarrow> unat (x - 1) = unat x - 1"
  by (rule unat_minus_one)

text \<open>Outcomes of functions that may call \<^verbatim>\<open>bb_error_msg_and_die\<close>.\<close>

datatype die =
    DieInvalidNumber cstr
  | DieNotInRange cstr
  | DieMsg string

type_synonym 'a outcome = "die + 'a"

text \<open>Little-endian values of digit lists, used by every multi-precision routine.\<close>

fun le_val :: "nat \<Rightarrow> nat list \<Rightarrow> nat" where
  "le_val b [] = 0"
| "le_val b (d # ds) = d + b * le_val b ds"

lemma le_val_append: "le_val b (xs @ ys) = le_val b xs + b ^ length xs * le_val b ys"
  by (induction xs) (auto simp: algebra_simps)

lemma le_val_bound: "(\<And>d. d \<in> set ds \<Longrightarrow> d < b) \<Longrightarrow> le_val b ds < b ^ length ds"
proof (induction ds)
  case (Cons d ds)
  then have "d < b" and IH: "le_val b ds < b ^ length ds" by auto
  from IH have "le_val b ds + 1 \<le> b ^ length ds" by simp
  then have "b * (le_val b ds + 1) \<le> b * b ^ length ds" by (rule mult_le_mono2)
  with \<open>d < b\<close> show ?case by (simp add: algebra_simps)
qed simp

end
