(* ===== verification/Libbb_Ctype.thy ===== *)
theory Libbb_Ctype
  imports Bb_Prelude
begin

text \<open>
  The ctype macros BusyBox redefines in \<^verbatim>\<open>include/libbb.h\<close>: arithmetic on
  \<^verbatim>\<open>unsigned char\<close>, which wraps, compared with a bound.  The lemmas in \<open>ctype_simps\<close>
  say which characters each macro accepts.
\<close>

definition isdigit :: "char \<Rightarrow> bool" where
  "isdigit a \<longleftrightarrow> uchar a - uchar (CHR ''0'') \<le> 9"

definition isupper :: "char \<Rightarrow> bool" where
  "isupper a \<longleftrightarrow> uchar a - uchar (CHR ''A'') \<le> 25"

definition islower :: "char \<Rightarrow> bool" where
  "islower a \<longleftrightarrow> uchar a - uchar (CHR ''a'') \<le> 25"

definition isalpha :: "char \<Rightarrow> bool" where
  "isalpha a \<longleftrightarrow> (uchar a OR 0x20) - uchar (CHR ''a'') \<le> 25"

definition isspace :: "char \<Rightarrow> bool" where
  "isspace a \<longleftrightarrow> (let b = uchar a - 9 in b = 32 - 9 \<or> b \<le> 13 - 9)"

definition isalnum :: "char \<Rightarrow> bool" where
  "isalnum a \<longleftrightarrow>
     (let b = uchar a - uchar (CHR ''0'')
      in if b \<le> 9 then True
         else (uchar a OR 0x20) - uchar (CHR ''a'') \<le> 25)"

definition isxdigit :: "char \<Rightarrow> bool" where
  "isxdigit a \<longleftrightarrow>
     (let b = uchar a - uchar (CHR ''0'')
      in if b \<le> 9 then True
         else (uchar a OR 0x20) - uchar (CHR ''a'') \<le> 5)"

definition bb_tolower :: "char \<Rightarrow> char" where
  "bb_tolower a =
     (if uchar a - uchar (CHR ''A'') \<le> 25
      then byte_char (uchar a + (uchar (CHR ''a'') - uchar (CHR ''A''))) else a)"

definition bb_toupper :: "char \<Rightarrow> char" where
  "bb_toupper a =
     (if uchar a - uchar (CHR ''a'') \<le> 25
      then byte_char (uchar a - (uchar (CHR ''a'') - uchar (CHR ''A''))) else a)"

lemmas ctype_defs = isdigit_def isupper_def islower_def isalpha_def isspace_def isalnum_def
  isxdigit_def bb_tolower_def bb_toupper_def

lemma byte_minus_1: "(- 1 :: byte) = 255"
  by simp

lemma isdigit_ord [ctype_simps]: "isdigit c \<longleftrightarrow> 48 \<le> ord c \<and> ord c \<le> 57"
  by (auto simp: isdigit_def word_le_nat_alt unat_sub_if')

lemma isupper_ord [ctype_simps]: "isupper c \<longleftrightarrow> 65 \<le> ord c \<and> ord c \<le> 90"
  by (auto simp: isupper_def word_le_nat_alt unat_sub_if')

lemma islower_ord [ctype_simps]: "islower c \<longleftrightarrow> 97 \<le> ord c \<and> ord c \<le> 122"
  by (auto simp: islower_def word_le_nat_alt unat_sub_if')

lemma isspace_ord [ctype_simps]: "isspace c \<longleftrightarrow> ord c = 32 \<or> 9 \<le> ord c \<and> ord c \<le> 13"
proof -
  have "uchar c = 32 \<longleftrightarrow> ord c = 32"
    using uchar_eq_iff [of c "CHR '' ''"] ord_eq_iff [of c "CHR '' ''"] by simp
  then show ?thesis
    by (auto simp: isspace_def Let_def word_le_nat_alt unat_sub_if')
qed

text \<open>The two macros that fold case with \<^verbatim>\<open>|0x20\<close> are checked on all 256 characters.\<close>

lemma isalpha_ord [ctype_simps]:
  "isalpha c \<longleftrightarrow> 65 \<le> ord c \<and> ord c \<le> 90 \<or> 97 \<le> ord c \<and> ord c \<le> 122"
proof (cases c)
  case (Char b0 b1 b2 b3 b4 b5 b6 b7)
  then show ?thesis
    by (cases b0; cases b1; cases b2; cases b3; cases b4; cases b5; cases b6; cases b7;
        simp add: isalpha_def byte_minus_1)
qed

lemma xdigit_letter_ord:
  "(uchar c OR 0x20) - 97 \<le> 5 \<longleftrightarrow> 65 \<le> ord c \<and> ord c \<le> 70 \<or> 97 \<le> ord c \<and> ord c \<le> 102"
proof (cases c)
  case (Char b0 b1 b2 b3 b4 b5 b6 b7)
  then show ?thesis
    by (cases b0; cases b1; cases b2; cases b3; cases b4; cases b5; cases b6; cases b7;
        simp add: byte_minus_1)
qed

lemma isalnum_iff [ctype_simps]: "isalnum c \<longleftrightarrow> isdigit c \<or> isalpha c"
  by (auto simp: isalnum_def isdigit_def isalpha_def Let_def)

lemma isxdigit_ord [ctype_simps]:
  "isxdigit c \<longleftrightarrow> isdigit c \<or> 65 \<le> ord c \<and> ord c \<le> 70 \<or> 97 \<le> ord c \<and> ord c \<le> 102"
  using xdigit_letter_ord [of c] by (auto simp: isxdigit_def isdigit_def Let_def)

lemma ord_tolower: "ord (bb_tolower c) = (if isupper c then ord c + 32 else ord c)"
proof (cases "isupper c")
  case True
  then have "ord c + 32 < 256" by (simp add: isupper_ord)
  with True show ?thesis by (simp add: bb_tolower_def isupper_def unat_word_ariths)
next
  case False
  then show ?thesis by (simp add: bb_tolower_def isupper_def)
qed

lemma bb_tolower_idem [simp]: "bb_tolower (bb_tolower c) = bb_tolower c"
  by (simp flip: ord_eq_iff add: ord_tolower isupper_ord)

lemma NUL_ctype [simp]:
  "\<not> isdigit NUL" "\<not> isalpha NUL" "\<not> isalnum NUL" "\<not> isspace NUL"
  by (simp_all add: ctype_simps)

end
