(* ===== verification/Libbb_Str.thy ===== *)
theory Libbb_Str
  imports Libbb_Ctype "HOL-Library.Sublist"
begin

text \<open>
  The string helpers of libbb: \<^verbatim>\<open>skip_whitespace.c\<close>, \<^verbatim>\<open>endofname.c\<close>, \<^verbatim>\<open>trim.c\<close>,
  \<^verbatim>\<open>safe_strncpy.c\<close>, \<^verbatim>\<open>last_char_is.c\<close>, \<^verbatim>\<open>chomp.c\<close>, \<^verbatim>\<open>str_tolower.c\<close>,
  \<^verbatim>\<open>compare_string_array.c\<close>, \<^verbatim>\<open>replace.c\<close> and \<^verbatim>\<open>strrstr.c\<close>.  A returned pointer into
  the argument is the suffix it points at, a NULL pointer is \<open>None\<close>, and a function that
  edits its argument in place returns the string left in the buffer.
\<close>

subsection \<open>skip_whitespace.c, endofname.c\<close>

fun skip_whitespace :: "cstr \<Rightarrow> cstr" where
  "skip_whitespace [] = []"
| "skip_whitespace (c # s) =
     (if c = CHR '' '' \<or> uchar c - 9 \<le> 13 - 9 then skip_whitespace s else c # s)"

fun skip_non_whitespace :: "cstr \<Rightarrow> cstr" where
  "skip_non_whitespace [] = []"
| "skip_non_whitespace (c # s) =
     (if c \<noteq> CHR '' '' \<and> uchar c - 9 > 13 - 9 then skip_non_whitespace s else c # s)"

definition is_name :: "char \<Rightarrow> bool" where
  "is_name c \<longleftrightarrow> c = CHR ''_'' \<or> isalpha c"

definition is_in_name :: "char \<Rightarrow> bool" where
  "is_in_name c \<longleftrightarrow> c = CHR ''_'' \<or> isalnum c"

fun endofname_loop :: "cstr \<Rightarrow> cstr" where
  "endofname_loop [] = []"
| "endofname_loop (c # s) = (if \<not> is_in_name c then c # s else endofname_loop s)"

definition endofname :: "cstr \<Rightarrow> cstr" where
  "endofname name = (if \<not> is_name (deref name) then name else endofname_loop (tl name))"

subsection \<open>compare_string_array.c\<close>

fun is_prefixed_with :: "cstr \<Rightarrow> cstr \<Rightarrow> cstr option" where
  "is_prefixed_with string [] = Some string"
| "is_prefixed_with string (k # key) =
     (if k \<noteq> deref string then None else is_prefixed_with (tl string) key)"

definition is_suffixed_with :: "cstr \<Rightarrow> cstr \<Rightarrow> cstr option" where
  "is_suffixed_with string key =
     (let len_diff = int (length string) - int (length key)
      in if len_diff \<ge> 0 then
           (let string = drop (nat len_diff) string
            in if string = key then Some string else None)
         else None)"

definition skip_dev_pfx :: "cstr \<Rightarrow> cstr" where
  "skip_dev_pfx tty_name =
     (case is_prefixed_with tty_name ''/dev/'' of Some u \<Rightarrow> u | None \<Rightarrow> tty_name)"

fun index_in_str_array :: "nat \<Rightarrow> cstr list \<Rightarrow> cstr \<Rightarrow> int" where
  "index_in_str_array i [] key = - 1"
| "index_in_str_array i (s # ss) key =
     (if s = key then int i else index_in_str_array (Suc i) ss key)"

text \<open>
  A list of strings in one block, \<^verbatim>\<open>"a\0b\0c\0"\<close> with a further NUL at its end, is the list of
  its bytes; reading at its end gives NUL.
\<close>

fun match_here :: "char list \<Rightarrow> cstr \<Rightarrow> bool \<times> char list" where
  "match_here [] key = (key = [], [])"
| "match_here (c # strings) key =
     (if c = deref key then
        (if c = NUL then (True, strings) else match_here strings (tl key))
      else (False, c # strings))"

fun next_string :: "char list \<Rightarrow> char list" where
  "next_string [] = []"
| "next_string (c # strings) = (if c = NUL then strings else next_string strings)"

lemma match_here_length: "length (snd (match_here s key)) \<le> length s"
  by (induction s key rule: match_here.induct) auto

lemma next_string_length: "length (next_string s) \<le> length s"
  by (induction s) auto

lemma next_string_decreases: "s \<noteq> [] \<Longrightarrow> length (next_string s) < length s"
  by (cases s) (auto simp: le_imp_less_Suc next_string_length)

function index_in_strings_loop :: "int \<Rightarrow> char list \<Rightarrow> cstr \<Rightarrow> int" where
  "index_in_strings_loop idx strings key =
     (if deref strings = NUL then - 1
      else let (found, s) = match_here strings key
           in if found then idx
              else index_in_strings_loop (idx + 1) (next_string s) key)"
  by pat_completeness auto
termination
proof (relation "measure (\<lambda>(idx, strings, key). length strings)", goal_cases)
  case (2 idx strings key x found s)
  then have "strings \<noteq> []" by auto
  have "match_here strings key = (found, s)" using 2 by simp
  then have le: "length s \<le> length strings" using match_here_length [of strings key] by simp
  show ?case
  proof (cases "s = []")
    case True
    with \<open>strings \<noteq> []\<close> show ?thesis by simp
  next
    case False
    with le next_string_decreases [OF False] show ?thesis by simp
  qed
qed simp

definition index_in_strings :: "char list \<Rightarrow> cstr \<Rightarrow> int" where
  "index_in_strings strings key = index_in_strings_loop 0 strings key"

fun nth_string :: "char list \<Rightarrow> nat \<Rightarrow> char list" where
  "nth_string strings 0 = strings"
| "nth_string [] (Suc n) = []"
| "nth_string (c # strings) (Suc n) =
     (if c = NUL then (if deref strings = NUL then strings else nth_string strings n)
      else nth_string strings (Suc n))"

subsection \<open>trim.c, safe_strncpy.c, last_char_is.c, chomp.c, str_tolower.c\<close>

function trim_end :: "cstr \<Rightarrow> nat \<Rightarrow> nat" where
  "trim_end s len = (if len \<noteq> 0 \<and> isspace (char_at s (len - 1)) then trim_end s (len - 1) else len)"
  by pat_completeness auto
termination by (relation "measure snd") auto

definition trim :: "cstr \<Rightarrow> cstr" where
  "trim s =
     (let len = trim_end s (length s)
      in if len \<noteq> 0 then
           (let k = length s - length (skip_whitespace s)
            in take (len - k) (drop k s))
         else take len s)"

text \<open>\<^verbatim>\<open>strncpy\<close> pads the rest of the \<open>n\<close> bytes with NULs; bytes past them stay as they were.\<close>

definition strncpy :: "char list \<Rightarrow> cstr \<Rightarrow> nat \<Rightarrow> char list" where
  "strncpy dst src n = take n (src @ replicate n NUL) @ drop n dst"

definition safe_strncpy :: "char list \<Rightarrow> cstr \<Rightarrow> nat \<Rightarrow> char list" where
  "safe_strncpy dst src sz =
     (if sz = 0 then dst
      else let sz = sz - 1; dst = dst[sz := NUL] in strncpy dst src sz)"

fun last_char_is :: "cstr \<Rightarrow> char \<Rightarrow> cstr option" where
  "last_char_is [] c = None"
| "last_char_is [d] c = (if d = c then Some [d] else None)"
| "last_char_is (d # e # s) c = last_char_is (e # s) c"

definition chomp :: "cstr \<Rightarrow> cstr" where
  "chomp s =
     (case last_char_is s (CHR 0x0A) of
        Some lc \<Rightarrow> take (length s - length lc) s
      | None \<Rightarrow> s)"

fun str_tolower :: "cstr \<Rightarrow> cstr" where
  "str_tolower [] = []"
| "str_tolower (c # s) = bb_tolower c # str_tolower s"

subsection \<open>replace.c, strrstr.c\<close>

text \<open>The C library's \<open>strstr\<close>: the suffix at the first occurrence.\<close>

fun strstr :: "cstr \<Rightarrow> cstr \<Rightarrow> cstr option" where
  "strstr [] sub = (if sub = [] then Some [] else None)"
| "strstr (c # s) sub = (if prefix sub (c # s) then Some (c # s) else strstr s sub)"

lemma strstr_Some:
  "strstr s sub = Some t \<Longrightarrow> \<exists>a. s = a @ t \<and> prefix sub t"
proof (induction s)
  case (Cons c s)
  then show ?case
  proof (cases "prefix sub (c # s)")
    case False
    with Cons obtain a where "s = a @ t" "prefix sub t" by auto
    then have "c # s = (c # a) @ t" by simp
    with \<open>prefix sub t\<close> show ?thesis by blast
  qed auto
qed (auto split: if_splits)

lemma strstr_length: "strstr s sub = Some t \<Longrightarrow> length t \<le> length s \<and> length sub \<le> length t"
  using strstr_Some prefix_length_le by fastforce

lemma strstr_advance:
  assumes "strstr s sub = Some p" and "sub \<noteq> []"
  shows "length p - length sub < length s" and "length p - Suc 0 < length s"
proof -
  from assms(2) have "0 < length sub" by simp
  with strstr_length [OF assms(1)]
  show "length p - length sub < length s" "length p - Suc 0 < length s" by linarith+
qed

function count_strstr_loop :: "u32 \<Rightarrow> cstr \<Rightarrow> cstr \<Rightarrow> u32" where
  "count_strstr_loop count str sub =
     (if sub = [] then count
      else case strstr str sub of
        None \<Rightarrow> count
      | Some p \<Rightarrow> count_strstr_loop (count + 1) (drop (length sub) p) sub)"
  by pat_completeness auto
termination
  by (relation "measure (\<lambda>(count, str, sub). length str)")
    (auto simp: strstr_advance)

definition count_strstr :: "cstr \<Rightarrow> cstr \<Rightarrow> u32" where
  "count_strstr str sub =
     (if length sub = 0 then of_nat (length str + 1) else count_strstr_loop 0 str sub)"

text \<open>
  The loop of \<open>xmalloc_substitute_string\<close> does not advance when \<open>sub\<close> is empty, so it never
  ends: that is \<open>None\<close>.  The result is the size asked of \<^verbatim>\<open>xmalloc\<close> (computed in 64-bit
  unsigned arithmetic from the \<^verbatim>\<open>int\<close> difference) and the bytes written before the NUL.
\<close>

function substitute_loop :: "cstr \<Rightarrow> cstr \<Rightarrow> cstr \<Rightarrow> cstr \<Rightarrow> cstr option" where
  "substitute_loop dst src sub repl =
     (if sub = [] then None
      else case strstr src sub of
        Some ende \<Rightarrow>
          substitute_loop (dst @ take (length src - length ende) src @ repl)
            (drop (length sub) ende) sub repl
      | None \<Rightarrow> Some (dst @ src))"
  by pat_completeness auto
termination
  by (relation "measure (\<lambda>(dst, src, sub, repl). length src)")
    (auto simp: strstr_advance)

definition xmalloc_substitute_string ::
  "cstr \<Rightarrow> u32 \<Rightarrow> cstr \<Rightarrow> cstr \<Rightarrow> (u64 \<times> cstr) option" where
  "xmalloc_substitute_string src count sub repl =
     (let bufsize = of_nat (length src)
            + scast (count * (of_nat (length repl) - of_nat (length sub))) + 1
      in map_option (\<lambda>out. (bufsize, out)) (substitute_loop [] src sub repl))"

function strrstr_loop :: "cstr option \<Rightarrow> cstr \<Rightarrow> cstr \<Rightarrow> cstr option" where
  "strrstr_loop r haystack needle =
     (if needle = [] then None
      else case strstr haystack needle of
        None \<Rightarrow> r
      | Some p \<Rightarrow> strrstr_loop (Some p) (tl p) needle)"
  by pat_completeness auto
termination
  by (relation "measure (\<lambda>(r, haystack, needle). length haystack)")
    (auto simp: strstr_advance)

definition strrstr :: "cstr \<Rightarrow> cstr \<Rightarrow> cstr option" where
  "strrstr haystack needle =
     (if needle = [] then Some (drop (length haystack) haystack)
      else strrstr_loop None haystack needle)"

declare trim_end.simps [simp del] count_strstr_loop.simps [simp del]
  substitute_loop.simps [simp del] strrstr_loop.simps [simp del]
  index_in_strings_loop.simps [simp del]

subsection \<open>Facts used by the clients\<close>

lemma whitespace_isspace: "c = CHR '' '' \<or> uchar c - 9 \<le> 13 - 9 \<longleftrightarrow> isspace c"
  using uchar_eq_iff [of c "CHR '' ''"] by (auto simp: isspace_def Let_def)

lemma skip_whitespace_eq [simp]: "skip_whitespace s = dropWhile isspace s"
  by (induction s) (simp_all only: skip_whitespace.simps whitespace_isspace dropWhile.simps)

lemma endofname_loop_eq: "endofname_loop s = dropWhile is_in_name s"
  by (induction s) auto

lemma is_in_name_NUL [simp]: "\<not> is_in_name NUL" "\<not> is_name NUL"
  by (simp_all add: is_in_name_def is_name_def)

lemma endofname_eq:
  "endofname s = (if is_name (deref s) then dropWhile is_in_name s else s)"
  by (cases s) (auto simp: endofname_def endofname_loop_eq is_name_def is_in_name_def isalnum_iff)

lemma is_prefixed_with_eq:
  "wf_cstr key \<Longrightarrow>
   is_prefixed_with s key = (if prefix key s then Some (drop (length key) s) else None)"
proof (induction s key rule: is_prefixed_with.induct)
  case (2 s k key)
  then show ?case by (cases s) auto
qed simp

lemma strstr_None: "strstr s sub = None \<longleftrightarrow> \<not> sublist sub s"
  by (induction s) (auto simp: sublist_Cons_right)

end
