(* ===== verification/Libbb_Str_Facts.thy ===== *)
theory Libbb_Str_Facts
  imports Libbb_Str
begin

text \<open>
  What the string helpers promise: searching and indexing blocks of NUL-separated strings,
  substitution and the size of its buffer, trimming, and bounded copying.
\<close>

subsection \<open>Blocks of strings\<close>

definition block :: "cstr list \<Rightarrow> char list" where
  "block ss = concat (map (\<lambda>s. s @ [NUL]) ss)"

definition wf_block :: "cstr list \<Rightarrow> bool" where
  "wf_block ss \<longleftrightarrow> (\<forall>s \<in> set ss. wf_cstr s \<and> s \<noteq> [])"

lemma block_simps [simp]:
  "block [] = []" "block (s # ss) = s @ NUL # block ss"
  by (simp_all add: block_def)

lemma wf_block_simps [simp]:
  "wf_block []" "wf_block (s # ss) \<longleftrightarrow> wf_cstr s \<and> s \<noteq> [] \<and> wf_block ss"
  by (auto simp: wf_block_def)

lemma deref_block: "wf_block ss \<Longrightarrow> deref (block ss) = NUL \<longleftrightarrow> ss = []"
proof (cases ss)
  case (Cons s ss')
  moreover assume "wf_block ss"
  ultimately show ?thesis by (cases s) auto
qed simp

lemma next_string_append: "wf_cstr s \<Longrightarrow> next_string (s @ NUL # r) = r"
  by (induction s) auto

lemma match_here_block:
  assumes "wf_cstr s" and "wf_cstr key"
  shows "fst (match_here (s @ NUL # r) key) \<longleftrightarrow> s = key"
    and "s \<noteq> key \<Longrightarrow> next_string (snd (match_here (s @ NUL # r) key)) = r"
  using assms
proof (induction s arbitrary: key)
  case Nil
  { case 1 then show ?case by (cases key) auto }
  { case 2 then show ?case by (cases key) auto }
next
  case (Cons c s)
  { case 1 with Cons show ?case by (cases key) auto }
  { case 2 with Cons show ?case by (cases key) (auto simp: next_string_append) }
qed

lemma index_in_strings_loop_block:
  assumes "wf_block ss" and "wf_cstr key"
  shows "index_in_strings_loop idx (block ss) key =
    (if key \<in> set ss then idx + int (length (takeWhile (\<lambda>s. s \<noteq> key) ss)) else - 1)"
  using assms(1)
proof (induction ss arbitrary: idx)
  case Nil
  then show ?case by (subst index_in_strings_loop.simps) simp
next
  case (Cons s ss)
  then have "deref (s @ NUL # block ss) \<noteq> NUL" using deref_block [of "s # ss"] by simp
  with Cons match_here_block [of s key "block ss"] assms(2) show ?case
    by (subst index_in_strings_loop.simps) (auto simp: split_beta Let_def)
qed

lemma length_takeWhile_less: "x \<in> set xs \<Longrightarrow> length (takeWhile (\<lambda>y. y \<noteq> x) xs) < length xs"
  by (induction xs) auto

lemma nth_string_skip: "wf_cstr s \<Longrightarrow> nth_string (s @ NUL # r) (Suc n) =
    (if deref r = NUL then r else nth_string r n)"
  by (induction s) auto

lemma nth_string_block:
  "wf_block ss \<Longrightarrow> i < length ss \<Longrightarrow> nth_string (block ss) i = block (drop i ss)"
proof (induction i arbitrary: ss)
  case (Suc i)
  then obtain s ss' where ss: "ss = s # ss'" by (cases ss) auto
  with Suc have "ss' \<noteq> []" by auto
  with Suc ss show ?case by (simp add: nth_string_skip deref_block)
qed simp

text \<open>Looking a key up in a block of strings and fetching the string at the index found gives the
  key back, and a negative index is returned exactly for the keys that are not there.\<close>

theorem index_nth_roundtrip:
  assumes "wf_block ss" and "wf_cstr key"
  shows "if key \<in> set ss
    then 0 \<le> index_in_strings (block ss) key \<and>
      takeWhile (\<lambda>c. c \<noteq> NUL) (nth_string (block ss) (nat (index_in_strings (block ss) key))) = key
    else index_in_strings (block ss) key = - 1"
proof (cases "key \<in> set ss")
  case True
  define i where "i = length (takeWhile (\<lambda>s. s \<noteq> key) ss)"
  have i: "i < length ss" "ss ! i = key"
    using nth_length_takeWhile [of "\<lambda>s. s \<noteq> key" ss] length_takeWhile_less [OF True]
    by (auto simp: i_def)
  have "index_in_strings (block ss) key = int i"
    using index_in_strings_loop_block [OF assms] True by (simp add: index_in_strings_def i_def)
  moreover have "takeWhile (\<lambda>c. c \<noteq> NUL) (block (drop i ss)) = key"
    using assms(2) i by (simp add: Cons_nth_drop_Suc [symmetric] wf_cstr_def takeWhile_append)
  ultimately show ?thesis using True nth_string_block [OF assms(1) i(1)] by simp
qed (use index_in_strings_loop_block [OF assms] in \<open>simp add: index_in_strings_def\<close>)

theorem index_nth_roundtrip_witness:
  "index_in_strings (block [''no'', ''yes'']) ''yes'' = 1 \<and>
   takeWhile (\<lambda>c. c \<noteq> NUL) (nth_string (block [''no'', ''yes'']) 1) = ''yes''"
proof -
  have "index_in_strings (block [''no'', ''yes'']) ''yes'' = 1"
    by code_simp
  with index_nth_roundtrip [of "[''no'', ''yes'']" "''yes''"] show ?thesis by simp
qed

subsection \<open>Substitution\<close>

text \<open>The reference: cut the source at the first occurrence, again and again.\<close>

function pieces :: "cstr \<Rightarrow> cstr \<Rightarrow> cstr list" where
  "pieces sub s =
    (if sub = [] then [s]
     else case strstr s sub of
       None \<Rightarrow> [s]
     | Some p \<Rightarrow> take (length s - length p) s # pieces sub (drop (length sub) p))"
  by pat_completeness auto
termination by (relation "measure (\<lambda>(sub, s). length s)") (auto simp: strstr_advance)

declare pieces.simps [simp del]

fun join :: "cstr \<Rightarrow> cstr list \<Rightarrow> cstr" where
  "join r [] = []"
| "join r [x] = x"
| "join r (x # y # zs) = x @ r @ join r (y # zs)"

lemma pieces_nonempty: "pieces sub s \<noteq> []"
  by (subst pieces.simps) (simp split: option.split)

lemma join_Cons: "xs \<noteq> [] \<Longrightarrow> join r (x # xs) = x @ r @ join r xs"
  by (cases xs) auto

lemma strstr_cut: "strstr s sub = Some p \<Longrightarrow>
    s = take (length s - length p) s @ sub @ drop (length sub) p"
proof -
  assume "strstr s sub = Some p"
  then obtain a where "s = a @ p" "prefix sub p" using strstr_Some by blast
  then show ?thesis by (auto simp: prefix_def)
qed

lemma join_pieces: "join sub (pieces sub s) = s"
proof (induction sub s rule: pieces.induct)
  case (1 sub s)
  show ?case
  proof (cases "sub = [] \<or> strstr s sub = None")
    case True
    then show ?thesis by (subst pieces.simps) auto
  next
    case False
    then obtain p where "sub \<noteq> []" "strstr s sub = Some p" by auto
    with 1 strstr_cut show ?thesis
      by (subst pieces.simps) (simp add: join_Cons [OF pieces_nonempty])
  qed
qed

lemma substitute_loop_join:
  "sub \<noteq> [] \<Longrightarrow> substitute_loop dst s sub repl = Some (dst @ join repl (pieces sub s))"
proof (induction dst s sub repl rule: substitute_loop.induct)
  case (1 dst s sub repl)
  then show ?case
    by (subst substitute_loop.simps, subst pieces.simps)
      (simp add: join_Cons [OF pieces_nonempty] split: option.split)
qed

lemma count_strstr_loop_pieces:
  "sub \<noteq> [] \<Longrightarrow> count_strstr_loop n s sub = n + of_nat (length (pieces sub s) - 1)"
proof (induction n s sub rule: count_strstr_loop.induct)
  case (1 n s sub)
  then show ?case
  proof (cases "strstr s sub")
    case None
    with 1 show ?thesis by (subst count_strstr_loop.simps, subst pieces.simps) simp
  next
    case (Some p)
    have "0 < length (pieces sub (drop (length sub) p))" using pieces_nonempty by blast
    then obtain k where k: "length (pieces sub (drop (length sub) p)) = Suc k"
      by (auto simp: gr0_conv_Suc)
    with 1 Some show ?thesis
      by (subst count_strstr_loop.simps, subst pieces.simps) (simp add: k)
  qed
qed

lemma length_join: "xs \<noteq> [] \<Longrightarrow> length (join r xs) = sum_list (map length xs) + (length xs - 1) * length r"
proof (induction r xs rule: join.induct)
  case (3 r x y zs)
  then show ?case by simp
qed auto

lemma scast_product:
  assumes "int k * int a < 2 ^ 31" and "int k * int b < 2 ^ 31"
  shows "(scast (of_nat k * (of_nat a - of_nat b) :: u32) :: u64) = word_of_int (int k * int a - int k * int b)"
proof -
  define z where "z = int k * int a - int k * int b"
  have "0 \<le> int k * int a" "0 \<le> int k * int b" by simp_all
  with assms have z: "- (2 ^ 31) \<le> z" "z < 2 ^ 31" unfolding z_def by linarith+
  have "(of_nat k * (of_nat a - of_nat b) :: u32) = word_of_int z"
    by (simp add: z_def algebra_simps)
  moreover have "sint (word_of_int z :: u32) = z"
    using z by (simp add: signed_of_int signed_take_bit_int_eq_self)
  ultimately show ?thesis by (simp add: scast_eq z_def [symmetric])
qed

text \<open>Substituting with the count that \<^verbatim>\<open>count_strstr\<close> returned: the loop ends, its output is the
  source with every occurrence replaced, and the buffer asked of \<^verbatim>\<open>xmalloc\<close> holds exactly the output
  and its NUL.\<close>

theorem substitute_fills_buffer:
  assumes "sub \<noteq> []" and "length src < 2 ^ 31"
    and "(length (pieces sub src) - 1) * length repl < 2 ^ 31"
  shows "\<exists>size out. xmalloc_substitute_string src (count_strstr src sub) sub repl = Some (size, out) \<and>
    src = join sub (pieces sub src) \<and> out = join repl (pieces sub src) \<and> unat size = length out + 1"
proof -
  define k where "k = length (pieces sub src) - 1"
  define t where "t = sum_list (map length (pieces sub src))"
  have src: "length src = t + k * length sub"
    using length_join [OF pieces_nonempty, of sub sub src] by (simp add: join_pieces k_def t_def)
  have out: "length (join repl (pieces sub src)) = t + k * length repl"
    using length_join [OF pieces_nonempty] by (simp add: k_def t_def)
  have "k * length sub < 2 ^ 31" "k * length repl < 2 ^ 31"
    using assms(2,3) src by (simp_all add: k_def)
  then have "int k * int (length repl) < 2 ^ 31" "int k * int (length sub) < 2 ^ 31"
    by (metis of_nat_less_iff of_nat_mult of_nat_numeral of_nat_power)+
  note scast_product [OF this]
  moreover have "count_strstr src sub = of_nat k"
    using assms(1) count_strstr_loop_pieces [of sub 0 src] by (simp add: count_strstr_def k_def)
  ultimately have "of_nat (length src) +
      scast (count_strstr src sub * (of_nat (length repl) - of_nat (length sub))) + (1 :: u64) =
    word_of_int (int (length src) + (int k * int (length repl) - int k * int (length sub)) + 1)"
    by simp
  also have "int (length src) + (int k * int (length repl) - int k * int (length sub)) + 1 =
      int (length (join repl (pieces sub src)) + 1)"
    by (simp add: src out)
  finally have size: "of_nat (length src) +
      scast (count_strstr src sub * (of_nat (length repl) - of_nat (length sub))) + (1 :: u64) =
    of_nat (length (join repl (pieces sub src)) + 1)" by simp
  have "length (join repl (pieces sub src)) + 1 < 2 ^ 64"
    using \<open>k * length repl < 2 ^ 31\<close> assms(2) src out by simp
  then have "unat (of_nat (length (join repl (pieces sub src)) + 1) :: u64) =
      length (join repl (pieces sub src)) + 1"
    by (intro unat_of_nat_small) simp
  then show ?thesis
    using size substitute_loop_join [OF assms(1), of "[]" src repl]
    by (simp add: xmalloc_substitute_string_def join_pieces add.commute)
qed

theorem substitute_fills_buffer_witness:
  "\<exists>size out. xmalloc_substitute_string ''aXbXX'' (count_strstr ''aXbXX'' ''X'') ''X'' ''yz'' = Some (size, out) \<and>
    out = ''ayzbyzyz'' \<and> unat size = 9"
proof -
  have p: "pieces ''X'' ''aXbXX'' = [''a'', ''b'', [], []]" by code_simp
  from substitute_fills_buffer [of "''X''" "''aXbXX''" "''yz''"] show ?thesis by (auto simp: p)
qed

subsection \<open>Searching backwards\<close>

lemma strstr_first: "strstr s sub = Some p \<Longrightarrow> s = a @ t \<Longrightarrow> prefix sub t \<Longrightarrow> suffix t p"
proof (induction s arbitrary: a)
  case (Cons c s)
  show ?case
  proof (cases "prefix sub (c # s)")
    case True
    with Cons.prems(1) have "p = c # s" by simp
    with Cons.prems(2) have "p = a @ t" by simp
    then show ?thesis by (auto simp: suffix_def)
  next
    case False
    with Cons.prems obtain a' where "a = c # a'" by (cases a) auto
    with Cons False show ?thesis by auto
  qed
qed (auto split: if_splits)

lemma strrstr_loop_None: "strrstr_loop None s sub = None \<Longrightarrow> sub \<noteq> [] \<Longrightarrow> strstr s sub = None"
proof -
  have keep: "strrstr_loop (Some r) s sub \<noteq> None" if "sub \<noteq> []" for r s
    using that
  proof (induction "length s" arbitrary: r s rule: less_induct)
    case less
    then show ?case
      by (subst strrstr_loop.simps) (auto simp: strstr_advance split: option.split)
  qed
  assume "strrstr_loop None s sub = None" "sub \<noteq> []"
  then show ?thesis by (subst (asm) strrstr_loop.simps) (auto simp: keep split: option.splits)
qed

lemma strrstr_loop_last:
  assumes "strrstr_loop r s sub = Some t" and "sub \<noteq> []"
  shows "r = Some t \<and> strstr s sub = None \<or>
    suffix t s \<and> prefix sub t \<and> (\<forall>u. suffix u s \<longrightarrow> prefix sub u \<longrightarrow> length t \<le> length u)"
  using assms
proof (induction "length s" arbitrary: r s rule: less_induct)
  case less
  show ?case
  proof (cases "strstr s sub")
    case None
    with less.prems show ?thesis by (subst (asm) strrstr_loop.simps) simp
  next
    case (Some p)
    with less.prems have rec: "strrstr_loop (Some p) (tl p) sub = Some t"
      by (subst (asm) strrstr_loop.simps) simp
    have p: "suffix p s" "prefix sub p" "p \<noteq> []"
      using strstr_Some [OF Some] less.prems(2) by (auto simp: suffix_def)
    have occ: "suffix u p" if "suffix u s" "prefix sub u" for u
      using that strstr_first [OF Some] by (auto simp: suffix_def [of u s])
    have "length (tl p) < length s" using strstr_advance(2) [OF Some less.prems(2)] by simp
    from less.hyps [OF this rec less.prems(2)] have "suffix t s \<and> prefix sub t \<and>
        (\<forall>u. suffix u s \<longrightarrow> prefix sub u \<longrightarrow> length t \<le> length u)"
    proof (elim disjE conjE)
      assume "Some p = Some t" and none: "strstr (tl p) sub = None"
      then have t: "t = p" by simp
      have "length p \<le> length u" if u: "suffix u s" "prefix sub u" for u
      proof (rule ccontr)
        assume "\<not> length p \<le> length u"
        then have "u \<noteq> p" by blast
        with occ [OF u] have "suffix u (tl p)" by (cases p) (auto simp: suffix_Cons)
        with u(2) have "sublist sub (tl p)"
          using sublist_order.order_trans [of sub u "tl p"] by blast
        with none show False by (simp add: strstr_None)
      qed
      with t p show ?thesis by simp
    next
      assume "suffix t (tl p)" "prefix sub t"
        and least: "\<forall>u. suffix u (tl p) \<longrightarrow> prefix sub u \<longrightarrow> length t \<le> length u"
      moreover from this p(3) have "suffix t p" "length t \<le> length p"
        by (auto intro: suffix_order.trans suffix_tl dest: suffix_length_le)
      moreover have "length t \<le> length u" if u: "suffix u s" "prefix sub u" for u
        using occ [OF u] least u(2) p(3) \<open>length t \<le> length p\<close> by (cases p) (auto simp: suffix_Cons)
      ultimately show ?thesis using p by (auto intro: suffix_order.trans)
    qed
    then show ?thesis ..
  qed
qed

text \<open>\<^verbatim>\<open>strrstr\<close> finds the last occurrence: it returns a suffix of the haystack that starts with the
  needle and no shorter suffix does, and returns NULL exactly when the needle does not occur.\<close>

theorem strrstr_last:
  "case strrstr haystack needle of
     None \<Rightarrow> \<not> sublist needle haystack
   | Some t \<Rightarrow> suffix t haystack \<and> prefix needle t \<and>
       (\<forall>u. suffix u haystack \<longrightarrow> prefix needle u \<longrightarrow> length t \<le> length u)"
  using strrstr_loop_last [of None haystack needle] strrstr_loop_None [of haystack needle]
  by (auto simp: strrstr_def strstr_None split: option.split)

theorem strrstr_last_witness:
  "strrstr ''abcab'' ''ab'' = Some ''ab'' \<and> suffix ''ab'' ''abcab'' \<and>
   length ''ab'' \<le> length ''abcab''"
proof -
  have "strrstr ''abcab'' ''ab'' = Some ''ab''" by code_simp
  moreover from strrstr_last [where haystack = "''abcab''" and needle = "''ab''"] this
  have "suffix ''ab'' ''abcab''" "\<forall>u. suffix u ''abcab'' \<longrightarrow> prefix ''ab'' u \<longrightarrow> length ''ab'' \<le> length u"
    by auto
  ultimately show ?thesis by simp
qed

subsection \<open>Trimming and copying\<close>

lemma trim_end_eq:
  "n \<le> length s \<Longrightarrow> take (trim_end s n) s = rev (dropWhile isspace (rev (take n s)))"
proof (induction n)
  case (Suc n)
  then show ?case
    by (subst trim_end.simps) (auto simp: take_Suc_conv_app_nth char_at_def)
qed (simp add: trim_end.simps)

lemma trim_end_le: "trim_end s n \<le> n"
  by (induction n) (auto simp: trim_end.simps)

lemma trim_eq: "trim s = dropWhile isspace (rev (dropWhile isspace (rev s)))"
proof -
  define r where "r = rev (dropWhile isspace (rev s))"
  define len where "len = trim_end s (length s)"
  define k where "k = length (takeWhile isspace s)"
  have r: "take len s = r" using trim_end_eq [of "length s" s] by (simp add: r_def len_def)
  have len: "len = length r" using r trim_end_le [of s "length s"] by (metis len_def length_take min.absorb2)
  have k: "length s - length (dropWhile isspace s) = k"
    by (metis add_diff_cancel_right' k_def length_append takeWhile_dropWhile_id)
  show ?thesis
  proof (cases "r = []")
    case True
    with r len show ?thesis by (simp add: trim_def len_def [symmetric] r_def [symmetric])
  next
    case False
    have last: "\<not> isspace (last r)" using False hd_dropWhile [of isspace "rev s"] by (simp add: r_def last_rev)
    have "takeWhile isspace s = takeWhile isspace r"
    proof -
      have "s = r @ drop len s" using r by (metis append_take_drop_id)
      then have "takeWhile isspace s = takeWhile isspace (r @ drop len s)" by simp
      also have "\<dots> = takeWhile isspace r"
        using False last by (intro takeWhile_append1 [of "last r"]) auto
      finally show ?thesis .
    qed
    then have "drop k r = dropWhile isspace r" by (simp add: k_def dropWhile_eq_drop)
    moreover have "trim s = take (len - k) (drop k s)"
      using False len k by (simp add: trim_def len_def [symmetric])
    ultimately show ?thesis using r by (simp add: drop_take [symmetric] r_def)
  qed
qed

text \<open>\<^verbatim>\<open>trim\<close> removes white space at both ends and nothing else.\<close>

theorem trim_strips_ends:
  "\<exists>a b. s = a @ trim s @ b \<and> list_all isspace a \<and> list_all isspace b \<and>
    \<not> isspace (deref (trim s)) \<and> \<not> isspace (deref (rev (trim s)))"
proof -
  define r where "r = rev (dropWhile isspace (rev s))"
  define b where "b = rev (takeWhile isspace (rev s))"
  define a where "a = takeWhile isspace r"
  have start: "\<not> isspace (deref (dropWhile isspace x))" for x by (induction x) auto
  have "s = r @ b"
    unfolding r_def b_def by (metis rev_append rev_rev_ident takeWhile_dropWhile_id)
  moreover have r: "r = a @ trim s" by (simp add: a_def trim_eq r_def [symmetric])
  moreover have "list_all isspace a" "list_all isspace b"
    by (auto simp: a_def b_def list_all_iff dest: set_takeWhileD)
  moreover have "\<not> isspace (deref (trim s))" unfolding trim_eq by (rule start)
  moreover have "\<not> isspace (deref (rev (trim s)))"
  proof (cases "trim s = []")
    case False
    with r have "deref (rev (trim s)) = deref (rev r)"
      by (cases "rev (trim s)") auto
    then show ?thesis by (simp add: r_def start)
  qed simp
  ultimately show ?thesis by (metis append.assoc)
qed

text \<open>The C string at the start of a buffer.\<close>

definition as_cstr :: "char list \<Rightarrow> cstr" where
  "as_cstr buf = takeWhile (\<lambda>c. c \<noteq> NUL) buf"

lemma as_cstr_append: "wf_cstr s \<Longrightarrow> as_cstr (s @ NUL # r) = s"
  by (auto simp: as_cstr_def wf_cstr_def takeWhile_append)

text \<open>\<^verbatim>\<open>safe_strncpy\<close> always terminates a non-empty buffer: the result is the longest prefix of the
  source that fits with its NUL, and no byte past \<^verbatim>\<open>sz\<close> changes.\<close>

theorem safe_strncpy_terminates:
  assumes "wf_cstr src" and "0 < sz" and "sz \<le> length dst"
  shows "as_cstr (safe_strncpy dst src sz) = take (sz - 1) src \<and>
    length (safe_strncpy dst src sz) = length dst \<and> drop sz (safe_strncpy dst src sz) = drop sz dst"
proof -
  obtain n where n: "sz = Suc n" using assms(2) by (cases sz) auto
  have tl: "drop n (dst[n := NUL]) = NUL # drop sz dst"
    using assms(3) n by (simp add: Cons_nth_drop_Suc [symmetric, of n "dst[n := NUL]"])
  have eq: "safe_strncpy dst src sz = take n (src @ replicate n NUL) @ NUL # drop sz dst"
    using n tl by (simp add: safe_strncpy_def strncpy_def)
  have "as_cstr (take n (src @ replicate n NUL) @ NUL # drop sz dst) = take n src"
  proof (cases "n \<le> length src")
    case True
    have "wf_cstr (take n src)" using assms(1) by (auto simp: wf_cstr_def dest: in_set_takeD)
    with True show ?thesis by (simp add: as_cstr_append)
  next
    case False
    then obtain m where "n - length src = Suc m" by (metis Suc_diff_Suc not_le)
    with False assms(1) show ?thesis by (simp add: as_cstr_append)
  qed
  moreover have "length (take n (src @ replicate n NUL)) = n" by simp
  ultimately show ?thesis unfolding eq using n assms(3)
    by (simp only: length_append drop_append) simp
qed

theorem safe_strncpy_terminates_witness:
  "as_cstr (safe_strncpy (replicate 4 (CHR ''x'')) ''hello'' 3) = ''he'' \<and>
   length (safe_strncpy (replicate 4 (CHR ''x'')) ''hello'' 3) = 4"
  using safe_strncpy_terminates [of "''hello''" 3 "replicate 4 (CHR ''x'')"] by simp

end
