(* ===== verification/Bc_Num.thy ===== *)
theory Bc_Num
  imports Bb_Prelude "HOL-Library.Word"
begin

text \<open>
  The numbers of bc and dc, \<^verbatim>\<open>miscutils/bc.c\<close>: decimal digits, least significant first, with a sign and a
  number of decimals.

  \<^item> A digit (\<^verbatim>\<open>BcDig\<close>, a signed char) is an integer: it stays between -10 and 99 in every intermediate
    result.  \<open>num\<close> holds the \<^verbatim>\<open>len\<close> digits of the number; \<open>cap\<close> is the size of the memory behind them.
  \<^item> Sizes are natural numbers.  \<^verbatim>\<open>BC_NUM_INT\<close> and the sizes computed from it wrap at 2^64, since the code
    subtracts the decimals of a zero from its length.
  \<^item> An error message (\<^verbatim>\<open>BC_STATUS_FAILURE\<close>) is a left summand.  \<open>BcOverrun\<close> is an access outside
    the memory of a number, \<open>BcFuel\<close> a loop that went on too long; both are shown not to happen.
    \<open>BcStale\<close> is a read of a digit beyond the length, whose content is left over or was never set.
  \<^item> \<^verbatim>\<open>G_interrupt\<close>, set by a signal, is false.  Where a result may be the same object as an
    operand (\<^verbatim>\<open>c == a\<close>), \<open>alias\<close> tells so; the operands are values.
\<close>

subsection \<open>Numbers\<close>

definition BC_NUM_DEF_SIZE :: nat where "BC_NUM_DEF_SIZE = 16"
definition BC_NUM_KARATSUBA_LEN :: nat where "BC_NUM_KARATSUBA_LEN = 32"
definition BC_MAX_NUM :: int where "BC_MAX_NUM = 4294967294"
definition ULONG_NUM_BUFSIZE :: nat where "ULONG_NUM_BUFSIZE = 20"

record BcNum =
  num :: "int list"
  neg :: bool
  rdx :: nat
  cap :: nat

abbreviation len :: "BcNum \<Rightarrow> nat" where "len n \<equiv> length (num n)"

datatype bc_error =
    BcOverflow | BcNegative | BcTooLong | BcDivideByZero | BcNotInteger | BcBadNumber | BcOverrun | BcStale | BcFuel

type_synonym 'a bc_status = "bc_error + 'a"

text \<open>\<^verbatim>\<open>s = f(...); if (s) goto err;\<close>\<close>

definition on_success :: "'a bc_status \<Rightarrow> ('a \<Rightarrow> 'b bc_status) \<Rightarrow> 'b bc_status" where
  "on_success s f = (case s of Inl e \<Rightarrow> Inl e | Inr x \<Rightarrow> f x)"

definition bc_num_setToZero :: "BcNum \<Rightarrow> nat \<Rightarrow> BcNum" where
  "bc_num_setToZero n scale = n\<lparr>num := [], neg := False, rdx := scale\<rparr>"

definition bc_num_zero :: "BcNum \<Rightarrow> BcNum" where
  "bc_num_zero n = bc_num_setToZero n 0"

definition bc_num_one :: "BcNum \<Rightarrow> BcNum" where
  "bc_num_one n = (bc_num_setToZero n 0)\<lparr>num := [1]\<rparr>"

definition bc_num_init :: "nat \<Rightarrow> BcNum" where
  "bc_num_init req =
    (let req = (if BC_NUM_DEF_SIZE \<le> req then req else BC_NUM_DEF_SIZE)
     in \<lparr>num = [], neg = False, rdx = 0, cap = req\<rparr>)"

definition bc_num_expand :: "BcNum \<Rightarrow> nat \<Rightarrow> BcNum" where
  "bc_num_expand n req =
    (let req = (if BC_NUM_DEF_SIZE \<le> req then req else BC_NUM_DEF_SIZE)
     in if cap n < req then n\<lparr>cap := req\<rparr> else n)"

definition bc_num_copy :: "BcNum \<Rightarrow> BcNum \<Rightarrow> BcNum" where
  "bc_num_copy d s = (bc_num_expand d (cap s))\<lparr>num := num s, neg := neg s, rdx := rdx s\<rparr>"

definition bc_num_init_and_copy :: "BcNum \<Rightarrow> BcNum" where
  "bc_num_init_and_copy s = bc_num_copy (bc_num_init (len s)) s"

subsection \<open>Machine integers\<close>

text \<open>The digits before the point, most significant first.\<close>

fun ulong_loop :: "int list \<Rightarrow> u64 \<Rightarrow> u64 bc_status" where
  "ulong_loop [] result = Inr result"
| "ulong_loop (d # ds) result =
    (let prev = result; result = result * 10 + of_int d
     in if result div 8 < prev then Inl BcOverflow else ulong_loop ds result)"

definition zbc_num_ulong_abs :: "BcNum \<Rightarrow> u64 bc_status" where
  "zbc_num_ulong_abs n = ulong_loop (rev (drop (rdx n) (num n))) 0"

definition zbc_num_ulong :: "BcNum \<Rightarrow> u64 bc_status" where
  "zbc_num_ulong n = (if neg n then Inl BcNegative else zbc_num_ulong_abs n)"

function ulong_digits :: "u64 \<Rightarrow> int list" where
  "ulong_digits val = uint (val mod 10) # (if val div 10 = 0 then [] else ulong_digits (val div 10))"
  by pat_completeness auto
termination
proof (relation "measure unat")
  fix val :: u64
  assume "val div 10 \<noteq> 0"
  then have "val \<noteq> 0" by auto
  then have "unat val \<noteq> 0" by (simp add: unat_eq_0)
  then show "(val div 10, val) \<in> measure unat" by (simp add: unat_div del: unsigned_0)
qed simp

declare ulong_digits.simps [simp del]

definition bc_num_ulong2num :: "BcNum \<Rightarrow> u64 \<Rightarrow> BcNum" where
  "bc_num_ulong2num n val =
    (if val = 0 then bc_num_zero n
     else (bc_num_expand (bc_num_zero n) ULONG_NUM_BUFSIZE)\<lparr>num := ulong_digits val\<rparr>)"

subsection \<open>Arrays of digits\<close>

text \<open>\<^verbatim>\<open>for (j = i; a[j] < 0;) { a[j++] += 10; a[j] -= 1; }\<close> on the digits from \<open>i\<close> on.\<close>

fun borrow :: "int list \<Rightarrow> int list option" where
  "borrow [] = None"
| "borrow [x] = (if x < 0 then None else Some [x])"
| "borrow (x # y # ys) = (if x < 0 then map_option (Cons (x + 10)) (borrow ((y - 1) # ys)) else Some (x # y # ys))"

fun bc_num_subArrays :: "int list \<Rightarrow> int list \<Rightarrow> int list option" where
  "bc_num_subArrays a [] = Some a"
| "bc_num_subArrays [] (y # ys) = None"
| "bc_num_subArrays (x # xs) (y # ys) =
    (case borrow ((x - y) # xs) of
       None \<Rightarrow> None
     | Some a \<Rightarrow> map_option (Cons (hd a)) (bc_num_subArrays (tl a) ys))"

fun bc_num_compare :: "int list \<Rightarrow> int list \<Rightarrow> nat \<Rightarrow> int" where
  "bc_num_compare a b 0 = 0"
| "bc_num_compare a b (Suc i) =
    (let c = a ! i - b ! i
     in if c \<noteq> 0 then (if c < 0 then - int (Suc i) else int (Suc i)) else bc_num_compare a b i)"

definition BC_NUM_NEG :: "int \<Rightarrow> bool \<Rightarrow> int" where
  "BC_NUM_NEG n ng = (if ng then - n else n)"

definition BC_NUM_ONE :: "BcNum \<Rightarrow> bool" where
  "BC_NUM_ONE n \<longleftrightarrow> len n = 1 \<and> rdx n = 0 \<and> num n ! 0 = 1"

definition size_t :: "int \<Rightarrow> nat" where
  "size_t n = nat (n mod 2 ^ 64)"

definition BC_NUM_INT :: "BcNum \<Rightarrow> nat" where
  "BC_NUM_INT n = size_t (int (len n) - int (rdx n))"

definition BC_NUM_AREQ :: "BcNum \<Rightarrow> BcNum \<Rightarrow> nat" where
  "BC_NUM_AREQ a b = size_t (int (max (rdx a) (rdx b) + max (BC_NUM_INT a) (BC_NUM_INT b) + 1))"

definition BC_NUM_MREQ :: "BcNum \<Rightarrow> BcNum \<Rightarrow> nat \<Rightarrow> nat" where
  "BC_NUM_MREQ a b scale = size_t (int (BC_NUM_INT a + BC_NUM_INT b + max scale (rdx a + rdx b) + 1))"

definition bc_num_cmp :: "BcNum \<Rightarrow> BcNum \<Rightarrow> int" where
  "bc_num_cmp a b =
    (if len a = 0 then BC_NUM_NEG (of_bool (len b \<noteq> 0)) (\<not> neg b)
     else if len b = 0 then BC_NUM_NEG 1 (neg a)
     else if neg a \<noteq> neg b then of_bool (neg b) - of_bool (neg a)
     else
       let ng = neg a; b_int = BC_NUM_INT b; a_int = int (BC_NUM_INT a) - int b_int
       in if a_int \<noteq> 0 then (if ng then - a_int else a_int)
       else
         let (minr, diff, max_num, min_num, ng) =
           (if rdx b < rdx a then (rdx b, rdx a - rdx b, num a, num b, ng)
            else (rdx a, rdx b - rdx a, num b, num a, \<not> ng));
           cmp = bc_num_compare (drop diff max_num) min_num (b_int + minr)
         in if cmp \<noteq> 0 then BC_NUM_NEG cmp ng
            else if list_ex (\<lambda>d. d \<noteq> 0) (take diff max_num) then BC_NUM_NEG 1 ng
            else 0)"

definition bc_num_truncate :: "BcNum \<Rightarrow> nat \<Rightarrow> BcNum" where
  "bc_num_truncate n places =
    (if places = 0 then n else n\<lparr>rdx := rdx n - places, num := drop places (num n)\<rparr>)"

definition bc_num_extend :: "BcNum \<Rightarrow> nat \<Rightarrow> BcNum" where
  "bc_num_extend n places =
    (if places = 0 then n
     else let n = (if cap n < len n + places then bc_num_expand n (len n + places) else n)
       in n\<lparr>num := replicate places 0 @ num n, rdx := rdx n + places\<rparr>)"

text \<open>The digits given back when the number is shorter than its decimals are the zeros just cut off.\<close>

definition bc_num_clean :: "BcNum \<Rightarrow> BcNum" where
  "bc_num_clean n =
    (let k = length (dropWhile (\<lambda>d. d = 0) (rev (num n)))
     in if k = 0 then n\<lparr>num := [], neg := False\<rparr>
        else if k < rdx n then n\<lparr>num := take (rdx n) (num n)\<rparr>
        else n\<lparr>num := take k (num n)\<rparr>)"

definition bc_num_retireMul :: "BcNum \<Rightarrow> nat \<Rightarrow> bool \<Rightarrow> bool \<Rightarrow> BcNum" where
  "bc_num_retireMul n scale neg1 neg2 =
    (let n = bc_num_clean (if rdx n < scale then bc_num_extend n (scale - rdx n)
                           else bc_num_truncate n (rdx n - scale))
     in if len n \<noteq> 0 then n\<lparr>neg := (neg1 \<noteq> neg2)\<rparr> else n)"

definition bc_num_split :: "BcNum \<Rightarrow> nat \<Rightarrow> BcNum \<Rightarrow> BcNum \<Rightarrow> (BcNum \<times> BcNum) bc_status" where
  "bc_num_split n idx a b =
    (if idx < len n then
       if cap b < len n - idx \<or> cap a < idx then Inl BcOverrun
       else Inr (bc_num_clean (a\<lparr>num := take idx (num n), rdx := 0\<rparr>),
                 bc_num_clean (b\<lparr>num := drop idx (num n), rdx := 0\<rparr>))
     else Inr (bc_num_clean (bc_num_copy a n), bc_num_clean (bc_num_zero b)))"

definition zbc_num_shift :: "BcNum \<Rightarrow> nat \<Rightarrow> BcNum bc_status" where
  "zbc_num_shift n places =
    (if places = 0 \<or> len n = 0 then Inr n
     else if BC_MAX_NUM < int (places + len n) then Inl BcTooLong
     else Inr (bc_num_clean
       (if places \<le> rdx n then n\<lparr>rdx := rdx n - places\<rparr>
        else (bc_num_extend n (places - rdx n))\<lparr>rdx := 0\<rparr>)))"


subsection \<open>Addition and subtraction\<close>

type_synonym BcNumBinaryOp = "BcNum \<Rightarrow> BcNum \<Rightarrow> BcNum \<Rightarrow> nat \<Rightarrow> BcNum bc_status"

text \<open>With \<open>alias\<close>, the operand that is the result keeps its memory and the result gets a new one.\<close>

definition zbc_num_binary :: "bool \<Rightarrow> BcNum \<Rightarrow> BcNum \<Rightarrow> BcNum \<Rightarrow> nat \<Rightarrow> BcNumBinaryOp \<Rightarrow> nat \<Rightarrow> BcNum bc_status" where
  "zbc_num_binary alias a b c scale op req =
    op a b (if alias then bc_num_init req else bc_num_expand c req) scale"

text \<open>The loop over the digits both operands have, and the loop over the rest of the longer one.\<close>

fun add_both :: "(int \<times> int) list \<Rightarrow> int \<Rightarrow> int list \<times> int" where
  "add_both [] carry = ([], carry)"
| "add_both ((x, y) # xys) carry =
    (let v = x + y + carry; (ds, carry) = add_both xys (v div 10) in (v mod 10 # ds, carry))"

fun add_rest :: "int list \<Rightarrow> int \<Rightarrow> int list \<times> int" where
  "add_rest [] carry = ([], carry)"
| "add_rest (x # xs) carry =
    (let v = x + carry; (ds, carry) = add_rest xs (v div 10) in (v mod 10 # ds, carry))"

definition add_digits :: "int list \<Rightarrow> int list \<Rightarrow> int list \<Rightarrow> nat \<Rightarrow> nat \<Rightarrow> int list" where
  "add_digits ptr_a ptr_b ptr k m =
    (let (both, carry) = add_both (zip (take k ptr_a) (take k ptr_b)) 0;
       (rest, carry) = add_rest (take (m - k) (drop k ptr)) carry
     in both @ rest @ (if carry \<noteq> 0 then [carry] else []))"

definition zbc_num_a :: BcNumBinaryOp where
  "zbc_num_a a b c sub =
    (if len a = 0 then
       let c = bc_num_copy c b
       in Inr (if sub \<noteq> 0 \<and> len c \<noteq> 0 then c\<lparr>neg := \<not> neg c\<rparr> else c)
     else if len b = 0 then Inr (bc_num_copy c a)
     else
       let min_rdx = min (rdx a) (rdx b);
         (diff, ptr, ptr_a, ptr_b) =
           (if rdx b < rdx a then (rdx a - rdx b, num a, drop (rdx a - rdx b) (num a), num b)
            else (rdx b - rdx a, num b, num a, drop (rdx b - rdx a) (num b)));
         low = take diff ptr;
         a_int = BC_NUM_INT a; b_int = BC_NUM_INT b;
         (min_int, mx, ptr) = (if b_int < a_int then (b_int, a_int, ptr_a) else (a_int, b_int, ptr_b));
         ds = low @ add_digits ptr_a ptr_b ptr (min_rdx + min_int) (mx + min_rdx)
       in if cap c < length ds then Inl BcOverrun
          else Inr (c\<lparr>num := ds, neg := neg a, rdx := max (rdx a) (rdx b)\<rparr>))"

definition num_s_arrays :: "BcNum \<Rightarrow> BcNum \<Rightarrow> bool \<Rightarrow> BcNum \<Rightarrow> BcNum bc_status" where
  "num_s_arrays minuend subtrahend ng c =
    (let c = (bc_num_copy c minuend)\<lparr>neg := ng\<rparr>;
       (c, start) = (if rdx c < rdx subtrahend then (bc_num_extend c (rdx subtrahend - rdx c), 0)
                     else (c, rdx c - rdx subtrahend))
     in case bc_num_subArrays (drop start (num c)) (num subtrahend) of
          None \<Rightarrow> Inl BcOverrun
        | Some ds \<Rightarrow> Inr (bc_num_clean (c\<lparr>num := take start (num c) @ ds\<rparr>)))"

definition zbc_num_s :: BcNumBinaryOp where
  "zbc_num_s a b c sub =
    (if len a = 0 then
       let c = bc_num_copy c b
       in Inr (if sub \<noteq> 0 \<and> len c \<noteq> 0 then c\<lparr>neg := \<not> neg c\<rparr> else c)
     else if len b = 0 then Inr (bc_num_copy c a)
     else
       let cmp = bc_num_cmp (a\<lparr>neg := False\<rparr>) (b\<lparr>neg := False\<rparr>)
       in if cmp = 0 then Inr (bc_num_setToZero c (max (rdx a) (rdx b)))
       else
         let (ng, minuend, subtrahend) =
             (if 0 < cmp then (neg a, a, b) else (if sub \<noteq> 0 then \<not> neg b else neg b, b, a))
         in num_s_arrays minuend subtrahend ng c)"

definition zbc_num_add :: "bool \<Rightarrow> BcNumBinaryOp" where
  "zbc_num_add alias a b c scale =
    zbc_num_binary alias a b c 0 (if neg a = neg b then zbc_num_a else zbc_num_s) (BC_NUM_AREQ a b)"

definition zbc_num_sub :: "bool \<Rightarrow> BcNumBinaryOp" where
  "zbc_num_sub alias a b c scale =
    zbc_num_binary alias a b c 1 (if neg a = neg b then zbc_num_s else zbc_num_a) (BC_NUM_AREQ a b)"

subsection \<open>Multiplication\<close>

text \<open>The inner loop, on the digits of \<open>c\<close> from \<open>i\<close> on; the last digit takes the carry, which is also returned.\<close>

fun mul_row :: "int list \<Rightarrow> int list \<Rightarrow> int \<Rightarrow> int \<Rightarrow> int list \<times> int" where
  "mul_row (x # xs) (a # as) bi carry =
    (let v = x + (a * bi + carry); (ds, carry) = mul_row xs as bi (v div 10) in (v mod 10 # ds, carry))"
| "mul_row (x # xs) [] bi carry = ((x + carry) # xs, carry)"
| "mul_row [] as bi carry = ([], carry)"

fun mul_rows :: "int list \<Rightarrow> int list \<Rightarrow> int list \<Rightarrow> nat \<Rightarrow> nat \<Rightarrow> int list \<times> nat" where
  "mul_rows c a [] i l = (c, l)"
| "mul_rows c a (bi # bs) i l =
    (let (ds, carry) = mul_row (drop i c) a bi 0
     in mul_rows (take i c @ ds) a bs (Suc i) (max l (i + length a + of_bool (carry \<noteq> 0))))"

text \<open>Karatsuba's method; the first argument bounds the depth of the recursion.\<close>

fun num_k :: "nat \<Rightarrow> BcNum \<Rightarrow> BcNum \<Rightarrow> BcNum \<Rightarrow> BcNum bc_status" where
  "num_k 0 a b c = Inl BcFuel"
| "num_k (Suc depth) a b c =
    (if len a = 0 \<or> len b = 0 then Inr (bc_num_zero c)
     else if BC_NUM_ONE a \<or> BC_NUM_ONE b then Inr (bc_num_copy c (if BC_NUM_ONE a then b else a))
     else if len a < BC_NUM_KARATSUBA_LEN \<or> len b < BC_NUM_KARATSUBA_LEN then
       let c = bc_num_expand c (len a + len b + 1);
         (ds, l) = mul_rows (replicate (cap c) 0) (num a) (num b) 0 0
       in Inr (c\<lparr>num := take l ds\<rparr>)
     else
       let mx = max (len a) (len b); new = bc_num_init mx; max2 = (mx + 1) div 2
       in on_success (bc_num_split a max2 new new) (\<lambda>(l1, h1).
          on_success (bc_num_split b max2 new new) (\<lambda>(l2, h2).
          on_success (zbc_num_add False h1 l1 new 0) (\<lambda>m1.
          on_success (zbc_num_add False h2 l2 new 0) (\<lambda>m2.
          on_success (num_k depth h1 h2 new) (\<lambda>z0.
          on_success (num_k depth m1 m2 new) (\<lambda>z1.
          on_success (num_k depth l1 l2 new) (\<lambda>z2.
          on_success (zbc_num_sub False z1 z0 (bc_num_init (mx + mx)) 0) (\<lambda>temp.
          on_success (zbc_num_sub False temp z2 z1 0) (\<lambda>z1.
          on_success (zbc_num_shift z0 (max2 * 2)) (\<lambda>z0.
          on_success (zbc_num_shift z1 max2) (\<lambda>z1.
          on_success (zbc_num_add False z0 z1 temp 0) (\<lambda>temp.
          zbc_num_add False temp z2 c 0)))))))))))))"

definition zbc_num_k :: "BcNum \<Rightarrow> BcNum \<Rightarrow> BcNum \<Rightarrow> BcNum bc_status" where
  "zbc_num_k a b c = num_k (len a + len b + 1) a b c"

definition zbc_num_m :: BcNumBinaryOp where
  "zbc_num_m a b c scale =
    (let maxrdx = max (rdx a) (rdx b);
       scale = max scale (rdx a); scale = max scale (rdx b); scale = min (rdx a + rdx b) scale;
       maxrdx = max maxrdx scale;
       cpa = (bc_num_init_and_copy a)\<lparr>neg := False\<rparr>;
       cpb = (bc_num_init_and_copy b)\<lparr>neg := False\<rparr>
     in on_success (zbc_num_shift cpa maxrdx) (\<lambda>cpa.
        on_success (zbc_num_shift cpb maxrdx) (\<lambda>cpb.
        on_success (zbc_num_k cpa cpb c) (\<lambda>c.
          let maxrdx = maxrdx + scale;
            c = bc_num_expand c (len c + maxrdx);
            c = (if len c < maxrdx then c\<lparr>num := num c @ replicate maxrdx 0\<rparr> else c)
          in Inr (bc_num_retireMul (c\<lparr>rdx := maxrdx\<rparr>) scale (neg a) (neg b))))))"

definition zbc_num_mul :: "bool \<Rightarrow> BcNumBinaryOp" where
  "zbc_num_mul alias a b c scale = zbc_num_binary alias a b c scale zbc_num_m (BC_NUM_MREQ a b scale)"


subsection \<open>Division\<close>

text \<open>The next digit of the quotient: the number of times \<open>b\<close> can be taken from the window \<open>n\<close>.  The counter
  \<open>q\<close> is a signed char.\<close>

fun div_digit :: "nat \<Rightarrow> int list \<Rightarrow> int list \<Rightarrow> nat \<Rightarrow> int \<Rightarrow> (int list \<times> int) bc_status" where
  "div_digit 0 n b l q = Inl BcFuel"
| "div_digit (Suc fuel) n b l q =
    (if n ! l \<noteq> 0 \<or> 0 \<le> bc_num_compare n b l then
       case bc_num_subArrays n (take l b) of
         None \<Rightarrow> Inl BcOverrun
       | Some n \<Rightarrow> div_digit fuel n b l (q + 1)
     else Inr (n, q))"

text \<open>The digits from \<open>i - 1\<close> down to 0; \<open>cp\<close> is the array of the dividend.\<close>

fun div_loop :: "nat \<Rightarrow> int list \<Rightarrow> int list \<Rightarrow> nat \<Rightarrow> int list \<Rightarrow> int list bc_status" where
  "div_loop 0 cp b l c = Inr c"
| "div_loop (Suc i) cp b l c =
    on_success (div_digit 128 (drop i cp) b l 0) (\<lambda>(n, q). div_loop i (take i cp @ n) b l (c[i := q]))"

text \<open>The dividend with enough decimals, and the length of the divisor without leading zeros.\<close>

definition num_d_align :: "BcNum \<Rightarrow> BcNum \<Rightarrow> nat \<Rightarrow> BcNum" where
  "num_d_align a b scale =
    (let cp = bc_num_copy (bc_num_init (BC_NUM_MREQ a b scale)) a;
       l = len b;
       cp = (if len cp < l then bc_num_extend (bc_num_expand cp (l + 2)) (l - len cp) else cp);
       cp = (if rdx cp < rdx b then bc_num_extend cp (rdx b - rdx cp) else cp);
       cp = cp\<lparr>rdx := rdx cp - rdx b\<rparr>
     in if rdx cp < scale then bc_num_extend cp (scale - rdx cp) else cp)"

definition num_d_len :: "BcNum \<Rightarrow> nat" where
  "num_d_len b =
    (if rdx b = len b
     then (case length (dropWhile (\<lambda>d. d = 0) (rev (num b))) of 0 \<Rightarrow> 1 | Suc k \<Rightarrow> Suc k)
     else len b)"

definition zbc_num_d :: BcNumBinaryOp where
  "zbc_num_d a b c scale =
    (if len b = 0 then Inl BcDivideByZero
     else if len a = 0 then Inr (bc_num_setToZero c scale)
     else if BC_NUM_ONE b then Inr (bc_num_retireMul (bc_num_copy c a) scale (neg a) (neg b))
     else
       let cp = num_d_align a b scale;
         l = num_d_len b;
         cp = (if cap cp = len cp then bc_num_expand cp (len cp + 1) else cp);
         cp = cp\<lparr>num := num cp @ [0]\<rparr>;
         end' = len cp - l;
         c = bc_num_zero (bc_num_expand c (len cp))
       in on_success (div_loop end' (num cp) (num b) l (replicate (len cp) 0)) (\<lambda>ds.
            Inr (bc_num_retireMul (c\<lparr>num := ds, rdx := rdx cp\<rparr>) scale (neg a) (neg b))))"

definition zbc_num_div :: "bool \<Rightarrow> BcNumBinaryOp" where
  "zbc_num_div alias a b c scale = zbc_num_binary alias a b c scale zbc_num_d (BC_NUM_MREQ a b scale)"

definition zbc_num_r :: "BcNum \<Rightarrow> BcNum \<Rightarrow> BcNum \<Rightarrow> BcNum \<Rightarrow> nat \<Rightarrow> nat \<Rightarrow> (BcNum \<times> BcNum) bc_status" where
  "zbc_num_r a b c d scale ts =
    (if len b = 0 then Inl BcDivideByZero
     else if len a = 0 then Inr (c, bc_num_setToZero d ts)
     else
       on_success (zbc_num_d a b c scale) (\<lambda>c.
         let scale = (if scale \<noteq> 0 then ts else scale)
         in on_success (zbc_num_m c b (bc_num_init (cap d)) scale) (\<lambda>temp.
            on_success (zbc_num_sub False a temp d scale) (\<lambda>d.
              let d = (if rdx d < ts \<and> len d \<noteq> 0 then bc_num_extend d (ts - rdx d) else d);
                ng = neg d
              in Inr (c, (bc_num_retireMul d ts (neg a) (neg b))\<lparr>neg := ng\<rparr>)))))"

definition zbc_num_rem :: BcNumBinaryOp where
  "zbc_num_rem a b c scale =
    (let ts = max (scale + rdx b) (rdx a); l = BC_NUM_MREQ a b ts
     in on_success (zbc_num_r a b (bc_num_init l) c scale ts) (\<lambda>(c1, c). Inr c))"

definition zbc_num_mod :: "bool \<Rightarrow> BcNumBinaryOp" where
  "zbc_num_mod alias a b c scale = zbc_num_binary alias a b c scale zbc_num_rem (BC_NUM_MREQ a b scale)"

definition zbc_num_divmod :: "bool \<Rightarrow> BcNum \<Rightarrow> BcNum \<Rightarrow> BcNum \<Rightarrow> BcNum \<Rightarrow> nat \<Rightarrow> (BcNum \<times> BcNum) bc_status" where
  "zbc_num_divmod alias a b c d scale =
    (let ts = max (scale + rdx b) (rdx a); l = BC_NUM_MREQ a b ts
     in zbc_num_r a b (if alias then bc_num_init l else bc_num_expand c l) d scale ts)"

subsection \<open>Powers\<close>

definition zbc_num_inv :: "bool \<Rightarrow> BcNum \<Rightarrow> BcNum \<Rightarrow> nat \<Rightarrow> BcNum bc_status" where
  "zbc_num_inv alias a b scale = zbc_num_div alias \<lparr>num = [1], neg = False, rdx = 0, cap = 2\<rparr> a b scale"

text \<open>The two loops over the bits of the exponent: squaring while it is even, then square and multiply.  The
  first argument of each bounds the number of turns; an exponent has 64 bits.\<close>

fun pow_even :: "nat \<Rightarrow> BcNum \<Rightarrow> nat \<Rightarrow> u64 \<Rightarrow> (BcNum \<times> nat \<times> u64) bc_status" where
  "pow_even 0 copy powrdx pow = Inl BcFuel"
| "pow_even (Suc fuel) copy powrdx pow =
    (if pow AND 1 = 0 then
       on_success (zbc_num_mul True copy copy copy (powrdx * 2)) (\<lambda>copy.
         pow_even fuel copy (powrdx * 2) (drop_bit 1 pow))
     else Inr (copy, powrdx, pow))"

fun pow_loop :: "nat \<Rightarrow> BcNum \<Rightarrow> BcNum \<Rightarrow> nat \<Rightarrow> nat \<Rightarrow> u64 \<Rightarrow> BcNum bc_status" where
  "pow_loop 0 c copy powrdx resrdx pow = Inl BcFuel"
| "pow_loop (Suc fuel) c copy powrdx resrdx pow =
    (if pow = 0 then Inr c
     else
       on_success (zbc_num_mul True copy copy copy (powrdx * 2)) (\<lambda>copy.
         if pow AND 1 \<noteq> 0 then
           on_success (zbc_num_mul True c copy c (resrdx + powrdx * 2)) (\<lambda>c.
             pow_loop fuel c copy (powrdx * 2) (resrdx + powrdx * 2) (drop_bit 1 pow))
         else pow_loop fuel c copy (powrdx * 2) resrdx (drop_bit 1 pow)))"

definition zbc_num_p :: BcNumBinaryOp where
  "zbc_num_p a b c scale =
    (if list_ex (\<lambda>d. d \<noteq> 0) (take (rdx b) (num b)) then Inl BcNotInteger
     else if len b < rdx b then Inl BcStale
     else if len b = 0 then Inr (bc_num_one c)
     else if len a = 0 then Inr (bc_num_setToZero c scale)
     else if BC_NUM_ONE b then
       (if \<not> neg b then Inr (bc_num_copy c a) else zbc_num_inv False a c scale)
     else
       on_success (zbc_num_ulong_abs b) (\<lambda>pow.
         let copy = bc_num_init_and_copy a;
           a_rdx = rdx a;
           scale =
             (if \<not> neg b then
                let scale = (if scale < a_rdx then a_rdx else scale);
                  new_scale = size_t (int (a_rdx * unat pow))
                in if (a_rdx = 0 \<or> unat pow \<le> new_scale) \<and> new_scale < scale then new_scale else scale
              else scale)
         in on_success (pow_even 65 copy a_rdx pow) (\<lambda>(copy, powrdx, pow).
            on_success (pow_loop 65 (bc_num_copy c copy) copy powrdx powrdx (drop_bit 1 pow)) (\<lambda>c.
            on_success (if neg b then zbc_num_inv True c c scale else Inr c) (\<lambda>c.
              let c = (if scale < rdx c then bc_num_truncate c (rdx c - scale) else c)
              in Inr (if list_ex (\<lambda>d. d \<noteq> 0) (num c) then c else bc_num_setToZero c scale))))))"

definition zbc_num_pow :: "bool \<Rightarrow> BcNumBinaryOp" where
  "zbc_num_pow alias a b c scale = zbc_num_binary alias a b c scale zbc_num_p (size_t (int (len a * len b + 1)))"


subsection \<open>Modular powers of dc\<close>

text \<open>One turn of the loop of \<^verbatim>\<open>zdc_num_modexp\<close> on \<^verbatim>\<open>exp\<close>, \<^verbatim>\<open>base\<close>, \<^verbatim>\<open>temp\<close> and \<^verbatim>\<open>d\<close>; \<open>c\<close> is the modulus.\<close>

definition bc_num_two :: BcNum where
  "bc_num_two = \<lparr>num = [2], neg = False, rdx = 0, cap = 1\<rparr>"

definition modexp_turn :: "BcNum \<Rightarrow> BcNum \<times> BcNum \<times> BcNum \<times> BcNum \<Rightarrow> (BcNum \<times> BcNum \<times> BcNum \<times> BcNum) bc_status" where
  "modexp_turn c = (\<lambda>(exp, base, temp, d).
    on_success (zbc_num_divmod True exp bc_num_two exp temp 0) (\<lambda>(exp, temp).
    on_success
      (if BC_NUM_ONE temp then
         on_success (zbc_num_mul False d base temp 0) (\<lambda>temp.
         on_success (zbc_num_rem temp c d 0) (\<lambda>d. Inr (temp, d)))
       else Inr (temp, d)) (\<lambda>(temp, d).
    on_success (zbc_num_mul False base base temp 0) (\<lambda>temp.
    on_success (zbc_num_rem temp c base 0) (\<lambda>base. Inr (exp, base, temp, d))))))"

fun modexp_loop :: "nat \<Rightarrow> BcNum \<Rightarrow> BcNum \<times> BcNum \<times> BcNum \<times> BcNum \<Rightarrow> BcNum bc_status" where
  "modexp_loop 0 c (exp, base, temp, d) = Inl BcFuel"
| "modexp_loop (Suc fuel) c (exp, base, temp, d) =
    (if len exp = 0 then Inr d
     else on_success (modexp_turn c (exp, base, temp, d)) (modexp_loop fuel c))"

text \<open>An exponent of \<open>k\<close> digits has less than \<open>4 k\<close> bits.\<close>

definition zdc_num_modexp :: "BcNum \<Rightarrow> BcNum \<Rightarrow> BcNum \<Rightarrow> BcNum \<Rightarrow> BcNum bc_status" where
  "zdc_num_modexp a b c d =
    (if len c = 0 then Inl BcDivideByZero
     else if rdx a \<noteq> 0 \<or> rdx b \<noteq> 0 \<or> rdx c \<noteq> 0 then Inl BcNotInteger
     else if neg b then Inl BcNegative
     else
       let d = bc_num_one (bc_num_expand d (len c)) in
       on_success (zbc_num_rem a c (bc_num_init (len c)) 0) (\<lambda>base.
         modexp_loop (4 * len b + 1) c (bc_num_copy (bc_num_init (len b)) b, base, bc_num_init (len b), d)))"

end
