(* ===== verification/Bc_Value.thy ===== *)
theory Bc_Value
  imports Bc_Num Complex_Main
begin

text \<open>
  What a \<^verbatim>\<open>BcNum\<close> stands for: the rational number \<open>bc_value\<close>; and the invariant \<open>wf_num\<close> every operation of
  \<^verbatim>\<open>miscutils/bc.c\<close> keeps.  Digit arrays are related to integers by \<open>dval\<close>.  Then comparison,
  addition and subtraction.
\<close>

subsection \<open>Digit arrays\<close>

fun dval :: "int list \<Rightarrow> int" where
  "dval [] = 0"
| "dval (d # ds) = d + 10 * dval ds"

definition digits :: "int list \<Rightarrow> bool" where
  "digits ds \<longleftrightarrow> (\<forall>d \<in> set ds. 0 \<le> d \<and> d \<le> 9)"

lemma digits_simps [simp]:
  "digits []" "digits (d # ds) \<longleftrightarrow> 0 \<le> d \<and> d \<le> 9 \<and> digits ds" "digits (xs @ ys) \<longleftrightarrow> digits xs \<and> digits ys"
  "digits (replicate n 0)"
  by (auto simp: digits_def)

lemma digits_parts [intro, simp]: "digits ds \<Longrightarrow> digits (take k ds)" "digits ds \<Longrightarrow> digits (drop k ds)"
  by (auto simp: digits_def dest: in_set_takeD in_set_dropD)

lemma digits_nth: "digits ds \<Longrightarrow> i < length ds \<Longrightarrow> 0 \<le> ds ! i \<and> ds ! i \<le> 9"
  by (simp add: digits_def)

lemma dval_append [simp]: "dval (xs @ ys) = dval xs + 10 ^ length xs * dval ys"
  by (induction xs) (auto simp: algebra_simps)

lemma dval_zeros [simp]: "dval (replicate n 0) = 0"
  by (induction n) auto

lemma dval_nonneg [simp]: "digits ds \<Longrightarrow> 0 \<le> dval ds"
  by (induction ds) auto

lemma dval_less: "digits ds \<Longrightarrow> dval ds < 10 ^ length ds"
  by (induction ds) auto

lemma dval_split: "dval ds = dval (take k ds) + 10 ^ min (length ds) k * dval (drop k ds)"
  using dval_append [of "take k ds" "drop k ds"] by simp

lemma dval_drop: "digits ds \<Longrightarrow> dval (drop k ds) = dval ds div 10 ^ k"
proof (cases "k \<le> length ds")
  case True
  assume d: "digits ds"
  have "0 \<le> dval (take k ds)" "dval (take k ds) < 10 ^ k"
    using dval_less [of "take k ds"] d True by auto
  moreover have "dval ds = dval (take k ds) + 10 ^ k * dval (drop k ds)"
    using dval_split [of ds k] True by (simp add: min_absorb2)
  ultimately show ?thesis by (simp only: div_mult_self2) (simp add: div_pos_pos_trivial)
next
  case False
  assume d: "digits ds"
  have "dval ds < 10 ^ k"
    using dval_less [OF d] power_increasing [of "length ds" k "10::int"] False by linarith
  then show ?thesis using False d by simp
qed

lemma dval_eq_0: "digits ds \<Longrightarrow> dval ds = 0 \<longleftrightarrow> (\<forall>d \<in> set ds. d = 0)"
proof (induction ds)
  case (Cons d ds)
  then show ?case using dval_nonneg [of ds] by auto
qed simp

lemma dval_pos: "digits ds \<Longrightarrow> 0 < dval ds \<longleftrightarrow> (\<exists>d \<in> set ds. d \<noteq> 0)"
  using dval_eq_0 [of ds] dval_nonneg [of ds] by (auto simp: order_le_less)

text \<open>The top digit is not zero: the value is at least the weight of the top digit.\<close>

lemma top_digit: "digits ds \<Longrightarrow> ds \<noteq> [] \<Longrightarrow> last ds \<noteq> 0 \<longleftrightarrow> 10 ^ (length ds - 1) \<le> dval ds"
proof -
  assume d: "digits ds" and ne: "ds \<noteq> []"
  define xs where "xs = butlast ds"
  have ds: "ds = xs @ [last ds]" using ne by (simp add: xs_def)
  have "digits (xs @ [last ds])" using d ds by simp
  then have x: "digits xs" "0 \<le> last ds" by auto
  have "dval ds = dval (xs @ [last ds])" using ds by simp
  then have v: "dval ds = dval xs + 10 ^ length xs * last ds" by simp
  have l: "length ds - 1 = length xs" using ne by (simp add: xs_def)
  show ?thesis
  proof (cases "last ds = 0")
    case True
    then show ?thesis using v l dval_less [OF x(1)] by simp
  next
    case False
    then have "1 \<le> last ds" using x(2) by linarith
    then have "(10 :: int) ^ length xs * 1 \<le> 10 ^ length xs * last ds" by (intro mult_left_mono) auto
    then have "10 ^ length xs \<le> dval ds" using v dval_nonneg [OF x(1)] by linarith
    then show ?thesis using l False by simp
  qed
qed

text \<open>A longer number with a top digit is larger.\<close>

lemma longer_larger:
  assumes "digits ys" "10 ^ m \<le> x" "length ys \<le> m"
  shows "dval ys < x"
  using dval_less [OF assms(1)] power_increasing [OF assms(3), of "10::int"] assms(2) by linarith

subsection \<open>The invariant and the value\<close>

definition wf_num :: "BcNum \<Rightarrow> bool" where
  "wf_num n \<longleftrightarrow> digits (num n) \<and> len n \<le> cap n \<and>
     (if num n = [] then \<not> neg n
      else rdx n \<le> len n \<and> (\<exists>d \<in> set (num n). d \<noteq> 0) \<and> (rdx n < len n \<longrightarrow> last (num n) \<noteq> 0))"

definition bc_value :: "BcNum \<Rightarrow> rat" where
  "bc_value n = (if neg n then - 1 else 1) * of_int (dval (num n)) / 10 ^ rdx n"

text \<open>The digits of a number as an integer, at \<open>r\<close> decimals.\<close>

definition at_scale :: "nat \<Rightarrow> BcNum \<Rightarrow> int" where
  "at_scale r n = dval (num n) * 10 ^ (r - rdx n)"

lemma wf_digits [simp, intro]: "wf_num n \<Longrightarrow> digits (num n)"
  by (simp add: wf_num_def)

lemma wf_cap: "wf_num n \<Longrightarrow> len n \<le> cap n"
  by (simp add: wf_num_def)

lemma wf_rdx: "wf_num n \<Longrightarrow> num n \<noteq> [] \<Longrightarrow> rdx n \<le> len n"
  by (simp add: wf_num_def)

lemma wf_zero_sign: "wf_num n \<Longrightarrow> num n = [] \<Longrightarrow> \<not> neg n"
  by (simp add: wf_num_def)

lemma wf_pos: "wf_num n \<Longrightarrow> num n \<noteq> [] \<Longrightarrow> 0 < dval (num n)"
  unfolding wf_num_def using dval_pos [of "num n"] by presburger

lemma wf_top: "wf_num n \<Longrightarrow> rdx n < len n \<Longrightarrow> 10 ^ (len n - 1) \<le> dval (num n)"
proof -
  assume w: "wf_num n" and r: "rdx n < len n"
  then have "num n \<noteq> []" by auto
  moreover have "last (num n) \<noteq> 0" using w r calculation unfolding wf_num_def by presburger
  ultimately show ?thesis using top_digit [of "num n"] w by blast
qed

lemma wf_numI:
  assumes "digits (num n)" "len n \<le> cap n" "num n \<noteq> []" "rdx n \<le> len n" "0 < dval (num n)"
    "rdx n < len n \<Longrightarrow> 10 ^ (len n - 1) \<le> dval (num n)"
  shows "wf_num n"
  unfolding wf_num_def using assms top_digit [of "num n"] dval_pos [of "num n"] by presburger

lemma value_0: "num n = [] \<Longrightarrow> bc_value n = 0"
  by (simp add: bc_value_def)

lemma value_at_scale:
  assumes "rdx n \<le> r"
  shows "bc_value n = (if neg n then - 1 else 1) * of_int (at_scale r n) / 10 ^ r"
proof -
  have "(10 :: rat) ^ r = 10 ^ rdx n * 10 ^ (r - rdx n)" using assms by (simp flip: power_add)
  then show ?thesis by (simp add: bc_value_def at_scale_def)
qed

lemma value_eq_0: "wf_num n \<Longrightarrow> bc_value n = 0 \<longleftrightarrow> num n = []"
  using wf_pos [of n] by (cases "num n = []") (simp_all add: bc_value_def)

lemma value_neg: "wf_num n \<Longrightarrow> bc_value n < 0 \<longleftrightarrow> neg n"
  using wf_pos [of n] wf_zero_sign [of n] by (cases "num n = []") (auto simp: bc_value_def field_simps)

lemma at_scale_nonneg [simp]: "wf_num n \<Longrightarrow> 0 \<le> at_scale r n"
  by (simp add: at_scale_def)

lemma at_scale_pos: "wf_num n \<Longrightarrow> num n \<noteq> [] \<Longrightarrow> 0 < at_scale r n"
  using wf_pos by (simp add: at_scale_def)

text \<open>Bounds of the scaled digits by the length of the integer part.\<close>

lemma at_scale_less:
  assumes "wf_num n" "num n \<noteq> []" "rdx n \<le> r"
  shows "at_scale r n < 10 ^ (r + (len n - rdx n))"
proof -
  have "at_scale r n < 10 ^ len n * 10 ^ (r - rdx n)"
    unfolding at_scale_def by (rule mult_strict_right_mono) (use dval_less assms in auto)
  also have "\<dots> = 10 ^ (r + (len n - rdx n))"
    using assms wf_rdx [OF assms(1,2)] by (simp flip: power_add)
  finally show ?thesis .
qed

lemma at_scale_ge:
  assumes "wf_num n" "rdx n < len n" "rdx n \<le> r"
  shows "10 ^ (r + (len n - rdx n) - 1) \<le> at_scale r n"
proof -
  have "r + (len n - rdx n) - 1 = (len n - 1) + (r - rdx n)" using assms by simp
  then have "(10 :: int) ^ (r + (len n - rdx n) - 1) = 10 ^ (len n - 1) * 10 ^ (r - rdx n)"
    by (simp add: power_add)
  also have "\<dots> \<le> at_scale r n"
    unfolding at_scale_def by (rule mult_right_mono) (use wf_top [OF assms(1,2)] in auto)
  finally show ?thesis .
qed


subsection \<open>Changing the scale\<close>

lemma expand_simps [simp]:
  "num (bc_num_expand n k) = num n" "neg (bc_num_expand n k) = neg n" "rdx (bc_num_expand n k) = rdx n"
  "k \<le> cap (bc_num_expand n k)" "cap n \<le> cap (bc_num_expand n k)"
  by (auto simp: bc_num_expand_def Let_def)

lemma init_simps [simp]:
  "num (bc_num_init k) = []" "neg (bc_num_init k) = False" "rdx (bc_num_init k) = 0" "k \<le> cap (bc_num_init k)"
  by (auto simp: bc_num_init_def Let_def)

lemma copy_simps [simp]:
  "num (bc_num_copy d s) = num s" "neg (bc_num_copy d s) = neg s" "rdx (bc_num_copy d s) = rdx s"
  "cap s \<le> cap (bc_num_copy d s)"
  using expand_simps(4) [of "cap s" d] by (auto simp: bc_num_copy_def)

lemma setToZero_simps [simp]:
  "num (bc_num_setToZero n s) = []" "neg (bc_num_setToZero n s) = False" "rdx (bc_num_setToZero n s) = s"
  "cap (bc_num_setToZero n s) = cap n"
  by (auto simp: bc_num_setToZero_def)

lemma zero_simps [simp]:
  "num (bc_num_zero n) = []" "neg (bc_num_zero n) = False" "rdx (bc_num_zero n) = 0"
  "cap (bc_num_zero n) = cap n"
  by (auto simp: bc_num_zero_def)

lemma extend_simps [simp]:
  "num (bc_num_extend n p) = replicate p 0 @ num n" "neg (bc_num_extend n p) = neg n"
  "rdx (bc_num_extend n p) = rdx n + p"
  by (auto simp: bc_num_extend_def Let_def)

lemma extend_cap: "len n \<le> cap n \<Longrightarrow> len n + p \<le> cap (bc_num_extend n p)"
  using expand_simps(4) [of "len n + p" n] by (auto simp: bc_num_extend_def Let_def not_less)

lemma truncate_simps [simp]:
  "num (bc_num_truncate n p) = drop p (num n)" "neg (bc_num_truncate n p) = neg n"
  "rdx (bc_num_truncate n p) = rdx n - p" "cap (bc_num_truncate n p) = cap n"
  by (auto simp: bc_num_truncate_def)

lemma wf_empty: "num n = [] \<Longrightarrow> \<not> neg n \<Longrightarrow> wf_num n"
  by (simp add: wf_num_def)

lemma wf_same: "wf_num n \<Longrightarrow> num m = num n \<Longrightarrow> neg m = neg n \<Longrightarrow> rdx m = rdx n \<Longrightarrow> cap n \<le> cap m \<Longrightarrow> wf_num m"
  unfolding wf_num_def by simp

lemma wf_copy [simp]: "wf_num s \<Longrightarrow> wf_num (bc_num_copy d s)"
  by (rule wf_same) auto

lemma wf_abs: "wf_num n \<Longrightarrow> wf_num (n\<lparr>neg := False\<rparr>)"
  unfolding wf_num_def by simp

text \<open>Stripping the leading zeros.\<close>

lemma strip_zeros:
  fixes ds :: "int list"
  defines "k \<equiv> length (dropWhile (\<lambda>d. d = 0) (rev ds))"
  shows "\<forall>d \<in> set (drop k ds). d = 0" "k \<le> length ds" "k \<noteq> 0 \<Longrightarrow> ds ! (k - 1) \<noteq> 0"
proof -
  define zs where "zs = takeWhile (\<lambda>d. d = 0) (rev ds)"
  define ys where "ys = dropWhile (\<lambda>d. d = 0) (rev ds)"
  have "rev ds = zs @ ys" by (simp add: zs_def ys_def)
  then have ds: "ds = rev ys @ rev zs" by (metis rev_append rev_rev_ident)
  have k: "k = length ys" by (simp add: k_def ys_def)
  have zs: "\<forall>d \<in> set zs. d = 0" unfolding zs_def by (auto dest: set_takeWhileD)
  show "\<forall>d \<in> set (drop k ds). d = 0" "k \<le> length ds" using ds k zs by auto
  assume "k \<noteq> 0"
  then obtain y ys' where ys: "ys = y # ys'" using k by (cases ys) auto
  have "y \<noteq> 0" using ys unfolding ys_def by (simp add: dropWhile_eq_Cons_conv)
  then show "ds ! (k - 1) \<noteq> 0" using ds k ys by (simp add: nth_append)
qed

lemma dval_drop_zeros: "\<forall>d \<in> set (drop k ds). d = 0 \<Longrightarrow> dval (take k ds) = dval ds"
proof -
  assume "\<forall>d \<in> set (drop k ds). d = 0"
  then have "replicate (length (drop k ds)) 0 = drop k ds" by (rule replicate_length_same)
  then have "dval (drop k ds) = 0" by (metis dval_zeros)
  then show ?thesis using dval_split [of ds k] by simp
qed

lemma clean:
  assumes "digits (num n)" "len n \<le> cap n" "rdx n \<le> len n"
  shows "wf_num (bc_num_clean n)" "dval (num (bc_num_clean n)) = dval (num n)" "rdx (bc_num_clean n) = rdx n"
    "neg (bc_num_clean n) \<longleftrightarrow> neg n \<and> dval (num n) \<noteq> 0" "len (bc_num_clean n) \<le> len n"
    "num (bc_num_clean n) = [] \<longleftrightarrow> dval (num n) = 0"
proof -
  define k where "k = length (dropWhile (\<lambda>d. d = 0) (rev (num n)))"
  note z = strip_zeros [of "num n", folded k_def]
  have z0: "k = 0 \<longleftrightarrow> dval (num n) = 0"
  proof
    assume "k = 0" then show "dval (num n) = 0" using z(1) assms(1) by (simp add: dval_eq_0)
  next
    assume "dval (num n) = 0"
    then have "\<forall>d \<in> set (num n). d = 0" using assms(1) by (simp add: dval_eq_0)
    then show "k = 0" using z(2,3) by (cases k) auto
  qed
  define m where "m = (if k < rdx n then rdx n else k)"
  have m: "k \<le> m" "m \<le> len n" using z(2) assms(3) by (auto simp: m_def)
  have cl: "bc_num_clean n = (if k = 0 then n\<lparr>num := [], neg := False\<rparr> else n\<lparr>num := take m (num n)\<rparr>)"
    by (auto simp: bc_num_clean_def Let_def k_def m_def)
  have "set (drop m (num n)) \<subseteq> set (drop k (num n))" using m(1) by (rule set_drop_subset_set_drop)
  then have "\<forall>d \<in> set (drop m (num n)). d = 0" using z(1) by (meson subsetD)
  then have tk: "dval (take m (num n)) = dval (num n)" by (rule dval_drop_zeros)
  have top: "k \<noteq> 0 \<Longrightarrow> rdx n < m \<Longrightarrow> last (take m (num n)) \<noteq> 0"
  proof -
    assume a: "k \<noteq> 0" "rdx n < m"
    then have "m = k" by (auto simp: m_def split: if_splits)
    moreover have "take k (num n) \<noteq> []" using a m by auto
    ultimately show ?thesis using z(3) a m by (simp add: last_conv_nth min_absorb2)
  qed
  show "dval (num (bc_num_clean n)) = dval (num n)" "rdx (bc_num_clean n) = rdx n"
    "neg (bc_num_clean n) \<longleftrightarrow> neg n \<and> dval (num n) \<noteq> 0" "len (bc_num_clean n) \<le> len n"
    unfolding cl using tk z0 by (simp_all split: if_split)
  show e: "num (bc_num_clean n) = [] \<longleftrightarrow> dval (num n) = 0"
    unfolding cl using z0 tk m(1) by (cases "k = 0") auto
  show "wf_num (bc_num_clean n)"
  proof (cases "k = 0")
    case True
    then show ?thesis using cl by (simp add: wf_num_def)
  next
    case False
    have "\<exists>d \<in> set (take m (num n)). d \<noteq> 0"
      using dval_pos [of "take m (num n)"] dval_nonneg [of "num n"] assms(1) tk False z0 by (simp add: order_le_less)
    then show ?thesis using cl False assms m top unfolding wf_num_def by (auto simp: m_def)
  qed
qed


subsection \<open>Comparison\<close>

text \<open>Sizes that are objects in memory.\<close>

definition fits :: "BcNum \<Rightarrow> bool" where
  "fits n \<longleftrightarrow> len n < 2 ^ 62 \<and> rdx n < 2 ^ 62"

lemma size_t_small: "0 \<le> k \<Longrightarrow> k < 2 ^ 64 \<Longrightarrow> size_t k = nat k"
  by (simp add: size_t_def)

lemma int_part: "wf_num n \<Longrightarrow> num n \<noteq> [] \<Longrightarrow> fits n \<Longrightarrow> BC_NUM_INT n = len n - rdx n"
  using wf_rdx [of n] by (simp add: BC_NUM_INT_def fits_def size_t_small nat_diff_distrib)

lemma sgn_high:
  fixes l p x :: int
  assumes "0 \<le> l" "l < p"
  shows "sgn (l + p * x) = (if x = 0 then sgn l else sgn x)"
proof (cases x "0 :: int" rule: linorder_cases)
  case less
  then have "p * x \<le> p * (- 1)" using assms by (intro mult_left_mono) auto
  then show ?thesis using less assms by simp
next
  case greater
  then have "p * 1 \<le> p * x" using assms by (intro mult_left_mono) auto
  then have "0 < l + p * x" using assms by linarith
  then show ?thesis using greater by simp
qed simp

lemma sgn_minus_flip: "sgn (y - x :: int) = - sgn (x - y)"
  by (simp add: sgn_if)

lemma compare_sgn:
  assumes "digits a" "digits b" "i \<le> length a" "i \<le> length b"
  shows "sgn (bc_num_compare a b i) = sgn (dval (take i a) - dval (take i b))"
  using assms(3,4)
proof (induction i)
  case (Suc i)
  define l where "l = dval (take i a) - dval (take i b)"
  have t: "dval (take (Suc i) a) - dval (take (Suc i) b) = l + 10 ^ i * (a ! i - b ! i)"
    using Suc.prems by (simp add: take_Suc_conv_app_nth l_def algebra_simps)
  have "0 \<le> dval (take i a)" "0 \<le> dval (take i b)" "dval (take i a) < 10 ^ i" "dval (take i b) < 10 ^ i"
    using dval_less [of "take i a"] dval_less [of "take i b"] assms Suc.prems by (auto simp: min_absorb2)
  then have l: "- (10 ^ i) < l" "l < 10 ^ i" by (auto simp: l_def)
  show ?case
  proof (cases "a ! i - b ! i" "0 :: int" rule: linorder_cases)
    case less
    then have "10 ^ i * (a ! i - b ! i) \<le> 10 ^ i * (- 1)" by (intro mult_left_mono) auto
    then have "l + 10 ^ i * (a ! i - b ! i) < 0" using l by linarith
    then show ?thesis using less t by simp
  next
    case equal
    then show ?thesis using Suc l_def t by simp
  next
    case greater
    then have "10 ^ i * 1 \<le> 10 ^ i * (a ! i - b ! i)" by (intro mult_left_mono) auto
    then have "0 < l + 10 ^ i * (a ! i - b ! i)" using l by linarith
    then show ?thesis using greater t by simp
  qed
qed simp

text \<open>The digits of the number with more decimals, against those of the other one.\<close>

lemma compare_aligned:
  assumes a: "wf_num a" "num a \<noteq> []" and b: "wf_num b" "num b \<noteq> []" and r: "rdx b \<le> rdx a"
    and i: "len a - rdx a = len b - rdx b"
  defines "d \<equiv> rdx a - rdx b"
  shows "(let c = bc_num_compare (drop d (num a)) (num b) (len b)
          in if c \<noteq> 0 then sgn c else of_bool (list_ex (\<lambda>x. x \<noteq> 0) (take d (num a)))) =
         sgn (at_scale (rdx a) a - at_scale (rdx a) b)"
proof -
  note wr = wf_rdx [OF a] wf_rdx [OF b]
  have l: "length (drop d (num a)) = len b" "d \<le> len a" using wr r i by (auto simp: d_def)
  have low: "0 \<le> dval (take d (num a))" "dval (take d (num a)) < 10 ^ d"
    using dval_less [of "take d (num a)"] a l(2) by auto
  have "at_scale (rdx a) a - at_scale (rdx a) b =
      dval (take d (num a)) + 10 ^ d * (dval (drop d (num a)) - dval (num b))"
    using dval_split [of "num a" d] l(2) by (simp add: at_scale_def d_def [symmetric] min_absorb2 algebra_simps)
  then have s: "sgn (at_scale (rdx a) a - at_scale (rdx a) b) =
      (if dval (drop d (num a)) - dval (num b) = 0 then sgn (dval (take d (num a)))
       else sgn (dval (drop d (num a)) - dval (num b)))"
    using sgn_high [OF low] by presburger
  have c: "sgn (bc_num_compare (drop d (num a)) (num b) (len b)) = sgn (dval (drop d (num a)) - dval (num b))"
    using compare_sgn [of "drop d (num a)" "num b" "len b"] a b l by simp
  have z: "of_bool (list_ex (\<lambda>x. x \<noteq> 0) (take d (num a))) = sgn (dval (take d (num a)))"
    using dval_pos [of "take d (num a)"] dval_eq_0 [of "take d (num a)"] a low(1) by (auto simp: list_ex_iff sgn_if)
  show ?thesis
    using s c z by (auto simp: Let_def sgn_0_0 split: if_splits)
qed

lemma cmp_magnitude:
  assumes a: "wf_num a" "num a \<noteq> []" "fits a" and b: "wf_num b" "num b \<noteq> []" "fits b" and s: "neg a = neg b"
  defines "r \<equiv> max (rdx a) (rdx b)"
  shows "sgn (bc_num_cmp a b) = (if neg a then - 1 else 1) * sgn (at_scale r a - at_scale r b)"
proof -
  note ia = int_part [OF a] and ib = int_part [OF b]
  have rr: "rdx a \<le> r" "rdx b \<le> r" by (auto simp: r_def)
  consider (less) "len a - rdx a < len b - rdx b" | (greater) "len b - rdx b < len a - rdx a"
    | (equal) "len a - rdx a = len b - rdx b" by linarith
  then show ?thesis
  proof cases
    case less
    have "r + (len a - rdx a) \<le> r + (len b - rdx b) - 1" using less by simp
    then have "(10::int) ^ (r + (len a - rdx a)) \<le> 10 ^ (r + (len b - rdx b) - 1)" by (intro power_increasing) auto
    then have "at_scale r a < at_scale r b"
      using at_scale_less [OF a(1,2) rr(1)] at_scale_ge [OF b(1) _ rr(2)] less by linarith
    moreover have "BC_NUM_INT a < BC_NUM_INT b" using less ia ib by simp
    ultimately show ?thesis using a b s by (simp add: bc_num_cmp_def Let_def)
  next
    case greater
    have "r + (len b - rdx b) \<le> r + (len a - rdx a) - 1" using greater by simp
    then have "(10::int) ^ (r + (len b - rdx b)) \<le> 10 ^ (r + (len a - rdx a) - 1)" by (intro power_increasing) auto
    then have "at_scale r b < at_scale r a"
      using at_scale_less [OF b(1,2) rr(2)] at_scale_ge [OF a(1) _ rr(1)] greater by linarith
    moreover have "BC_NUM_INT b < BC_NUM_INT a" using greater ia ib by simp
    ultimately show ?thesis using a b s by (simp add: bc_num_cmp_def Let_def)
  next
    case equal
    show ?thesis
    proof (cases "rdx b < rdx a")
      case True
      have "len b - rdx b + rdx b = len b" using wf_rdx [OF b(1,2)] by simp
      then show ?thesis
        using compare_aligned [OF a(1,2) b(1,2) less_imp_le [OF True] equal] True equal a b s ia ib
        by (auto simp: bc_num_cmp_def Let_def BC_NUM_NEG_def r_def max_def split: if_splits)
    next
      case False
      then have le: "rdx a \<le> rdx b" by simp
      have "len b - rdx b + rdx a = len a" using wf_rdx [OF a(1,2)] equal by simp
      then show ?thesis
        using compare_aligned [OF b(1,2) a(1,2) le equal [symmetric]] False equal a b s ia ib
          sgn_minus_flip [of "at_scale r a" "at_scale r b"]
        by (auto simp: bc_num_cmp_def Let_def BC_NUM_NEG_def r_def max_def split: if_splits)
    qed
  qed
qed


text \<open>\<^verbatim>\<open>bc_num_cmp\<close> orders numbers by their values.\<close>

lemma sgn_eqD: "sgn (x :: int) = sgn y \<Longrightarrow> (x < 0 \<longleftrightarrow> y < 0) \<and> (x = 0 \<longleftrightarrow> y = 0)"
  by (auto simp: sgn_if split: if_splits)

lemma cmp_value:
  assumes a: "wf_num a" "fits a" and b: "wf_num b" "fits b"
  shows "(bc_num_cmp a b < 0 \<longleftrightarrow> bc_value a < bc_value b) \<and> (bc_num_cmp a b = 0 \<longleftrightarrow> bc_value a = bc_value b)"
proof (cases "num a = [] \<or> num b = []")
  case True
  show ?thesis
  proof (cases "num a = []")
    case True
    then show ?thesis
      using wf_pos [OF b(1)] by (cases "num b = []") (auto simp: bc_num_cmp_def BC_NUM_NEG_def bc_value_def field_simps)
  next
    case False
    with True have "num b = []" by simp
    then show ?thesis
      using wf_pos [OF a(1) False] False by (auto simp: bc_num_cmp_def BC_NUM_NEG_def bc_value_def field_simps)
  qed
next
  case False
  then have ne: "num a \<noteq> []" "num b \<noteq> []" by auto
  note p = wf_pos [OF a(1) ne(1)] wf_pos [OF b(1) ne(2)]
  show ?thesis
  proof (cases "neg a = neg b")
    case False
    have "bc_value a < 0 \<longleftrightarrow> neg a" "bc_value b < 0 \<longleftrightarrow> neg b" "bc_value a \<noteq> 0" "bc_value b \<noteq> 0"
      using value_neg value_eq_0 a b ne by auto
    then show ?thesis using False ne by (auto simp: bc_num_cmp_def)
  next
    case True
    define r where "r = max (rdx a) (rdx b)"
    define x where "x = (if neg a then - 1 else 1) * at_scale r a"
    define y where "y = (if neg a then - 1 else 1) * at_scale r b"
    have v: "bc_value a = of_int x / 10 ^ r" "bc_value b = of_int y / 10 ^ r"
      using value_at_scale [of a r] value_at_scale [of b r] True by (auto simp: r_def x_def y_def)
    have "sgn (bc_num_cmp a b) = sgn (x - y)"
      using cmp_magnitude [OF a(1) ne(1) a(2) b(1) ne(2) b(2) True] by (simp add: r_def sgn_if x_def y_def)
    then have "(bc_num_cmp a b < 0 \<longleftrightarrow> x < y) \<and> (bc_num_cmp a b = 0 \<longleftrightarrow> x = y)"
      using sgn_eqD [of "bc_num_cmp a b" "x - y"] by simp
    then show ?thesis unfolding v by (simp add: divide_less_cancel)
  qed
qed

subsection \<open>Addition\<close>

lemma add_both_spec:
  assumes "length xs = length ys" "digits xs" "digits ys" "0 \<le> c" "c \<le> 1"
  obtains ds c' where "add_both (zip xs ys) c = (ds, c')" "digits ds" "length ds = length xs" "0 \<le> c'" "c' \<le> 1"
    "dval ds + 10 ^ length xs * c' = dval xs + dval ys + c"
proof -
  have "\<exists>ds c'. add_both (zip xs ys) c = (ds, c') \<and> digits ds \<and> length ds = length xs \<and> 0 \<le> c' \<and> c' \<le> 1 \<and>
      dval ds + 10 ^ length xs * c' = dval xs + dval ys + c"
    using assms
  proof (induction xs ys arbitrary: c rule: list_induct2)
    case (Cons x xs y ys)
    define v where "v = x + y + c"
    have v: "0 \<le> v div 10" "v div 10 \<le> 1" using Cons.prems by (auto simp: v_def)
    obtain ds c' where ih: "add_both (zip xs ys) (v div 10) = (ds, c')" "digits ds" "length ds = length xs"
      "0 \<le> c'" "c' \<le> 1" "dval ds + 10 ^ length xs * c' = dval xs + dval ys + v div 10"
      using Cons.IH [of "v div 10"] Cons.prems v by auto
    have e: "v mod 10 + 10 * (v div 10) = x + y + c" unfolding v_def by simp
    have "dval (v mod 10 # ds) + 10 ^ length (x # xs) * c' = v mod 10 + 10 * (dval ds + 10 ^ length xs * c')"
      by (simp add: algebra_simps)
    also have "\<dots> = v mod 10 + 10 * (v div 10) + 10 * (dval xs + dval ys)" unfolding ih(6) by simp
    also have "\<dots> = dval (x # xs) + dval (y # ys) + c" unfolding e by simp
    finally have "dval (v mod 10 # ds) + 10 ^ length (x # xs) * c' = dval (x # xs) + dval (y # ys) + c" .
    moreover have "v mod 10 \<le> 9" using pos_mod_bound [of 10 v] by linarith
    ultimately show ?case using ih by (simp add: v_def Let_def)
  qed simp
  then show ?thesis using that by blast
qed

lemma add_rest_spec:
  assumes "digits xs" "0 \<le> c" "c \<le> 1"
  obtains ds c' where "add_rest xs c = (ds, c')" "digits ds" "length ds = length xs" "0 \<le> c'" "c' \<le> 1"
    "dval ds + 10 ^ length xs * c' = dval xs + c"
proof -
  have "\<exists>ds c'. add_rest xs c = (ds, c') \<and> digits ds \<and> length ds = length xs \<and> 0 \<le> c' \<and> c' \<le> 1 \<and>
      dval ds + 10 ^ length xs * c' = dval xs + c"
    using assms
  proof (induction xs arbitrary: c)
    case (Cons x xs)
    define v where "v = x + c"
    have v: "0 \<le> v div 10" "v div 10 \<le> 1" using Cons.prems by (auto simp: v_def)
    obtain ds c' where ih: "add_rest xs (v div 10) = (ds, c')" "digits ds" "length ds = length xs"
      "0 \<le> c'" "c' \<le> 1" "dval ds + 10 ^ length xs * c' = dval xs + v div 10"
      using Cons.IH [of "v div 10"] Cons.prems v by auto
    have e: "v mod 10 + 10 * (v div 10) = x + c" unfolding v_def by simp
    have "dval (v mod 10 # ds) + 10 ^ length (x # xs) * c' = v mod 10 + 10 * (dval ds + 10 ^ length xs * c')"
      by (simp add: algebra_simps)
    also have "\<dots> = v mod 10 + 10 * (v div 10) + 10 * (dval xs)" unfolding ih(6) by simp
    also have "\<dots> = dval (x # xs) + c" unfolding e by simp
    finally have "dval (v mod 10 # ds) + 10 ^ length (x # xs) * c' = dval (x # xs) + c" .
    moreover have "v mod 10 \<le> 9" using pos_mod_bound [of 10 v] by linarith
    ultimately show ?case using ih by (simp add: v_def Let_def)
  qed simp
  then show ?thesis using that by blast
qed

lemma add_digits_spec:
  assumes "digits pa" "digits pb" and p: "p = (if length pb < length pa then pa else pb)"
    and k: "k = min (length pa) (length pb)" and m: "m = max (length pa) (length pb)"
  shows "digits (add_digits pa pb p k m)" "dval (add_digits pa pb p k m) = dval pa + dval pb"
    "length (add_digits pa pb p k m) \<le> m + 1" "m \<le> length (add_digits pa pb p k m)"
    "length (add_digits pa pb p k m) = m + 1 \<Longrightarrow> 10 ^ m \<le> dval pa + dval pb"
proof -
  define q where "q = take (m - k) (drop k p)"
  have q: "q = drop k p" "digits q" "length q = m - k" using assms by (auto simp: q_def)
  have pq: "dval pa + dval pb = dval (take k pa) + dval (take k pb) + 10 ^ k * dval q"
    using dval_split [of pa k] dval_split [of pb k] by (cases "length pb < length pa") (auto simp: q(1) p k min_def)
  obtain both c where b: "add_both (zip (take k pa) (take k pb)) 0 = (both, c)" "digits both" "length both = k"
    "0 \<le> c" "c \<le> 1" "dval both + 10 ^ k * c = dval (take k pa) + dval (take k pb) + 0"
    by (rule add_both_spec [of "take k pa" "take k pb" 0]) (use assms in auto)
  obtain rest c' where r: "add_rest q c = (rest, c')" "digits rest" "length rest = length q" "0 \<le> c'" "c' \<le> 1"
    "dval rest + 10 ^ length q * c' = dval q + c"
    by (rule add_rest_spec [OF q(2) b(4,5)])
  define tl' where "tl' = (if c' \<noteq> 0 then [c'] else [])"
  have ad: "add_digits pa pb p k m = both @ rest @ tl'"
    using b(1) r(1) by (simp add: add_digits_def q_def tl'_def Let_def)
  have km: "k + (m - k) = m" using k m by auto
  have "dval (both @ rest @ tl') = dval both + 10 ^ k * (dval rest + 10 ^ length q * c')"
    using b(3) r(3) by (auto simp: tl'_def)
  also have "\<dots> = dval pa + dval pb" using r(6) b(6) pq by (simp add: algebra_simps)
  finally show v: "dval (add_digits pa pb p k m) = dval pa + dval pb" using ad by simp
  show d: "digits (add_digits pa pb p k m)" using ad b r by (auto simp: tl'_def)
  show "length (add_digits pa pb p k m) \<le> m + 1" "m \<le> length (add_digits pa pb p k m)"
    using ad b r q km by (auto simp: tl'_def)
  assume l: "length (add_digits pa pb p k m) = m + 1"
  then have "tl' = [c']" "c' \<noteq> 0" using ad b r q km by (auto simp: tl'_def split: if_splits)
  then have "10 ^ (length (add_digits pa pb p k m) - 1) \<le> dval (add_digits pa pb p k m)"
    using top_digit [OF d] ad by simp
  then show "10 ^ m \<le> dval pa + dval pb" using l v by simp
qed

end
