(* ===== verification/Bc_Add.thy ===== *)
theory Bc_Add
  imports Bc_Value
begin

text \<open>
  Addition and subtraction of bc numbers: \<^verbatim>\<open>zbc_num_a\<close> adds two magnitudes, \<^verbatim>\<open>zbc_num_s\<close> subtracts the
  smaller from the larger; \<^verbatim>\<open>zbc_num_add\<close> and \<^verbatim>\<open>zbc_num_sub\<close> choose between them by the signs.
\<close>

subsection \<open>Adding magnitudes\<close>

lemma num_a_greater:
  assumes "num a \<noteq> []" "num b \<noteq> []" "rdx b < rdx a" "BC_NUM_INT a = ia" "BC_NUM_INT b = ib"
  defines "pa \<equiv> drop (rdx a - rdx b) (num a)"
  defines "ds \<equiv> take (rdx a - rdx b) (num a) @
    add_digits pa (num b) (if ib < ia then pa else num b) (rdx b + min ia ib) (max ia ib + rdx b)"
  shows "zbc_num_a a b c sub =
    (if cap c < length ds then Inl BcOverrun else Inr (c\<lparr>num := ds, neg := neg a, rdx := max (rdx a) (rdx b)\<rparr>))"
proof (cases "ib < ia")
  case True
  then have "min ia ib = ib" "max ia ib = ia" by auto
  then show ?thesis using assms True by (simp add: zbc_num_a_def Let_def min_absorb2)
next
  case False
  then have "min ia ib = ia" "max ia ib = ib" by auto
  then show ?thesis using assms False by (simp add: zbc_num_a_def Let_def min_absorb2)
qed

lemma num_a_not_greater:
  assumes "num a \<noteq> []" "num b \<noteq> []" "\<not> rdx b < rdx a" "BC_NUM_INT a = ia" "BC_NUM_INT b = ib"
  defines "pb \<equiv> drop (rdx b - rdx a) (num b)"
  defines "ds \<equiv> take (rdx b - rdx a) (num b) @
    add_digits (num a) pb (if ib < ia then num a else pb) (rdx a + min ia ib) (max ia ib + rdx a)"
  shows "zbc_num_a a b c sub =
    (if cap c < length ds then Inl BcOverrun else Inr (c\<lparr>num := ds, neg := neg a, rdx := max (rdx a) (rdx b)\<rparr>))"
proof (cases "ib < ia")
  case True
  then have "min ia ib = ib" "max ia ib = ia" by auto
  then show ?thesis using assms True by (simp add: zbc_num_a_def Let_def min_absorb1)
next
  case False
  then have "min ia ib = ia" "max ia ib = ib" by auto
  then show ?thesis using assms False by (simp add: zbc_num_a_def Let_def min_absorb1)
qed

lemma num_a_digits:
  assumes low: "digits low" "length low + mr = r" and pa: "digits pa" "length pa = ia + mr"
    and pb: "digits pb" "length pb = ib + mr"
  defines "ds \<equiv> low @ add_digits pa pb (if ib < ia then pa else pb) (mr + min ia ib) (max ia ib + mr)"
  shows "digits ds" "dval ds = dval low + 10 ^ length low * (dval pa + dval pb)"
    "length ds \<le> r + max ia ib + 1" "r + max ia ib \<le> length ds"
    "length ds = r + max ia ib + 1 \<Longrightarrow> 10 ^ (r + max ia ib) \<le> dval ds"
proof -
  have q: "(if ib < ia then pa else pb) = (if length pb < length pa then pa else pb)"
    "mr + min ia ib = min (length pa) (length pb)" "max ia ib + mr = max (length pa) (length pb)"
    using pa pb by auto
  note ad = add_digits_spec [OF pa(1) pb(1) q]
  show "digits ds" "dval ds = dval low + 10 ^ length low * (dval pa + dval pb)"
    using ad(1,2) low by (simp_all add: ds_def)
  show "length ds \<le> r + max ia ib + 1" "r + max ia ib \<le> length ds"
    using ad(3,4) low by (simp_all add: ds_def)
  assume "length ds = r + max ia ib + 1"
  then have "10 ^ (max ia ib + mr) \<le> dval pa + dval pb" using ad(5) low by (simp add: ds_def)
  then have "10 ^ length low * 10 ^ (max ia ib + mr) \<le> 10 ^ length low * (dval pa + dval pb)"
    by (rule mult_left_mono) simp
  then have "10 ^ (length low + (max ia ib + mr)) \<le> 10 ^ length low * (dval pa + dval pb)"
    by (simp only: power_add)
  moreover have "r + max ia ib = length low + (max ia ib + mr)" using low by simp
  moreover have "dval ds = dval low + 10 ^ length low * (dval pa + dval pb)" using ad(2) low by (simp add: ds_def)
  ultimately show "10 ^ (r + max ia ib) \<le> dval ds" using dval_nonneg [OF low(1)] by (metis add_increasing)
qed

lemma num_a_aligned:
  assumes a: "wf_num a" "num a \<noteq> []" and b: "wf_num b" "num b \<noteq> []" and r: "rdx b \<le> rdx a"
  defines "d \<equiv> rdx a - rdx b"
  shows "digits (take d (num a))" "length (take d (num a)) + rdx b = rdx a" "digits (drop d (num a))"
    "length (drop d (num a)) = len a - rdx a + rdx b" "len b = len b - rdx b + rdx b"
    "dval (take d (num a)) + 10 ^ length (take d (num a)) * (dval (drop d (num a)) + dval (num b)) =
     at_scale (rdx a) a + at_scale (rdx a) b"
proof -
  note wr = wf_rdx [OF a] wf_rdx [OF b]
  show "digits (take d (num a))" "digits (drop d (num a))" using a by auto
  have l: "length (take d (num a)) = d" using wr r by (simp add: d_def)
  show "length (take d (num a)) + rdx b = rdx a" "length (drop d (num a)) = len a - rdx a + rdx b"
    "len b = len b - rdx b + rdx b"
    using wr r by (auto simp: d_def)
  show "dval (take d (num a)) + 10 ^ length (take d (num a)) * (dval (drop d (num a)) + dval (num b)) =
     at_scale (rdx a) a + at_scale (rdx a) b"
    using dval_split [of "num a" d] l by (simp add: at_scale_def d_def [symmetric] algebra_simps)
qed

lemma num_a_spec:
  assumes a: "wf_num a" "num a \<noteq> []" "fits a" and b: "wf_num b" "num b \<noteq> []" "fits b"
  defines "r \<equiv> max (rdx a) (rdx b)" and "i \<equiv> max (len a - rdx a) (len b - rdx b)"
  assumes c: "r + i + 1 \<le> cap c"
  obtains c' where "zbc_num_a a b c sub = Inr c'" "wf_num c'" "neg c' = neg a" "rdx c' = r"
    "dval (num c') = at_scale r a + at_scale r b" "len c' \<le> r + i + 1" "num c' \<noteq> []"
proof -
  note ia = int_part [OF a] and ib = int_part [OF b]
  have "\<exists>ds. zbc_num_a a b c sub =
      (if cap c < length ds then Inl BcOverrun else Inr (c\<lparr>num := ds, neg := neg a, rdx := r\<rparr>)) \<and>
      digits ds \<and> dval ds = at_scale r a + at_scale r b \<and> length ds \<le> r + i + 1 \<and> r + i \<le> length ds \<and>
      (length ds = r + i + 1 \<longrightarrow> 10 ^ (r + i) \<le> dval ds)"
  proof (cases "rdx b < rdx a")
    case True
    then have le: "rdx b \<le> rdx a" by simp
    note al = num_a_aligned [OF a(1,2) b(1,2) le]
    define ds where "ds = take (rdx a - rdx b) (num a) @ add_digits (drop (rdx a - rdx b) (num a)) (num b)
      (if len b - rdx b < len a - rdx a then drop (rdx a - rdx b) (num a) else num b)
      (rdx b + min (len a - rdx a) (len b - rdx b)) (max (len a - rdx a) (len b - rdx b) + rdx b)"
    note nd = num_a_digits [OF al(1,2,3,4) wf_digits [OF b(1)] al(5), unfolded al(6), folded ds_def]
    have r': "r = rdx a" using True by (simp add: r_def)
    have e: "zbc_num_a a b c sub =
        (if cap c < length ds then Inl BcOverrun else Inr (c\<lparr>num := ds, neg := neg a, rdx := rdx a\<rparr>))"
      using num_a_greater [OF a(2) b(2) True ia ib, folded ds_def] r' by (simp only: r_def)
    show ?thesis unfolding r' i_def by (rule exI [of _ ds]) (use nd e in blast)
  next
    case False
    then have le: "rdx a \<le> rdx b" by simp
    note al = num_a_aligned [OF b(1,2) a(1,2) le]
    have v: "dval (take (rdx b - rdx a) (num b)) + 10 ^ length (take (rdx b - rdx a) (num b)) *
        (dval (num a) + dval (drop (rdx b - rdx a) (num b))) = at_scale (rdx b) a + at_scale (rdx b) b"
      using al(6) by (simp only: add.commute)
    define ds where "ds = take (rdx b - rdx a) (num b) @ add_digits (num a) (drop (rdx b - rdx a) (num b))
      (if len b - rdx b < len a - rdx a then num a else drop (rdx b - rdx a) (num b))
      (rdx a + min (len a - rdx a) (len b - rdx b)) (max (len a - rdx a) (len b - rdx b) + rdx a)"
    note nd = num_a_digits [OF al(1,2) wf_digits [OF a(1)] al(5) al(3,4), unfolded v, folded ds_def]
    have r': "r = rdx b" using le by (simp add: r_def)
    have e: "zbc_num_a a b c sub =
        (if cap c < length ds then Inl BcOverrun else Inr (c\<lparr>num := ds, neg := neg a, rdx := rdx b\<rparr>))"
      using num_a_not_greater [OF a(2) b(2) False ia ib, folded ds_def] r' by (simp only: r_def)
    show ?thesis unfolding r' i_def by (rule exI [of _ ds]) (use nd e in blast)
  qed
  then obtain ds where e: "zbc_num_a a b c sub =
      (if cap c < length ds then Inl BcOverrun else Inr (c\<lparr>num := ds, neg := neg a, rdx := r\<rparr>))"
    and ds: "digits ds" "dval ds = at_scale r a + at_scale r b" "length ds \<le> r + i + 1" "r + i \<le> length ds"
      "length ds = r + i + 1 \<Longrightarrow> 10 ^ (r + i) \<le> dval ds" by blast
  have pos: "0 < at_scale r a" "0 < at_scale r b" using at_scale_pos a b by auto
  then have ne: "ds \<noteq> []" using ds(2) by auto
  have top: "10 ^ (length ds - 1) \<le> dval ds" if "r < length ds"
  proof (cases "length ds = r + i + 1")
    case True
    then show ?thesis using ds(5) by simp
  next
    case False
    then have l: "length ds = r + i" using ds(3,4) by simp
    then have "0 < i" using that by simp
    consider "len b - rdx b \<le> len a - rdx a" "rdx a < len a" | "len a - rdx a \<le> len b - rdx b" "rdx b < len b"
      using \<open>0 < i\<close> unfolding i_def by linarith
    then show ?thesis
    proof cases
      case 1
      then show ?thesis using at_scale_ge [OF a(1), of r] l ds(2) pos by (simp add: r_def i_def max_absorb1)
    next
      case 2
      then show ?thesis using at_scale_ge [OF b(1), of r] l ds(2) pos by (simp add: r_def i_def max_absorb2)
    qed
  qed
  have "wf_num (c\<lparr>num := ds, neg := neg a, rdx := r\<rparr>)"
    by (rule wf_numI) (use ds top ne pos c in auto)
  then show ?thesis
    by (intro that [of "c\<lparr>num := ds, neg := neg a, rdx := r\<rparr>"]) (use e ds c ne in auto)
qed


subsection \<open>Subtracting magnitudes\<close>

lemma borrow_spec:
  assumes "digits xs" "- 10 \<le> x" "x \<le> 9" "0 \<le> x + 10 * dval xs"
  shows "\<exists>d ds. borrow (x # xs) = Some (d # ds) \<and> digits (d # ds) \<and> length ds = length xs \<and>
    d + 10 * dval ds = x + 10 * dval xs"
  using assms
proof (induction xs arbitrary: x)
  case (Cons y ys)
  show ?case
  proof (cases "x < 0")
    case True
    have "0 \<le> y - 1 + 10 * dval ys" using Cons.prems True by simp
    then obtain d ds where "borrow ((y - 1) # ys) = Some (d # ds)" "digits (d # ds)" "length ds = length ys"
      "d + 10 * dval ds = y - 1 + 10 * dval ys"
      using Cons.IH [of "y - 1"] Cons.prems by auto
    then show ?thesis using True Cons.prems by auto
  next
    case False
    then show ?thesis using Cons.prems by simp
  qed
qed simp

lemma subArrays_spec:
  assumes "digits a" "digits b" "length b \<le> length a" "dval b \<le> dval a"
  shows "\<exists>ds. bc_num_subArrays a b = Some ds \<and> digits ds \<and> length ds = length a \<and> dval ds = dval a - dval b"
  using assms
proof (induction b arbitrary: a)
  case (Cons y ys)
  then obtain x xs where a: "a = x # xs" by (cases a) auto
  have "digits ys" using Cons.prems by simp
  then have "0 \<le> dval ys" by simp
  then have "0 \<le> x - y + 10 * dval xs" using Cons.prems(4) unfolding a by simp
  then obtain d ds where ds: "borrow ((x - y) # xs) = Some (d # ds)" "digits (d # ds)" "length ds = length xs"
    "d + 10 * dval ds = x - y + 10 * dval xs"
    using borrow_spec [of xs "x - y"] Cons.prems a by auto
  have "dval ys \<le> dval ds" using ds Cons.prems a by simp
  then obtain es where "bc_num_subArrays ds ys = Some es" "digits es" "length es = length ds" "dval es = dval ds - dval ys"
    using Cons.IH [of ds] ds Cons.prems a by auto
  then show ?case using ds a by auto
qed simp

text \<open>The subtrahend has no more digits before the point.\<close>

lemma int_part_mono:
  assumes m: "wf_num m" "num m \<noteq> []" "rdx m \<le> r" and s: "wf_num s" "num s \<noteq> []" "rdx s \<le> r"
    and lt: "at_scale r s < at_scale r m"
  shows "len s - rdx s \<le> len m - rdx m"
proof (rule ccontr)
  assume c: "\<not> len s - rdx s \<le> len m - rdx m"
  then have "(10::int) ^ (r + (len m - rdx m)) \<le> 10 ^ (r + (len s - rdx s) - 1)" by (intro power_increasing) auto
  then show False using at_scale_less [OF m] at_scale_ge [OF s(1) _ s(3)] lt c by linarith
qed

lemma num_s_arrays_spec:
  assumes m: "wf_num m" "num m \<noteq> []" and s: "wf_num s" "num s \<noteq> []"
  defines "r \<equiv> max (rdx m) (rdx s)"
  assumes lt: "at_scale r s < at_scale r m"
  obtains c' where "num_s_arrays m s ng c = Inr c'"
    "wf_num c'" "neg c' = ng" "rdx c' = r" "dval (num c') = at_scale r m - at_scale r s" "len c' \<le> r + (len m - rdx m)"
proof -
  define c0 where "c0 = (bc_num_copy c m)\<lparr>neg := ng\<rparr>"
  define c1 where "c1 = (if rdx c0 < rdx s then bc_num_extend c0 (rdx s - rdx c0) else c0)"
  define start where "start = (if rdx c0 < rdx s then 0 else rdx c0 - rdx s)"
  have rr: "rdx m \<le> r" "rdx s \<le> r" by (auto simp: r_def)
  note ip = int_part_mono [OF m rr(1) s rr(2) lt] and wr = wf_rdx [OF m] wf_rdx [OF s]
  have c1: "digits (num c1)" "rdx c1 = r" "neg c1 = ng" "len c1 = r + (len m - rdx m)" "dval (num c1) = at_scale r m"
    using m wr by (auto simp: c1_def c0_def r_def at_scale_def)
  have cap1: "len c1 \<le> cap c1"
  proof -
    have "len c0 \<le> cap c0"
      using order_trans [OF wf_cap [OF m(1)] copy_simps(4) [of m c]] by (simp add: c0_def)
    then show ?thesis using extend_cap [of c0 "rdx s - rdx c0"] by (auto simp: c1_def)
  qed
  have st: "start + rdx s = r" "start \<le> len c1" using wr c1(4) by (auto simp: start_def c0_def r_def)
  define lo hi where "lo = take start (num c1)" and "hi = drop start (num c1)"
  have v: "at_scale r m = dval lo + 10 ^ start * dval hi"
    using dval_split [of "num c1" start] st(2) c1(5) by (simp add: lo_def hi_def min_absorb2)
  have at_s: "at_scale r s = 10 ^ start * dval (num s)" using st(1) by (auto simp: at_scale_def)
  have lo: "0 \<le> dval lo" "dval lo < 10 ^ start" "digits lo" "digits hi" "length lo = start"
    using dval_less [of lo] c1(1) st(2) by (auto simp: lo_def hi_def min_absorb2)
  have "10 ^ start * dval (num s) < 10 ^ start * (dval hi + 1)" using lt v at_s lo by (simp add: algebra_simps)
  then have "dval (num s) < dval hi + 1" by (subst (asm) mult_less_cancel_left_pos) auto
  then have le: "dval (num s) \<le> dval hi" by simp
  have ll: "len s \<le> length hi" using ip st c1(4) wr by (simp add: hi_def)
  obtain ds where ds: "bc_num_subArrays hi (num s) = Some ds" "digits ds" "length ds = length hi"
    "dval ds = dval hi - dval (num s)"
    using subArrays_spec [OF lo(4) wf_digits [OF s(1)] ll le] by blast
  define c2 where "c2 = c1\<lparr>num := lo @ ds\<rparr>"
  have "dval (num c2) = dval lo + 10 ^ start * dval ds" using lo(5) by (simp add: c2_def)
  also have "\<dots> = at_scale r m - at_scale r s" unfolding ds(4) v at_s by (simp add: right_diff_distrib)
  finally have c2v: "dval (num c2) = at_scale r m - at_scale r s" .
  have c2: "digits (num c2)" "len c2 = len c1" "len c2 \<le> cap c2" "rdx c2 \<le> len c2" "rdx c2 = r" "neg c2 = ng"
    using lo ds c1 cap1 st by (auto simp: c2_def hi_def)
  note cl = clean [OF c2(1,3,4)]
  have "num_s_arrays m s ng c = Inr (bc_num_clean c2)"
    using ds(1) by (cases "rdx c0 < rdx s")
      (simp_all add: num_s_arrays_def Let_def c0_def [symmetric] c1_def start_def lo_def hi_def c2_def)
  then show ?thesis by (rule that) (use cl c2 c2v c1 lt in auto)
qed

lemma at_scale_neg [simp]: "at_scale r (n\<lparr>neg := x\<rparr>) = at_scale r n"
  by (simp add: at_scale_def)

lemma fits_neg [simp]: "fits (n\<lparr>neg := x\<rparr>) = fits n"
  by (simp add: fits_def)

text \<open>\<^verbatim>\<open>zbc_num_s\<close> on two numbers that are not zero: the difference of the magnitudes, with the sign of the larger.\<close>

lemma num_s_spec:
  assumes a: "wf_num a" "num a \<noteq> []" "fits a" and b: "wf_num b" "num b \<noteq> []" "fits b"
  defines "r \<equiv> max (rdx a) (rdx b)" and "i \<equiv> max (len a - rdx a) (len b - rdx b)"
  obtains c' where "zbc_num_s a b c sub = Inr c'" "wf_num c'" "rdx c' = r"
    "dval (num c') = \<bar>at_scale r a - at_scale r b\<bar>"
    "num c' \<noteq> [] \<Longrightarrow> neg c' \<longleftrightarrow> (if at_scale r b < at_scale r a then neg a else (neg b \<noteq> (sub \<noteq> 0)))"
    "len c' \<le> r + i"
proof -
  have s: "sgn (bc_num_cmp (a\<lparr>neg := False\<rparr>) (b\<lparr>neg := False\<rparr>)) = sgn (at_scale r a - at_scale r b)"
    using cmp_magnitude [of "a\<lparr>neg := False\<rparr>" "b\<lparr>neg := False\<rparr>"] a b by (simp add: wf_abs r_def)
  define cmp where "cmp = bc_num_cmp (a\<lparr>neg := False\<rparr>) (b\<lparr>neg := False\<rparr>)"
  note sg = sgn_eqD [OF s, folded cmp_def]
  consider (eq) "cmp = 0" | (gt) "0 < cmp" | (lt) "cmp < 0" by linarith
  then show ?thesis
  proof cases
    case eq
    show ?thesis
      by (rule that [of "bc_num_setToZero c r"])
        (use eq sg a b in \<open>auto simp: zbc_num_s_def Let_def cmp_def [symmetric] r_def wf_empty\<close>)
  next
    case gt
    then have l: "at_scale (max (rdx a) (rdx b)) b < at_scale (max (rdx a) (rdx b)) a" using sg by (simp add: r_def)
    obtain c' where n: "num_s_arrays a b (neg a) c = Inr c'"
      and w: "wf_num c'" "neg c' = neg a" "rdx c' = max (rdx a) (rdx b)"
      "dval (num c') = at_scale (max (rdx a) (rdx b)) a - at_scale (max (rdx a) (rdx b)) b"
      "len c' \<le> max (rdx a) (rdx b) + (len a - rdx a)"
      by (rule num_s_arrays_spec [OF a(1,2) b(1,2) l])
    have e: "zbc_num_s a b c sub = Inr c'" using n gt a b by (simp add: zbc_num_s_def Let_def cmp_def [symmetric])
    have "len c' \<le> max (rdx a) (rdx b) + max (len a - rdx a) (len b - rdx b)" using w(5) by linarith
    then show ?thesis by (intro that [OF e]) (use w l in \<open>auto simp: r_def i_def\<close>)
  next
    case lt
    then have l: "at_scale (max (rdx b) (rdx a)) a < at_scale (max (rdx b) (rdx a)) b"
      using sg by (simp add: r_def max.commute)
    define ng where "ng = (neg b \<noteq> (sub \<noteq> 0))"
    obtain c' where n: "num_s_arrays b a ng c = Inr c'"
      and w: "wf_num c'" "neg c' = ng" "rdx c' = max (rdx b) (rdx a)"
      "dval (num c') = at_scale (max (rdx b) (rdx a)) b - at_scale (max (rdx b) (rdx a)) a"
      "len c' \<le> max (rdx b) (rdx a) + (len b - rdx b)"
      by (rule num_s_arrays_spec [OF b(1,2) a(1,2) l])
    have "(if sub \<noteq> 0 then \<not> neg b else neg b) = ng" by (simp add: ng_def)
    then have e: "zbc_num_s a b c sub = Inr c'" using n lt a b by (simp add: zbc_num_s_def Let_def cmp_def [symmetric])
    have "len c' \<le> max (rdx a) (rdx b) + max (len a - rdx a) (len b - rdx b)" using w(5) by linarith
    then show ?thesis by (intro that [OF e]) (use w l in \<open>auto simp: r_def i_def ng_def max.commute\<close>)
  qed
qed


subsection \<open>The operations\<close>

lemma value_flip: "bc_value (n\<lparr>neg := \<not> neg n\<rparr>) = - bc_value n"
  by (simp add: bc_value_def)

lemma value_copy [simp]: "bc_value (bc_num_copy c n) = bc_value n"
  by (simp add: bc_value_def)

lemma zero_operand:
  assumes "num a = [] \<or> num b = []" "op = zbc_num_a \<or> op = zbc_num_s"
  shows "op a b c sub = Inr (if num a = [] then
      (if sub \<noteq> 0 \<and> num b \<noteq> [] then (bc_num_copy c b)\<lparr>neg := \<not> neg b\<rparr> else bc_num_copy c b) else bc_num_copy c a)"
  using assms by (auto simp: zbc_num_a_def zbc_num_s_def Let_def)

text \<open>The bound of the length of a sum, and the memory \<^verbatim>\<open>BC_NUM_AREQ\<close> asks for.\<close>

definition sum_len :: "BcNum \<Rightarrow> BcNum \<Rightarrow> nat" where
  "sum_len a b = max (rdx a) (rdx b) + max (len a - rdx a) (len b - rdx b) + 1"

lemma areq:
  assumes "wf_num a" "num a \<noteq> []" "fits a" "wf_num b" "num b \<noteq> []" "fits b"
  shows "BC_NUM_AREQ a b = sum_len a b"
proof -
  have "max (rdx a) (rdx b) < 2 ^ 62" "max (len a - rdx a) (len b - rdx b) < 2 ^ 62"
    using assms(3,6) by (auto simp: fits_def)
  moreover have "x < 2 ^ 62 \<Longrightarrow> y < 2 ^ 62 \<Longrightarrow> x + y + 1 < 2 ^ 64" for x y :: nat by simp
  ultimately have "max (rdx a) (rdx b) + max (len a - rdx a) (len b - rdx b) + 1 < 2 ^ 64" by blast
  then have "sum_len a b < 2 ^ 64" unfolding sum_len_def .
  then have "int (sum_len a b) < 2 ^ 64" by (metis of_nat_less_iff of_nat_numeral of_nat_power)
  moreover have "BC_NUM_AREQ a b = size_t (int (sum_len a b))"
    unfolding BC_NUM_AREQ_def sum_len_def int_part [OF assms(1-3)] int_part [OF assms(4-6)] by (rule refl)
  ultimately show ?thesis by (simp add: size_t_small)
qed

lemma len_sum_len: "len a \<le> sum_len a b" "len b \<le> sum_len a b"
  by (auto simp: sum_len_def)

text \<open>\<open>r\<close> is a sum or a difference of \<open>a\<close> and \<open>b\<close> with value \<open>v\<close>.\<close>

definition sum_ok :: "BcNum \<Rightarrow> BcNum \<Rightarrow> rat \<Rightarrow> BcNum \<Rightarrow> bool" where
  "sum_ok a b v r \<longleftrightarrow> wf_num r \<and> bc_value r = v \<and> rdx r \<le> max (rdx a) (rdx b) \<and> len r \<le> sum_len a b"

lemma addsub_spec:
  assumes a: "wf_num a" "fits a" and b: "wf_num b" "fits b" and c: "BC_NUM_AREQ a b \<le> cap c"
    and o2: "op = zbc_num_a \<or> op = zbc_num_s"
    and op: "num b \<noteq> [] \<Longrightarrow> op = (if neg a = (neg b \<noteq> (sub \<noteq> 0)) then zbc_num_a else zbc_num_s)"
  shows "\<exists>r. op a b c sub = Inr r \<and> sum_ok a b (bc_value a + (if sub \<noteq> 0 then - 1 else 1) * bc_value b) r"
proof (cases "num a = [] \<or> num b = []")
  case True
  have w: "wf_num ((bc_num_copy c b)\<lparr>neg := x\<rparr>)" if "num b \<noteq> []" for x
    using wf_copy [OF b(1), of c] that unfolding wf_num_def by simp
  show ?thesis
    unfolding zero_operand [OF True o2] sum_ok_def
    using True a b w value_flip [of "bc_num_copy c b"]
    by (auto simp: value_0 len_sum_len)
next
  case False
  then have ne: "num a \<noteq> []" "num b \<noteq> []" by auto
  define R where "R = max (rdx a) (rdx b)"
  have ra: "rdx a \<le> R" "rdx b \<le> R" by (auto simp: R_def)
  define nb where "nb = (neg b \<noteq> (sub \<noteq> 0))"
  have v: "bc_value a + (if sub \<noteq> 0 then - 1 else 1) * bc_value b =
      of_int ((if neg a then - 1 else 1) * at_scale R a + (if nb then - 1 else 1) * at_scale R b) / 10 ^ R"
    unfolding value_at_scale [OF ra(1)] value_at_scale [OF ra(2)] by (simp add: nb_def field_simps)
  have cap: "R + max (len a - rdx a) (len b - rdx b) + 1 \<le> cap c"
    using c areq a b ne by (simp add: sum_len_def R_def)
  show ?thesis
  proof (cases "neg a = nb")
    case True
    then have "op = zbc_num_a" using op [OF ne(2), folded nb_def] by simp
    moreover obtain r where r: "zbc_num_a a b c sub = Inr r" "wf_num r" "neg r = neg a" "rdx r = max (rdx a) (rdx b)"
      "dval (num r) = at_scale (max (rdx a) (rdx b)) a + at_scale (max (rdx a) (rdx b)) b"
      "len r \<le> max (rdx a) (rdx b) + max (len a - rdx a) (len b - rdx b) + 1"
      by (rule num_a_spec [OF a(1) ne(1) a(2) b(1) ne(2) b(2), of c sub]) (use cap in \<open>auto simp: R_def\<close>)
    have "bc_value r = of_int ((if neg a then - 1 else 1) * at_scale R a + (if nb then - 1 else 1) * at_scale R b) / 10 ^ R"
      using r True by (simp add: bc_value_def R_def)
    ultimately show ?thesis using r(1,2,4,6) v by (auto simp: sum_ok_def sum_len_def)
  next
    case False
    then have o: "op = zbc_num_s" and sgn: "neg a \<noteq> nb" using op [OF ne(2), folded nb_def] by simp_all
    obtain r where r: "zbc_num_s a b c sub = Inr r" "wf_num r" "rdx r = max (rdx a) (rdx b)"
      "dval (num r) = \<bar>at_scale (max (rdx a) (rdx b)) a - at_scale (max (rdx a) (rdx b)) b\<bar>"
      "num r \<noteq> [] \<Longrightarrow> neg r \<longleftrightarrow> (if at_scale (max (rdx a) (rdx b)) b < at_scale (max (rdx a) (rdx b)) a then neg a else (neg b \<noteq> (sub \<noteq> 0)))"
      "len r \<le> max (rdx a) (rdx b) + max (len a - rdx a) (len b - rdx b)"
      by (rule num_s_spec [OF a(1) ne(1) a(2) b(1) ne(2) b(2), of c sub]) blast
    have "bc_value r = of_int ((if neg a then - 1 else 1) * at_scale R a + (if nb then - 1 else 1) * at_scale R b) / 10 ^ R"
    proof (cases "num r = []")
      case True
      then have "at_scale R a = at_scale R b" using r(4) by (simp add: R_def)
      then show ?thesis using True sgn by (simp add: value_0)
    next
      case False
      then show ?thesis using r(3,4) [folded R_def] r(5) [OF False, folded R_def nb_def] sgn
        by (cases "at_scale R b < at_scale R a") (auto simp: bc_value_def)
    qed
    then show ?thesis using o r(1,2,3,6) v by (auto simp: sum_ok_def sum_len_def)
  qed
qed

lemma binary_cap: "req \<le> cap (if alias then bc_num_init req else bc_num_expand c req)"
  by simp

lemma num_add:
  assumes "wf_num a" "fits a" "wf_num b" "fits b"
  shows "\<exists>r. zbc_num_add alias a b c scale = Inr r \<and> sum_ok a b (bc_value a + bc_value b) r"
  using addsub_spec [OF assms binary_cap [of _ "alias" c], of "if neg a = neg b then zbc_num_a else zbc_num_s" 0]
  by (auto simp: zbc_num_add_def zbc_num_binary_def)

lemma num_sub:
  assumes "wf_num a" "fits a" "wf_num b" "fits b"
  shows "\<exists>r. zbc_num_sub alias a b c scale = Inr r \<and> sum_ok a b (bc_value a - bc_value b) r"
  using addsub_spec [OF assms binary_cap [of _ "alias" c], of "if neg a = neg b then zbc_num_s else zbc_num_a" 1]
  by (auto simp: zbc_num_sub_def zbc_num_binary_def)

end
