(* ===== verification/Bc_Mul.thy ===== *)
theory Bc_Mul
  imports Bc_Add
begin

text \<open>
  Multiplication of bc numbers: the schoolbook loops and Karatsuba's method of \<^verbatim>\<open>zbc_num_k\<close> compute the
  product, and \<^verbatim>\<open>zbc_num_m\<close> puts the point where it belongs and cuts the decimals.
\<close>

subsection \<open>The schoolbook method\<close>

lemma mul_row_spec:
  assumes "length us = length as" "digits us" "digits as" "0 \<le> bi" "bi \<le> 9" "0 \<le> carry" "carry \<le> 9"
  shows "\<exists>ds c'. mul_row (us @ x # vs) as bi carry = (ds @ (x + c') # vs, c') \<and> digits ds \<and> length ds = length us \<and>
    0 \<le> c' \<and> c' \<le> 9 \<and> dval ds + 10 ^ length us * c' = dval us + bi * dval as + carry"
  using assms
proof (induction us as arbitrary: carry rule: list_induct2)
  case (Cons u us a as)
  define v where "v = u + (a * bi + carry)"
  have "0 \<le> a * bi" using Cons.prems by simp
  moreover have "a * bi \<le> 9 * 9" by (rule mult_mono) (use Cons.prems in auto)
  ultimately have "0 \<le> v" "v \<le> 99" using Cons.prems unfolding v_def by simp_all
  then have v: "0 \<le> v div 10" "v div 10 \<le> 9" by auto
  obtain ds c' where ih: "mul_row (us @ x # vs) as bi (v div 10) = (ds @ (x + c') # vs, c')" "digits ds"
    "length ds = length us" "0 \<le> c'" "c' \<le> 9" "dval ds + 10 ^ length us * c' = dval us + bi * dval as + v div 10"
    using Cons.IH [of "v div 10"] Cons.prems v by auto
  have e: "v mod 10 + 10 * (v div 10) = u + (a * bi + carry)" unfolding v_def by simp
  have "dval (v mod 10 # ds) + 10 ^ length (u # us) * c' = v mod 10 + 10 * (dval ds + 10 ^ length us * c')"
    by (simp add: algebra_simps)
  also have "\<dots> = v mod 10 + 10 * (v div 10) + 10 * (dval us + bi * dval as)" unfolding ih(6) by simp
  also have "\<dots> = dval (u # us) + bi * dval (a # as) + carry" unfolding e by (simp add: algebra_simps)
  finally have d: "dval (v mod 10 # ds) + 10 ^ length (u # us) * c' = dval (u # us) + bi * dval (a # as) + carry" .
  have "v mod 10 \<le> 9" using pos_mod_bound [of 10 v] by linarith
  then show ?case
    by (intro exI [of _ "v mod 10 # ds"] exI [of _ c']) (use ih d in \<open>simp add: v_def Let_def\<close>)
qed simp

lemma mul_rows_spec:
  assumes "digits pre" "length pre = i" "digits us" "length us = length as" "digits as" "as \<noteq> []" "digits bs" "bs \<noteq> []"
    "length bs \<le> m" "l \<le> i + length as"
  shows "\<exists>ds t k. mul_rows (pre @ us @ replicate m 0) as bs i l =
      (ds @ t # replicate k 0, length ds + of_bool (t \<noteq> 0)) \<and> digits ds \<and> 0 \<le> t \<and> t \<le> 9 \<and>
    length ds = i + length bs - 1 + length as \<and>
    dval ds + 10 ^ length ds * t = dval pre + 10 ^ i * (dval us + dval as * dval bs)"
  using assms
proof (induction bs arbitrary: pre us i m l)
  case (Cons b bs)
  from Cons.prems obtain m' where m: "m = Suc m'" by (cases m) auto
  obtain ds c' where r: "mul_row (us @ 0 # replicate m' 0) as b 0 = (ds @ (0 + c') # replicate m' 0, c')" "digits ds"
    "length ds = length us" "0 \<le> c'" "c' \<le> 9" "dval ds + 10 ^ length us * c' = dval us + b * dval as + 0"
    using mul_row_spec [of us as b 0 0 "replicate m' 0"] Cons.prems by auto
  have st: "mul_rows (pre @ us @ replicate m 0) as (b # bs) i l =
      mul_rows (pre @ ds @ c' # replicate m' 0) as bs (Suc i) (max l (i + length as + of_bool (c' \<noteq> 0)))"
    using r(1) Cons.prems(2) m by simp
  show ?case
  proof (cases "bs = []")
    case True
    have l: "max l (i + length as + of_bool (c' \<noteq> 0)) = length (pre @ ds) + of_bool (c' \<noteq> 0)"
      using Cons.prems r(3) by simp
    have "dval (pre @ ds) + 10 ^ length (pre @ ds) * c' = dval pre + 10 ^ i * (dval ds + 10 ^ length us * c')"
      using Cons.prems(2) r(3) by (simp add: power_add algebra_simps)
    also have "\<dots> = dval pre + 10 ^ i * (dval us + dval as * dval (b # bs))"
      unfolding r(6) by (simp add: True algebra_simps)
    finally show ?thesis
      by (intro exI [of _ "pre @ ds"] exI [of _ c'] exI [of _ m'])
        (use st l True Cons.prems r in \<open>simp del: dval_append dval.simps\<close>)
  next
    case False
    from Cons.prems r(3) obtain d ds' where ds: "ds = d # ds'" by (cases ds) auto
    have e: "pre @ ds @ c' # replicate m' 0 = (pre @ [d]) @ (ds' @ [c']) @ replicate m' 0" by (simp add: ds)
    have "\<exists>es t k. mul_rows ((pre @ [d]) @ (ds' @ [c']) @ replicate m' 0) as bs (Suc i)
        (max l (i + length as + of_bool (c' \<noteq> 0))) = (es @ t # replicate k 0, length es + of_bool (t \<noteq> 0)) \<and>
      digits es \<and> 0 \<le> t \<and> t \<le> 9 \<and> length es = Suc i + length bs - 1 + length as \<and>
      dval es + 10 ^ length es * t = dval (pre @ [d]) + 10 ^ Suc i * (dval (ds' @ [c']) + dval as * dval bs)"
      by (rule Cons.IH) (use Cons.prems False r(2-5) ds m in auto)
    then obtain es t k where ih: "mul_rows ((pre @ [d]) @ (ds' @ [c']) @ replicate m' 0) as bs (Suc i)
        (max l (i + length as + of_bool (c' \<noteq> 0))) = (es @ t # replicate k 0, length es + of_bool (t \<noteq> 0))"
      "digits es" "0 \<le> t" "t \<le> 9" "length es = Suc i + length bs - 1 + length as"
      "dval es + 10 ^ length es * t = dval (pre @ [d]) + 10 ^ Suc i * (dval (ds' @ [c']) + dval as * dval bs)"
      by blast
    have "dval (pre @ [d]) + 10 ^ Suc i * (dval (ds' @ [c']) + dval as * dval bs) =
        dval pre + 10 ^ i * (dval ds + 10 ^ length ds * c' + 10 * (dval as * dval bs))"
      using Cons.prems(2) by (simp add: ds algebra_simps)
    also have "\<dots> = dval pre + 10 ^ i * (dval us + dval as * dval (b # bs))"
      using r(3,6) by (simp add: algebra_simps)
    finally show ?thesis
      by (intro exI [of _ es] exI [of _ t] exI [of _ k]) (use ih st e False in \<open>simp del: dval_append dval.simps\<close>)
  qed
qed simp

text \<open>A natural number without decimals; a zero may have some.\<close>

definition nat_num :: "BcNum \<Rightarrow> bool" where
  "nat_num n \<longleftrightarrow> wf_num n \<and> \<not> neg n \<and> (num n = [] \<or> rdx n = 0)"

text \<open>The digits of a natural number: no leading zero.\<close>

definition nat_digits :: "int list \<Rightarrow> bool" where
  "nat_digits ds \<longleftrightarrow> digits ds \<and> (ds \<noteq> [] \<longrightarrow> 10 ^ (length ds - 1) \<le> dval ds)"

lemma nat_num_digits: "nat_num n \<Longrightarrow> nat_digits (num n)"
  using wf_top [of n] by (auto simp: nat_num_def nat_digits_def)

lemma nat_numI: "nat_digits (num n) \<Longrightarrow> len n \<le> cap n \<Longrightarrow> rdx n = 0 \<Longrightarrow> \<not> neg n \<Longrightarrow> nat_num n"
proof -
  assume a: "nat_digits (num n)" "len n \<le> cap n" "rdx n = 0" "\<not> neg n"
  show "nat_num n"
  proof (cases "num n = []")
    case True
    then show ?thesis using a by (simp add: nat_num_def wf_empty)
  next
    case False
    have "(1::int) \<le> 10 ^ (len n - 1)" by simp
    then have "0 < dval (num n)" using a False unfolding nat_digits_def by linarith
    then show ?thesis using a False unfolding nat_num_def nat_digits_def by (intro conjI wf_numI disjI2) auto
  qed
qed

lemma product_length:
  assumes "nat_digits ds" "ds \<noteq> []" "dval ds * 10 ^ p < 10 ^ k"
  shows "length ds + p \<le> k"
proof -
  have "(10::int) ^ (length ds - 1) * 10 ^ p \<le> dval ds * 10 ^ p"
    by (rule mult_right_mono) (use assms(1,2) in \<open>auto simp: nat_digits_def\<close>)
  then have "(10::int) ^ (length ds - 1 + p) < 10 ^ k" using assms(3) by (simp only: power_add)
  then have "length ds - 1 + p < k" by (rule power_less_imp_less_exp [rotated]) simp
  then show ?thesis using assms(2) by (cases ds) auto
qed

lemma schoolbook:
  assumes a: "nat_digits a" "a \<noteq> []" and b: "nat_digits b" "b \<noteq> []" and k: "length a + length b + 1 \<le> k"
    and m: "mul_rows (replicate k 0) a b 0 0 = (ds, l)"
  shows "nat_digits (take l ds)" "dval (take l ds) = dval a * dval b" "length (take l ds) \<le> k"
proof -
  have r: "replicate k (0::int) = [] @ replicate (length a) 0 @ replicate (k - length a) 0"
    using k by (simp flip: replicate_add)
  have "\<exists>es t j. mul_rows (replicate k 0) a b 0 0 = (es @ t # replicate j 0, length es + of_bool (t \<noteq> 0)) \<and>
    digits es \<and> 0 \<le> t \<and> t \<le> 9 \<and> length es = 0 + length b - 1 + length a \<and>
    dval es + 10 ^ length es * t = dval [] + 10 ^ 0 * (dval (replicate (length a) 0) + dval a * dval b)"
    unfolding r by (rule mul_rows_spec) (use a b k in \<open>auto simp: nat_digits_def\<close>)
  then obtain es t j where e: "mul_rows (replicate k 0) a b 0 0 = (es @ t # replicate j 0, length es + of_bool (t \<noteq> 0))"
    "digits es" "0 \<le> t" "t \<le> 9" "length es = 0 + length b - 1 + length a"
    "dval es + 10 ^ length es * t = dval [] + 10 ^ 0 * (dval (replicate (length a) 0) + dval a * dval b)"
    by blast
  have v: "dval a * dval b = dval es + 10 ^ length es * t" using e(6) by simp
  have ds: "take l ds = (if t = 0 then es else es @ [t])" using e(1) m by auto
  show d: "dval (take l ds) = dval a * dval b" using ds v by simp
  have g: "digits (take l ds)" using ds e by simp
  show "length (take l ds) \<le> k" using ds e(5) k by (simp split: if_splits)
  have "10 ^ (length (take l ds) - 1) \<le> dval (take l ds)"
  proof (cases "t = 0")
    case True
    have "(10::int) ^ (length a - 1) * 10 ^ (length b - 1) \<le> dval a * dval b"
      by (rule mult_mono) (use a b in \<open>auto simp: nat_digits_def\<close>)
    moreover have "length es - 1 = (length a - 1) + (length b - 1)" using e(5) a b by (cases a; cases b) auto
    ultimately show ?thesis using True ds d by (simp add: power_add)
  next
    case False
    then show ?thesis using top_digit [OF g] ds by simp
  qed
  then show "nat_digits (take l ds)" using g by (simp add: nat_digits_def)
qed


subsection \<open>Karatsuba's method\<close>

lemma shift_spec:
  assumes w: "wf_num n" "\<not> neg n" "rdx n \<le> p" and l: "num n \<noteq> [] \<Longrightarrow> int (p + len n) \<le> BC_MAX_NUM"
  shows "\<exists>r. zbc_num_shift n p = Inr r \<and> nat_num r \<and> dval (num r) = at_scale p n \<and> (rdx n = 0 \<or> num n \<noteq> [] \<longrightarrow> rdx r = 0)"
proof (cases "p = 0 \<or> num n = []")
  case True
  then show ?thesis using w by (auto simp: zbc_num_shift_def nat_num_def at_scale_def)
next
  case False
  define m where "m = (if p \<le> rdx n then n\<lparr>rdx := rdx n - p\<rparr> else (bc_num_extend n (p - rdx n))\<lparr>rdx := 0\<rparr>)"
  have "num m = replicate (p - rdx n) 0 @ num n" "neg m = neg n" "rdx m = 0" using w(3) by (auto simp: m_def)
  moreover have "len m \<le> cap m"
    using extend_cap [OF wf_cap [OF w(1)], of "p - rdx n"] wf_cap [OF w(1)] w(3) by (auto simp: m_def)
  ultimately have m: "digits (num m)" "len m \<le> cap m" "rdx m \<le> len m" "dval (num m) = at_scale p n" "rdx m = 0" "\<not> neg m"
    using w by (auto simp: at_scale_def)
  note cl = clean [OF m(1-3)]
  have "zbc_num_shift n p = Inr (bc_num_clean m)"
    using False l by (auto simp: zbc_num_shift_def m_def)
  then show ?thesis using cl m by (auto simp: nat_num_def)
qed

lemma split_spec:
  assumes "nat_num n" "rdx n = 0" "idx \<le> k" "len n \<le> k + idx" "len n \<le> k"
  shows "\<exists>a b. bc_num_split n idx (bc_num_init k) (bc_num_init k) = Inr (a, b) \<and> nat_num a \<and> nat_num b \<and>
    rdx a = 0 \<and> rdx b = 0 \<and> len a \<le> idx \<and> len b \<le> len n - idx \<and> dval (num n) = dval (num a) + 10 ^ idx * dval (num b)"
proof (cases "idx < len n")
  case True
  define a b where "a = (bc_num_init k)\<lparr>num := take idx (num n), rdx := 0\<rparr>"
    and "b = (bc_num_init k)\<lparr>num := drop idx (num n), rdx := 0\<rparr>"
  have cap: "idx \<le> cap (bc_num_init k)" "len n - idx \<le> cap (bc_num_init k)"
    using assms(3,5) init_simps(4) [of k] by linarith+
  have wa: "digits (num a)" "len a \<le> cap a" "rdx a \<le> len a" and wb: "digits (num b)" "len b \<le> cap b" "rdx b \<le> len b"
    using assms cap by (auto simp: a_def b_def nat_num_def)
  have "bc_num_split n idx (bc_num_init k) (bc_num_init k) = Inr (bc_num_clean a, bc_num_clean b)"
    using True cap by (simp add: bc_num_split_def a_def b_def)
  moreover have "rdx a = 0" "rdx b = 0" "\<not> neg a" "\<not> neg b" "len a \<le> idx" "len b \<le> len n - idx"
    "dval (num n) = dval (num a) + 10 ^ idx * dval (num b)"
    using True dval_split [of "num n" idx] by (auto simp: a_def b_def min_absorb2)
  ultimately show ?thesis
    using clean [OF wa] clean [OF wb] by (auto simp: nat_num_def intro: order_trans)
next
  case False
  define a where "a = bc_num_copy (bc_num_init k) n"
  have wa: "digits (num a)" "len a \<le> cap a" "rdx a \<le> len a"
    using assms order_trans [OF wf_cap copy_simps(4), of n "bc_num_init k"] by (auto simp: a_def nat_num_def)
  have wb: "digits (num (bc_num_zero (bc_num_init k)))" "len (bc_num_zero (bc_num_init k)) \<le> cap (bc_num_zero (bc_num_init k))"
    "rdx (bc_num_zero (bc_num_init k)) \<le> len (bc_num_zero (bc_num_init k))" by auto
  have "bc_num_split n idx (bc_num_init k) (bc_num_init k) = Inr (bc_num_clean a, bc_num_clean (bc_num_zero (bc_num_init k)))"
    using False by (simp add: bc_num_split_def a_def)
  moreover have "rdx a = 0" "\<not> neg a" "num a = num n" using assms by (auto simp: a_def nat_num_def)
  ultimately show ?thesis
    using clean [OF wa] clean [OF wb] False assms(1,2) by (auto simp: nat_num_def intro: order_trans)
qed

text \<open>Sums and differences of natural numbers.\<close>

lemma nat_value: "nat_num n \<Longrightarrow> bc_value n = of_int (dval (num n))"
  by (auto simp: nat_num_def bc_value_def)

lemma sum_ok_nat:
  assumes "sum_ok a b (of_int v) r" "rdx a = 0" "rdx b = 0" "0 \<le> v"
  shows "nat_num r \<and> rdx r = 0 \<and> dval (num r) = v \<and> len r \<le> max (len a) (len b) + 1"
proof -
  have r: "wf_num r" "bc_value r = of_int v" "rdx r = 0" "len r \<le> max (len a) (len b) + 1"
    using assms by (auto simp: sum_ok_def sum_len_def)
  have "\<not> neg r" using value_neg [OF r(1)] r(2) assms(4) by simp
  moreover from this have "dval (num r) = v" using r by (simp add: bc_value_def)
  ultimately show ?thesis using r by (simp add: nat_num_def)
qed

lemma nat_add:
  assumes "nat_num a" "rdx a = 0" "nat_num b" "rdx b = 0" "len a < 2 ^ 62" "len b < 2 ^ 62"
  shows "\<exists>r. zbc_num_add al a b c s = Inr r \<and> nat_num r \<and> rdx r = 0 \<and> dval (num r) = dval (num a) + dval (num b) \<and>
    len r \<le> max (len a) (len b) + 1"
proof -
  have "wf_num a" "wf_num b" "fits a" "fits b" "digits (num a)" "digits (num b)" using assms by (auto simp: nat_num_def fits_def)
  then obtain r where r: "zbc_num_add al a b c s = Inr r" "sum_ok a b (bc_value a + bc_value b) r" "0 \<le> dval (num a)" "0 \<le> dval (num b)"
    using num_add dval_nonneg by meson
  have "sum_ok a b (of_int (dval (num a) + dval (num b))) r" using r(2) nat_value assms by simp
  then show ?thesis using sum_ok_nat [of a b "dval (num a) + dval (num b)" r] r(1,3,4) assms by simp
qed

lemma nat_sub:
  assumes "nat_num a" "rdx a = 0" "nat_num b" "rdx b = 0" "len a < 2 ^ 62" "len b < 2 ^ 62" "dval (num b) \<le> dval (num a)"
  shows "\<exists>r. zbc_num_sub al a b c s = Inr r \<and> nat_num r \<and> rdx r = 0 \<and> dval (num r) = dval (num a) - dval (num b) \<and>
    len r \<le> max (len a) (len b) + 1"
proof -
  have "wf_num a" "wf_num b" "fits a" "fits b" "digits (num a)" "digits (num b)" using assms by (auto simp: nat_num_def fits_def)
  then obtain r where r: "zbc_num_sub al a b c s = Inr r" "sum_ok a b (bc_value a - bc_value b) r" "0 \<le> dval (num a)" "0 \<le> dval (num b)"
    using num_sub dval_nonneg by meson
  have "sum_ok a b (of_int (dval (num a) - dval (num b))) r" using r(2) nat_value assms by simp
  then show ?thesis using sum_ok_nat [of a b "dval (num a) - dval (num b)" r] r(1,3,4) assms by simp
qed

text \<open>\<open>is_product a b c r\<close>: the digits of \<open>r\<close> are those of the product; sign and decimals are zero when they
  were in the object \<open>c\<close> it is written to.\<close>

definition is_product :: "BcNum \<Rightarrow> BcNum \<Rightarrow> BcNum \<Rightarrow> BcNum \<Rightarrow> bool" where
  "is_product a b c r \<longleftrightarrow> nat_digits (num r) \<and> len r \<le> cap r \<and> dval (num r) = dval (num a) * dval (num b) \<and>
     (rdx c = 0 \<and> \<not> neg c \<longrightarrow> rdx r = 0 \<and> \<not> neg r)"

lemma is_product_nat:
  "is_product a b c r \<Longrightarrow> rdx c = 0 \<Longrightarrow> \<not> neg c \<Longrightarrow> nat_num r \<and> rdx r = 0 \<and> dval (num r) = dval (num a) * dval (num b)"
  by (auto simp: is_product_def intro: nat_numI)

lemma product_less:
  assumes "digits a" "digits b"
  shows "dval a * dval b < 10 ^ (length a + length b)"
  unfolding power_add by (rule mult_strict_mono) (use assms dval_less in auto)

lemma small_num_k:
  assumes a: "nat_num a" and b: "nat_num b"
    and s: "num a = [] \<or> num b = [] \<or> BC_NUM_ONE a \<or> BC_NUM_ONE b \<or> len a < 32 \<or> len b < 32"
  shows "\<exists>r. num_k (Suc depth) a b c = Inr r \<and> is_product a b c r"
proof -
  consider (empty) "num a = [] \<or> num b = []" | (one) "num a \<noteq> []" "num b \<noteq> []" "BC_NUM_ONE a \<or> BC_NUM_ONE b"
    | (school) "num a \<noteq> []" "num b \<noteq> []" "\<not> (BC_NUM_ONE a \<or> BC_NUM_ONE b)" "len a < 32 \<or> len b < 32" using s by blast
  then show ?thesis
  proof cases
    case empty
    then show ?thesis by (auto simp: is_product_def nat_digits_def)
  next
    case one
    have o: "num n = [1]" if "BC_NUM_ONE n" for n
      using that by (cases "num n") (auto simp: BC_NUM_ONE_def)
    define m where "m = (if BC_NUM_ONE a then b else a)"
    have m: "nat_num m" "num m \<noteq> []" "dval (num m) = dval (num a) * dval (num b)" using one o a b by (auto simp: m_def)
    have "num_k (Suc depth) a b c = Inr (bc_num_copy c m)" using one by (simp add: m_def)
    moreover have "is_product a b c (bc_num_copy c m)"
      using m nat_num_digits [OF m(1)] order_trans [OF wf_cap copy_simps(4), of m c] by (auto simp: is_product_def nat_num_def)
    ultimately show ?thesis by blast
  next
    case school
    define c' where "c' = bc_num_expand c (len a + len b + 1)"
    obtain ds l where m: "mul_rows (replicate (cap c') 0) (num a) (num b) 0 0 = (ds, l)" by force
    have "len a + len b + 1 \<le> cap c'" unfolding c'_def by (rule expand_simps(4))
    note sb = schoolbook [OF nat_num_digits [OF a] school(1) nat_num_digits [OF b] school(2) this m]
    have "num_k (Suc depth) a b c = Inr (c'\<lparr>num := take l ds\<rparr>)"
      using school m by (simp add: BC_NUM_KARATSUBA_LEN_def c'_def Let_def)
    moreover have "is_product a b c (c'\<lparr>num := take l ds\<rparr>)" using sb by (simp add: is_product_def) (simp add: c'_def)
    ultimately show ?thesis by blast
  qed
qed


lemma nat_len: "nat_num n \<Longrightarrow> dval (num n) < 10 ^ k \<Longrightarrow> len n \<le> k"
  using product_length [of "num n" 0 k] nat_num_digits [of n] by (cases "num n = []") auto

text \<open>The numbers of one level: the halves, their sums and the three products.\<close>

lemma karatsuba_combine:
  assumes z0: "nat_num z0" "rdx z0 = 0" "dval (num z0) = h1 * h2" and z2: "nat_num z2" "rdx z2 = 0" "dval (num z2) = l1 * l2"
    and z1: "nat_num z1" "rdx z1 = 0" "dval (num z1) = (h1 + l1) * (h2 + l2)" "len z1 < 2 ^ 60"
    and pos: "0 \<le> h1" "0 \<le> h2" "0 \<le> l1" "0 \<le> l2"
    and prod: "(l1 + 10 ^ p * h1) * (l2 + 10 ^ p * h2) < 10 ^ k" and k: "int k \<le> BC_MAX_NUM"
  shows "\<exists>r. on_success (zbc_num_sub False z1 z0 t 0) (\<lambda>temp.
      on_success (zbc_num_sub False temp z2 z1 0) (\<lambda>z1.
      on_success (zbc_num_shift z0 (p * 2)) (\<lambda>z0.
      on_success (zbc_num_shift z1 p) (\<lambda>z1.
      on_success (zbc_num_add False z0 z1 temp 0) (\<lambda>temp.
      zbc_num_add False temp z2 c 0))))) = Inr r \<and>
    nat_num r \<and> rdx r = 0 \<and> dval (num r) = (l1 + 10 ^ p * h1) * (l2 + 10 ^ p * h2)"
proof -
  define P :: int where "P = 10 ^ p"
  have P: "1 \<le> P" "10 ^ (p * 2) = P * P" by (simp_all add: P_def power_mult power2_eq_square)
  have e: "(l1 + P * h1) * (l2 + P * h2) = h1 * h2 * (P * P) + (h1 * l2 + l1 * h2) * P + l1 * l2"
    by (simp add: algebra_simps)
  have n: "0 \<le> h1 * h2" "0 \<le> l1 * l2" "0 \<le> h1 * l2 + l1 * h2" using pos by simp_all
  have n': "0 \<le> h1 * h2 * (P * P)" "0 \<le> (h1 * l2 + l1 * h2) * P" using n P(1) by simp_all
  have up: "h1 * h2 * 10 ^ (p * 2) < 10 ^ k" "(h1 * l2 + l1 * h2) * 10 ^ p < 10 ^ k" "l1 * l2 < 10 ^ k"
    "h1 * h2 * (P * P) + (h1 * l2 + l1 * h2) * P < 10 ^ k"
    using prod e n n' unfolding P(2) P_def [symmetric] by linarith+
  have "1 * 1 \<le> P * P" by (rule mult_mono) (use P in auto)
  then have "h1 * h2 * 1 \<le> h1 * h2 * (P * P)" by (intro mult_left_mono) (use n in auto)
  then have "len z0 \<le> k" "len z2 \<le> k" using nat_len [OF z0(1)] nat_len [OF z2(1)] z0 z2 up P by auto
  moreover have "k < 2 ^ 33" using k by (simp add: BC_MAX_NUM_def)
  moreover have "(2::nat) ^ 33 < 2 ^ 60" "(2::nat) ^ 60 + 1 < 2 ^ 61" "(2::nat) ^ 61 + 1 < 2 ^ 62" by simp_all
  ultimately have small: "len z0 < 2 ^ 60" "len z2 < 2 ^ 60" "k < 2 ^ 60" by linarith+
  have "(h1 + l1) * (h2 + l2) = h1 * h2 + (h1 * l2 + l1 * h2) + l1 * l2" by (simp add: algebra_simps)
  note z1e = z1(3) [unfolded this]
  obtain temp where t: "zbc_num_sub False z1 z0 t 0 = Inr temp" "nat_num temp" "rdx temp = 0"
    "dval (num temp) = (h1 * l2 + l1 * h2) + l1 * l2" "len temp \<le> max (len z1) (len z0) + 1"
    using nat_sub [OF z1(1,2) z0(1,2), of False t 0] z1(4) z1e z0(3) n small by auto
  have t6: "len temp < 2 ^ 62" using t(5) z1(4) small by simp
  obtain y where y: "zbc_num_sub False temp z2 z1 0 = Inr y" "nat_num y" "rdx y = 0" "dval (num y) = h1 * l2 + l1 * h2"
    using nat_sub [OF t(2,3) z2(1,2), of False z1 0] t6 t(4) z2(3) n small by auto
  have fit: "int (q + len m) \<le> BC_MAX_NUM" if "nat_num m" "num m \<noteq> []" "dval (num m) * 10 ^ q < 10 ^ k" for m q
    using product_length [OF nat_num_digits [OF that(1)] that(2,3)] k by linarith
  obtain x0 where x0: "zbc_num_shift z0 (p * 2) = Inr x0" "nat_num x0" "rdx x0 = 0" "dval (num x0) = h1 * h2 * (P * P)"
    using shift_spec [of z0 "p * 2"] fit [OF z0(1), of "p * 2"] z0 up(1) P(2) by (auto simp: nat_num_def at_scale_def)
  obtain x1 where x1: "zbc_num_shift y p = Inr x1" "nat_num x1" "rdx x1 = 0" "dval (num x1) = (h1 * l2 + l1 * h2) * P"
    using shift_spec [of y p] fit [OF y(2), of p] y up(2) by (auto simp: nat_num_def at_scale_def P_def)
  have lx: "len x0 < 2 ^ 62" "len x1 < 2 ^ 62"
    using nat_len [OF x0(2), of k] nat_len [OF x1(2), of k] x0(4) x1(4) up P small by (auto simp: P_def)
  obtain w where w: "zbc_num_add False x0 x1 temp 0 = Inr w" "nat_num w" "rdx w = 0"
    "dval (num w) = h1 * h2 * (P * P) + (h1 * l2 + l1 * h2) * P"
    using nat_add [OF x0(2,3) x1(2,3) lx, of False temp 0] x0(4) x1(4) by auto
  have lw: "len w < 2 ^ 62" "len z2 < 2 ^ 62" using nat_len [OF w(2), of k] w(4) up(4) small by auto
  obtain r where "zbc_num_add False w z2 c 0 = Inr r" "nat_num r" "rdx r = 0" "dval (num r) = dval (num w) + dval (num z2)"
    using nat_add [OF w(2,3) z2(1,2) lw, of False c 0] by auto
  then show ?thesis using t(1) y(1) x0(1) x1(1) w z2(3) e by (simp add: on_success_def P_def [symmetric])
qed


lemma on_success_simps [simp]: "on_success (Inr x) f = f x" "on_success (Inl e) f = Inl e"
  by (simp_all add: on_success_def)

lemma num_k_large:
  assumes "num a \<noteq> []" "num b \<noteq> []" "\<not> BC_NUM_ONE a" "\<not> BC_NUM_ONE b" "32 \<le> len a" "32 \<le> len b"
    "mx = max (len a) (len b)" "max2 = (mx + 1) div 2" "new = bc_num_init mx"
  shows "num_k (Suc depth) a b c =
    on_success (bc_num_split a max2 new new) (\<lambda>(l1, h1).
    on_success (bc_num_split b max2 new new) (\<lambda>(l2, h2).
    on_success (zbc_num_add False h1 l1 new 0) (\<lambda>m1.
    on_success (zbc_num_add False h2 l2 new 0) (\<lambda>m2.
    on_success (num_k depth h1 h2 new) (\<lambda>z0.
    on_success (num_k depth m1 m2 new) (\<lambda>z1.
    on_success (num_k depth l1 l2 new) (\<lambda>z2.
    on_success (zbc_num_sub False z1 z0 (bc_num_init (mx + mx)) 0) (\<lambda>temp.
    on_success (zbc_num_sub False temp z2 z1 0) (\<lambda>z1.
    on_success (zbc_num_shift z0 (max2 * 2)) (\<lambda>z0.
    on_success (zbc_num_shift z1 max2) (\<lambda>z1.
    on_success (zbc_num_add False z0 z1 temp 0) (\<lambda>temp.
    zbc_num_add False temp z2 c 0))))))))))))"
  using assms(1-6) unfolding num_k.simps(2) Let_def assms(7-9) BC_NUM_KARATSUBA_LEN_def by (simp only: length_0_conv) auto

lemma num_k_spec:
  assumes "nat_num a" "nat_num b" "max (len a) (len b) < depth" "int (len a + len b) \<le> BC_MAX_NUM"
  shows "\<exists>r. num_k depth a b c = Inr r \<and> is_product a b c r"
  using assms
proof (induction depth arbitrary: a b c)
  case (Suc depth)
  show ?case
  proof (cases "num a = [] \<or> num b = [] \<or> BC_NUM_ONE a \<or> BC_NUM_ONE b \<or> len a < 32 \<or> len b < 32")
    case True
    then show ?thesis by (rule small_num_k [OF Suc.prems(1,2)])
  next
    case False
    then have ne: "num a \<noteq> []" "num b \<noteq> []" "\<not> BC_NUM_ONE a" "\<not> BC_NUM_ONE b" and l32: "32 \<le> len a" "32 \<le> len b"
      and rx: "rdx a = 0" "rdx b = 0" using Suc.prems(1,2) by (auto simp: nat_num_def)
    define mx where "mx = max (len a) (len b)"
    define max2 where "max2 = (mx + 1) div 2"
    define new where "new = bc_num_init mx"
    have m: "max2 \<le> mx" "len a \<le> mx + max2" "len b \<le> mx + max2" "len a \<le> mx" "len b \<le> mx" "mx - max2 \<le> max2"
      "max2 + 1 < mx" "mx \<le> depth" "mx + 32 \<le> len a + len b"
      using l32 Suc.prems(3) by (auto simp: mx_def max2_def)
    have small: "mx < 2 ^ 33" using Suc.prems(4) m(9) by (simp add: BC_MAX_NUM_def)
    obtain l1 h1 where s1: "bc_num_split a max2 new new = Inr (l1, h1)" "nat_num l1" "nat_num h1" "rdx l1 = 0" "rdx h1 = 0"
      "len l1 \<le> max2" "len h1 \<le> len a - max2" "dval (num a) = dval (num l1) + 10 ^ max2 * dval (num h1)"
      using split_spec [OF Suc.prems(1) rx(1) m(1,2,4)] by (auto simp: new_def)
    obtain l2 h2 where s2: "bc_num_split b max2 new new = Inr (l2, h2)" "nat_num l2" "nat_num h2" "rdx l2 = 0" "rdx h2 = 0"
      "len l2 \<le> max2" "len h2 \<le> len b - max2" "dval (num b) = dval (num l2) + 10 ^ max2 * dval (num h2)"
      using split_spec [OF Suc.prems(2) rx(2) m(1,3,5)] by (auto simp: new_def)
    have l: "len l1 \<le> max2" "len h1 \<le> max2" "len l2 \<le> max2" "len h2 \<le> max2" using s1 s2 m by linarith+
    have l62: "max2 + 1 < 2 ^ 33" "(2::nat) ^ 33 < 2 ^ 62" using m small by simp_all
    obtain m1 where m1: "zbc_num_add False h1 l1 new 0 = Inr m1" "nat_num m1" "rdx m1 = 0"
      "dval (num m1) = dval (num h1) + dval (num l1)" "len m1 \<le> max (len h1) (len l1) + 1"
      using nat_add [of h1 l1 False new 0] s1 l l62 by auto
    obtain m2 where m2: "zbc_num_add False h2 l2 new 0 = Inr m2" "nat_num m2" "rdx m2 = 0"
      "dval (num m2) = dval (num h2) + dval (num l2)" "len m2 \<le> max (len h2) (len l2) + 1"
      using nat_add [of h2 l2 False new 0] s2 l l62 by auto
    have lm: "len m1 \<le> max2 + 1" "len m2 \<le> max2 + 1" using m1(5) m2(5) l by auto
    have fit: "int (len x + len y) \<le> BC_MAX_NUM" if "len x \<le> max2 + 1" "len y \<le> max2 + 1" for x y
      using Suc.prems(4) m(6,7,9) that max2_def by linarith
    have new: "rdx new = 0" "\<not> neg new" by (simp_all add: new_def)
    have rec: "\<exists>z. num_k depth x y new = Inr z \<and> nat_num z \<and> rdx z = 0 \<and> dval (num z) = dval (num x) * dval (num y)"
      if "nat_num x" "nat_num y" "len x \<le> max2 + 1" "len y \<le> max2 + 1" for x y
      using Suc.IH [of x y new] that fit [OF that(3,4)] m is_product_nat [OF _ new] by fastforce
    obtain z0 where z0: "num_k depth h1 h2 new = Inr z0" "nat_num z0" "rdx z0 = 0" "dval (num z0) = dval (num h1) * dval (num h2)"
      using rec [of h1 h2] s1 s2 l by auto
    obtain z1 where z1: "num_k depth m1 m2 new = Inr z1" "nat_num z1" "rdx z1 = 0" "dval (num z1) = dval (num m1) * dval (num m2)"
      using rec [of m1 m2] m1 m2 lm by auto
    obtain z2 where z2: "num_k depth l1 l2 new = Inr z2" "nat_num z2" "rdx z2 = 0" "dval (num z2) = dval (num l1) * dval (num l2)"
      using rec [of l1 l2] s1 s2 l by auto
    have dg: "digits (num n)" if "nat_num n" for n using that by (auto simp: nat_num_def)
    have "len z1 \<le> len m1 + len m2"
      by (rule nat_len [OF z1(2)]) (use z1(4) product_less [OF dg [OF m1(2)] dg [OF m2(2)]] in simp)
    moreover have "(2::nat) ^ 33 + 2 ^ 33 < 2 ^ 60" by simp
    ultimately have lz1: "len z1 < 2 ^ 60" using lm l62(1) by linarith
    have prod: "(dval (num l1) + 10 ^ max2 * dval (num h1)) * (dval (num l2) + 10 ^ max2 * dval (num h2)) < 10 ^ (len a + len b)"
      using product_less [OF dg [OF Suc.prems(1)] dg [OF Suc.prems(2)]] s1(8) s2(8) by simp
    have "0 \<le> dval (num h1)" "0 \<le> dval (num h2)" "0 \<le> dval (num l1)" "0 \<le> dval (num l2)" using s1 s2 dg by auto
    from karatsuba_combine [OF z0(2-4) z2(2-4) z1(2,3) z1(4) [unfolded m1(4) m2(4)] lz1 this prod Suc.prems(4),
        of "bc_num_init (mx + mx)" c]
    obtain r where r: "on_success (zbc_num_sub False z1 z0 (bc_num_init (mx + mx)) 0) (\<lambda>temp.
      on_success (zbc_num_sub False temp z2 z1 0) (\<lambda>z1.
      on_success (zbc_num_shift z0 (max2 * 2)) (\<lambda>z0.
      on_success (zbc_num_shift z1 max2) (\<lambda>z1.
      on_success (zbc_num_add False z0 z1 temp 0) (\<lambda>temp.
      zbc_num_add False temp z2 c 0))))) = Inr r" "nat_num r" "rdx r = 0"
      "dval (num r) = dval (num a) * dval (num b)" using s1(8) s2(8) by auto
    have "num_k (Suc depth) a b c = Inr r"
      unfolding num_k_large [OF ne l32 mx_def max2_def new_def] by (simp add: s1(1) s2(1) m1(1) m2(1) z0(1) z1(1) z2(1) r(1))
    moreover have "is_product a b c r"
      using r nat_num_digits by (auto simp: is_product_def nat_num_def wf_cap)
    ultimately show ?thesis by blast
  qed
qed simp

lemma zbc_num_k_spec:
  assumes "nat_num a" "nat_num b" "int (len a + len b) \<le> BC_MAX_NUM"
  shows "\<exists>r. zbc_num_k a b c = Inr r \<and> is_product a b c r"
  unfolding zbc_num_k_def by (rule num_k_spec) (use assms in auto)


subsection \<open>Cutting the decimals\<close>

text \<open>A number cut after \<open>s\<close> decimals.\<close>

definition trunc_dec :: "nat \<Rightarrow> rat \<Rightarrow> rat" where
  "trunc_dec s x = (if x < 0 then - 1 else 1) * of_int \<lfloor>\<bar>x\<bar> * 10 ^ s\<rfloor> / 10 ^ s"

lemma floor_scale:
  "\<lfloor>of_int d / 10 ^ r * 10 ^ s :: rat\<rfloor> = (if r < s then d * 10 ^ (s - r) else d div 10 ^ (r - s))"
proof (cases "r < s")
  case True
  then have "(10 :: rat) ^ s = 10 ^ r * 10 ^ (s - r)" by (simp flip: power_add)
  then have "of_int d / 10 ^ r * 10 ^ s = (of_int (d * 10 ^ (s - r)) :: rat)" by simp
  then show ?thesis using True by (simp only: floor_of_int if_True)
next
  case False
  then have "(10 :: rat) ^ r = 10 ^ s * 10 ^ (r - s)" by (simp flip: power_add)
  then have "of_int d / 10 ^ r * 10 ^ s = of_int d / (of_int (10 ^ (r - s)) :: rat)" by simp
  then show ?thesis using False by (simp only: floor_divide_of_int_eq if_False)
qed

lemma retireMul_spec:
  fixes s :: nat
  assumes n: "digits (num n)" "len n \<le> cap n" "rdx n \<le> len n"
  defines "q \<equiv> \<lfloor>of_int (dval (num n)) / 10 ^ rdx n * 10 ^ s :: rat\<rfloor>"
  shows "wf_num (bc_num_retireMul n s n1 n2)" "rdx (bc_num_retireMul n s n1 n2) = s"
    "dval (num (bc_num_retireMul n s n1 n2)) = q"
    "bc_value (bc_num_retireMul n s n1 n2) = (if n1 \<noteq> n2 then - 1 else 1) * of_int q / 10 ^ s"
proof -
  define m where "m = (if rdx n < s then bc_num_extend n (s - rdx n) else bc_num_truncate n (rdx n - s))"
  have m: "digits (num m)" "len m \<le> cap m" "rdx m \<le> len m" "rdx m = s"
    using n extend_cap [OF n(2), of "s - rdx n"] by (auto simp: m_def)
  have v: "dval (num m) = q"
    using n(1) unfolding q_def floor_scale m_def by (simp add: dval_drop)
  note cl = clean [OF m(1-3)]
  have r: "bc_num_retireMul n s n1 n2 =
      (if num (bc_num_clean m) \<noteq> [] then (bc_num_clean m)\<lparr>neg := (n1 \<noteq> n2)\<rparr> else bc_num_clean m)"
    by (simp add: bc_num_retireMul_def Let_def m_def)
  show "rdx (bc_num_retireMul n s n1 n2) = s" "dval (num (bc_num_retireMul n s n1 n2)) = q"
    using r cl m v by auto
  show "wf_num (bc_num_retireMul n s n1 n2)" using r cl(1) unfolding wf_num_def by auto
  show "bc_value (bc_num_retireMul n s n1 n2) = (if n1 \<noteq> n2 then - 1 else 1) * of_int q / 10 ^ s"
    using r cl m v by (auto simp: bc_value_def)
qed

lemma abs_value: "wf_num n \<Longrightarrow> \<bar>bc_value n\<bar> = of_int (dval (num n)) / 10 ^ rdx n"
  by (simp add: bc_value_def abs_mult)

lemma signed_trunc:
  assumes "x \<noteq> 0 \<Longrightarrow> ng \<longleftrightarrow> x < 0"
  shows "(if ng then - 1 else 1) * of_int \<lfloor>\<bar>x\<bar> * 10 ^ s\<rfloor> / 10 ^ s = trunc_dec s x"
  using assms by (cases "x = 0") (auto simp: trunc_dec_def)

text \<open>The number of decimals of a product.\<close>

definition mul_scale :: "BcNum \<Rightarrow> BcNum \<Rightarrow> nat \<Rightarrow> nat" where
  "mul_scale a b scale = min (rdx a + rdx b) (max scale (max (rdx a) (rdx b)))"

lemma operand_spec:
  assumes a: "wf_num a" "rdx a \<le> s" and l: "int (s + len a) \<le> BC_MAX_NUM"
  shows "\<exists>r. zbc_num_shift ((bc_num_init_and_copy a)\<lparr>neg := False\<rparr>) s = Inr r \<and> nat_num r \<and>
    dval (num r) = at_scale s a \<and> len r \<le> s + len a"
proof -
  define x where "x = (bc_num_init_and_copy a)\<lparr>neg := False\<rparr>"
  have "wf_num x" using a unfolding x_def bc_num_init_and_copy_def by (intro wf_abs) simp
  then obtain r where r: "zbc_num_shift x s = Inr r" "nat_num r" "dval (num r) = at_scale s a"
    using shift_spec [of x s] a(2) l by (auto simp: x_def bc_num_init_and_copy_def at_scale_def)
  have "at_scale s a < 10 ^ (s + len a)"
  proof (cases "num a = []")
    case False
    have "s + (len a - rdx a) \<le> s + len a" by simp
    then have "(10::int) ^ (s + (len a - rdx a)) \<le> 10 ^ (s + len a)" by (rule power_increasing) simp
    then show ?thesis using at_scale_less [OF a(1) False a(2)] by linarith
  qed (simp add: at_scale_def)
  then show ?thesis using r nat_len [OF r(2), of "s + len a"] by (auto simp: x_def)
qed

lemma num_m_spec:
  fixes scale :: nat
  assumes a: "wf_num a" and b: "wf_num b"
  defines "s \<equiv> mul_scale a b scale"
  assumes l: "int (len a + len b + 2 * s) \<le> BC_MAX_NUM"
  shows "\<exists>r. zbc_num_m a b c scale = Inr r \<and> wf_num r \<and> rdx r = s \<and>
    bc_value r = trunc_dec s (bc_value a * bc_value b) \<and> dval (num r) = \<lfloor>\<bar>bc_value a * bc_value b\<bar> * 10 ^ s\<rfloor>"
proof -
  have s: "rdx a \<le> s" "rdx b \<le> s" by (auto simp: s_def mul_scale_def)
  have sc: "min (rdx a + rdx b) (max (max scale (rdx a)) (rdx b)) = s" "max (max (rdx a) (rdx b)) s = s"
    using s by (auto simp: s_def mul_scale_def max.assoc)
  obtain x where x: "zbc_num_shift ((bc_num_init_and_copy a)\<lparr>neg := False\<rparr>) s = Inr x" "nat_num x"
    "dval (num x) = at_scale s a" "len x \<le> s + len a"
    using operand_spec [OF a s(1)] l by auto
  obtain y where y: "zbc_num_shift ((bc_num_init_and_copy b)\<lparr>neg := False\<rparr>) s = Inr y" "nat_num y"
    "dval (num y) = at_scale s b" "len y \<le> s + len b"
    using operand_spec [OF b s(2)] l by auto
  obtain z where z: "zbc_num_k x y c = Inr z" "is_product x y c z"
    using zbc_num_k_spec [OF x(2) y(2), of c] x(4) y(4) l by auto
  define z1 where "z1 = bc_num_expand z (len z + (s + s))"
  define z2 where "z2 = (if len z1 < s + s then z1\<lparr>num := num z1 @ replicate (s + s) 0\<rparr> else z1)\<lparr>rdx := s + s\<rparr>"
  have dg: "digits (num z)" "len z \<le> cap z" "dval (num z) = at_scale s a * at_scale s b"
    using z(2) x(3) y(3) by (auto simp: is_product_def nat_digits_def)
  have "len z + (s + s) \<le> cap z1" unfolding z1_def by (rule expand_simps(4))
  moreover have "num z1 = num z" by (simp add: z1_def)
  ultimately have z2: "digits (num z2)" "len z2 \<le> cap z2" "rdx z2 \<le> len z2" "rdx z2 = s + s"
    "dval (num z2) = at_scale s a * at_scale s b"
    using dg by (auto simp: z2_def)
  have "of_int (at_scale s a * at_scale s b) / 10 ^ (s + s) = \<bar>bc_value a * bc_value b\<bar>"
    unfolding value_at_scale [OF s(1)] value_at_scale [OF s(2)] using a b by (simp add: abs_mult power_add)
  then have q: "\<lfloor>of_int (dval (num z2)) / 10 ^ rdx z2 * 10 ^ s :: rat\<rfloor> = \<lfloor>\<bar>bc_value a * bc_value b\<bar> * 10 ^ s\<rfloor>"
    using z2 by simp
  note rt = retireMul_spec [OF z2(1-3), of s "neg a" "neg b", unfolded q]
  have "zbc_num_m a b c scale = Inr (bc_num_retireMul z2 s (neg a) (neg b))"
    unfolding zbc_num_m_def Let_def sc x(1) y(1) on_success_simps z(1) by (simp add: z1_def z2_def)
  moreover have "(neg a \<noteq> neg b) \<longleftrightarrow> bc_value a * bc_value b < 0" if "bc_value a * bc_value b \<noteq> 0"
    using that value_neg [OF a] value_neg [OF b] by (auto simp: mult_less_0_iff)
  ultimately show ?thesis using rt signed_trunc [of "bc_value a * bc_value b" "neg a \<noteq> neg b" s] by auto
qed

lemma num_mul:
  assumes "wf_num a" "wf_num b" "int (len a + len b + 2 * mul_scale a b scale) \<le> BC_MAX_NUM"
  shows "\<exists>r. zbc_num_mul al a b c scale = Inr r \<and> wf_num r \<and> rdx r = mul_scale a b scale \<and>
    bc_value r = trunc_dec (mul_scale a b scale) (bc_value a * bc_value b) \<and>
    dval (num r) = \<lfloor>\<bar>bc_value a * bc_value b\<bar> * 10 ^ mul_scale a b scale\<rfloor>"
  unfolding zbc_num_mul_def zbc_num_binary_def by (rule num_m_spec [OF assms])

end
