(* ===== verification/Bc_Div.thy ===== *)
theory Bc_Div
  imports Bc_Mul
begin

text \<open>
  Division of bc numbers: the long division of \<^verbatim>\<open>zbc_num_d\<close> computes the quotient cut after \<open>scale\<close>
  decimals, and \<^verbatim>\<open>zbc_num_r\<close> the remainder that belongs to it.
\<close>

subsection \<open>One digit of the quotient\<close>

text \<open>\<open>window n b l\<close>: the digits \<open>n\<close> are a window on the dividend with one digit more than the divisor.\<close>

definition window :: "int list \<Rightarrow> int list \<Rightarrow> nat \<Rightarrow> bool" where
  "window n b l \<longleftrightarrow> digits n \<and> digits b \<and> l < length n \<and> l \<le> length b \<and> dval n < 10 ^ Suc l \<and> 0 < dval (take l b)"

lemma window_compare:
  assumes "window n b l"
  shows "(n ! l \<noteq> 0 \<or> 0 \<le> bc_num_compare n b l) \<longleftrightarrow> dval (take l b) \<le> dval n"
proof -
  have w: "digits n" "digits b" "l < length n" "l \<le> length b" "dval n < 10 ^ Suc l"
    using assms by (auto simp: window_def)
  have "dval (drop (Suc l) n) = 0" using w by (simp add: dval_drop)
  moreover have "drop l n = n ! l # drop (Suc l) n" using w(3) by (simp add: Cons_nth_drop_Suc)
  ultimately have "dval (drop l n) = n ! l" by simp
  then have v: "dval n = dval (take l n) + 10 ^ l * n ! l" using dval_split [of n l] w(3) by (simp add: min_absorb2)
  have lo: "0 \<le> dval (take l n)" "dval (take l b) < 10 ^ l" "0 \<le> n ! l"
    using w dval_less [of "take l b"] digits_nth [of n l] by (auto simp: min_absorb2)
  show ?thesis
  proof (cases "n ! l = 0")
    case True
    have "sgn (bc_num_compare n b l) = sgn (dval (take l n) - dval (take l b))"
      by (rule compare_sgn) (use w in auto)
    from sgn_eqD [OF this] have "bc_num_compare n b l < 0 \<longleftrightarrow> dval (take l n) < dval (take l b)" by simp
    then show ?thesis using True v by auto
  next
    case False
    then have "10 ^ l * 1 \<le> 10 ^ l * n ! l" using lo by (intro mult_left_mono) auto
    then have "dval (take l b) \<le> dval n" using v lo by linarith
    then show ?thesis using False by simp
  qed
qed

lemma div_digit_spec:
  assumes "window n b l" "dval n div dval (take l b) < int fuel"
  shows "\<exists>n'. div_digit fuel n b l q = Inr (n', q + dval n div dval (take l b)) \<and> digits n' \<and> length n' = length n \<and>
    dval n' = dval n mod dval (take l b)"
  using assms
proof (induction fuel arbitrary: n q)
  case 0
  then have "0 \<le> dval n" "0 < dval (take l b)" by (auto simp: window_def)
  then have "0 \<le> dval n div dval (take l b)" by (simp add: pos_imp_zdiv_nonneg_iff)
  then show ?case using 0 by linarith
next
  case (Suc fuel)
  define B where "B = dval (take l b)"
  have w: "digits n" "digits b" "l < length n" "l \<le> length b" "0 < B" "0 \<le> dval n"
    using Suc.prems by (auto simp: window_def B_def)
  show ?case
  proof (cases "B \<le> dval n")
    case True
    obtain m where m: "bc_num_subArrays n (take l b) = Some m" "digits m" "length m = length n" "dval m = dval n - B"
      using subArrays_spec [of n "take l b"] w True by (auto simp: B_def min_absorb2)
    have d: "dval n div B = (dval n - B) div B + 1" "dval n mod B = (dval n - B) mod B"
      using w(5) div_pos_geq [of B "dval n"] True mod_pos_geq [of B "dval n"] by auto
    have "dval m < 10 ^ Suc l" using m(4) w(5) Suc.prems(1) unfolding window_def by linarith
    then have "window m b l" using Suc.prems(1) m(2,3) unfolding window_def by simp
    moreover have "dval m div dval (take l b) < int fuel"
      using Suc.prems(2) d(1) m(4) unfolding B_def [symmetric] by simp
    ultimately obtain n' where "div_digit fuel m b l (q + 1) = Inr (n', q + 1 + dval m div B)" "digits n'" "length n' = length m"
      "dval n' = dval m mod B"
      using Suc.IH [of m "q + 1"] unfolding B_def [symmetric] by blast
    moreover have "div_digit (Suc fuel) n b l q = div_digit fuel m b l (q + 1)"
      using True window_compare [OF Suc.prems(1)] m(1) by (simp add: B_def)
    moreover have "q + 1 + dval m div B = q + dval n div B" "dval m mod B = dval n mod B" using d m(4) by simp_all
    ultimately show ?thesis using m(3) unfolding B_def [symmetric] by simp
  next
    case False
    then have "dval n div B = 0" "dval n mod B = dval n" using w by auto
    then show ?thesis using False window_compare [OF Suc.prems(1)] w by (simp add: B_def [symmetric])
  qed
qed

subsection \<open>The digits of the quotient\<close>

lemma digits_update: "digits c \<Longrightarrow> 0 \<le> v \<Longrightarrow> v \<le> 9 \<Longrightarrow> digits (c[i := v])"
  unfolding digits_def using set_update_subset_insert [of c i v] by blast

lemma div_loop_spec:
  assumes "digits cp" "l + i \<le> length cp" "dval (drop i cp) < dval (take l b)" "digits b" "l \<le> length b"
    "digits c" "i \<le> length c"
  shows "\<exists>c'. div_loop i cp b l c = Inr c' \<and> digits c' \<and> length c' = length c \<and> drop i c' = drop i c \<and>
    dval (take i c') = dval cp div dval (take l b)"
  using assms
proof (induction i arbitrary: cp c)
  case 0
  then show ?case by (simp add: div_pos_pos_trivial)
next
  case (Suc i)
  define B n where "B = dval (take l b)" and "n = drop i cp"
  have "n = cp ! i # drop (Suc i) cp" using Suc.prems(2) by (simp add: n_def Cons_nth_drop_Suc)
  then have vn: "dval n = cp ! i + 10 * dval (drop (Suc i) cp)" by simp
  have ci: "0 \<le> cp ! i" "cp ! i \<le> 9" using digits_nth [of cp i] Suc.prems by auto
  have hi: "0 \<le> dval (drop (Suc i) cp)" "dval (drop (Suc i) cp) < B" using Suc.prems by (auto simp: B_def)
  then have n10: "dval n < 10 * B" "0 \<le> dval n" "0 < B" using vn ci by auto
  have "B < 10 ^ l" using dval_less [of "take l b"] Suc.prems by (simp add: B_def min_absorb2)
  then have w: "window n b l" using Suc.prems n10 unfolding window_def by (auto simp: n_def B_def)
  have q9: "0 \<le> dval n div B" "dval n div B \<le> 9"
  proof -
    show "0 \<le> dval n div B" using n10 by (simp add: pos_imp_zdiv_nonneg_iff)
    have "B * (dval n div B) \<le> dval n" using n10(3) by (simp add: mult_div_mod_eq minus_mod_eq_mult_div [symmetric])
    then have "B * (dval n div B) < B * 10" using n10(1) by linarith
    then show "dval n div B \<le> 9" using n10(3) by (simp only: mult_less_cancel_left_pos)
  qed
  obtain n' where d: "div_digit 128 n b l 0 = Inr (n', dval n div B)" "digits n'" "length n' = length n" "dval n' = dval n mod B"
    using div_digit_spec [OF w, of 128 0] q9 by (auto simp: B_def)
  define cp1 where "cp1 = take i cp @ n'"
  have c1: "digits cp1" "length cp1 = length cp" "drop i cp1 = n'"
    using Suc.prems d by (auto simp: cp1_def n_def)
  have vcp: "dval cp = dval cp1 + 10 ^ i * (B * (dval n div B))"
  proof -
    have "dval n = dval n' + B * (dval n div B)" unfolding d(4) by simp
    moreover have "dval cp = dval (take i cp) + 10 ^ i * dval n"
      using dval_split [of cp i] Suc.prems(2) by (simp add: n_def min_absorb2)
    moreover have "dval cp1 = dval (take i cp) + 10 ^ i * dval n'" using Suc.prems(2) by (simp add: cp1_def min_absorb2)
    ultimately show ?thesis by (metis add.assoc distrib_left)
  qed
  have "digits (c[i := dval n div B])" using Suc.prems q9 by (simp add: digits_update)
  moreover have "dval (drop i cp1) < B" using c1(3) d(4) n10(3) by simp
  ultimately obtain c' where c': "div_loop i cp1 b l (c[i := dval n div B]) = Inr c'" "digits c'" "length c' = length c"
    "drop i c' = drop i (c[i := dval n div B])" "dval (take i c') = dval cp1 div B"
    using Suc.IH [of cp1 "c[i := dval n div B]"] Suc.prems c1(1,2) by (auto simp: B_def)
  have ic: "i < length c" using Suc.prems by simp
  have "drop i (c[i := dval n div B]) = (dval n div B) # drop (Suc i) c"
    using Cons_nth_drop_Suc [of i "c[i := dval n div B]"] ic by simp
  moreover have "drop i c' = c' ! i # drop (Suc i) c'" using Cons_nth_drop_Suc [of i c'] c'(3) ic by simp
  ultimately have nth: "c' ! i = dval n div B" "drop (Suc i) c' = drop (Suc i) c" using c'(4) by simp_all
  have "dval (take (Suc i) c') = dval cp1 div B + 10 ^ i * (dval n div B)"
    using c'(3,5) ic nth(1) by (simp add: take_Suc_conv_app_nth)
  also have "\<dots> = dval cp div B"
    using n10(3) unfolding vcp by (simp add: mult.left_commute [of _ B])
  finally show ?case using d(1) c' nth(2) by (simp add: cp1_def n_def B_def)
qed


subsection \<open>Division\<close>

lemma num_d_align_spec:
  "\<exists>e. num (num_d_align a b scale) = replicate e 0 @ num a \<and> rdx (num_d_align a b scale) + rdx b = rdx a + e \<and>
     scale \<le> rdx (num_d_align a b scale) \<and> len b \<le> len (num_d_align a b scale)"
proof -
  define e1 where "e1 = len b - len a"
  define e2 where "e2 = rdx b - (rdx a + e1)"
  define e3 where "e3 = scale - (rdx a + e1 + e2 - rdx b)"
  define cp1 where "cp1 = (let cp = bc_num_copy (bc_num_init (BC_NUM_MREQ a b scale)) a
    in if len cp < len b then bc_num_extend (bc_num_expand cp (len b + 2)) (len b - len cp) else cp)"
  have 1: "num cp1 = replicate e1 0 @ num a" "rdx cp1 = rdx a + e1"
    by (auto simp: cp1_def e1_def Let_def)
  define cp2 where "cp2 = (if rdx cp1 < rdx b then bc_num_extend cp1 (rdx b - rdx cp1) else cp1)"
  have 2: "num cp2 = replicate e2 0 @ num cp1" "rdx cp2 = rdx cp1 + e2" "rdx b \<le> rdx cp2"
    using 1 by (auto simp: cp2_def e2_def)
  define cp3 where "cp3 = cp2\<lparr>rdx := rdx cp2 - rdx b\<rparr>"
  define cp4 where "cp4 = (if rdx cp3 < scale then bc_num_extend cp3 (scale - rdx cp3) else cp3)"
  have 4: "num cp4 = replicate e3 0 @ num cp2" "rdx cp4 = rdx cp2 - rdx b + e3" "scale \<le> rdx cp4"
    using 1 2 by (auto simp: cp4_def cp3_def e3_def)
  have "num_d_align a b scale = cp4"
    by (simp add: num_d_align_def cp4_def cp3_def cp2_def cp1_def Let_def)
  moreover have "num cp4 = replicate (e3 + e2 + e1) 0 @ num a" using 1 2 4 by (simp add: replicate_add)
  moreover have "rdx cp4 + rdx b = rdx a + (e3 + e2 + e1)" using 1 2 4 by simp
  moreover have "len b \<le> len cp4" using 1 2 4 by (simp add: e1_def)
  ultimately show ?thesis using 4(3) by auto
qed

lemma num_d_len_spec:
  assumes b: "wf_num b" "num b \<noteq> []"
  defines "l \<equiv> num_d_len b"
  shows "1 \<le> l" "l \<le> len b" "dval (take l (num b)) = dval (num b)" "10 ^ (l - 1) \<le> dval (num b)"
proof -
  define k where "k = length (dropWhile (\<lambda>d. d = 0) (rev (num b)))"
  note z = strip_zeros [of "num b", folded k_def]
  have k: "k \<noteq> 0" using z(1) wf_pos [OF b] b(1) by (cases k) (auto simp: dval_eq_0 [THEN iffD2])
  have "1 \<le> l \<and> l \<le> len b \<and> dval (take l (num b)) = dval (num b) \<and> 10 ^ (l - 1) \<le> dval (num b)"
  proof (cases "rdx b = len b")
    case True
    then have l: "l = k" using k by (cases k) (auto simp: l_def num_d_len_def k_def)
    have v: "dval (take k (num b)) = dval (num b)" using z(1) by (rule dval_drop_zeros)
    have "last (take k (num b)) \<noteq> 0" using z k b(2) by (subst last_conv_nth) (auto simp: min_absorb2)
    then have "10 ^ (k - 1) \<le> dval (take k (num b))"
      using top_digit [of "take k (num b)"] b z(2) k by (auto simp: min_absorb2)
    then show ?thesis using l v z(2) k by simp
  next
    case False
    then have "l = len b" "rdx b < len b" using wf_rdx [OF b] by (auto simp: l_def num_d_len_def)
    then show ?thesis using wf_top [OF b(1)] b by (cases "num b") auto
  qed
  then show "1 \<le> l" "l \<le> len b" "dval (take l (num b)) = dval (num b)" "10 ^ (l - 1) \<le> dval (num b)" by auto
qed

text \<open>The quotient of the digits is the quotient of the numbers.\<close>

lemma quotient_value:
  assumes B: "0 < B" and r: "rc + rb = ra + e" "s \<le> rc"
  shows "\<lfloor>of_int (A * 10 ^ e div B) / 10 ^ rc * 10 ^ s :: rat\<rfloor> = \<lfloor>(of_int A / 10 ^ ra) / (of_int B / 10 ^ rb) * 10 ^ s :: rat\<rfloor>"
proof -
  have p: "(10::rat) ^ rb * 10 ^ s * 10 ^ (rc - s) = 10 ^ ra * 10 ^ e"
    using r by (simp flip: power_add)
  have "(of_int A / 10 ^ ra) / (of_int B / 10 ^ rb) * 10 ^ s = of_int A * (10 ^ rb * 10 ^ s) / (of_int B * 10 ^ ra :: rat)"
    by (simp add: mult_ac)
  also have "\<dots> = of_int A * (10 ^ rb * 10 ^ s * 10 ^ (rc - s)) / (of_int B * 10 ^ ra * 10 ^ (rc - s))"
    by simp
  also have "\<dots> = of_int (A * 10 ^ e) / of_int (B * 10 ^ (rc - s))"
    unfolding p by simp
  finally have "\<lfloor>(of_int A / 10 ^ ra) / (of_int B / 10 ^ rb) * 10 ^ s :: rat\<rfloor> = A * 10 ^ e div (B * 10 ^ (rc - s))"
    by (simp only: floor_divide_of_int_eq)
  also have "\<dots> = A * 10 ^ e div B div 10 ^ (rc - s)" using B by (simp add: zdiv_zmult2_eq)
  finally show ?thesis using r(2) unfolding floor_scale by simp
qed

lemma num_d_spec:
  assumes a: "wf_num a" and b: "wf_num b" "num b \<noteq> []"
  shows "\<exists>r. zbc_num_d a b c scale = Inr r \<and> wf_num r \<and> rdx r = scale \<and>
    bc_value r = trunc_dec scale (bc_value a / bc_value b) \<and> dval (num r) = \<lfloor>\<bar>bc_value a / bc_value b\<bar> * 10 ^ scale\<rfloor>"
proof -
  have sg: "(neg a \<noteq> neg b) \<longleftrightarrow> bc_value a / bc_value b < 0" if "bc_value a / bc_value b \<noteq> 0"
    using that value_neg [OF a] value_neg [OF b(1)] by (auto simp: divide_less_0_iff)
  have tr: "(if neg a \<noteq> neg b then - 1 else 1) * of_int \<lfloor>\<bar>bc_value a / bc_value b\<bar> * 10 ^ scale\<rfloor> / 10 ^ scale =
      trunc_dec scale (bc_value a / bc_value b)" by (rule signed_trunc, rule sg)
  have ab: "\<bar>bc_value a / bc_value b\<bar> = (of_int (dval (num a)) / 10 ^ rdx a) / (of_int (dval (num b)) / 10 ^ rdx b)"
    using abs_value [OF a] abs_value [OF b(1)] by (simp add: abs_divide)
  consider (zero) "num a = []" | (one) "num a \<noteq> []" "BC_NUM_ONE b" | (long) "num a \<noteq> []" "\<not> BC_NUM_ONE b" by blast
  then show ?thesis
  proof cases
    case zero
    then show ?thesis using b by (auto simp: zbc_num_d_def value_0 trunc_dec_def wf_empty)
  next
    case one
    have b1: "num b = [1]" "rdx b = 0" using one(2) b by (cases "num b"; auto simp: BC_NUM_ONE_def)+
    have ca: "digits (num (bc_num_copy c a))" "len (bc_num_copy c a) \<le> cap (bc_num_copy c a)"
      "rdx (bc_num_copy c a) \<le> len (bc_num_copy c a)"
      using wf_digits [OF wf_copy [OF a]] wf_cap [OF wf_copy [OF a]] wf_rdx [OF a one(1)] by simp_all
    note rt = retireMul_spec [OF ca, of scale "neg a" "neg b"]
    have q: "\<lfloor>of_int (dval (num (bc_num_copy c a))) / 10 ^ rdx (bc_num_copy c a) * 10 ^ scale :: rat\<rfloor> =
        \<lfloor>\<bar>bc_value a / bc_value b\<bar> * 10 ^ scale\<rfloor>" unfolding ab b1 by simp
    have "bc_value (bc_num_retireMul (bc_num_copy c a) scale (neg a) (neg b)) = trunc_dec scale (bc_value a / bc_value b)"
      using rt(4) unfolding q tr .
    then show ?thesis using one b rt(1-3) q by (simp add: zbc_num_d_def)
  next
    case long
    define cp where "cp = num_d_align a b scale"
    define l where "l = num_d_len b"
    define B where "B = dval (num b)"
    obtain e where e: "num cp = replicate e 0 @ num a" "rdx cp + rdx b = rdx a + e" "scale \<le> rdx cp" "len b \<le> len cp"
      using num_d_align_spec unfolding cp_def by blast
    note ls = num_d_len_spec [OF b, folded l_def B_def]
    define ds where "ds = num cp @ [0]"
    have dd: "digits ds" "length ds = len cp + 1" "dval ds = dval (num a) * 10 ^ e" using e(1) a by (auto simp: ds_def)
    have "drop (length ds - l) ds = drop (length ds - l) (num cp) @ [0]" using ls e(4) by (simp add: ds_def)
    then have "dval (drop (length ds - l) ds) = dval (drop (length ds - l) (num cp))" by simp
    also have "\<dots> < 10 ^ (l - 1)"
    proof -
      have "digits (num cp)" using e(1) a by simp
      then have "digits (drop (length ds - l) (num cp))" by simp
      moreover have "length (drop (length ds - l) (num cp)) = l - 1" using e(4) ls(1,2) dd(2) by simp
      ultimately show ?thesis by (metis dval_less)
    qed
    finally have top: "dval (drop (length ds - l) ds) < dval (take l (num b))" using ls by simp
    obtain c' where c': "div_loop (length ds - l) ds (num b) l (replicate (length ds) 0) = Inr c'" "digits c'"
      "length c' = length ds" "drop (length ds - l) c' = drop (length ds - l) (replicate (length ds) 0)"
      "dval (take (length ds - l) c') = dval ds div B"
      using div_loop_spec [OF dd(1) _ top wf_digits [OF b(1)] ls(2), of "replicate (length ds) 0"] ls e(4) dd(2) by auto
    have v: "dval c' = dval (num a) * 10 ^ e div B"
      using dval_split [of c' "length ds - l"] c'(4,5) dd(3) by simp
    define r0 where "r0 = (bc_num_zero (bc_num_expand c (length ds)))\<lparr>num := c', rdx := rdx cp\<rparr>"
    have "rdx cp \<le> len cp" using e wf_rdx [OF a long(1)] by simp
    then have r0: "digits (num r0)" "len r0 \<le> cap r0" "rdx r0 \<le> len r0" "num r0 = c'" "rdx r0 = rdx cp"
      using c' dd(2) by (simp_all add: r0_def)
    have q: "\<lfloor>of_int (dval (num r0)) / 10 ^ rdx r0 * 10 ^ scale :: rat\<rfloor> = \<lfloor>\<bar>bc_value a / bc_value b\<bar> * 10 ^ scale\<rfloor>"
      unfolding r0(4,5) v ab B_def [symmetric]
      by (rule quotient_value) (use wf_pos [OF b] e in \<open>auto simp: B_def\<close>)
    note rt = retireMul_spec [OF r0(1-3), of scale "neg a" "neg b", unfolded q tr]
    have "zbc_num_d a b c scale = Inr (bc_num_retireMul r0 scale (neg a) (neg b))"
      using b long c'(1) unfolding zbc_num_d_def Let_def cp_def [symmetric] l_def [symmetric]
      by (simp add: ds_def r0_def)
    then show ?thesis using rt by auto
  qed
qed

lemma num_div:
  assumes "wf_num a" "wf_num b" "num b \<noteq> []"
  shows "\<exists>r. zbc_num_div al a b c scale = Inr r \<and> wf_num r \<and> rdx r = scale \<and>
    bc_value r = trunc_dec scale (bc_value a / bc_value b) \<and> dval (num r) = \<lfloor>\<bar>bc_value a / bc_value b\<bar> * 10 ^ scale\<rfloor>"
  unfolding zbc_num_div_def zbc_num_binary_def by (rule num_d_spec [OF assms])


subsection \<open>Remainder\<close>

lemma wf_len: "wf_num n \<Longrightarrow> dval (num n) < 10 ^ k \<Longrightarrow> rdx n \<le> k \<Longrightarrow> len n \<le> k"
proof (cases "rdx n < len n")
  case True
  assume w: "wf_num n" "dval (num n) < 10 ^ k"
  then have "(10::int) ^ (len n - 1) < 10 ^ k" using wf_top [OF w(1) True] by linarith
  then have "len n - 1 < k" by (rule power_less_imp_less_exp [rotated]) simp
  then show ?thesis by simp
qed auto

lemma trunc_dec_exact: "trunc_dec s (of_int k / 10 ^ s) = of_int k / 10 ^ s"
proof -
  have "\<bar>of_int k / 10 ^ s :: rat\<bar> * 10 ^ s = of_int \<bar>k\<bar>" by (simp add: abs_divide)
  then show ?thesis unfolding trunc_dec_def by (simp only: floor_of_int) (cases "k < 0"; simp add: divide_less_0_iff)
qed

lemma value_int: "bc_value n = of_int ((if neg n then - 1 else 1) * dval (num n)) / 10 ^ rdx n"
  by (simp add: bc_value_def)

lemma product_int:
  "bc_value a * bc_value b =
   of_int ((if neg a then - 1 else 1) * dval (num a) * ((if neg b then - 1 else 1) * dval (num b))) / 10 ^ (rdx a + rdx b)"
  by (simp add: bc_value_def power_add)

lemma exact_product:
  assumes "wf_num a" "wf_num b"
  shows "trunc_dec (rdx a + rdx b) (bc_value a * bc_value b) = bc_value a * bc_value b"
    "\<lfloor>\<bar>bc_value a * bc_value b\<bar> * 10 ^ (rdx a + rdx b)\<rfloor> = dval (num a) * dval (num b)"
proof -
  show "trunc_dec (rdx a + rdx b) (bc_value a * bc_value b) = bc_value a * bc_value b"
    unfolding product_int by (rule trunc_dec_exact)
  have "\<bar>bc_value a * bc_value b\<bar> * 10 ^ (rdx a + rdx b) = of_int (dval (num a) * dval (num b))"
    using assms by (simp add: abs_mult abs_value power_add)
  then show "\<lfloor>\<bar>bc_value a * bc_value b\<bar> * 10 ^ (rdx a + rdx b)\<rfloor> = dval (num a) * dval (num b)" by (simp only: floor_of_int)
qed

lemma quotient_len:
  assumes a: "wf_num a" and b: "wf_num b" "num b \<noteq> []"
    and r: "wf_num r" "rdx r = s" "dval (num r) = \<lfloor>\<bar>bc_value a / bc_value b\<bar> * 10 ^ s\<rfloor>"
  shows "len r \<le> len a + rdx b + s"
proof (rule wf_len [OF r(1)])
  define A B where "A = (of_int (dval (num a)) :: rat)" and "B = (of_int (dval (num b)) :: rat)"
  have AB: "0 \<le> A" "A < 10 ^ len a" "1 \<le> B"
    using a dval_less [of "num a"] wf_pos [OF b] of_int_less_iff [of "dval (num a)" "10 ^ len a", where ?'a = rat]
    by (auto simp: A_def B_def)
  have "\<bar>bc_value a / bc_value b\<bar> = A / 10 ^ rdx a / B * 10 ^ rdx b"
    using abs_value [OF a] abs_value [OF b(1)] by (simp add: abs_divide A_def B_def)
  also have "\<dots> \<le> A * 10 ^ rdx b"
  proof -
    have le: "x / y \<le> x" if "0 \<le> x" "1 \<le> y" for x y :: rat
      using that mult_left_mono [of 1 y x] by (simp add: divide_le_eq)
    have "A / 10 ^ rdx a \<le> A" using AB(1) by (intro le) auto
    moreover have "A / 10 ^ rdx a / B \<le> A / 10 ^ rdx a" using AB by (intro le) auto
    ultimately have "A / 10 ^ rdx a / B \<le> A" by linarith
    then show ?thesis by (rule mult_right_mono) simp
  qed
  finally have "\<bar>bc_value a / bc_value b\<bar> * 10 ^ s \<le> A * 10 ^ rdx b * 10 ^ s" by (rule mult_right_mono) simp
  also have "\<dots> < 10 ^ len a * 10 ^ rdx b * 10 ^ s" using AB(2) by simp
  finally have "\<bar>bc_value a / bc_value b\<bar> * 10 ^ s < of_int (10 ^ (len a + rdx b + s))" by (simp add: power_add)
  then show "dval (num r) < 10 ^ (len a + rdx b + s)" using r(3) by (simp add: floor_less_iff)
qed (use r in simp)

text \<open>The sizes that let the remainder of \<open>a\<close> and \<open>b\<close> be computed.\<close>

definition rem_fits :: "BcNum \<Rightarrow> BcNum \<Rightarrow> nat \<Rightarrow> bool" where
  "rem_fits a b scale \<longleftrightarrow> 4 * int (len a + len b + scale) \<le> BC_MAX_NUM"

lemma rem_fits_nat: "rem_fits a b scale \<Longrightarrow> 4 * (len a + len b + scale) \<le> 4294967294"
  unfolding rem_fits_def BC_MAX_NUM_def by linarith

text \<open>The product of the quotient and the divisor.\<close>

lemma back_product:
  assumes q: "wf_num q" "rdx q = scale" "len q \<le> len a + rdx b + scale" and b: "wf_num b" "num b \<noteq> []"
    and ts: "ts = (if scale \<noteq> 0 then max (scale + rdx b) (rdx a) else scale)" and f: "rem_fits a b scale"
  shows "\<exists>t. zbc_num_m q b c ts = Inr t \<and> wf_num t \<and> rdx t = scale + rdx b \<and> bc_value t = bc_value q * bc_value b \<and> fits t"
proof -
  note rb = wf_rdx [OF b] and fn = rem_fits_nat [OF f]
  have ms: "mul_scale q b ts = rdx q + rdx b" using q(2) ts by (auto simp: mul_scale_def)
  have "len q + len b + 2 * (rdx q + rdx b) \<le> 4 * (len a + len b + scale)" using q(2,3) rb by simp
  then have "len q + len b + 2 * (rdx q + rdx b) \<le> 4294967294" using fn by (rule order_trans)
  then have "int (len q + len b + 2 * mul_scale q b ts) \<le> BC_MAX_NUM" unfolding ms by (simp add: BC_MAX_NUM_def)
  from num_m_spec [OF q(1) b(1) this] obtain t where t: "zbc_num_m q b c ts = Inr t" "wf_num t" "rdx t = rdx q + rdx b"
    "bc_value t = bc_value q * bc_value b" "dval (num t) = dval (num q) * dval (num b)"
    unfolding ms exact_product [OF q(1) b(1)] by blast
  define k where "k = len q + len b + (rdx q + rdx b)"
  have "(10::int) ^ (len q + len b) \<le> 10 ^ k" by (rule power_increasing) (auto simp: k_def)
  then have "dval (num t) < 10 ^ k" unfolding t(5) by (rule less_le_trans [OF product_less [OF wf_digits [OF q(1)] wf_digits [OF b(1)]]])
  then have "len t \<le> k" by (rule wf_len [OF t(2)]) (use t in \<open>simp add: k_def\<close>)
  moreover have "k < 2 ^ 62" "rdx t < 2 ^ 62" using q rb fn t(3) unfolding k_def by simp_all
  ultimately show ?thesis using t q(2) by (auto simp: fits_def)
qed

lemma clean_zero: "digits (num n) \<Longrightarrow> dval (num n) = 0 \<Longrightarrow> bc_num_clean n = n\<lparr>num := [], neg := False\<rparr>"
  using strip_zeros [of "num n"] unfolding bc_num_clean_def Let_def dval_eq_0
  by (metis diff_less less_le_trans nth_mem not_gr_zero zero_less_one)

lemma retire_exact:
  fixes n1 n2 :: bool
  assumes d: "wf_num d" "rdx d \<le> ts"
  defines "d1 \<equiv> (if rdx d < ts \<and> len d \<noteq> 0 then bc_num_extend d (ts - rdx d) else d)"
  defines "r \<equiv> (bc_num_retireMul d1 ts n1 n2)\<lparr>neg := neg d\<rparr>"
  shows "wf_num r" "bc_value r = bc_value d" "rdx r = ts"
proof -
  have "wf_num r \<and> bc_value r = bc_value d \<and> rdx r = ts"
  proof (cases "num d = []")
    case True
    define m where "m = (if rdx d < ts then bc_num_extend d (ts - rdx d) else bc_num_truncate d (rdx d - ts))"
    have m: "digits (num m)" "dval (num m) = 0" "rdx m = ts" using True d(2) by (auto simp: m_def)
    show ?thesis
      using True clean_zero [OF m(1,2)] m(3) wf_zero_sign [OF d(1) True]
      by (simp add: r_def d1_def bc_num_retireMul_def Let_def m_def [symmetric] wf_empty value_0)
  next
    case False
  define m where "m = (if rdx d1 < ts then bc_num_extend d1 (ts - rdx d1) else bc_num_truncate d1 (rdx d1 - ts))"
  have m: "digits (num m)" "len m \<le> cap m" "rdx m \<le> len m" "rdx m = ts" "dval (num m) = at_scale ts d"
    using d wf_rdx [OF d(1) False] extend_cap [OF wf_cap [OF d(1)], of "ts - rdx d"] wf_cap [OF d(1)]
    by (auto simp: m_def d1_def at_scale_def)
  note cl = clean [OF m(1-3)]
  have r: "num r = num (bc_num_clean m)" "rdx r = ts" "cap r = cap (bc_num_clean m)" "neg r = neg d"
    using cl m(4) by (simp_all add: r_def bc_num_retireMul_def Let_def m_def)
  have e: "num r \<noteq> []" using cl(6) m(5) r(1) at_scale_pos [OF d(1) False, of ts] by simp
  have "wf_num r" using cl(1,3) m(4) r e wf_zero_sign [OF d(1)] unfolding wf_num_def by auto
  moreover have "bc_value r = bc_value d"
    unfolding value_at_scale [OF d(2)] using r cl(2) m(5) by (simp add: bc_value_def)
  ultimately show ?thesis using r(2) by blast
  qed
  then show "wf_num r" "bc_value r = bc_value d" "rdx r = ts" by auto
qed


lemma num_r_spec:
  assumes a: "wf_num a" "num a \<noteq> []" and b: "wf_num b" "num b \<noteq> []" and f: "rem_fits a b scale"
  defines "ts \<equiv> max (scale + rdx b) (rdx a)"
  shows "\<exists>q r. zbc_num_r a b c d scale ts = Inr (q, r) \<and> wf_num q \<and> wf_num r \<and> rdx q = scale \<and> rdx r = ts \<and>
    bc_value q = trunc_dec scale (bc_value a / bc_value b) \<and> bc_value r = bc_value a - bc_value q * bc_value b \<and>
    len q \<le> len a + rdx b + scale"
proof -
  obtain q where q: "zbc_num_d a b c scale = Inr q" "wf_num q" "rdx q = scale"
    "bc_value q = trunc_dec scale (bc_value a / bc_value b)" "len q \<le> len a + rdx b + scale"
    using num_d_spec [OF a(1) b, of c scale] quotient_len [OF a(1) b] by blast
  define s where "s = (if scale \<noteq> 0 then ts else scale)"
  obtain t where t: "zbc_num_m q b (bc_num_init (cap d)) s = Inr t" "wf_num t" "rdx t = scale + rdx b"
    "bc_value t = bc_value q * bc_value b" "fits t"
    using back_product [OF q(2,3,5) b s_def [unfolded ts_def] f] by blast
  have fa: "fits a" using rem_fits_nat [OF f] wf_rdx [OF a] by (simp add: fits_def)
  obtain m where m: "zbc_num_sub False a t d s = Inr m" "sum_ok a t (bc_value a - bc_value t) m"
    using num_sub [OF a(1) fa t(2,5)] by blast
  have md: "wf_num m" "rdx m \<le> ts" "bc_value m = bc_value a - bc_value q * bc_value b"
    using m(2) t(3,4) by (auto simp: sum_ok_def ts_def)
  note rx = retire_exact [OF md(1,2), where ?n1.0 = "neg a" and ?n2.0 = "neg b"]
  define m1 where "m1 = (if rdx m < ts \<and> len m \<noteq> 0 then bc_num_extend m (ts - rdx m) else m)"
  have "neg m1 = neg m" by (simp add: m1_def)
  moreover have "zbc_num_r a b c d scale ts = Inr (q, (bc_num_retireMul m1 ts (neg a) (neg b))\<lparr>neg := neg m1\<rparr>)"
    unfolding zbc_num_r_def Let_def q(1) on_success_simps s_def [symmetric] t(1) m(1) m1_def using a b by simp
  ultimately show ?thesis using q rx [folded m1_def] md by simp
qed

lemma num_mod:
  assumes a: "wf_num a" and b: "wf_num b" "num b \<noteq> []" and f: "rem_fits a b scale"
  shows "\<exists>r. zbc_num_mod al a b c scale = Inr r \<and> wf_num r \<and> rdx r = max (scale + rdx b) (rdx a) \<and>
    bc_value r = bc_value a - bc_value b * trunc_dec scale (bc_value a / bc_value b)"
proof (cases "num a = []")
  case True
  then show ?thesis
    using b by (auto simp: zbc_num_mod_def zbc_num_binary_def zbc_num_rem_def zbc_num_r_def Let_def value_0 trunc_dec_def wf_empty)
next
  case False
  then show ?thesis
    using num_r_spec [OF a False b f, of "bc_num_init (BC_NUM_MREQ a b (max (scale + rdx b) (rdx a)))"
        "if al then bc_num_init (BC_NUM_MREQ a b scale) else bc_num_expand c (BC_NUM_MREQ a b scale)"]
    by (auto simp: zbc_num_mod_def zbc_num_binary_def zbc_num_rem_def Let_def mult.commute)
qed

end
