(* ===== verification/Bc_Pow.thy ===== *)
theory Bc_Pow
  imports Bc_Div
begin

text \<open>
  Machine integers from and to bc numbers, and powers: \<^verbatim>\<open>zbc_num_p\<close> squares and multiplies without loss and
  cuts the decimals of the result at the end.
\<close>

subsection \<open>Machine integers\<close>

fun horner :: "int list \<Rightarrow> int \<Rightarrow> int" where
  "horner [] x = x"
| "horner (d # ds) x = horner ds (x * 10 + d)"

lemma horner_append: "horner (xs @ ys) x = horner ys (horner xs x)"
  by (induction xs arbitrary: x) auto

lemma horner_rev: "horner (rev ds) 0 = dval ds"
  by (induction ds) (auto simp: horner_append)

lemma horner_mono: "digits ds \<Longrightarrow> 0 \<le> x \<Longrightarrow> x \<le> horner ds x"
proof (induction ds arbitrary: x)
  case (Cons d ds)
  then have "x * 10 + d \<le> horner ds (x * 10 + d)" by simp
  then show ?case using Cons.prems by simp
qed simp

text \<open>"(N*10)/8 < N check is always correct": it tells exactly the numbers of 64 bits or more.\<close>

lemma overflow_check:
  fixes r :: u64
  assumes d: "0 \<le> d" "d \<le> 9"
  shows "(r * 10 + of_int d) div 8 < r \<longleftrightarrow> 2 ^ 64 \<le> uint r * 10 + d"
    "uint r * 10 + d < 2 ^ 64 \<Longrightarrow> uint (r * 10 + of_int d) = uint r * 10 + d"
proof -
  define u x where "u = uint r" and "x = u * 10 + d"
  define k m where "k = x div 2 ^ 64" and "m = x mod 2 ^ 64"
  have u: "0 \<le> u" "u < 2 ^ 64" using uint_lt2p [of r] by (auto simp: u_def)
  have w: "r * 10 + of_int d = word_of_int x" by (simp add: x_def u_def)
  have m: "uint (r * 10 + of_int d) = m" unfolding w by (simp add: uint_word_of_int m_def)
  have xkm: "x = 2 ^ 64 * k + m" "0 \<le> m" "m < 2 ^ 64" by (simp_all add: k_def m_def)
  have k0: "0 \<le> k" using u d by (simp add: k_def x_def)
  have small: "x < 2 ^ 64 \<longleftrightarrow> k = 0" using xkm k0 by auto
  have "(r * 10 + of_int d) div 8 < r \<longleftrightarrow> m div 8 < u"
    by (simp add: word_less_def uint_div m u_def)
  also have "\<dots> \<longleftrightarrow> m < 8 * u" by presburger
  also have "\<dots> \<longleftrightarrow> 2 ^ 64 \<le> x"
  proof (cases "k = 0")
    case True
    then show ?thesis using small xkm(1) u d by (auto simp: x_def)
  next
    case False
    then have "1 \<le> k" using k0 by simp
    moreover have "u * 10 + d < 2 ^ 64 * k + 2 ^ 64" using xkm by (simp add: x_def)
    ultimately have "2 * u + d < 2 ^ 64 * k" using d by simp
    then have "m < 8 * u" using xkm(1) by (simp add: x_def)
    then show ?thesis using False small by simp
  qed
  finally show "(r * 10 + of_int d) div 8 < r \<longleftrightarrow> 2 ^ 64 \<le> uint r * 10 + d" by (simp add: x_def u_def)
  show "uint r * 10 + d < 2 ^ 64 \<Longrightarrow> uint (r * 10 + of_int d) = uint r * 10 + d"
    using m xkm small by (simp add: x_def u_def)
qed

lemma ulong_loop_spec:
  "digits ds \<Longrightarrow> ulong_loop ds r = (if horner ds (uint r) < 2 ^ 64 then Inr (of_int (horner ds (uint r))) else Inl BcOverflow)"
proof (induction ds arbitrary: r)
  case Nil
  then show ?case using uint_lt2p [of r] by simp
next
  case (Cons d ds)
  then have d: "0 \<le> d" "d \<le> 9" and ds: "digits ds" by auto
  note oc = overflow_check [OF d, of r]
  show ?case
  proof (cases "uint r * 10 + d < 2 ^ 64")
    case True
    then have "\<not> (r * 10 + of_int d) div 8 < r" using oc(1) by simp
    then show ?thesis using Cons.IH [OF ds, of "r * 10 + of_int d"] oc(2) [OF True] by (simp add: Let_def)
  next
    case False
    then have "(r * 10 + of_int d) div 8 < r" using oc(1) by simp
    moreover have "uint r * 10 + d \<le> horner ds (uint r * 10 + d)" by (rule horner_mono [OF ds]) (use d in simp)
    ultimately show ?thesis using False by (simp add: Let_def)
  qed
qed

lemma ulong_abs:
  "wf_num n \<Longrightarrow> zbc_num_ulong_abs n =
    (if dval (drop (rdx n) (num n)) < 2 ^ 64 then Inr (of_int (dval (drop (rdx n) (num n)))) else Inl BcOverflow)"
proof -
  assume "wf_num n"
  then have "digits (drop (rdx n) (num n))" by simp
  then have "digits (rev (drop (rdx n) (num n)))" by (simp add: digits_def)
  from ulong_loop_spec [OF this, of 0] show ?thesis by (simp add: zbc_num_ulong_abs_def horner_rev)
qed

lemma ulong_digits_spec:
  "digits (ulong_digits v) \<and> dval (ulong_digits v) = uint v \<and> length (ulong_digits v) \<le> k + 1 \<and>
    (v \<noteq> 0 \<longrightarrow> last (ulong_digits v) \<noteq> 0)" if "uint v < 10 ^ (k + 1)" for v :: u64
  using that
proof (induction k arbitrary: v)
  case 0
  then have "uint (v div 10) = 0" by (simp add: uint_div)
  then have "v div 10 = 0" by (simp add: word_uint_eqI)
  then show ?case using 0 by (simp add: ulong_digits.simps [of v] uint_mod uint_0_iff)
next
  case (Suc k)
  have lt: "uint (v div 10) < 10 ^ (k + 1)" using Suc.prems by (simp add: uint_div)
  have m: "0 \<le> uint (v mod 10)" "uint (v mod 10) \<le> 9" "uint (v mod 10) + 10 * uint (v div 10) = uint v"
    using pos_mod_bound [of 10 "uint v"] by (simp_all add: uint_mod uint_div)
  show ?case
  proof (cases "v div 10 = 0")
    case True
    then have "uint v = uint (v mod 10)" using m(3) by simp
    then have "v mod 10 = v" by (simp add: word_uint_eq_iff)
    then show ?thesis using True m by (simp add: ulong_digits.simps [of v] uint_0_iff)
  next
    case False
    then have ne: "ulong_digits (v div 10) \<noteq> []" by (subst ulong_digits.simps) simp
    then show ?thesis using False m Suc.IH [OF lt] by (auto simp: ulong_digits.simps [of v])
  qed
qed


text \<open>A machine integer survives the conversion to a number and back.\<close>

lemma ulong2num:
  "wf_num (bc_num_ulong2num n v)" "bc_value (bc_num_ulong2num n v) = of_int (uint v)" "rdx (bc_num_ulong2num n v) = 0"
  "\<not> neg (bc_num_ulong2num n v)" "dval (num (bc_num_ulong2num n v)) = uint v"
proof -
  have "uint v < 10 ^ (19 + 1)" using uint_lt2p [of v] by simp
  note s = ulong_digits_spec [OF this]
  have c: "20 \<le> cap (bc_num_expand (bc_num_zero n) 20)" by (rule expand_simps(4))
  have ne: "ulong_digits v \<noteq> []" by (subst ulong_digits.simps) simp
  have z: "v = 0 \<longleftrightarrow> uint v = 0" by (simp add: uint_0_iff)
  have "\<exists>d \<in> set (ulong_digits v). d \<noteq> 0" if "v \<noteq> 0" using s that ne by (intro bexI [of _ "last (ulong_digits v)"]) auto
  moreover have "length (ulong_digits v) \<le> cap (bc_num_expand (bc_num_zero n) 20)" using s c by linarith
  ultimately show "wf_num (bc_num_ulong2num n v)"
    using s ne by (auto simp: bc_num_ulong2num_def wf_num_def ULONG_NUM_BUFSIZE_def)
  show "rdx (bc_num_ulong2num n v) = 0" "\<not> neg (bc_num_ulong2num n v)" "dval (num (bc_num_ulong2num n v)) = uint v"
    using s z by (auto simp: bc_num_ulong2num_def)
  then show "bc_value (bc_num_ulong2num n v) = of_int (uint v)" by (simp add: bc_value_def)
qed

lemma ulong_roundtrip: "zbc_num_ulong (bc_num_ulong2num n v) = Inr v"
  using ulong2num [of n v] ulong_abs [of "bc_num_ulong2num n v"] uint_lt2p [of v] by (simp add: zbc_num_ulong_def)

subsection \<open>Multiplication without loss\<close>

definition room :: "nat \<Rightarrow> bool" where
  "room k \<longleftrightarrow> int (3 * k) \<le> BC_MAX_NUM"

lemma room_mono: "room k \<Longrightarrow> j \<le> k \<Longrightarrow> room j"
  by (simp add: room_def)

lemma exact_mul:
  assumes a: "wf_num a" "num a \<noteq> []" and b: "wf_num b" "num b \<noteq> []" and s: "rdx a + rdx b \<le> scale"
    and f: "room (len a + len b)"
  shows "\<exists>r. zbc_num_mul al a b c scale = Inr r \<and> wf_num r \<and> rdx r = rdx a + rdx b \<and> num r \<noteq> [] \<and>
    bc_value r = bc_value a * bc_value b \<and> len r \<le> len a + len b"
proof -
  have ms: "mul_scale a b scale = rdx a + rdx b" using s by (auto simp: mul_scale_def)
  note rx = wf_rdx [OF a] wf_rdx [OF b]
  have "len a + len b + 2 * (rdx a + rdx b) \<le> 3 * (len a + len b)" using rx by simp
  then have "int (len a + len b + 2 * mul_scale a b scale) \<le> BC_MAX_NUM" using f unfolding ms room_def by linarith
  from num_mul [OF a(1) b(1) this] obtain r where r: "zbc_num_mul al a b c scale = Inr r" "wf_num r" "rdx r = rdx a + rdx b"
    "bc_value r = bc_value a * bc_value b" "dval (num r) = dval (num a) * dval (num b)"
    unfolding ms exact_product [OF a(1) b(1)] by blast
  have "dval (num r) < 10 ^ (len a + len b)" unfolding r(5) by (rule product_less) (use a b in auto)
  then have "len r \<le> len a + len b" by (rule wf_len [OF r(2)]) (use r(3) rx in simp)
  moreover have "num r \<noteq> []" using r(5) wf_pos [OF a] wf_pos [OF b] by auto
  ultimately show ?thesis using r by blast
qed

subsection \<open>The loops over the exponent\<close>

lemma bit_step:
  fixes p :: u64
  shows "p AND 1 = 0 \<longleftrightarrow> even (unat p)" "unat (drop_bit 1 p) = unat p div 2"
proof -
  have "bit (unat p) 0 \<longleftrightarrow> bit p 0" by (rule bit_unsigned_iff [of p 0, simplified])
  then show "p AND 1 = 0 \<longleftrightarrow> even (unat p)" by (simp add: bit_0 and_one_eq mod_2_eq_odd)
  show "unat (drop_bit 1 p) = unat p div 2" by (simp add: drop_bit_eq_div unat_div)
qed


text \<open>\<open>base copy r\<close>: a number different from zero with \<open>r\<close> decimals.\<close>

definition base_ok :: "BcNum \<Rightarrow> nat \<Rightarrow> bool" where
  "base_ok n r \<longleftrightarrow> wf_num n \<and> num n \<noteq> [] \<and> rdx n = r"

lemma square:
  assumes "base_ok n r" "room (2 * len n)"
  shows "\<exists>m. zbc_num_mul True n n c (r * 2) = Inr m \<and> base_ok m (r * 2) \<and> bc_value m = bc_value n ^ 2 \<and> len m \<le> 2 * len n"
proof -
  have "wf_num n" "num n \<noteq> []" "rdx n + rdx n \<le> r * 2" "rdx n = r" "room (len n + len n)"
    using assms by (simp_all add: base_ok_def mult_2)
  from exact_mul [OF this(1,2,1,2,3,5), of True c] this(4) show ?thesis
    by (auto simp: base_ok_def power2_eq_square mult_2 mult_2_right)
qed

lemma pow_even_spec:
  assumes "base_ok n r" "room (len n * unat p)" "unat p \<noteq> 0" "unat p < 2 ^ fuel"
  shows "\<exists>m k q. pow_even fuel n r p = Inr (m, r * 2 ^ k, q) \<and> unat p = unat q * 2 ^ k \<and> odd (unat q) \<and>
    base_ok m (r * 2 ^ k) \<and> bc_value m = bc_value n ^ (2 ^ k) \<and> room (len m * unat q)"
  using assms
proof (induction fuel arbitrary: n r p)
  case (Suc fuel)
  show ?case
  proof (cases "even (unat p)")
    case False
    then show ?thesis using Suc.prems bit_step(1) [of p] by (intro exI [of _ n] exI [of _ 0] exI [of _ p]) auto
  next
    case True
    then obtain h where h: "unat p = 2 * h" by (auto elim: evenE)
    then have h0: "h \<noteq> 0" "unat (drop_bit 1 p) = h" using Suc.prems bit_step(2) [of p] by auto
    have "len n * 2 * 1 \<le> len n * 2 * h" using h0 by (intro mult_le_mono2) simp
    then have "room (2 * len n)" using Suc.prems(2) h by (auto intro: room_mono)
    then obtain m where m: "zbc_num_mul True n n n (r * 2) = Inr m" "base_ok m (r * 2)" "bc_value m = bc_value n ^ 2" "len m \<le> 2 * len n"
      using square [OF Suc.prems(1)] by blast
    have "len m * h \<le> len n * unat p" using mult_le_mono1 [OF m(4), of h] unfolding h by (simp only: mult_ac)
    then have "room (len m * unat (drop_bit 1 p))" using Suc.prems(2) h0 by (auto intro: room_mono)
    then obtain m' k q where ih: "pow_even fuel m (r * 2) (drop_bit 1 p) = Inr (m', r * 2 * 2 ^ k, q)"
      "h = unat q * 2 ^ k" "odd (unat q)" "base_ok m' (r * 2 * 2 ^ k)" "bc_value m' = bc_value m ^ (2 ^ k)" "room (len m' * unat q)"
      using Suc.IH [of m "r * 2" "drop_bit 1 p"] m(2) h h0 Suc.prems(4) by auto
    show ?thesis
      by (intro exI [of _ m'] exI [of _ "Suc k"] exI [of _ q])
        (use True bit_step(1) [of p] m ih h in \<open>simp add: power_mult [symmetric] mult_ac\<close>)
  qed
qed simp

lemma pow_loop_spec:
  assumes "base_ok n r" "base_ok c s" "room (len c + 2 * len n * unat p)" "unat p < 2 ^ fuel"
  shows "\<exists>m. pow_loop (Suc fuel) c n r s p = Inr m \<and> base_ok m (s + 2 * r * unat p) \<and>
    bc_value m = bc_value c * (bc_value n ^ 2) ^ unat p"
  using assms
proof (induction fuel arbitrary: n r c s p)
  case 0
  then have "p = 0" by (simp add: unat_eq_0)
  then show ?case using 0 by simp
next
  case (Suc fuel)
  show ?case
  proof (cases "p = 0")
    case True
    then show ?thesis using Suc.prems by simp
  next
    case False
    define h b where "h = unat p div 2" and "b = unat p mod 2"
    have hb: "unat p = 2 * h + b" "b = 0 \<or> b = 1" "unat (drop_bit 1 p) = h" "h < 2 ^ fuel" "p AND 1 = 0 \<longleftrightarrow> b = 0"
      using Suc.prems(4) bit_step [of p] by (auto simp: h_def b_def even_iff_mod_2_eq_zero)
    have p1: "1 \<le> unat p" using False by (simp add: unat_gt_0 Suc_le_eq)
    have le: "2 * len n * 1 \<le> 2 * len n * unat p" by (rule mult_le_mono2 [OF p1])
    have r1: "room (2 * len n)" "room (len c + 2 * len n)"
      by (rule room_mono [OF Suc.prems(3)], use le in linarith)+
    obtain m where m: "zbc_num_mul True n n n (r * 2) = Inr m" "base_ok m (r * 2)" "bc_value m = bc_value n ^ 2" "len m \<le> 2 * len n"
      using square [OF Suc.prems(1) r1(1)] by blast
    have "2 * len m * h \<le> 2 * (2 * len n) * h" by (intro mult_le_mono m(4)) auto
    then have lm: "2 * len m * h \<le> 2 * len n * (2 * h)" by (simp only: mult_ac)
    show ?thesis
    proof (cases "b = 0")
      case True
      then have "unat p = 2 * h" using hb(1) by simp
      with lm have "len c + 2 * len m * h \<le> len c + 2 * len n * unat p" by (simp only: add_left_mono)
      then have "room (len c + 2 * len m * unat (drop_bit 1 p))" using Suc.prems(3) hb(3) by (auto intro: room_mono)
      then obtain x where x: "pow_loop (Suc fuel) c m (r * 2) s (drop_bit 1 p) = Inr x" "base_ok x (s + 2 * (r * 2) * h)"
        "bc_value x = bc_value c * (bc_value m ^ 2) ^ h"
        using Suc.IH [OF m(2) Suc.prems(2)] hb by auto
      have e: "s + 2 * (r * 2) * h = s + 2 * r * unat p" "(bc_value m ^ 2) ^ h = (bc_value n ^ 2) ^ unat p"
        using True hb(1) m(3) by (simp_all flip: power_mult)
      have "pow_loop (Suc (Suc fuel)) c n r s p = Inr x"
        using False True hb(5) m(1) x(1) unfolding pow_loop.simps(2) [of "Suc fuel"] by (simp del: pow_loop.simps)
      then show ?thesis using x(2,3) unfolding e by blast
    next
      case odd: False
      then have b1: "b = 1" using hb(2) by simp
      have "room (len c + len m)" using r1(2) m(4) by (auto intro: room_mono)
      then obtain d where d: "zbc_num_mul True c m c (s + r * 2) = Inr d" "base_ok d (s + r * 2)" "bc_value d = bc_value c * bc_value m"
        "len d \<le> len c + len m"
        using exact_mul [of c m "s + r * 2" True c] Suc.prems(2) m(2) by (auto simp: base_ok_def)
      have "2 * len n * unat p = 2 * len n * (2 * h) + 2 * len n" unfolding hb(1) b1 by simp
      then have "len d + 2 * len m * h \<le> len c + 2 * len n * unat p" using lm d(4) m(4) by linarith
      then have "room (len d + 2 * len m * unat (drop_bit 1 p))" using Suc.prems(3) hb(3) by (auto intro: room_mono)
      then obtain x where x: "pow_loop (Suc fuel) d m (r * 2) (s + r * 2) (drop_bit 1 p) = Inr x" "base_ok x (s + r * 2 + 2 * (r * 2) * h)"
        "bc_value x = bc_value d * (bc_value m ^ 2) ^ h"
        using Suc.IH [OF m(2) d(2)] hb by auto
      have e: "s + r * 2 + 2 * (r * 2) * h = s + 2 * r * unat p" using b1 hb(1) by (simp add: algebra_simps)
      have v: "bc_value d * (bc_value m ^ 2) ^ h = bc_value c * (bc_value n ^ 2) ^ unat p"
        using b1 hb(1) m(3) d(3) by (simp add: power_add mult_ac flip: power_mult)
      have "pow_loop (Suc (Suc fuel)) c n r s p = Inr x"
        using False b1 hb(5) m(1) d(1) x(1) unfolding pow_loop.simps(2) [of "Suc fuel"] by (simp del: pow_loop.simps)
      then show ?thesis using x(2,3) unfolding e v by blast
    qed
  qed
qed


subsection \<open>Powers\<close>

text \<open>The end of \<^verbatim>\<open>zbc_num_p\<close>: the decimals beyond \<open>s\<close> are cut off, and a zero loses its digits.\<close>

lemma finish_spec:
  fixes s :: nat
  assumes r: "wf_num r"
  defines "x \<equiv> (if s < rdx r then bc_num_truncate r (rdx r - s) else r)"
  defines "y \<equiv> (if list_ex (\<lambda>d. d \<noteq> 0) (num x) then x else bc_num_setToZero x s)"
  shows "wf_num y \<and> bc_value y = (if s < rdx r then trunc_dec s (bc_value r) else bc_value r)"
proof (cases "s < rdx r")
  case False
  then have "num r \<noteq> [] \<Longrightarrow> list_ex (\<lambda>d. d \<noteq> 0) (num r)" using r by (auto simp: wf_num_def list_ex_iff)
  then show ?thesis using False r by (cases "num r = []") (auto simp: y_def x_def value_0 wf_empty)
next
  case True
  define k where "k = rdx r - s"
  have x: "num x = drop k (num r)" "rdx x = s" "neg x = neg r" "cap x = cap r" using True by (auto simp: x_def k_def)
  have dx: "digits (num x)" "dval (num x) = dval (num r) div 10 ^ k" using r x by (auto simp: dval_drop)
  have "\<bar>bc_value r\<bar> * 10 ^ s = of_int (dval (num r)) / 10 ^ rdx r * 10 ^ s" using abs_value [OF r] by simp
  then have fl: "\<lfloor>\<bar>bc_value r\<bar> * 10 ^ s\<rfloor> = dval (num x)" using True by (simp only: floor_scale dx k_def) simp
  have v: "bc_value x = trunc_dec s (bc_value r)"
    using signed_trunc [of "bc_value r" "neg r" s] value_neg [OF r] x by (simp add: fl bc_value_def [of x])
  have l: "list_ex (\<lambda>d. d \<noteq> 0) (num x) \<longleftrightarrow> 0 < dval (num x)" using dval_pos [OF dx(1)] by (simp add: list_ex_iff)
  show ?thesis
  proof (cases "0 < dval (num x)")
    case False
    then have "dval (num x) = 0" using dval_nonneg [OF dx(1)] by linarith
    then have "bc_value x = 0" by (simp add: bc_value_def)
    then show ?thesis using False l v True by (simp add: y_def wf_empty value_0)
  next
    case pos: True
    have ne: "num r \<noteq> []" "num x \<noteq> []" using pos x by auto
    have "10 ^ (len x - 1) \<le> dval (num x)" if "rdx x < len x"
    proof -
      have lt: "rdx r < len r" "len r - 1 = (len x - 1) + k" using that x True by (auto simp: k_def)
      have "(10::int) ^ (len x - 1) * 10 ^ k \<le> dval (num r)" using wf_top [OF r lt(1)] lt(2) by (simp add: power_add)
      then have "10 ^ (len x - 1) * 10 ^ k div 10 ^ k \<le> dval (num r) div (10::int) ^ k" by (rule zdiv_mono1) simp
      then show ?thesis using dx(2) by simp
    qed
    then have "wf_num x"
      by (intro wf_numI) (use dx(1) x pos ne True wf_cap [OF r] wf_rdx [OF r ne(1)] in \<open>auto simp: k_def\<close>)
    then show ?thesis using pos l v True by (simp add: y_def)
  qed
qed

text \<open>The digits of an integer.\<close>

lemma integer_digits:
  assumes b: "wf_num b" and k: "bc_value b = of_int k"
  shows "\<forall>d \<in> set (take (rdx b) (num b)). d = 0" "dval (drop (rdx b) (num b)) = \<bar>k\<bar>"
proof -
  have "of_int \<bar>k\<bar> * 10 ^ rdx b = (of_int (dval (num b)) :: rat)" using abs_value [OF b] k by (simp add: field_simps)
  then have "of_int (\<bar>k\<bar> * 10 ^ rdx b) = (of_int (dval (num b)) :: rat)" by simp
  then have d: "dval (num b) = \<bar>k\<bar> * 10 ^ rdx b" by (simp only: of_int_eq_iff)
  show hi: "dval (drop (rdx b) (num b)) = \<bar>k\<bar>" using b by (simp add: dval_drop d)
  show "\<forall>d \<in> set (take (rdx b) (num b)). d = 0"
  proof (cases "num b = []")
    case False
    have "dval (take (rdx b) (num b)) = 0"
      using dval_split [of "num b" "rdx b"] wf_rdx [OF b False] d hi by (simp add: min_absorb2)
    then show ?thesis using b by (simp add: dval_eq_0)
  qed simp
qed

lemma wf_one: "wf_num \<lparr>num = [1], neg = False, rdx = 0, cap = 2\<rparr>" "bc_value \<lparr>num = [1], neg = False, rdx = 0, cap = 2\<rparr> = 1"
  by (simp_all add: wf_num_def bc_value_def)

lemma num_inv:
  assumes "wf_num a" "num a \<noteq> []"
  shows "\<exists>r. zbc_num_inv al a c scale = Inr r \<and> wf_num r \<and> rdx r = scale \<and> bc_value r = trunc_dec scale (1 / bc_value a)"
  using num_div [OF wf_one(1) assms, of al c scale] unfolding zbc_num_inv_def wf_one(2) by blast

text \<open>The decimals kept of a positive power.\<close>

definition pow_scale :: "BcNum \<Rightarrow> nat \<Rightarrow> nat \<Rightarrow> nat" where
  "pow_scale a n scale = min (rdx a * n) (max scale (rdx a))"

lemma pow_scale_code:
  fixes p :: u64
  assumes "room (len a * unat p)" "rdx a \<le> len a" "unat p \<noteq> 0"
  shows "(let scale = (if scale < rdx a then rdx a else scale); new_scale = size_t (int (rdx a * unat p))
    in if (rdx a = 0 \<or> unat p \<le> new_scale) \<and> new_scale < scale then new_scale else scale) = pow_scale a (unat p) scale"
proof -
  have "rdx a * unat p \<le> len a * unat p" using assms(2) by (rule mult_le_mono1)
  then have "int (rdx a * unat p) \<le> BC_MAX_NUM" using assms(1) unfolding room_def by linarith
  then have "int (rdx a * unat p) < 2 ^ 64" by (simp add: BC_MAX_NUM_def)
  from size_t_small [OF of_nat_0_le_iff this] have "size_t (int (rdx a * unat p)) = rdx a * unat p" by (simp only: nat_int)
  then show ?thesis using assms(3) by (auto simp: Let_def pow_scale_def)
qed

lemma large_pow:
  assumes a: "wf_num a" "num a \<noteq> []" and b: "wf_num b" "num b \<noteq> []" "\<not> BC_NUM_ONE b"
    and k: "bc_value b = of_int k" and f: "room (len a * nat \<bar>k\<bar>)"
  shows "\<exists>r. zbc_num_p a b c scale = Inr r \<and> wf_num r \<and>
    bc_value r = (if k < 0 then trunc_dec scale (1 / bc_value a ^ nat \<bar>k\<bar>)
                  else trunc_dec (pow_scale a (nat \<bar>k\<bar>) scale) (bc_value a ^ nat \<bar>k\<bar>))"
proof -
  note id = integer_digits [OF b(1) k]
  have k0: "k \<noteq> 0" "neg b \<longleftrightarrow> k < 0" using value_eq_0 [OF b(1)] value_neg [OF b(1)] k b(2) by auto
  define p :: u64 where "p = of_int \<bar>k\<bar>"
  have la: "1 \<le> len a" using a(2) by (cases "num a") auto
  have "1 * nat \<bar>k\<bar> \<le> len a * nat \<bar>k\<bar>" using la by (rule mult_le_mono1)
  then have "nat \<bar>k\<bar> \<le> 4294967294" using f unfolding room_def BC_MAX_NUM_def by linarith
  then have k32: "\<bar>k\<bar> < 2 ^ 64" by simp
  then have p: "uint p = \<bar>k\<bar>" by (simp add: p_def uint_word_of_int)
  then have pn: "unat p = nat \<bar>k\<bar>" "unat p \<noteq> 0" using k0 by (simp_all add: unat_eq_nat_uint)
  have up: "zbc_num_ulong_abs b = Inr p" using ulong_abs [OF b(1)] id(2) k32 by (simp add: p_def)
  define A where "A = bc_num_init_and_copy a"
  have A: "base_ok A (rdx a)" "len A = len a" "bc_value A = bc_value a"
    using a by (auto simp: base_ok_def A_def bc_num_init_and_copy_def)
  have u64: "unat w < 2 ^ 64" for w :: u64 using unsigned_less [of w, where ?'a = nat] by simp
  have "unat p < 2 ^ 65" using u64 [of p] by simp
  then obtain m j q where m: "pow_even 65 A (rdx a) p = Inr (m, rdx a * 2 ^ j, q)" "unat p = unat q * 2 ^ j" "odd (unat q)"
    "base_ok m (rdx a * 2 ^ j)" "bc_value m = bc_value a ^ (2 ^ j)" "room (len m * unat q)"
    using pow_even_spec [OF A(1), of p 65] f pn A by auto
  define h where "h = unat (drop_bit 1 q)"
  have q: "unat q = 2 * h + 1" using m(3) bit_step(2) [of q] by (auto simp: h_def elim: oddE)
  have bc: "base_ok (bc_num_copy c m) (rdx a * 2 ^ j)" using m(4) by (simp add: base_ok_def)
  have "room (len (bc_num_copy c m) + 2 * len m * h)" using m(6) q by (simp add: algebra_simps)
  moreover have "unat (drop_bit 1 q) < 2 ^ 64" by (rule u64)
  ultimately obtain x where x: "pow_loop (Suc 64) (bc_num_copy c m) m (rdx a * 2 ^ j) (rdx a * 2 ^ j) (drop_bit 1 q) = Inr x"
    "base_ok x (rdx a * 2 ^ j + 2 * (rdx a * 2 ^ j) * h)" "bc_value x = bc_value m * (bc_value m ^ 2) ^ h"
    using pow_loop_spec [OF m(4) bc, of "drop_bit 1 q" 64] by (auto simp: h_def)
  have rx: "rdx a * 2 ^ j + 2 * (rdx a * 2 ^ j) * h = rdx a * unat p" unfolding m(2) q by (simp add: algebra_simps)
  have vx: "bc_value x = bc_value a ^ unat p"
    unfolding x(3) m(5) m(2) q by (simp add: power_add mult_ac flip: power_mult)
  have wx: "wf_num x" "num x \<noteq> []" "rdx x = rdx a * unat p" using x(2) rx by (auto simp: base_ok_def)
  define s where "s = (if \<not> neg b then pow_scale a (unat p) scale else scale)"
  obtain y where y: "(if neg b then zbc_num_inv True x x s else Inr x) = Inr y" "wf_num y"
    "(if s < rdx y then trunc_dec s (bc_value y) else bc_value y) =
     (if k < 0 then trunc_dec scale (1 / bc_value a ^ nat \<bar>k\<bar>) else trunc_dec s (bc_value a ^ nat \<bar>k\<bar>))"
  proof (cases "neg b")
    case True
    then show ?thesis using num_inv [OF wx(1,2), of True x scale] that k0 vx pn by (auto simp: s_def)
  next
    case False
    have "trunc_dec s (bc_value x) = bc_value x" if "\<not> s < rdx x"
    proof -
      have "s = rdx x" using that False wx(3) by (auto simp: s_def pow_scale_def)
      then show ?thesis unfolding value_int [of x] by (simp only: trunc_dec_exact)
    qed
    then show ?thesis using that [of x] False k0 wx vx pn by auto
  qed
  have ne: "\<not> list_ex (\<lambda>d. d \<noteq> 0) (take (rdx b) (num b))" using id(1) by (simp add: list_ex_iff)
  have sc: "(if \<not> neg b then
                let scale = (if scale < rdx a then rdx a else scale); new_scale = size_t (int (rdx a * unat p))
                in if (rdx a = 0 \<or> unat p \<le> new_scale) \<and> new_scale < scale then new_scale else scale
              else scale) = s"
    using pow_scale_code [of a p scale] f pn wf_rdx [OF a] by (simp add: s_def)
  have "zbc_num_p a b c scale =
      Inr (let x = (if s < rdx y then bc_num_truncate y (rdx y - s) else y)
           in if list_ex (\<lambda>d. d \<noteq> 0) (num x) then x else bc_num_setToZero x s)"
    using ne a(2) b(2,3) wf_rdx [OF b(1,2)] up m(1) x(1) y(1) unfolding zbc_num_p_def A_def [symmetric] sc [symmetric]
    by (simp add: Let_def)
  then show ?thesis using finish_spec [OF y(2), of s] y(3) k0 pn by (auto simp: Let_def s_def)
qed




end
