(* ===== verification/Bc_Modexp.thy ===== *)
theory Bc_Modexp
  imports Bc_Pow "HOL-Library.Signed_Division"
begin

text \<open>
  Integers among the numbers of bc: products, quotients and remainders without decimals are those of the
  integers, rounded towards zero as in C; and the modular power of dc (\<^verbatim>\<open>zdc_num_modexp\<close>), a
  square-and-multiply loop over the exponent.
\<close>

subsection \<open>Integers\<close>

definition int_num :: "BcNum \<Rightarrow> int \<Rightarrow> bool" where
  "int_num n k \<longleftrightarrow> wf_num n \<and> rdx n = 0 \<and> bc_value n = of_int k"

lemma int_num_simps: "int_num n k \<Longrightarrow> wf_num n" "int_num n k \<Longrightarrow> rdx n = 0" "int_num n k \<Longrightarrow> bc_value n = of_int k"
  by (simp_all add: int_num_def)

lemma int_num_dval:
  assumes "int_num n k"
  shows "dval (num n) = \<bar>k\<bar>"
proof -
  have "of_int \<bar>k\<bar> = (of_int (dval (num n)) :: rat)" using assms abs_value [of n] by (simp add: int_num_def)
  then show ?thesis by (simp only: of_int_eq_iff)
qed

lemma int_num_len: "int_num n k \<Longrightarrow> \<bar>k\<bar> < 10 ^ l \<Longrightarrow> len n \<le> l"
  using wf_len [of n l] int_num_dval [of n k] by (simp add: int_num_simps)

lemma int_num_less: "int_num n k \<Longrightarrow> \<bar>k\<bar> < 10 ^ len n"
  using int_num_dval [of n k] dval_less [of "num n"] by (simp add: int_num_simps)

lemma int_num_0: "int_num n k \<Longrightarrow> num n = [] \<longleftrightarrow> k = 0"
  using value_eq_0 [of n] by (auto simp: int_num_def)

lemma int_num_short: "int_num n k \<Longrightarrow> \<bar>k\<bar> \<le> \<bar>m\<bar> \<Longrightarrow> int_num c m \<Longrightarrow> len n \<le> len c"
  using int_num_len [of n k "len c"] int_num_less [of c m] by linarith

lemma trunc_dec_int: "trunc_dec 0 (of_int x / of_int y) = of_int (x sdiv y)"
proof -
  have "\<lfloor>\<bar>of_int x / of_int y :: rat\<bar>\<rfloor> = \<bar>x\<bar> div \<bar>y\<bar>"
    by (simp add: abs_divide flip: of_int_abs) (rule floor_divide_of_int_eq)
  moreover consider "x = 0 \<or> y = 0" | "x \<noteq> 0" "y \<noteq> 0" by blast
  ultimately show ?thesis
    by cases (auto simp: trunc_dec_def signed_divide_int_def sgn_if divide_less_0_iff)
qed

lemma int_mul:
  assumes a: "int_num a x" and b: "int_num b y" and l: "int (len a + len b) \<le> BC_MAX_NUM"
  shows "\<exists>r. zbc_num_mul al a b c 0 = Inr r \<and> int_num r (x * y) \<and> len r \<le> len a + len b"
proof -
  have s: "mul_scale a b 0 = 0" using a b by (simp add: mul_scale_def int_num_def)
  have p: "bc_value a * bc_value b = of_int (x * y)" using a b by (simp add: int_num_def)
  have t: "trunc_dec 0 (of_int (x * y)) = of_int (x * y)" using trunc_dec_exact [of 0 "x * y"] by simp
  obtain r where r: "zbc_num_mul al a b c 0 = Inr r" "int_num r (x * y)"
    using num_mul [OF int_num_simps(1) [OF a] int_num_simps(1) [OF b], of 0 al c] l s p t by (auto simp: int_num_def)
  have "dval (num r) < 10 ^ (len a + len b)"
    using product_less [of "num a" "num b"] int_num_dval [OF r(2)] int_num_dval [OF a] int_num_dval [OF b] a b
    by (simp add: abs_mult int_num_simps)
  then show ?thesis using r int_num_len [OF r(2)] int_num_dval [OF r(2)] by auto
qed

lemma int_divmod:
  assumes a: "int_num a x" and b: "int_num b y" "y \<noteq> 0" and f: "rem_fits a b 0"
  shows "\<exists>q r. zbc_num_r a b c d 0 0 = Inr (q, r) \<and> int_num r (x smod y) \<and> (x \<noteq> 0 \<longrightarrow> int_num q (x sdiv y))"
proof (cases "x = 0")
  case True
  then show ?thesis using a b int_num_0 [OF a] int_num_0 [OF b(1)]
    by (auto simp: zbc_num_r_def int_num_def wf_empty value_0)
next
  case False
  have e: "bc_value a / bc_value b = of_int x / of_int y" "max (0 + rdx b) (rdx a) = 0" using a b by (simp_all add: int_num_def)
  have ne: "num a \<noteq> []" "num b \<noteq> []" using False a b int_num_0 by blast+
  from num_r_spec [OF int_num_simps(1) [OF a] ne(1) int_num_simps(1) [OF b(1)] ne(2) f, of c d]
  obtain q r where r: "zbc_num_r a b c d 0 0 = Inr (q, r)" "wf_num q" "wf_num r" "rdx q = 0" "rdx r = 0"
    "bc_value q = of_int (x sdiv y)" "bc_value r = bc_value a - bc_value q * bc_value b"
    unfolding e trunc_dec_int by blast
  have "bc_value r = of_int (x - x sdiv y * y)" using r(6,7) a b by (simp add: int_num_def)
  then show ?thesis using r by (auto simp: int_num_def minus_sdiv_mult_eq_smod)
qed

lemma int_rem:
  assumes a: "int_num a x" and b: "int_num b y" "y \<noteq> 0" and f: "rem_fits a b 0"
  shows "\<exists>r. zbc_num_rem a b c 0 = Inr r \<and> int_num r (x smod y)"
  using int_divmod [OF assms, of "bc_num_init (BC_NUM_MREQ a b 0)" c] a b
  by (auto simp: zbc_num_rem_def Let_def int_num_simps on_success_simps)


subsection \<open>Modular powers\<close>

lemma smod_smod_mult: "((x smod m) * y) smod m = (x * y) smod (m :: int)"
proof -
  have "\<bar>x smod m\<bar> = \<bar>x\<bar> mod \<bar>m\<bar>" by (cases "m = 0") (auto simp: signed_modulo_int_def abs_mult sgn_if)
  then have "\<bar>(x smod m) * y\<bar> mod \<bar>m\<bar> = \<bar>x * y\<bar> mod \<bar>m\<bar>" by (simp add: abs_mult mod_mult_left_eq)
  moreover have "sgn (x smod m) = sgn x \<or> x smod m = 0"
  proof (cases "m = 0 \<or> \<bar>x\<bar> mod \<bar>m\<bar> = 0")
    case False
    then have "0 < \<bar>x\<bar> mod \<bar>m\<bar>" using pos_mod_sign [of "\<bar>m\<bar>" "\<bar>x\<bar>"] by linarith
    then have "sgn (\<bar>x\<bar> mod \<bar>m\<bar>) = 1" by (rule sgn_pos)
    then show ?thesis unfolding signed_modulo_int_def sgn_mult by simp
  qed (auto simp: signed_modulo_int_def sgn_mult)
  then have "sgn ((x smod m) * y) = sgn (x * y) \<or> x smod m = 0" by (auto simp: sgn_mult)
  moreover have "(x * y) smod m = 0" if "x smod m = 0"
    using that by (auto simp: signed_modulo_int_def abs_mult sgn_mult mod_eq_0_iff_dvd)
  ultimately show ?thesis unfolding signed_modulo_int_def [of "(x smod m) * y"] by (auto simp: signed_modulo_int_def)
qed

lemma smod_smod_power: "(y * (x smod m) ^ n) smod m = (y * x ^ n) smod (m :: int)"
proof (induction n arbitrary: y)
  case (Suc n)
  have "(y * (x smod m) ^ Suc n) smod m = ((y * (x smod m)) * (x smod m) ^ n) smod m" by (simp add: ac_simps)
  also have "\<dots> = ((x smod m) * (y * x ^ n)) smod m" unfolding Suc.IH by (simp add: ac_simps)
  also have "\<dots> = (x * (y * x ^ n)) smod m" by (rule smod_smod_mult)
  finally show ?case by (simp add: ac_simps)
qed simp

lemma smod_less:
  fixes x m :: int
  assumes "m \<noteq> 0"
  shows "\<bar>x smod m\<bar> \<le> \<bar>m\<bar>"
proof -
  define r where "r = \<bar>x\<bar> mod \<bar>m\<bar>"
  have "0 \<le> r" "r < \<bar>m\<bar>" using assms by (simp_all add: r_def)
  then show ?thesis unfolding signed_modulo_int_def r_def [symmetric] by (simp add: sgn_if)
qed

text \<open>One turn halves the exponent, squares the base and multiplies the result by the base when the bit is set.\<close>

definition modexp_room :: "BcNum \<Rightarrow> BcNum \<Rightarrow> bool" where
  "modexp_room e c \<longleftrightarrow> 12 * int (len c) \<le> BC_MAX_NUM \<and> 4 * int (len e + 1) \<le> BC_MAX_NUM"

lemma two_num: "int_num bc_num_two 2" "len bc_num_two = 1"
  by (simp_all add: bc_num_two_def int_num_def wf_num_def bc_value_def)

lemma smod_2: "0 \<le> n \<Longrightarrow> n smod 2 = n mod 2" "0 \<le> n \<Longrightarrow> n sdiv 2 = n div 2" for n :: int
  by (cases "n = 0"; simp add: signed_modulo_int_def signed_divide_int_def)+

lemma BC_NUM_ONE_int: "int_num n k \<Longrightarrow> 0 \<le> k \<Longrightarrow> BC_NUM_ONE n \<longleftrightarrow> k = 1"
proof -
  assume n: "int_num n k" and k: "0 \<le> k"
  note d = int_num_dval [OF n] and l = int_num_len [OF n, of 1]
  have "k = 1 \<Longrightarrow> num n = [1]" using d l int_num_0 [OF n] by (cases "num n") (auto simp: Suc_le_eq)
  then show "BC_NUM_ONE n \<longleftrightarrow> k = 1" using n d k by (cases "num n") (auto simp: BC_NUM_ONE_def int_num_simps)
qed

lemma mul_rem:
  assumes a: "int_num a x" and b: "int_num b y" and c: "int_num c m" "m \<noteq> 0"
    and l: "len a \<le> len c" "len b \<le> len c" "12 * int (len c) \<le> BC_MAX_NUM"
  shows "\<exists>t r. zbc_num_mul False a b u 0 = Inr t \<and> zbc_num_rem t c v 0 = Inr r \<and> int_num r ((x * y) smod m) \<and> len r \<le> len c"
proof -
  have "int (len a + len b) \<le> BC_MAX_NUM" using l by linarith
  from int_mul [OF a b this] obtain t where t: "zbc_num_mul False a b u 0 = Inr t" "int_num t (x * y)" "len t \<le> len a + len b" by blast
  have "rem_fits t c 0" using t(3) l by (simp add: rem_fits_def)
  from int_rem [OF t(2) c this] obtain r where r: "zbc_num_rem t c v 0 = Inr r" "int_num r ((x * y) smod m)" by blast
  then show ?thesis using t(1) int_num_short [OF r(2) smod_less [OF c(2)] c(1)] by blast
qed

lemma modexp_turn_spec:
  assumes e: "int_num e n" "0 < n" and b: "int_num b x" "len b \<le> len c" and d: "int_num d y" "len d \<le> len c"
    and c: "int_num c m" "m \<noteq> 0" and room: "modexp_room e c"
  shows "\<exists>e' b' t' d'. modexp_turn c (e, b, t, d) = Inr (e', b', t', d') \<and> int_num e' (n div 2) \<and>
    int_num b' ((x * x) smod m) \<and> len b' \<le> len c \<and> int_num d' (if odd n then (y * x) smod m else y) \<and>
    len d' \<le> len c \<and> modexp_room e' c"
proof -
  have l: "12 * int (len c) \<le> BC_MAX_NUM" "rem_fits e bc_num_two 0"
    using room two_num(2) by (simp_all add: modexp_room_def rem_fits_def)
  have ts: "max (0 + rdx bc_num_two) (rdx e) = 0" using e two_num by (simp add: int_num_simps)
  from int_divmod [OF e(1) two_num(1) _ l(2), of "bc_num_init (BC_NUM_MREQ e bc_num_two 0)" t]
  obtain e' s where q: "zbc_num_divmod True e bc_num_two e t 0 = Inr (e', s)" "int_num s (n mod 2)" "int_num e' (n div 2)"
    using e(2) ts smod_2 [of n] by (auto simp: zbc_num_divmod_def Let_def)
  have le: "len e' \<le> len e" by (rule int_num_short [OF q(3) _ e(1)]) (use e(2) in simp)
  have one: "BC_NUM_ONE s \<longleftrightarrow> odd n" using BC_NUM_ONE_int [OF q(2)] by (simp add: mod_2_eq_odd)
  have "\<exists>t' d'. (if BC_NUM_ONE s then on_success (zbc_num_mul False d b s 0) (\<lambda>temp.
         on_success (zbc_num_rem temp c d 0) (\<lambda>d. Inr (temp, d))) else Inr (s, d)) = Inr (t', d') \<and>
       int_num d' (if odd n then (y * x) smod m else y) \<and> len d' \<le> len c"
    using mul_rem [OF d(1) b(1) c d(2) b(2) l(1), of s d] d by (auto simp: one on_success_simps)
  then obtain t' d' where d': "(if BC_NUM_ONE s then on_success (zbc_num_mul False d b s 0) (\<lambda>temp.
         on_success (zbc_num_rem temp c d 0) (\<lambda>d. Inr (temp, d))) else Inr (s, d)) = Inr (t', d')"
       "int_num d' (if odd n then (y * x) smod m else y)" "len d' \<le> len c" by blast
  obtain t'' b' where b': "zbc_num_mul False b b t' 0 = Inr t''" "zbc_num_rem t'' c b 0 = Inr b'" "int_num b' ((x * x) smod m)" "len b' \<le> len c"
    using mul_rem [OF b(1) b(1) c b(2) b(2) l(1), of t' b] by blast
  have "modexp_turn c (e, b, t, d) = Inr (e', b', t'', d')"
    by (simp add: modexp_turn_def q(1) on_success_simps d'(1) b'(1,2))
  moreover have "modexp_room e' c" using room le by (simp add: modexp_room_def)
  ultimately show ?thesis using q(3) d'(2,3) b'(3,4) by blast
qed

lemma power_turn:
  fixes m :: int
  assumes "0 < n" "d = (if odd n then (y * x) smod m else y)"
  shows "(if n div 2 = 0 then d else (d * ((x * x) smod m) ^ (n div 2)) smod m) = (y * x ^ n) smod m"
proof -
  have "x ^ n = (if odd n then x else 1) * (x * x) ^ (n div 2)"
    by (cases "odd n") (auto simp flip: power2_eq_square power_mult elim!: oddE evenE)
  then show ?thesis
    using assms smod_smod_mult [of "y * x" m "(x * x) ^ (n div 2)"]
    by (auto simp: smod_smod_power ac_simps dvd_div_eq_0_iff elim!: oddE)
qed

lemma modexp_loop_spec:
  assumes "int_num e (int n)" "int_num b x" "len b \<le> len c" "int_num d y" "len d \<le> len c"
    "int_num c m" "m \<noteq> 0" "modexp_room e c" "n < 2 ^ fuel"
  shows "\<exists>r. modexp_loop (Suc fuel) c (e, b, t, d) = Inr r \<and>
    int_num r (if n = 0 then y else (y * x ^ n) smod m)"
  using assms
proof (induction fuel arbitrary: n e b x t d y)
  case 0
  then show ?case using int_num_0 [of e 0] by simp
next
  case (Suc fuel)
  show ?case
  proof (cases "n = 0")
    case True
    then show ?thesis using Suc.prems int_num_0 [of e 0] by simp
  next
    case False
    have e: "len e \<noteq> 0" using int_num_0 [OF Suc.prems(1)] False by simp
    obtain e' b' t' d' where s: "modexp_turn c (e, b, t, d) = Inr (e', b', t', d')" "int_num e' (int (n div 2))"
      "int_num b' ((x * x) smod m)" "len b' \<le> len c" "int_num d' (if odd n then (y * x) smod m else y)"
      "len d' \<le> len c" "modexp_room e' c"
      using modexp_turn_spec [OF Suc.prems(1) _ Suc.prems(2-8), of t] False by (auto simp: zdiv_int)
    have "n div 2 < 2 ^ fuel" using Suc.prems(9) by (simp add: less_mult_imp_div_less mult.commute)
    from Suc.IH [OF s(2,3,4,5,6) Suc.prems(6,7) s(7) this, of t']
    show ?thesis
      using e s(1) power_turn [of n _ y x m, OF _ refl] False by (simp add: on_success_simps)
  qed
qed

lemma modexp_fuel: "n < 10 ^ k \<Longrightarrow> n < (2::nat) ^ (4 * k)"
  using power_mono [of 10 "16 :: nat" k] by (simp add: power_mult)

lemma one_num:
  assumes "1 \<le> k"
  shows "int_num (bc_num_one (bc_num_expand d k)) 1 \<and> len (bc_num_one (bc_num_expand d k)) = 1"
proof -
  have "k \<le> cap (bc_num_expand d k)" by (rule expand_simps(4))
  then have "1 \<le> cap (bc_num_expand d k)" using assms by (rule order_trans [rotated])
  then show ?thesis by (simp add: bc_num_one_def int_num_def wf_num_def bc_value_def)
qed

lemma copy_num: "int_num n k \<Longrightarrow> int_num (bc_num_copy d n) k \<and> len (bc_num_copy d n) = len n"
proof -
  assume n: "int_num n k"
  have "bc_value (bc_num_copy d n) = bc_value n" by (simp add: bc_value_def)
  moreover have "wf_num (bc_num_copy d n)"
    by (rule wf_same [of n]) (use n copy_simps(4) [of n d] in \<open>simp_all add: int_num_simps\<close>)
  ultimately show ?thesis using n by (simp add: int_num_def)
qed

text \<open>C17: the modular power of dc.  For integers x, n >= 0 and m, m not zero, of sizes that fit a number,
  zdc_num_modexp ends without an error or an access outside the memory of a number; its result is the integer
  x^n mod m, with the sign of x^n as the remainder of C has it.  The power 0 gives 1, also for the moduli 1 and -1.
\<close>

theorem zdc_num_modexp_correct:
  assumes a: "int_num a x" and b: "int_num b (int n)" and c: "int_num c m" "m \<noteq> 0"
    and l: "12 * int (len c) \<le> BC_MAX_NUM" "4 * int (len b + 1) \<le> BC_MAX_NUM" "4 * int (len a + len c) \<le> BC_MAX_NUM"
  shows "\<exists>r. zdc_num_modexp a b c d = Inr r \<and> int_num r (if n = 0 then 1 else x ^ n smod m)"
proof -
  have c1: "1 \<le> len c" using int_num_0 [OF c(1)] c(2) by (simp add: Suc_le_eq)
  have "rem_fits a c 0" using l(3) by (simp add: rem_fits_def)
  from int_rem [OF a c this] obtain base where base: "zbc_num_rem a c (bc_num_init (len c)) 0 = Inr base" "int_num base (x smod m)" by blast
  note lb = int_num_short [OF base(2) smod_less [OF c(2)] c(1)]
  define e where "e = bc_num_copy (bc_num_init (len b)) b"
  have e: "int_num e (int n)" "len e = len b" using copy_num [OF b] by (simp_all add: e_def)
  have room: "modexp_room e c" using l e(2) by (simp add: modexp_room_def)
  have "int n < int (10 ^ len b)" using int_num_less [OF b] by simp
  then have "n < 10 ^ len b" by (simp only: of_nat_less_iff)
  note fuel = modexp_fuel [OF this]
  note one = one_num [OF c1, of d]
  from one c1 have "int_num (bc_num_one (bc_num_expand d (len c))) 1" "len (bc_num_one (bc_num_expand d (len c))) \<le> len c" by auto
  from modexp_loop_spec [OF e(1) base(2) lb this c room fuel, of "bc_num_init (len b)"]
  obtain r where r: "modexp_loop (4 * len b + 1) c (e, base, bc_num_init (len b), bc_num_one (bc_num_expand d (len c))) = Inr r"
    "int_num r (if n = 0 then 1 else (1 * (x smod m) ^ n) smod m)" by (auto simp only: Suc_eq_plus1)
  have "\<not> neg b" using value_neg [of b] b by (simp add: int_num_def)
  then have "zdc_num_modexp a b c d = Inr r"
    using a b c c1 base(1) r(1) by (auto simp: zdc_num_modexp_def int_num_simps on_success_simps Let_def e_def)
  then show ?thesis using r(2) smod_smod_power [of 1 x m n] by auto
qed

text \<open>(-7)^13 mod 60\<close>

theorem zdc_num_modexp_correct_witness:
  "\<exists>r. zdc_num_modexp \<lparr>num = [7], neg = True, rdx = 0, cap = 16\<rparr> \<lparr>num = [3, 1], neg = False, rdx = 0, cap = 16\<rparr>
      \<lparr>num = [0, 6], neg = False, rdx = 0, cap = 16\<rparr> (bc_num_init 16) = Inr r \<and> int_num r (- 7)"
proof -
  have "int_num \<lparr>num = [7], neg = True, rdx = 0, cap = 16\<rparr> (- 7)" "int_num \<lparr>num = [3, 1], neg = False, rdx = 0, cap = 16\<rparr> (int 13)"
    "int_num \<lparr>num = [0, 6], neg = False, rdx = 0, cap = 16\<rparr> 60"
    by (simp_all add: int_num_def wf_num_def bc_value_def)
  from zdc_num_modexp_correct [OF this, of "bc_num_init 16"] show ?thesis by (simp add: BC_MAX_NUM_def)
qed

end
