(* ===== verification/Bc_Calc.thy ===== *)
theory Bc_Calc
  imports Bc_Modexp
begin

text \<open>
  What the operations of bc and dc promise, over the rational numbers that the digits stand for: sums and
  comparisons are exact, products and quotients are cut after the decimals that bc prescribes, the remainder
  makes up the division, and the inputs that have no result give an error.
\<close>

subsection \<open>Sums and order\<close>

text \<open>C18: addition and subtraction.  For numbers of less than 2^62 digits zbc_num_add and zbc_num_sub return the
  exact sum and difference as a well-formed number, with no more decimals than the longer operand, also when
  the result is one of the operands; bc_num_cmp tells the order of the two values.
\<close>

theorem bc_sum_exact:
  assumes "wf_num a" "fits a" "wf_num b" "fits b"
  shows "\<exists>r s. zbc_num_add al a b c scale = Inr r \<and> zbc_num_sub al a b c scale = Inr s \<and> wf_num r \<and> wf_num s \<and>
    bc_value r = bc_value a + bc_value b \<and> bc_value s = bc_value a - bc_value b \<and>
    rdx r \<le> max (rdx a) (rdx b) \<and> rdx s \<le> max (rdx a) (rdx b) \<and>
    (bc_num_cmp a b < 0 \<longleftrightarrow> bc_value a < bc_value b) \<and> (bc_num_cmp a b = 0 \<longleftrightarrow> bc_value a = bc_value b)"
  using num_add [OF assms, of al c scale] num_sub [OF assms, of al c scale] cmp_value [OF assms]
  unfolding sum_ok_def by blast

text \<open>99.5 and -0.75\<close>

theorem bc_sum_exact_witness:
  "\<exists>r s. zbc_num_add True \<lparr>num = [5, 9, 9], neg = False, rdx = 1, cap = 16\<rparr> \<lparr>num = [5, 7], neg = True, rdx = 2, cap = 16\<rparr>
      (bc_num_init 0) 0 = Inr r \<and>
    zbc_num_sub True \<lparr>num = [5, 9, 9], neg = False, rdx = 1, cap = 16\<rparr> \<lparr>num = [5, 7], neg = True, rdx = 2, cap = 16\<rparr>
      (bc_num_init 0) 0 = Inr s \<and> bc_value r = 395 / 4 \<and> bc_value s = 401 / 4"
proof -
  let ?a = "\<lparr>num = [5, 9, 9], neg = False, rdx = 1, cap = 16\<rparr>" and ?b = "\<lparr>num = [5, 7], neg = True, rdx = 2, cap = 16\<rparr>"
  have w: "wf_num ?a" "fits ?a" "wf_num ?b" "fits ?b" by (simp_all add: wf_num_def fits_def)
  have v: "bc_value ?a = 199 / 2" "bc_value ?b = - 3 / 4" by (simp_all add: bc_value_def)
  from bc_sum_exact [OF w, of True "bc_num_init 0" 0] show ?thesis unfolding v by auto
qed

subsection \<open>Products\<close>

text \<open>C10: multiplication.  Whichever of the schoolbook and the Karatsuba routine the lengths select, zbc_num_mul
  returns a well-formed number whose value is the product cut, towards zero, after min (rdx a + rdx b)
  (max scale (rdx a) (rdx b)) decimals: the product itself when scale covers all of its decimals.
\<close>

theorem bc_product_truncated:
  assumes "wf_num a" "wf_num b"
    and "s = min (rdx a + rdx b) (max scale (max (rdx a) (rdx b)))" "int (len a + len b + 2 * s) \<le> BC_MAX_NUM"
  shows "\<exists>r. zbc_num_mul al a b c scale = Inr r \<and> wf_num r \<and> rdx r = s \<and>
    bc_value r = trunc_dec s (bc_value a * bc_value b) \<and>
    (rdx a + rdx b \<le> scale \<longrightarrow> bc_value r = bc_value a * bc_value b)"
proof -
  have s: "s = mul_scale a b scale" using assms(3) by (simp add: mul_scale_def)
  have "s = rdx a + rdx b" if "rdx a + rdx b \<le> scale" using that assms(3) by auto
  then show ?thesis
    using num_mul [OF assms(1,2), of scale al c] assms(4) exact_product(1) [OF assms(1,2)] unfolding s by auto
qed

text \<open>-12.5 by 0.35, to two decimals\<close>

theorem bc_product_truncated_witness:
  "\<exists>r. zbc_num_mul False \<lparr>num = [5, 2, 1], neg = True, rdx = 1, cap = 16\<rparr> \<lparr>num = [5, 3], neg = False, rdx = 2, cap = 16\<rparr>
      (bc_num_init 0) 0 = Inr r \<and> rdx r = 2 \<and> bc_value r = - (437 / 100)"
proof -
  let ?a = "\<lparr>num = [5, 2, 1], neg = True, rdx = 1, cap = 16\<rparr>" and ?b = "\<lparr>num = [5, 3], neg = False, rdx = 2, cap = 16\<rparr>"
  have w: "wf_num ?a" "wf_num ?b" "2 = min (rdx ?a + rdx ?b) (max 0 (max (rdx ?a) (rdx ?b)))"
    "int (len ?a + len ?b + 2 * 2) \<le> BC_MAX_NUM" by (simp_all add: wf_num_def BC_MAX_NUM_def)
  have v: "bc_value ?a = - 25 / 2" "bc_value ?b = 7 / 20" by (simp_all add: bc_value_def)
  have "trunc_dec 2 ((- 25 / 2) * (7 / 20)) = - (437 / 100)" by (simp add: trunc_dec_def) (simp add: floor_unique)
  then show ?thesis using bc_product_truncated [OF w, of False "bc_num_init 0"] unfolding v by auto
qed

subsection \<open>Quotients and remainders\<close>

text \<open>What cutting a quotient leaves over.\<close>

lemma trunc_dec_bounds:
  "0 \<le> (x - trunc_dec s x) * x" "\<bar>x - trunc_dec s x\<bar> < 1 / 10 ^ s"
proof -
  define f where "f = (of_int \<lfloor>\<bar>x\<bar> * 10 ^ s\<rfloor> / 10 ^ s :: rat)"
  have lo: "0 \<le> f" "f \<le> \<bar>x\<bar>" "\<bar>x\<bar> < f + 1 / 10 ^ s"
    using of_int_floor_le [of "\<bar>x\<bar> * 10 ^ s"] floor_correct [of "\<bar>x\<bar> * 10 ^ s"]
    by (simp_all add: f_def field_simps)
  have e: "trunc_dec s x = (if x < 0 then - f else f)" by (simp add: trunc_dec_def f_def)
  show "0 \<le> (x - trunc_dec s x) * x" using lo by (auto simp: e abs_if zero_le_mult_iff)
  show "\<bar>x - trunc_dec s x\<bar> < 1 / 10 ^ s" using lo by (auto simp: e abs_if)
qed

lemma remainder_bounds:
  fixes x y :: rat and s :: nat
  assumes "y \<noteq> 0"
  defines "r \<equiv> x - y * trunc_dec s (x / y)"
  shows "0 \<le> r * x" "\<bar>r\<bar> < \<bar>y\<bar> / 10 ^ s"
proof -
  define z where "z = x / y - trunc_dec s (x / y)"
  have r: "r = y * z" and x: "x = y * (x / y)" using assms(1) by (simp_all add: r_def z_def field_simps)
  note b = trunc_dec_bounds [of "x / y" s, folded z_def]
  have "0 \<le> (y * y) * (z * (x / y))" by (rule mult_nonneg_nonneg [OF zero_le_square b(1)])
  moreover have "r * x = (y * y) * (z * (x / y))" using assms(1) by (simp add: r)
  ultimately show "0 \<le> r * x" by simp
  show "\<bar>r\<bar> < \<bar>y\<bar> / 10 ^ s" using mult_strict_left_mono [OF b(2), of "\<bar>y\<bar>"] assms(1) by (simp add: r abs_mult)
qed

text \<open>C11: division.  For a divisor other than zero zbc_num_div returns the quotient cut, towards zero, after scale
  decimals, and zbc_num_mod the number that makes up the division by it exactly: the remainder is a well-formed
  number with max (scale + rdx b) (rdx a) decimals and the value a - b * q, its sign is that of a, and it is
  smaller than b in the last of the scale decimals.
\<close>

theorem bc_quotient_remainder:
  assumes "wf_num a" "wf_num b" "bc_value b \<noteq> 0" "rem_fits a b scale"
  shows "\<exists>q r. zbc_num_div al a b c scale = Inr q \<and> zbc_num_mod al a b d scale = Inr r \<and> wf_num q \<and> wf_num r \<and>
    rdx q = scale \<and> rdx r = max (scale + rdx b) (rdx a) \<and>
    bc_value q = trunc_dec scale (bc_value a / bc_value b) \<and> bc_value a = bc_value b * bc_value q + bc_value r \<and>
    0 \<le> bc_value r * bc_value a \<and> \<bar>bc_value r\<bar> < \<bar>bc_value b\<bar> / 10 ^ scale"
proof -
  have ne: "num b \<noteq> []" using assms(3) by (auto simp: value_0)
  obtain q r where qr: "zbc_num_div al a b c scale = Inr q" "zbc_num_mod al a b d scale = Inr r" "wf_num q" "wf_num r"
    "rdx q = scale" "rdx r = max (scale + rdx b) (rdx a)" "bc_value q = trunc_dec scale (bc_value a / bc_value b)"
    "bc_value r = bc_value a - bc_value b * trunc_dec scale (bc_value a / bc_value b)"
    using num_div [OF assms(1,2) ne, of al c scale] num_mod [OF assms(1,2) ne assms(4), of al d] by blast
  note t = remainder_bounds [OF assms(3), of "bc_value a" scale, folded qr(8)]
  then show ?thesis using qr by auto
qed

text \<open>-7.5 by 2, to one decimal\<close>

theorem bc_quotient_remainder_witness:
  "\<exists>q r. zbc_num_div False \<lparr>num = [5, 7], neg = True, rdx = 1, cap = 16\<rparr> \<lparr>num = [2], neg = False, rdx = 0, cap = 16\<rparr>
      (bc_num_init 0) 1 = Inr q \<and>
    zbc_num_mod False \<lparr>num = [5, 7], neg = True, rdx = 1, cap = 16\<rparr> \<lparr>num = [2], neg = False, rdx = 0, cap = 16\<rparr>
      (bc_num_init 0) 1 = Inr r \<and> bc_value q = - (37 / 10) \<and> bc_value r = - (1 / 10)"
proof -
  let ?a = "\<lparr>num = [5, 7], neg = True, rdx = 1, cap = 16\<rparr>" and ?b = "\<lparr>num = [2], neg = False, rdx = 0, cap = 16\<rparr>"
  have v: "bc_value ?a = - 15 / 2" "bc_value ?b = 2" by (simp_all add: bc_value_def)
  have w: "wf_num ?a" "wf_num ?b" "bc_value ?b \<noteq> 0" "rem_fits ?a ?b 1"
    using v by (simp_all add: wf_num_def rem_fits_def BC_MAX_NUM_def)
  have t: "trunc_dec 1 ((- 15 / 2) / 2) = - (37 / 10)" by (simp add: trunc_dec_def) (simp add: floor_unique)
  from bc_quotient_remainder [OF w, of False "bc_num_init 0" "bc_num_init 0", unfolded v t]
  obtain q r where "zbc_num_div False ?a ?b (bc_num_init 0) 1 = Inr q" "zbc_num_mod False ?a ?b (bc_num_init 0) 1 = Inr r"
    "bc_value q = - (37 / 10)" "- 15 / 2 = 2 * bc_value q + bc_value r" by blast
  then show ?thesis by auto
qed

subsection \<open>Errors\<close>

lemma fraction_digits:
  assumes b: "wf_num b"
  shows "list_ex (\<lambda>d. d \<noteq> 0) (take (rdx b) (num b)) \<longleftrightarrow> bc_value b \<notin> \<int>"
proof
  assume l: "list_ex (\<lambda>d. d \<noteq> 0) (take (rdx b) (num b))"
  show "bc_value b \<notin> \<int>"
  proof
    assume "bc_value b \<in> \<int>"
    then obtain k where "bc_value b = of_int k" by (auto elim: Ints_cases)
    from integer_digits(1) [OF b this] l show False by (auto simp: list_ex_iff)
  qed
next
  assume v: "bc_value b \<notin> \<int>"
  show "list_ex (\<lambda>d. d \<noteq> 0) (take (rdx b) (num b))"
  proof (rule ccontr)
    assume "\<not> list_ex (\<lambda>d. d \<noteq> 0) (take (rdx b) (num b))"
    moreover have "digits (take (rdx b) (num b))" using b by simp
    ultimately have "dval (take (rdx b) (num b)) = 0" by (simp add: dval_eq_0 list_ex_iff)
    then have "dval (num b) = 10 ^ rdx b * dval (drop (rdx b) (num b))"
      using dval_split [of "num b" "rdx b"] wf_rdx [OF b] by (cases "num b = []") (simp_all add: min_absorb2)
    then have "bc_value b = of_int ((if neg b then - 1 else 1) * dval (drop (rdx b) (num b)))" by (simp add: bc_value_def)
    then show False using v by (metis Ints_of_int)
  qed
qed

text \<open>C39: errors.  A division, remainder or modular power by zero, a power whose exponent has a fraction or does
  not fit 64 bits, and a modular power of or by a number with decimals or with a negative exponent give the
  error that the code names, for all well-formed operands.  The power 0 to a negative number gives 0 and no error.
  A power whose exponent is a zero with decimals (such as 1.5 - 1.5) reads digits beyond the length of the
  exponent, which the operation that made it never wrote.
\<close>

theorem bc_errors:
  assumes a: "wf_num a" and b: "wf_num b" and m: "wf_num m"
  shows "(bc_value b = 0 \<longrightarrow> zbc_num_div al a b c scale = Inl BcDivideByZero \<and> zbc_num_mod al a b c scale = Inl BcDivideByZero \<and>
        zbc_num_divmod al a b c d scale = Inl BcDivideByZero \<and> zdc_num_modexp a m b c = Inl BcDivideByZero) \<and>
    (bc_value b \<notin> \<int> \<longrightarrow> zbc_num_pow al a b c scale = Inl BcNotInteger) \<and>
    (bc_value b \<in> \<int> \<and> bc_value a \<noteq> 0 \<and> 2 ^ 64 \<le> \<bar>bc_value b\<bar> \<longrightarrow> zbc_num_pow al a b c scale = Inl BcOverflow) \<and>
    (bc_value m \<noteq> 0 \<and> (0 < rdx a \<or> 0 < rdx b \<or> 0 < rdx m) \<longrightarrow> zdc_num_modexp a b m c = Inl BcNotInteger) \<and>
    (bc_value m \<noteq> 0 \<and> rdx a = 0 \<and> rdx b = 0 \<and> rdx m = 0 \<and> bc_value b < 0 \<longrightarrow> zdc_num_modexp a b m c = Inl BcNegative) \<and>
    (bc_value b = 0 \<and> 0 < rdx b \<longrightarrow> zbc_num_pow al a b c scale = Inl BcStale) \<and>
    (bc_value a = 0 \<and> bc_value b \<in> \<int> \<and> bc_value b < 0 \<longrightarrow> (\<exists>r. zbc_num_pow al a b c scale = Inr r \<and> bc_value r = 0))"
proof (intro conjI impI; (elim conjE)?)
  note z = value_eq_0 [OF a] value_eq_0 [OF b] value_eq_0 [OF m] and fr = fraction_digits [OF b]
  assume "bc_value b = 0"
  then have "num b = []" using z by simp
  then show "zbc_num_div al a b c scale = Inl BcDivideByZero" "zbc_num_mod al a b c scale = Inl BcDivideByZero"
    "zbc_num_divmod al a b c d scale = Inl BcDivideByZero" "zdc_num_modexp a m b c = Inl BcDivideByZero"
    by (simp_all add: zbc_num_div_def zbc_num_mod_def zbc_num_divmod_def zbc_num_binary_def zbc_num_d_def zbc_num_rem_def
        zbc_num_r_def zdc_num_modexp_def Let_def on_success_simps)
next
  assume "bc_value b \<notin> \<int>"
  then show "zbc_num_pow al a b c scale = Inl BcNotInteger"
    using fraction_digits [OF b] by (simp add: zbc_num_pow_def zbc_num_binary_def zbc_num_p_def)
next
  assume h: "bc_value b \<in> \<int>" "bc_value a \<noteq> 0" "2 ^ 64 \<le> \<bar>bc_value b\<bar>"
  then obtain k where k: "bc_value b = of_int k" by (auto elim: Ints_cases)
  have "of_int (2 ^ 64) \<le> (of_int \<bar>k\<bar> :: rat)" using h(3) k by simp
  then have k64: "2 ^ 64 \<le> \<bar>k\<bar>" by (simp only: of_int_le_iff)
  have u: "zbc_num_ulong_abs b = Inl BcOverflow" using ulong_abs [OF b] integer_digits(2) [OF b k] k64 by simp
  have "\<not> BC_NUM_ONE b" using integer_digits(2) [OF b k] k64 by (cases "num b") (auto simp: BC_NUM_ONE_def)
  moreover have "num a \<noteq> []" "num b \<noteq> []" using h by (auto simp: value_0)
  ultimately have ne: "num a \<noteq> []" "num b \<noteq> []" "\<not> BC_NUM_ONE b" by blast+
  show "zbc_num_pow al a b c scale = Inl BcOverflow"
    using fraction_digits [OF b] h(1) ne u wf_rdx [OF b ne(2)] by (simp add: zbc_num_pow_def zbc_num_binary_def zbc_num_p_def on_success_simps)
next
  assume h: "bc_value m \<noteq> 0" "0 < rdx a \<or> 0 < rdx b \<or> 0 < rdx m"
  then show "zdc_num_modexp a b m c = Inl BcNotInteger" by (auto simp: zdc_num_modexp_def value_0)
next
  assume h: "bc_value m \<noteq> 0" "rdx a = 0" "rdx b = 0" "rdx m = 0" "bc_value b < 0"
  then show "zdc_num_modexp a b m c = Inl BcNegative" using value_neg [OF b] by (auto simp: zdc_num_modexp_def value_0)
next
  assume "bc_value b = 0" "0 < rdx b"
  then show "zbc_num_pow al a b c scale = Inl BcStale" using value_eq_0 [OF b] by (simp add: zbc_num_pow_def zbc_num_binary_def zbc_num_p_def)
next
  assume h: "bc_value a = 0" "bc_value b \<in> \<int>" "bc_value b < 0"
  then have "num a = []" "num b \<noteq> []" "\<not> len b < rdx b" using value_eq_0 [OF a] wf_rdx [OF b] value_eq_0 [OF b] by (cases "num b = []"; force)+
  then show "\<exists>r. zbc_num_pow al a b c scale = Inr r \<and> bc_value r = 0"
    using fraction_digits [OF b] h(2) by (simp add: zbc_num_pow_def zbc_num_binary_def zbc_num_p_def value_0)
qed

text \<open>1 over 0, and 1 to the power 1/2\<close>

theorem bc_errors_witness:
  "zbc_num_div False (bc_num_one (bc_num_init 1)) (bc_num_init 1) (bc_num_init 1) 3 = Inl BcDivideByZero \<and>
   zbc_num_pow False (bc_num_one (bc_num_init 1)) \<lparr>num = [5], neg = False, rdx = 1, cap = 16\<rparr> (bc_num_init 1) 3 = Inl BcNotInteger"
proof -
  let ?h = "\<lparr>num = [5], neg = False, rdx = 1, cap = 16\<rparr>"
  have w: "wf_num (bc_num_one (bc_num_init 1))" "wf_num (bc_num_init 1)" "bc_value (bc_num_init 1) = 0"
    by (simp_all add: wf_num_def bc_value_def bc_num_one_def bc_num_init_def BC_NUM_DEF_SIZE_def)
  have h: "wf_num ?h" by (simp add: wf_num_def)
  have "bc_value ?h \<notin> \<int>" unfolding fraction_digits [OF h, symmetric] by simp
  then show ?thesis using bc_errors [OF w(1,2,2)] bc_errors [OF w(1) h w(2)] w(3) by simp
qed

end
