(* ===== verification/Libbb_Num.thy ===== *)
theory Libbb_Num
  imports Libbb_Ctype
begin

text \<open>
  String to number conversion: \<^verbatim>\<open>libbb/bb_strtonum.c\<close> (conversions that report through
  \<^verbatim>\<open>errno\<close>) and \<^verbatim>\<open>libbb/xatonum_template.c\<close> with its instances in \<^verbatim>\<open>libbb/xatonum.c\<close>
  (conversions that die).  The template is included once per integer type; here it is one
  definition, polymorphic in the word length, with the \<^verbatim>\<open>XSTR_STRTOU\<close> of the instance as its
  first argument.  \<open>strtoull\<close> and \<open>strtoll\<close> are the C library's, after the standard's text.
\<close>

subsection \<open>The C library's conversions\<close>

datatype errno = E0 | EINVAL | ERANGE

definition digit_val :: "char \<Rightarrow> nat" where
  "digit_val c =
     (if isdigit c then ord c - 48
      else if isalpha c then ord (bb_tolower c) - 97 + 10
      else 99)"

fun scan_digits :: "nat \<Rightarrow> nat \<Rightarrow> cstr \<Rightarrow> nat \<times> cstr" where
  "scan_digits b v [] = (v, [])"
| "scan_digits b v (c # s) =
     (if digit_val c < b then scan_digits b (b * v + digit_val c) s else (v, c # s))"

definition strto_sign :: "cstr \<Rightarrow> bool \<times> cstr" where
  "strto_sign s =
     (if deref s = CHR ''-'' then (True, tl s)
      else if deref s = CHR ''+'' then (False, tl s)
      else (False, s))"

definition strto_base :: "nat \<Rightarrow> cstr \<Rightarrow> nat \<times> cstr" where
  "strto_base base s =
     (if (base = 0 \<or> base = 16) \<and> deref s = CHR ''0'' \<and> bb_tolower (char_at s 1) = CHR ''x''
         \<and> isxdigit (char_at s 2) then (16, drop 2 s)
      else if base = 0 then (if deref s = CHR ''0'' then 8 else 10, s)
      else (base, s))"

text \<open>Sign, magnitude and the unread rest; \<open>None\<close> when there is no digit.\<close>

definition strto_scan :: "cstr \<Rightarrow> nat \<Rightarrow> (bool \<times> nat \<times> cstr) option" where
  "strto_scan s base =
     (let (neg, t) = strto_sign (dropWhile isspace s);
          (b, t') = strto_base base t;
          (v, r) = scan_digits b 0 t'
      in if r = t' then None else Some (neg, v, r))"

definition strtoull :: "cstr \<Rightarrow> nat \<Rightarrow> u64 \<times> cstr \<times> errno" where
  "strtoull s base =
     (case strto_scan s base of
        None \<Rightarrow> (0, s, E0)
      | Some (neg, v, r) \<Rightarrow>
          if v \<ge> 2 ^ 64 then (- 1, r, ERANGE)
          else (if neg then - of_nat v else of_nat v, r, E0))"

definition strtoll :: "cstr \<Rightarrow> nat \<Rightarrow> u64 \<times> cstr \<times> errno" where
  "strtoll s base =
     (case strto_scan s base of
        None \<Rightarrow> (0, s, E0)
      | Some (neg, v, r) \<Rightarrow>
          if neg then (if v > 2 ^ 63 then (2 ^ 63, r, ERANGE) else (- of_nat v, r, E0))
          else (if v \<ge> 2 ^ 63 then (2 ^ 63 - 1, r, ERANGE) else (of_nat v, r, E0)))"

subsection \<open>bb_strtonum.c\<close>

text \<open>Results are the value, \<^verbatim>\<open>*endp\<close> and \<^verbatim>\<open>errno\<close>.\<close>

definition ret_ERANGE :: "u64 \<times> errno" where
  "ret_ERANGE = (- 1, ERANGE)"

definition handle_errors :: "u64 \<Rightarrow> cstr \<Rightarrow> errno \<Rightarrow> u64 \<times> errno" where
  "handle_errors v endp errno =
     (let next_ch = deref endp
      in if next_ch \<noteq> NUL then
           (if isalnum next_ch \<or> errno \<noteq> E0 then ret_ERANGE else (v, EINVAL))
         else (v, errno))"

definition bb_strtoull :: "cstr \<Rightarrow> nat \<Rightarrow> u64 \<times> cstr \<times> errno" where
  "bb_strtoull arg base =
     (if \<not> isalnum (deref arg) then (let (v, e) = ret_ERANGE in (v, arg, e))
      else let (v, endp, errno) = strtoull arg base; (v', e) = handle_errors v endp errno
           in (v', endp, e))"

definition bb_strtoll :: "cstr \<Rightarrow> nat \<Rightarrow> u64 \<times> cstr \<times> errno" where
  "bb_strtoll arg base =
     (let first = (if deref arg \<noteq> CHR ''-'' then deref arg else char_at arg 1)
      in if \<not> isalnum first then (let (v, e) = ret_ERANGE in (v, arg, e))
         else let (v, endp, errno) = strtoll arg base; (v', e) = handle_errors v endp errno
              in (v', endp, e))"

definition bb_strtou :: "cstr \<Rightarrow> nat \<Rightarrow> u32 \<times> cstr \<times> errno" where
  "bb_strtou arg base =
     (if \<not> isalnum (deref arg) then (let (v, e) = ret_ERANGE in (ucast v, arg, e))
      else let (v, endp, errno) = strtoull arg base
           in if v > 0xffffffff then (let (v', e) = ret_ERANGE in (ucast v', endp, e))
              else let (v', e) = handle_errors v endp errno in (ucast v', endp, e))"

definition bb_strtoi :: "cstr \<Rightarrow> nat \<Rightarrow> u32 \<times> cstr \<times> errno" where
  "bb_strtoi arg base =
     (let first = (if deref arg \<noteq> CHR ''-'' then deref arg else char_at arg 1)
      in if \<not> isalnum first then (let (v, e) = ret_ERANGE in (ucast v, arg, e))
         else let (v, endp, errno) = strtoll arg base
              in if sint v > 2 ^ 31 - 1 \<or> sint v < - (2 ^ 31)
                 then (let (v', e) = ret_ERANGE in (ucast v', endp, e))
                 else let (v', e) = handle_errors v endp errno in (ucast v', endp, e))"

subsection \<open>xatonum_template.c\<close>

type_synonym suffix_mult = "cstr \<times> u32"

text \<open>The scan of a suffix table stops at the entry whose multiplier is 0.\<close>

fun find_suffix :: "suffix_mult list \<Rightarrow> cstr \<Rightarrow> u32 option" where
  "find_suffix [] e = None"
| "find_suffix ((s, mult) # sfx) e =
     (if mult = 0 then None else if s = e then Some mult else find_suffix sfx e)"

definition chk_range :: "cstr \<Rightarrow> 'a::len word \<Rightarrow> 'a word \<Rightarrow> 'a word \<Rightarrow> 'a word outcome" where
  "chk_range numstr lower upper r =
     (if lower \<le> r \<and> r \<le> upper then Inr r else Inl (DieNotInRange numstr))"

type_synonym 'a strtou = "cstr \<Rightarrow> nat \<Rightarrow> 'a word \<times> cstr \<times> errno"

definition xstrtou_range_sfx ::
  "'a::len strtou \<Rightarrow> cstr \<Rightarrow> nat \<Rightarrow> 'a word \<Rightarrow> 'a word \<Rightarrow> suffix_mult list option \<Rightarrow> 'a word outcome"
where
  "xstrtou_range_sfx XSTR_STRTOU numstr base lower upper suffixes =
     (if deref numstr = CHR ''-'' \<or> deref numstr = CHR ''+'' \<or> isspace (deref numstr)
      then Inl (DieInvalidNumber numstr)
      else case XSTR_STRTOU numstr base of (r, e, errno) \<Rightarrow>
        if errno \<noteq> E0 \<or> numstr = e then Inl (DieInvalidNumber numstr)
        else case Option.bind suffixes (\<lambda>sfx. find_suffix sfx e) of
          Some mult \<Rightarrow>
            if - 1 div ucast mult < r then Inl (DieNotInRange numstr)
            else chk_range numstr lower upper (r * ucast mult)
        | None \<Rightarrow>
            if deref e \<noteq> NUL then Inl (DieInvalidNumber numstr)
            else chk_range numstr lower upper r)"

definition xstrtou_range ::
  "'a::len strtou \<Rightarrow> cstr \<Rightarrow> nat \<Rightarrow> 'a word \<Rightarrow> 'a word \<Rightarrow> 'a word outcome" where
  "xstrtou_range S numstr base lower upper = xstrtou_range_sfx S numstr base lower upper None"

definition xstrtou_sfx ::
  "'a::len strtou \<Rightarrow> cstr \<Rightarrow> nat \<Rightarrow> suffix_mult list option \<Rightarrow> 'a word outcome" where
  "xstrtou_sfx S numstr base suffixes = xstrtou_range_sfx S numstr base 0 (- 1) suffixes"

definition xstrtou :: "'a::len strtou \<Rightarrow> cstr \<Rightarrow> nat \<Rightarrow> 'a word outcome" where
  "xstrtou S numstr base = xstrtou_range_sfx S numstr base 0 (- 1) None"

definition xatou_range_sfx ::
  "'a::len strtou \<Rightarrow> cstr \<Rightarrow> 'a word \<Rightarrow> 'a word \<Rightarrow> suffix_mult list option \<Rightarrow> 'a word outcome" where
  "xatou_range_sfx S numstr lower upper suffixes =
     xstrtou_range_sfx S numstr 10 lower upper suffixes"

definition xatou_range :: "'a::len strtou \<Rightarrow> cstr \<Rightarrow> 'a word \<Rightarrow> 'a word \<Rightarrow> 'a word outcome" where
  "xatou_range S numstr lower upper = xstrtou_range_sfx S numstr 10 lower upper None"

definition xatou_sfx :: "'a::len strtou \<Rightarrow> cstr \<Rightarrow> suffix_mult list option \<Rightarrow> 'a word outcome" where
  "xatou_sfx S numstr suffixes = xstrtou_range_sfx S numstr 10 0 (- 1) suffixes"

definition xatou :: "'a::len strtou \<Rightarrow> cstr \<Rightarrow> 'a word outcome" where
  "xatou S numstr = xatou_sfx S numstr None"

text \<open>
  The signed conversions.  \<^verbatim>\<open>u\<close> starts as the largest positive value; the test of \<^verbatim>\<open>p[0]\<close>
  against \<^verbatim>\<open>'-'\<close> comes after \<^verbatim>\<open>++p\<close>.  Bounds and result are read as two's complement.
\<close>

definition type_max :: "'a::len word" where
  "type_max = 2 ^ (LENGTH('a) - 1) - 1"

definition type_min :: "'a::len word" where
  "type_min = 2 ^ (LENGTH('a) - 1)"

definition xstrto_range_sfx ::
  "'a::len strtou \<Rightarrow> cstr \<Rightarrow> nat \<Rightarrow> 'a word \<Rightarrow> 'a word \<Rightarrow> suffix_mult list option \<Rightarrow> 'a word outcome"
where
  "xstrto_range_sfx XSTR_STRTOU numstr base lower upper suffixes =
     (let (p, u) =
        (if deref numstr = CHR ''+'' \<or> deref numstr = CHR ''-'' then
           (let p = tl numstr
            in if deref p = CHR ''-'' then (p, type_max + 1) else (p, type_max))
         else (numstr, type_max))
      in case xstrtou_range_sfx XSTR_STRTOU p base 0 u suffixes of
           Inl d \<Rightarrow> Inl d
         | Inr r0 \<Rightarrow>
             (let r = (if deref numstr = CHR ''-'' then - r0 else r0)
              in if sint r < sint lower \<or> sint r > sint upper
                 then Inl (DieNotInRange numstr) else Inr r))"

definition xstrto_range ::
  "'a::len strtou \<Rightarrow> cstr \<Rightarrow> nat \<Rightarrow> 'a word \<Rightarrow> 'a word \<Rightarrow> 'a word outcome" where
  "xstrto_range S numstr base lower upper = xstrto_range_sfx S numstr base lower upper None"

definition xstrto :: "'a::len strtou \<Rightarrow> cstr \<Rightarrow> nat \<Rightarrow> 'a word outcome" where
  "xstrto S numstr base = xstrto_range_sfx S numstr base type_min type_max None"

definition xato_range_sfx ::
  "'a::len strtou \<Rightarrow> cstr \<Rightarrow> 'a word \<Rightarrow> 'a word \<Rightarrow> suffix_mult list option \<Rightarrow> 'a word outcome" where
  "xato_range_sfx S numstr lower upper suffixes =
     xstrto_range_sfx S numstr 10 lower upper suffixes"

definition xato_range :: "'a::len strtou \<Rightarrow> cstr \<Rightarrow> 'a word \<Rightarrow> 'a word \<Rightarrow> 'a word outcome" where
  "xato_range S numstr lower upper = xstrto_range_sfx S numstr 10 lower upper None"

definition xato_sfx :: "'a::len strtou \<Rightarrow> cstr \<Rightarrow> suffix_mult list option \<Rightarrow> 'a word outcome" where
  "xato_sfx S numstr suffixes = xstrto_range_sfx S numstr 10 type_min type_max suffixes"

definition xato :: "'a::len strtou \<Rightarrow> cstr \<Rightarrow> 'a word outcome" where
  "xato S numstr = xstrto_range_sfx S numstr 10 type_min type_max None"

subsection \<open>The instances in xatonum.c\<close>

definition bb_strtoui :: "cstr \<Rightarrow> nat \<Rightarrow> u32 \<times> cstr \<times> errno" where
  "bb_strtoui str b =
     (let (v, e, errno) = strtoull str b
      in if v > 0xffffffff then (- 1, e, ERANGE) else (ucast v, e, errno))"

definition xatoi_positive :: "cstr \<Rightarrow> u32 outcome" where
  "xatoi_positive numstr = xatou_range bb_strtoui numstr 0 0x7fffffff"

definition xatou16 :: "cstr \<Rightarrow> u16 outcome" where
  "xatou16 numstr = map_sum id ucast (xatou_range bb_strtoui numstr 0 0xffff)"

definition bkm_suffixes :: "suffix_mult list" where
  "bkm_suffixes = [(''b'', 512), (''k'', 1024), (''m'', 1024 * 1024), ('''', 0)]"

definition cwbkMG_suffixes :: "suffix_mult list" where
  "cwbkMG_suffixes =
    [(''c'', 1), (''w'', 2), (''b'', 512), (''kB'', 1000), (''kD'', 1000), (''k'', 1024),
     (''KB'', 1000), (''KD'', 1000), (''K'', 1024), (''MB'', 1000000), (''MD'', 1000000),
     (''M'', 1024 * 1024), (''GB'', 1000000000), (''GD'', 1000000000),
     (''G'', 1024 * 1024 * 1024), ('''', 0)]"

definition kmg_i_suffixes :: "suffix_mult list" where
  "kmg_i_suffixes =
    [(''KiB'', 1024), (''kiB'', 1024), (''K'', 1024), (''k'', 1024),
     (''MiB'', 1048576), (''miB'', 1048576), (''M'', 1048576), (''m'', 1048576),
     (''GiB'', 1073741824), (''giB'', 1073741824), (''G'', 1073741824), (''g'', 1073741824),
     (''KB'', 1000), (''MB'', 1000000), (''GB'', 1000000000), ('''', 0)]"

subsection \<open>Scanning decimal digits\<close>

text \<open>The value of a string of decimal digits.\<close>

fun dec_val :: "nat \<Rightarrow> cstr \<Rightarrow> nat" where
  "dec_val v [] = v"
| "dec_val v (c # s) = dec_val (10 * v + (ord c - 48)) s"

lemma digit_val_less_10: "digit_val c < 10 \<longleftrightarrow> isdigit c"
  by (auto simp: digit_val_def isdigit_ord)

lemma digit_val_isdigit [simp]: "isdigit c \<Longrightarrow> digit_val c = ord c - 48"
  by (simp add: digit_val_def)

lemma scan_digits_dec:
  "scan_digits 10 v s = (dec_val v (takeWhile isdigit s), dropWhile isdigit s)"
  by (induction s arbitrary: v) (auto simp: digit_val_less_10)

lemma isalnum_start:
  "isalnum (deref s) \<Longrightarrow> dropWhile isspace s = s \<and> strto_sign s = (False, s)"
  by (cases s) (auto simp: strto_sign_def ctype_simps)

lemma strto_scan_dec:
  assumes "isalnum (deref s)"
  shows "strto_scan s 10 =
    (if isdigit (deref s) then Some (False, dec_val 0 (takeWhile isdigit s), dropWhile isdigit s)
     else None)"
proof -
  from assms obtain c t where s: "s = c # t" by (cases s) auto
  show ?thesis
  proof (cases "isdigit c")
    case True
    have "length (dropWhile isdigit t) \<le> length t" by (rule length_dropWhile_le)
    then have "dropWhile isdigit t \<noteq> c # t" by (metis impossible_Cons)
    with True isalnum_start [OF assms] s show ?thesis
      by (simp add: strto_scan_def strto_base_def scan_digits_dec)
  next
    case False
    with isalnum_start [OF assms] s show ?thesis
      by (simp add: strto_scan_def strto_base_def scan_digits_dec)
  qed
qed

lemma all_digits_scan:
  "list_all isdigit s \<Longrightarrow> takeWhile isdigit s = s \<and> dropWhile isdigit s = []"
  by (induction s) auto

subsection \<open>Properties\<close>

lemma word_div_max_less:
  fixes r m :: "'a::len word"
  assumes "m \<noteq> 0" and "\<not> - 1 div m < r"
  shows "unat (r * m) = unat r * unat m"
proof -
  from assms have "unat r \<le> unat (- 1 :: 'a word) div unat m"
    by (simp add: word_le_nat_alt not_less unat_div)
  then have "unat r * unat m \<le> unat (- 1 :: 'a word)"
    by (metis assms(1) div_le_mono less_eq_div_iff_mult_less_eq unat_gt_0)
  also have "\<dots> < 2 ^ LENGTH('a)" by (rule unsigned_less)
  finally show ?thesis by (rule unat_mult_lem [THEN iffD1])
qed

lemma chk_range_Inr: "chk_range n lo hi r = Inr r' \<longleftrightarrow> r' = r \<and> lo \<le> r \<and> r \<le> hi"
  by (auto simp: chk_range_def)

lemma find_suffix_nonzero: "find_suffix sfx e = Some m \<Longrightarrow> m \<noteq> 0 \<and> (e, m) \<in> set sfx"
  by (induction sfx e rule: find_suffix.induct) (auto split: if_splits)

text \<open>C29: \<open>bb_strtoull\<close> in base 10 leaves errno 0 exactly for a non-empty string of decimal
  digits whose value fits in 64 bits, and then returns that value with nothing left unread.\<close>

theorem bb_strtoull_exact:
  assumes "wf_cstr s"
  shows "bb_strtoull s 10 = (v, r, E0) \<longleftrightarrow>
    s \<noteq> [] \<and> list_all isdigit s \<and> dec_val 0 s < 2 ^ 64 \<and> v = of_nat (dec_val 0 s) \<and> r = []"
proof (cases "isalnum (deref s)")
  case False
  then have "s \<noteq> [] \<Longrightarrow> \<not> list_all isdigit s" by (cases s) (auto simp: isalnum_iff)
  with False show ?thesis by (auto simp: bb_strtoull_def ret_ERANGE_def)
next
  case True
  then have ne: "s \<noteq> []" by auto
  define d where "d = dropWhile isdigit s"
  have "set d \<subseteq> set s" by (auto simp: d_def dest: set_dropWhileD)
  with assms have wd: "wf_cstr d" by (auto simp: wf_cstr_def)
  have d: "deref d \<noteq> NUL \<longleftrightarrow> d \<noteq> []" using deref_eq_NUL [OF wd] by simp
  have all: "list_all isdigit s \<longleftrightarrow> d = []" by (simp add: d_def list_all_iff dropWhile_eq_Nil_conv)
  show ?thesis
  proof (cases "isdigit (deref s)")
    case dig: True
    show ?thesis
    proof (cases "d = []")
      case True
      with all all_digits_scan have tw: "takeWhile isdigit s = s" by blast
      from \<open>isalnum (deref s)\<close> dig ne True all show ?thesis
        by (auto simp: tw bb_strtoull_def strtoull_def strto_scan_dec handle_errors_def
            simp flip: d_def)
    next
      case False
      with \<open>isalnum (deref s)\<close> dig d all show ?thesis
        by (auto simp: bb_strtoull_def strtoull_def strto_scan_dec handle_errors_def
            ret_ERANGE_def Let_def simp flip: d_def split: if_splits)
    qed
  next
    case False
    with ne have "\<not> list_all isdigit s" by (cases s) auto
    moreover have "deref s \<noteq> NUL" using ne assms deref_eq_NUL by blast
    ultimately show ?thesis using True False
      by (auto simp: bb_strtoull_def strtoull_def strto_scan_dec handle_errors_def ret_ERANGE_def)
  qed
qed

theorem bb_strtoull_exact_witness:
  "wf_cstr ''4200'' \<and> bb_strtoull ''4200'' 10 = (4200, [], E0)"
proof -
  have w: "wf_cstr ''4200''" by simp
  have "bb_strtoull ''4200'' 10 = (of_nat (dec_val 0 ''4200''), [], E0)"
    using bb_strtoull_exact [OF w, of "of_nat (dec_val 0 ''4200'')" "[]"]
    by (simp add: isdigit_def)
  with w show ?thesis by simp
qed

text \<open>C23: whatever \<open>xstrtou_range_sfx\<close> returns lies between the bounds the caller gave, and is
  the number read times the multiplier of the suffix read, with no wrap-around.\<close>

theorem xstrtou_range_sfx_no_wrap:
  fixes r :: "'a::len word"
  assumes "xstrtou_range_sfx S numstr base lower upper suffixes = Inr r"
    and "LENGTH('a) \<ge> 32"
  shows "lower \<le> r \<and> r \<le> upper \<and>
    (\<exists>v e. S numstr base = (v, e, E0) \<and> e \<noteq> numstr \<and>
       (case Option.bind suffixes (\<lambda>sfx. find_suffix sfx e) of
          Some mult \<Rightarrow> unat r = unat v * unat mult
        | None \<Rightarrow> deref e = NUL \<and> r = v))"
proof -
  have uc: "unat (ucast m :: 'a word) = unat m" for m :: u32
  proof -
    have "unat m < 2 ^ 32" using unsigned_less [of m] by simp
    also have "(2 :: nat) ^ 32 \<le> 2 ^ LENGTH('a)"
      using assms(2) by (rule power_increasing) simp
    finally show ?thesis by (simp add: unsigned_ucast_eq take_bit_nat_eq_self_iff)
  qed
  obtain v e errno where S: "S numstr base = (v, e, errno)" by (metis prod_cases3)
  show ?thesis
  proof (cases "Option.bind suffixes (\<lambda>sfx. find_suffix sfx e)")
    case None
    with assms(1) S show ?thesis
      by (auto simp: xstrtou_range_sfx_def chk_range_Inr split: if_splits)
  next
    case (Some m)
    then have "m \<noteq> 0" by (auto simp: bind_eq_Some_conv dest: find_suffix_nonzero)
    with uc have "(ucast m :: 'a word) \<noteq> 0" by (metis unat_0 unat_eq_0)
    moreover have "\<not> - 1 div ucast m < v" and "r = v * ucast m" and "lower \<le> r" "r \<le> upper"
      and "errno = E0" "e \<noteq> numstr"
      using assms(1) S Some
      by (auto simp: xstrtou_range_sfx_def chk_range_Inr split: if_splits)
    ultimately show ?thesis using S Some uc word_div_max_less by fastforce
  qed
qed

theorem xstrtou_range_sfx_no_wrap_witness:
  "xstrtou_range_sfx strtoull ''3k'' 10 1 4096 (Some bkm_suffixes) = Inr 3072 \<and>
   (1 :: u64) \<le> 3072 \<and> (3072 :: u64) \<le> 4096"
proof -
  have h: "xstrtou_range_sfx strtoull ''3k'' 10 1 4096 (Some bkm_suffixes) = Inr 3072"
    by (simp add: xstrtou_range_sfx_def strtoull_def strto_scan_def strto_sign_def strto_base_def
        digit_val_def ctype_defs bkm_suffixes_def chk_range_def)
  show ?thesis using h xstrtou_range_sfx_no_wrap [OF h] by simp
qed

text \<open>C30: the signed conversions accept every negative number down to minus the largest positive
  value of the type and reject the most negative value, although the code sets aside an extra
  unit of range for it: the test for the minus sign looks at the character after the sign.\<close>

theorem xatoll_negative:
  assumes "ds \<noteq> []" and "list_all isdigit ds"
  shows "xato strtoull (CHR ''-'' # ds) =
    (if dec_val 0 ds < 2 ^ 63 then Inr (- of_nat (dec_val 0 ds))
     else if dec_val 0 ds < 2 ^ 64 then Inl (DieNotInRange ds)
     else Inl (DieInvalidNumber ds))"
proof -
  let ?n = "dec_val 0 ds"
  from assms have dig: "isdigit (deref ds)" and an: "isalnum (deref ds)"
    by (cases ds; auto simp: isalnum_iff)+
  then have c: "deref ds \<noteq> CHR ''-''" "deref ds \<noteq> CHR ''+''" "\<not> isspace (deref ds)"
    by (auto simp: isdigit_ord isspace_ord)
  have S: "strtoull ds 10 = (if ?n < 2 ^ 64 then (of_nat ?n, [], E0) else (- 1, [], ERANGE))"
    by (simp add: strtoull_def strto_scan_dec an dig all_digits_scan [OF assms(2)])
  have le: "(of_nat ?n :: u64) \<le> type_max \<longleftrightarrow> ?n < 2 ^ 63" if "?n < 2 ^ 64"
    using that by (auto simp: type_max_def word_le_nat_alt unat_of_nat take_bit_nat_eq_self)
  have si: "sint (- of_nat ?n :: u64) = - int ?n" if "?n < 2 ^ 63"
    using that
    by (simp add: sint_word_ariths signed_of_nat signed_take_bit_int_eq_self)
  have tm: "sint (type_max :: u64) = 2 ^ 63 - 1" "sint (type_min :: u64) = - (2 ^ 63)"
    by (simp_all add: type_max_def type_min_def)
  show ?thesis
    using assms(1) c S le si
    by (auto simp: xato_def xstrto_range_sfx_def xstrtou_range_sfx_def chk_range_def Let_def tm)
qed

theorem xatoll_negative_witness:
  "xato strtoull ''-9223372036854775808'' = Inl (DieNotInRange ''9223372036854775808'') \<and>
   xato strtoull ''-9223372036854775807'' = Inr (- 9223372036854775807)"
  using xatoll_negative [of "''9223372036854775808''"] xatoll_negative [of "''9223372036854775807''"]
  by (simp add: isdigit_def)

end
