(* ===== verification/Libbb_Xfuncs.thy ===== *)
theory Libbb_Xfuncs
  imports Libbb_Num
begin

text \<open>
  Number and hexadecimal printing of \<^verbatim>\<open>libbb/xfuncs.c\<close>: \<^verbatim>\<open>utoa_to_buf\<close> and \<^verbatim>\<open>itoa_to_buf\<close> write into a
  buffer of a given size and return the position after the last digit; here they return the
  characters written.  \<^verbatim>\<open>bin2hex\<close> and \<^verbatim>\<open>hex2bin\<close> convert bytes to hexadecimal and back.
\<close>

subsection \<open>Decimal\<close>

text \<open>\<open>i\<close> is the weight of the current digit, \<open>out\<close> the digits written so far; \<^verbatim>\<open>unsigned\<close> wraps.\<close>

function utoa_loop :: "u32 \<Rightarrow> u32 \<Rightarrow> u32 \<Rightarrow> cstr \<Rightarrow> cstr" where
  "utoa_loop n i buflen out =
    (if i = 0 then out
     else let res = n div i; n = n mod i in
       if res \<noteq> 0 \<or> out \<noteq> [] \<or> i = 1 then
         let buflen = buflen - 1 in
         if buflen = 0 then out
         else utoa_loop n (i div 10) buflen (out @ [byte_char (uchar (CHR ''0'') + ucast res)])
       else utoa_loop n (i div 10) buflen out)"
  by pat_completeness auto
termination
  by (relation "measure (\<lambda>(n, i, b, out). unat i)") (auto simp: unat_div unat_gt_0)

declare utoa_loop.simps [simp del]

definition utoa_to_buf :: "u32 \<Rightarrow> u32 \<Rightarrow> cstr" where
  "utoa_to_buf n buflen = (if buflen \<noteq> 0 then utoa_loop n 1000000000 buflen [] else [])"

text \<open>\<^verbatim>\<open>n\<close> is an \<^verbatim>\<open>int\<close>: negative when its sign bit is set.\<close>

definition itoa_to_buf :: "u32 \<Rightarrow> u32 \<Rightarrow> cstr" where
  "itoa_to_buf n buflen =
    (if buflen = 0 then []
     else if sint n < 0 then CHR ''-'' # utoa_to_buf (- n) (buflen - 1)
     else utoa_to_buf n buflen)"

definition sizeof_local_buf :: u32 where
  "sizeof_local_buf = 4 * 3"

definition utoa :: "u32 \<Rightarrow> cstr" where
  "utoa n = utoa_to_buf n (sizeof_local_buf - 1)"

definition itoa :: "u32 \<Rightarrow> cstr" where
  "itoa n = itoa_to_buf n (sizeof_local_buf - 1)"

subsection \<open>Hexadecimal\<close>

definition bb_hexdigits_upcase :: cstr where
  "bb_hexdigits_upcase = ''0123456789ABCDEF''"

definition hexdigit :: "byte \<Rightarrow> char" where
  "hexdigit d = byte_char (0x20 OR uchar (bb_hexdigits_upcase ! unat d))"

fun bin2hex :: "byte list \<Rightarrow> cstr" where
  "bin2hex [] = []"
| "bin2hex (c # cp) = hexdigit (drop_bit 4 c) # hexdigit (c AND 0xf) # bin2hex cp"

definition hexval :: "char \<Rightarrow> byte option" where
  "hexval ch =
    (let c = uchar ch in
     if isdigit ch then Some (c - uchar (CHR ''0''))
     else if (c OR 0x20) \<ge> uchar (CHR ''a'') \<and> (c OR 0x20) \<le> uchar (CHR ''f'')
     then Some ((c OR 0x20) - (uchar (CHR ''a'') - 10))
     else None)"

text \<open>The bytes stored before \<^verbatim>\<open>return\<close>, and \<^verbatim>\<open>errno\<close>; \<open>EINVAL\<close> comes with a null pointer.\<close>

function hex2bin_loop :: "byte list \<Rightarrow> cstr \<Rightarrow> nat \<Rightarrow> byte list \<times> errno" where
  "hex2bin_loop dst str count =
    (if str = [] \<or> count = 0 then (dst, if str \<noteq> [] then ERANGE else E0)
     else case hexval (deref str) of
       None \<Rightarrow> (dst, EINVAL)
     | Some v \<Rightarrow>
         let val = push_bit 4 v; str = tl str; c = deref str in
         case (case hexval c of
                 Some w \<Rightarrow> Some (val OR w)
               | None \<Rightarrow> if c = CHR '':'' \<or> str = [] then Some (drop_bit 4 val) else None) of
           None \<Rightarrow> (dst, EINVAL)
         | Some val \<Rightarrow>
             let str = (if str \<noteq> [] then tl str else str);
                 str = (if deref str = CHR '':'' then tl str else str)
             in hex2bin_loop (dst @ [val]) str (count - 1))"
  by pat_completeness auto
termination by (relation "measure (\<lambda>(dst, str, count). count)") auto

declare hex2bin_loop.simps [simp del]

definition hex2bin :: "cstr \<Rightarrow> nat \<Rightarrow> byte list \<times> errno" where
  "hex2bin str count = hex2bin_loop [] str count"

subsection \<open>What the printed digits are worth\<close>

definition digits :: "nat \<Rightarrow> nat \<Rightarrow> nat \<Rightarrow> cstr \<Rightarrow> bool" where
  "digits m p n ds \<longleftrightarrow> length ds = m \<and> list_all isdigit ds \<and> (\<forall>v. dec_val v ds = v * 10 ^ m + n div 10 ^ p)"

definition digit_char :: "u32 \<Rightarrow> char" where
  "digit_char d = byte_char (uchar (CHR ''0'') + ucast d)"

lemma digit_char:
  assumes "unat d < 10"
  shows "ord (digit_char d) = 48 + unat d" "isdigit (digit_char d)"
proof -
  have u: "unat (ucast d :: byte) = unat d" using assms by (simp add: unsigned_ucast_eq take_bit_nat_eq_self)
  then have "unat (48 + ucast d :: byte) = 48 + unat d" using assms by (simp add: unat_word_ariths)
  then show o: "ord (digit_char d) = 48 + unat d" using assms by (simp add: digit_char_def)
  then show "isdigit (digit_char d)" using assms unfolding isdigit_ord by simp
qed

lemma utoa_step:
  assumes "unat i = 10 ^ k"
  shows "utoa_loop n i b out =
    (if 10 ^ k \<le> unat n \<or> out \<noteq> [] \<or> k = 0
     then if b = 1 then out else utoa_loop (n mod i) (i div 10) (b - 1) (out @ [digit_char (n div i)])
     else utoa_loop (n mod i) (i div 10) b out)"
proof -
  have "i \<noteq> 0" using assms by (metis power_eq_0_iff unat_0 zero_neq_numeral)
  moreover have "n div i \<noteq> 0 \<longleftrightarrow> 10 ^ k \<le> unat n"
    using assms by (simp add: word_unat_eq_iff unat_div div_eq_0_iff not_less)
  moreover have "i = 1 \<longleftrightarrow> k = 0" using assms by (simp add: word_unat_eq_iff)
  moreover have "b - 1 = 0 \<longleftrightarrow> b = 1" by (metis eq_iff_diff_eq_0)
  ultimately show ?thesis by (subst utoa_loop.simps) (auto simp: Let_def digit_char_def)
qed

lemma utoa_loop_started:
  assumes "unat i = 10 ^ k" "unat n < 10 ^ Suc k" "10 ^ k \<le> unat n \<or> out \<noteq> [] \<or> k = 0" "b \<noteq> 0"
  shows "\<exists>ds. utoa_loop n i b out = out @ ds \<and> digits (min (Suc k) (unat b - 1)) (Suc k - min (Suc k) (unat b - 1)) (unat n) ds"
  using assms
proof (induction k arbitrary: n i b out)
  case 0
  then have i: "i = 1" by (simp add: word_unat_eq_iff)
  have "unat n < 10" using 0 by simp
  note d = digit_char [OF this]
  have "utoa_loop n i b out = (if b = 1 then out else out @ [digit_char n])"
    using utoa_step [of 1 0 n b out] unfolding i by (simp add: utoa_loop.simps [of _ 0])
  then show ?case using d \<open>unat n < 10\<close> 0(4) by (auto simp: digits_def word_unat_eq_iff)
next
  case (Suc k)
  let ?d = "n div i" and ?r = "n mod i"
  from Suc.prems(1,2) have d: "unat ?d = unat n div 10 ^ Suc k" "unat ?d < 10" and r: "unat ?r = unat n mod 10 ^ Suc k"
    by (auto simp: unat_div unat_mod less_mult_imp_div_less)
  have i: "unat (i div 10) = 10 ^ k" using Suc.prems(1) by (simp add: unat_div)
  show ?case
  proof (cases "b = 1")
    case True
    then have "utoa_loop n i b out = out" using utoa_step [OF Suc.prems(1)] Suc.prems(3) by simp
    with True Suc.prems(2) show ?thesis by (intro exI [of _ "[]"]) (simp add: digits_def)
  next
    case False
    then have b: "b - 1 \<noteq> 0" "1 < unat b" using Suc.prems(4) by (auto simp: word_unat_eq_iff unat_pred)
    define m where "m = min (Suc k) (unat (b - 1) - 1)"
    have m: "min (Suc (Suc k)) (unat b - 1) = Suc m" "m \<le> Suc k" using b Suc.prems(4) by (auto simp: m_def unat_pred)
    have "\<exists>ds. utoa_loop ?r (i div 10) (b - 1) (out @ [digit_char ?d]) = (out @ [digit_char ?d]) @ ds \<and> digits m (Suc k - m) (unat ?r) ds"
      unfolding m_def by (rule Suc.IH) (use i r b in simp_all)
    then obtain ds where ds: "utoa_loop ?r (i div 10) (b - 1) (out @ [digit_char ?d]) = (out @ [digit_char ?d]) @ ds"
      "digits m (Suc k - m) (unat ?r) ds" by blast
    have "utoa_loop n i b out = out @ digit_char ?d # ds"
      using utoa_step [OF Suc.prems(1), of n b out] Suc.prems(3) False ds(1) by auto
    moreover have "unat n div 10 ^ (Suc k - m) = unat ?d * 10 ^ m + unat ?r div 10 ^ (Suc k - m)"
    proof -
      have "(10 :: nat) ^ Suc k = 10 ^ m * 10 ^ (Suc k - m)" using m(2) by (simp flip: power_add)
      then have "unat n = unat ?d * 10 ^ m * 10 ^ (Suc k - m) + unat ?r"
        using div_mult_mod_eq [of "unat n" "10 ^ Suc k", symmetric] unfolding d(1) r by (simp only: mult.assoc)
      then show ?thesis by (metis div_mult_self3 power_not_zero zero_neq_numeral)
    qed
    then have "digits (Suc m) (Suc k - m) (unat n) (digit_char ?d # ds)"
      using ds(2) digit_char [OF d(2)] by (simp add: digits_def algebra_simps)
    ultimately show ?thesis unfolding m(1) by (intro exI [of _ "digit_char ?d # ds"]) simp
  qed
qed
lemma utoa_loop_value:
  assumes "unat i = 10 ^ k" "unat n < 10 ^ Suc k" "k + 2 \<le> unat b"
  shows "utoa_loop n i b [] \<noteq> [] \<and> length (utoa_loop n i b []) \<le> Suc k \<and>
    list_all isdigit (utoa_loop n i b []) \<and> dec_val 0 (utoa_loop n i b []) = unat n"
  using assms
proof (induction k arbitrary: i)
  case 0
  then show ?case using utoa_loop_started [of i 0 n "[]" b] by (auto simp: digits_def word_unat_eq_iff min_def split: if_splits)
next
  case (Suc k)
  show ?case
  proof (cases "10 ^ Suc k \<le> unat n")
    case True
    then show ?thesis using utoa_loop_started [OF Suc.prems(1,2), of "[]" b] Suc.prems(3)
      by (auto simp: digits_def word_unat_eq_iff min_def split: if_splits)
  next
    case False
    with Suc.prems(1) have "n mod i = n" "unat (i div 10) = 10 ^ k"
      by (simp_all add: word_unat_eq_iff unat_mod unat_div)
    moreover from this False have "utoa_loop n i b [] = utoa_loop n (i div 10) b []"
      using utoa_step [OF Suc.prems(1), of n b "[]"] by simp
    ultimately show ?thesis using Suc.IH [of "i div 10"] Suc.prems(3) False by simp
  qed
qed

lemma u32_less: "unat (n :: u32) < 10 ^ Suc 9"
proof -
  have "unat n < 2 ^ LENGTH(32)" by (rule unsigned_less)
  then show ?thesis by simp
qed

lemma utoa_value:
  "utoa n \<noteq> [] \<and> length (utoa n) \<le> 10 \<and> list_all isdigit (utoa n) \<and> dec_val 0 (utoa n) = unat n"
  using utoa_loop_value [OF _ u32_less, of 1000000000 11 n] by (simp add: utoa_def utoa_to_buf_def sizeof_local_buf_def)

text \<open>\<^verbatim>\<open>utoa\<close> prints every 32-bit number in full, within its static buffer of 12 bytes, and \<^verbatim>\<open>xatou\<close> reads
  the number back.\<close>

theorem utoa_roundtrip:
  "length (utoa n) < unat sizeof_local_buf \<and> xatou bb_strtoui (utoa n) = Inr n"
proof -
  note v = utoa_value [of n]
  then have d: "isdigit (deref (utoa n))" by (cases "utoa n") auto
  have small: "unat n < 2 ^ 32" using unsigned_less [of n, where 'a = nat] by simp
  have "strto_scan (utoa n) 10 = Some (False, unat n, [])"
    using strto_scan_dec [of "utoa n"] v d all_digits_scan [of "utoa n"] by (simp add: isalnum_iff)
  then have "strtoull (utoa n) 10 = (of_nat (unat n), [], E0)" using small by (simp add: strtoull_def)
  moreover have "\<not> (of_nat (unat n) :: u64) > 0xffffffff"
    using small by (simp add: word_less_nat_alt unsigned_ucast_eq take_bit_nat_eq_self)
  moreover have "ucast (ucast n :: u64) = n" by (rule bit_word_eqI) (auto simp: bit_ucast_iff dest: bit_imp_le_length)
  ultimately have "bb_strtoui (utoa n) 10 = (n, [], E0)" by (simp add: bb_strtoui_def)
  moreover have "\<not> isspace (deref (utoa n))" "deref (utoa n) \<noteq> CHR ''-''" "deref (utoa n) \<noteq> CHR ''+''"
    using d by (auto simp: ctype_simps)
  ultimately show ?thesis
    using v by (simp add: xatou_def xatou_sfx_def xstrtou_range_sfx_def chk_range_def sizeof_local_buf_def)
qed

lemma unat_neg:
  assumes "sint (n :: u32) < 0"
  shows "unat (- n) = nat (- sint n)" "0 < - sint n" "- sint n \<le> 2 ^ 31"
proof -
  show "0 < - sint n" using assms by simp
  show b: "- sint n \<le> 2 ^ 31" using sint_ge [of n] by simp
  have "- n = word_of_int (- sint n)" by simp
  then have "uint (- n) = uint (word_of_int (- sint n) :: u32)" by (rule arg_cong)
  also have "\<dots> = - sint n" using assms b by (simp only: uint_word_of_int_eq) (simp add: take_bit_int_eq_self)
  finally show "unat (- n) = nat (- sint n)" by (simp only: unat_eq_nat_uint)
qed


subsection \<open>Hexadecimal round trip\<close>

lemma hexval_hexdigit:
  assumes "d < 16"
  shows "hexval (hexdigit d) = Some d" "hexdigit d \<noteq> CHR '':'' " "hexdigit d \<noteq> NUL"
proof -
  have "\<forall>n\<in>set [0..<16]. hexval (hexdigit (of_nat n)) = Some (of_nat n) \<and> hexdigit (of_nat n) \<noteq> CHR '':'' \<and> hexdigit (of_nat n) \<noteq> NUL"
    by (simp add: upt_rec bb_hexdigits_upcase_def hexdigit_def hexval_def isdigit_def char_of_def bit_iff_odd)
  moreover have "unat d \<in> set [0..<16]" using assms by (simp add: word_less_nat_alt)
  ultimately have "hexval (hexdigit (of_nat (unat d))) = Some (of_nat (unat d)) \<and> hexdigit (of_nat (unat d)) \<noteq> CHR '':'' \<and> hexdigit (of_nat (unat d)) \<noteq> NUL"
    by blast
  then show "hexval (hexdigit d) = Some d" "hexdigit d \<noteq> CHR '':'' " "hexdigit d \<noteq> NUL" by simp_all
qed

lemma nibbles:
  "drop_bit 4 (c :: byte) < 16" "c AND 0xf < 16" "push_bit 4 (drop_bit 4 c) OR (c AND 0xf) = c"
proof -
  have "unat (drop_bit 4 c) = unat c div 16" by (simp add: drop_bit_eq_div unat_div)
  then show "drop_bit 4 c < 16" by (simp add: word_less_nat_alt less_mult_imp_div_less)
  have m: "(0xf :: byte) = mask 4" by (simp add: mask_eq_exp_minus_1)
  have "c AND 0xf = take_bit 4 c" unfolding m by (simp only: take_bit_eq_mask)
  then have "unat (c AND 0xf) = unat c mod 16" by (simp add: take_bit_eq_mod unat_mod)
  then show "c AND 0xf < 16" by (simp add: word_less_nat_alt)
  show "push_bit 4 (drop_bit 4 c) OR (c AND 0xf) = c"
    unfolding m by (rule bit_word_eqI) (auto simp: bit_or_iff bit_push_bit_iff bit_drop_bit_eq bit_and_iff bit_mask_iff)
qed

lemma deref_bin2hex: "deref (bin2hex bs) \<noteq> CHR '':''"
  by (cases bs) (simp_all add: hexval_hexdigit nibbles)

lemma hex2bin_loop_bin2hex:
  "length bs \<le> count \<Longrightarrow> hex2bin_loop dst (bin2hex bs) count = (dst @ bs, E0)"
proof (induction bs arbitrary: dst count)
  case Nil
  then show ?case by (simp add: hex2bin_loop.simps)
next
  case (Cons c bs)
  then show ?case
    by (subst hex2bin_loop.simps) (simp add: hexval_hexdigit nibbles deref_bin2hex Let_def)
qed

text \<open>\<^verbatim>\<open>hex2bin\<close> inverts \<^verbatim>\<open>bin2hex\<close> whenever its buffer is large enough.\<close>

theorem hex_roundtrip:
  "length bs \<le> count \<Longrightarrow> hex2bin (bin2hex bs) count = (bs, E0)"
  by (simp add: hex2bin_def hex2bin_loop_bin2hex)

theorem hex_roundtrip_witness:
  "bin2hex [0x0a, 0xff] = ''0aff'' \<and> hex2bin ''0aff'' 255 = ([0x0a, 0xff], E0)"
proof -
  have b: "bin2hex [0x0a, 0xff] = ''0aff''" by code_simp
  have "hex2bin (bin2hex [0x0a, 0xff]) 255 = ([0x0a, 0xff], E0)"
    by (rule hex_roundtrip) simp
  with b show ?thesis by simp
qed

end
