(* ===== verification/Bc_Text.thy ===== *)
theory Bc_Text
  imports Bc_Num Libbb_Ctype Libbb_Xfuncs
begin

text \<open>
  Numbers as text in bc and dc, \<^verbatim>\<open>miscutils/bc.c\<close>: the lexer of numbers, the parsers of decimal and of
  other bases, and the printers.

  \<^item> \<open>lex_inbuf\<close> is the rest of the input.  The code reads it line by line; it refills the buffer where a line
    ends (\<^verbatim>\<open>peek_inbuf\<close>), so that a NUL other than the end of the input is seen only after a newline, which no
    number contains.
  \<^item> The output is a record of the characters written, the column (\<open>nchars\<close>) and the length of a line.
    The text written before an error of \<^verbatim>\<open>zxc_num_printNum\<close> is not kept.
  \<^item> A digit printer (\<^verbatim>\<open>BcNumDigitOp\<close>) is a function on the output.
\<close>

subsection \<open>The lexer of numbers\<close>

abbreviation newline :: char where "newline \<equiv> CHR 0x0A"
abbreviation backslash :: char where "backslash \<equiv> CHR 0x5C"

text \<open>The loop, from \<open>last_ch\<close>, \<open>pt\<close>, \<open>lex_inbuf\<close>, \<open>lex_line\<close> and \<open>lex_strnumbuf\<close>.\<close>

fun lex_loop :: "char \<Rightarrow> char \<Rightarrow> bool \<Rightarrow> cstr \<Rightarrow> nat \<Rightarrow> cstr \<Rightarrow> char \<times> cstr \<times> nat \<times> cstr" where
  "lex_loop last_valid_ch last_ch pt [] line buf = (last_ch, [], line, buf)"
| "lex_loop last_valid_ch last_ch pt (c # s) line buf =
    (if c = NUL then (last_ch, c # s, line, buf)
     else if c = backslash \<and> deref s = newline then lex_loop last_valid_ch last_ch pt (tl s) (line + 1) buf
     else if \<not> isdigit c \<and> (uchar c < uchar (CHR ''A'') \<or> uchar last_valid_ch < uchar c) then
       if c \<noteq> CHR ''.'' \<or> pt then (last_ch, c # s, line, buf)
       else lex_loop last_valid_ch c True s line (buf @ [c])
     else lex_loop last_valid_ch c pt s line (buf @ [c]))"

definition zxc_lex_number :: "bool \<Rightarrow> char \<Rightarrow> cstr \<Rightarrow> nat \<Rightarrow> cstr \<times> nat \<times> cstr" where
  "zxc_lex_number is_bc last_ch lex_inbuf lex_line =
    (let (last_ch, inbuf, line, buf) =
       lex_loop (if is_bc then CHR ''Z'' else CHR ''F'') last_ch (last_ch = CHR ''.'') lex_inbuf lex_line [last_ch]
     in (inbuf, line, if last_ch = CHR ''.'' then butlast buf else buf))"

subsection \<open>Parsing\<close>

fun strValid_loop :: "bool \<Rightarrow> cstr \<Rightarrow> bool" where
  "strValid_loop radix [] = True"
| "strValid_loop radix (c # s) =
    (if c = CHR ''.'' then \<not> radix \<and> strValid_loop True s
     else if (uchar c < uchar (CHR ''0'') \<or> uchar (CHR ''9'') < uchar c) \<and>
             (uchar c < uchar (CHR ''A'') \<or> uchar (CHR ''Z'') < uchar c) then False
     else strValid_loop radix s)"

definition xc_num_strValid :: "cstr \<Rightarrow> bool" where
  "xc_num_strValid val = strValid_loop False val"

definition decimal_digit :: "char \<Rightarrow> int" where
  "decimal_digit ch = (let c = uchar ch - uchar (CHR ''0'') in if 9 < c then 9 else uint c)"

definition bc_num_parseDecimal :: "BcNum \<Rightarrow> cstr \<Rightarrow> BcNum" where
  "bc_num_parseDecimal n val =
    (if length val = 0 then n
     else
       let n = bc_num_expand n (length val + 1);
         n = n\<lparr>rdx := (case dropWhile (\<lambda>c. c \<noteq> CHR ''.'') val of [] \<Rightarrow> 0 | p # frac \<Rightarrow> length frac)\<rparr>
       in if \<not> list_ex (\<lambda>c. c \<noteq> CHR ''0'' \<and> c \<noteq> CHR ''.'') val then n
          else if length val = 1 then
            let c = int (ord (deref val)) - int (ord (CHR ''0''))
            in if 9 < c then
                 let c = c - (int (ord (CHR ''A'')) - int (ord (CHR ''9'')) - 1)
                 in n\<lparr>num := [c mod 10, c div 10]\<rparr>
               else n\<lparr>num := [c]\<rparr>
          else n\<lparr>num := num n @ map decimal_digit (rev (filter (\<lambda>c. c \<noteq> CHR ''.'') val))\<rparr>)"

text \<open>The value of a digit, and the two loops of \<^verbatim>\<open>bc_num_parseBase\<close>; \<open>base_t\<close> is already decremented.  An
  error ends the parsing with the number as it stands.  The first loop also returns what follows the point.\<close>

definition base_digit :: "u32 \<Rightarrow> char \<Rightarrow> u32" where
  "base_digit base_t c =
    (let v = (if uchar c \<le> uchar (CHR ''9'') then ucast (uchar c) - ucast (uchar (CHR ''0''))
              else ucast (uchar c) - ucast (uchar (CHR ''A'')) + 10)
     in if base_t < v then base_t else v)"

definition stack_num :: BcNum where
  "stack_num = \<lparr>num = [], neg = False, rdx = 0, cap = ULONG_NUM_BUFSIZE\<rparr>"

fun parse_int :: "u32 \<Rightarrow> BcNum \<Rightarrow> cstr \<Rightarrow> BcNum \<Rightarrow> BcNum \<Rightarrow> BcNum \<times> cstr option" where
  "parse_int base_t base [] n mult = (n, None)"
| "parse_int base_t base (c # val) n mult =
    (if c = CHR ''.'' then (n, Some val)
     else case on_success (zbc_num_mul False n base mult 0) (\<lambda>mult.
          on_success (zbc_num_add False mult (bc_num_ulong2num stack_num (ucast (base_digit base_t c))) n 0) (\<lambda>n.
            Inr (n, mult))) of
       Inl e \<Rightarrow> (n, None)
     | Inr (n, mult) \<Rightarrow> parse_int base_t base val n mult)"

fun parse_frac :: "u32 \<Rightarrow> BcNum \<Rightarrow> cstr \<Rightarrow> BcNum \<Rightarrow> BcNum \<Rightarrow> nat \<Rightarrow> (BcNum \<times> BcNum \<times> nat) bc_status" where
  "parse_frac base_t base [] result mult digs = Inr (result, mult, digs)"
| "parse_frac base_t base (c # val) result mult digs =
    on_success (zbc_num_mul True result base result 0) (\<lambda>result.
    on_success (zbc_num_add True result (bc_num_ulong2num stack_num (ucast (base_digit base_t c))) result 0) (\<lambda>result.
    on_success (zbc_num_mul True mult base mult 0) (\<lambda>mult.
      parse_frac base_t base val result mult (digs + 1))))"

definition bc_num_parseBase :: "BcNum \<Rightarrow> cstr \<Rightarrow> u32 \<Rightarrow> BcNum" where
  "bc_num_parseBase n val base_t =
    (let base = bc_num_ulong2num stack_num (ucast base_t)
     in case parse_int (base_t - 1) base val n (bc_num_init BC_NUM_DEF_SIZE) of
          (n, None) \<Rightarrow> n
        | (n, Some val) \<Rightarrow>
            (case on_success (parse_frac (base_t - 1) base val (bc_num_init (len base)) (bc_num_one (bc_num_init 0)) 0)
                (\<lambda>(result, mult, digs).
              on_success (zbc_num_div True result mult result digs) (\<lambda>result.
              on_success (zbc_num_add True n result n digs) (\<lambda>n. Inr (n, digs)))) of
               Inl e \<Rightarrow> n
             | Inr (n, digs) \<Rightarrow>
                 if len n \<noteq> 0 then (if rdx n < digs then bc_num_extend n (digs - rdx n) else n)
                 else bc_num_zero n))"

definition zxc_num_parse :: "BcNum \<Rightarrow> cstr \<Rightarrow> u32 \<Rightarrow> BcNum bc_status" where
  "zxc_num_parse n val base_t =
    (if \<not> xc_num_strValid val then Inl BcBadNumber
     else
       let n = bc_num_zero n; val = dropWhile (\<lambda>c. c = CHR ''0'') val
       in if list_all (\<lambda>c. c = CHR ''.'' \<or> c = CHR ''0'') val then Inr n
          else if base_t = 10 \<or> char_at val 1 = NUL then Inr (bc_num_parseDecimal n val)
          else Inr (bc_num_parseBase n val base_t))"

subsection \<open>Printing\<close>

record BcOutput =
  out :: cstr
  nchars :: u64
  line_len :: u64

definition bb_putchar :: "char \<Rightarrow> BcOutput \<Rightarrow> BcOutput" where
  "bb_putchar c st = st\<lparr>out := out st @ [c]\<rparr>"

definition add_chars :: "u64 \<Rightarrow> BcOutput \<Rightarrow> BcOutput" where
  "add_chars k st = st\<lparr>nchars := nchars st + k\<rparr>"

definition bc_num_printNewline :: "BcOutput \<Rightarrow> BcOutput" where
  "bc_num_printNewline st =
    (if nchars st = line_len st - 1 then (bb_putchar newline (bb_putchar backslash st))\<lparr>nchars := 0\<rparr> else st)"

type_synonym BcNumDigitOp = "u64 \<Rightarrow> u64 \<Rightarrow> bool \<Rightarrow> BcOutput \<Rightarrow> BcOutput"

definition dc_num_printChar :: BcNumDigitOp where
  "dc_num_printChar d width radix st = add_chars width (bb_putchar (byte_char (ucast d)) st)"

text \<open>The two loops of \<^verbatim>\<open>bc_num_printDigits\<close>: the power of ten of the first digit, and the digits.\<close>

fun digits_pow :: "nat \<Rightarrow> u64 \<Rightarrow> u64" where
  "digits_pow 0 pow = pow"
| "digits_pow (Suc k) pow = digits_pow k (pow * 10)"

fun digits_loop :: "nat \<Rightarrow> u64 \<Rightarrow> u64 \<Rightarrow> BcOutput \<Rightarrow> BcOutput" where
  "digits_loop 0 d pow st = st"
| "digits_loop (Suc k) d pow st =
    (let st = bc_num_printNewline st; dig = d div pow; d = d - dig * pow;
       st = bb_putchar (byte_char (ucast dig + uchar (CHR ''0''))) st
     in digits_loop k d (pow div 10) (add_chars 1 st))"

definition bc_num_printDigits :: BcNumDigitOp where
  "bc_num_printDigits d width radix st =
    (let st = bc_num_printNewline st;
       st = bb_putchar (if radix then CHR ''.'' else CHR '' '') st;
       st = bc_num_printNewline (add_chars 1 st)
     in digits_loop (unat width) d (digits_pow (unat (width - 1)) 1) st)"

definition bc_num_printHex :: BcNumDigitOp where
  "bc_num_printHex d width radix st =
    (let st = (if radix then add_chars 1 (bb_putchar (CHR ''.'') (bc_num_printNewline st)) else st);
       st = bc_num_printNewline st
     in add_chars width (bb_putchar (char_at bb_hexdigits_upcase (unat d)) st))"

definition bc_num_printDecimal :: "BcNum \<Rightarrow> BcOutput \<Rightarrow> BcOutput" where
  "bc_num_printDecimal n st =
    (let r = size_t (int (rdx n) - 1);
       st = (if neg n then add_chars 1 (bb_putchar (CHR ''-'') st) else st)
     in fold (\<lambda>i. bc_num_printHex (of_int (num n ! i)) 1 (i = r)) (rev [0..<len n]) st)"

text \<open>The digits before the point, pushed on a stack, and those after it.  The first argument bounds the
  number of digits.\<close>

fun int_digits :: "nat \<Rightarrow> BcNum \<Rightarrow> BcNum \<Rightarrow> BcNum \<Rightarrow> u64 list \<Rightarrow> (BcNum \<times> u64 list) bc_status" where
  "int_digits 0 intp base digit stack = Inl BcFuel"
| "int_digits (Suc fuel) intp base digit stack =
    (if len intp = 0 then Inr (intp, stack)
     else on_success (zbc_num_divmod True intp base intp digit 0) (\<lambda>(intp, digit).
          on_success (zbc_num_ulong digit) (\<lambda>dig. int_digits fuel intp base digit (dig # stack))))"

fun frac_digits :: "nat \<Rightarrow> nat \<Rightarrow> BcNum \<Rightarrow> u64 \<Rightarrow> BcNumDigitOp \<Rightarrow> BcNum \<Rightarrow> BcNum \<Rightarrow> BcNum \<Rightarrow> bool \<Rightarrow> BcOutput \<Rightarrow>
    BcOutput bc_status" where
  "frac_digits 0 nrdx base width print fracp intp frac_len radix st = Inl BcFuel"
| "frac_digits (Suc fuel) nrdx base width print fracp intp frac_len radix st =
    (if nrdx < len frac_len then Inr st
     else
       on_success (zbc_num_mul True fracp base fracp nrdx) (\<lambda>fracp.
       on_success (zbc_num_ulong fracp) (\<lambda>dig.
         let intp = bc_num_ulong2num intp dig
         in on_success (zbc_num_sub True fracp intp fracp 0) (\<lambda>fracp.
            let st = print dig width radix st
            in on_success (zbc_num_mul True frac_len base frac_len 0) (\<lambda>frac_len.
               frac_digits fuel nrdx base width print fracp intp frac_len False st)))))"

definition zxc_num_printNum :: "BcNum \<Rightarrow> u32 \<Rightarrow> u64 \<Rightarrow> BcNumDigitOp \<Rightarrow> BcOutput \<Rightarrow> BcOutput bc_status" where
  "zxc_num_printNum n base_t width print st =
    (if len n = 0 then Inr (print 0 width False st)
     else
       let intp = bc_num_init_and_copy n; fracp = bc_num_init (rdx n); digit = bc_num_init (unat width);
         frac_len = bc_num_one (bc_num_init (BC_NUM_INT n));
         base = bc_num_ulong2num stack_num (ucast base_t);
         intp = bc_num_truncate intp (rdx intp)
       in on_success (zbc_num_sub False n intp fracp 0) (\<lambda>fracp.
          on_success (int_digits (4 * len intp + 1) intp base digit []) (\<lambda>(intp, stack).
            let st = fold (\<lambda>dig. print dig width False) stack st
            in if rdx n = 0 then Inr st
               else frac_digits (4 * rdx n + 1) (rdx n) base width print fracp intp frac_len True st)))"

text \<open>The number of decimal digits of the largest digit of a base, for bases above 16.\<close>

function digit_width :: "u32 \<Rightarrow> u64 \<Rightarrow> u64" where
  "digit_width i width = (let width = width + 1; i = i div 10 in if i = 0 then width else digit_width i width)"
  by pat_completeness auto
termination
proof (relation "measure (\<lambda>(i, width). unat i)")
  fix i :: u32 and width x :: u64 and y :: u32
  assume "y = i div 10" "y \<noteq> 0"
  then have "i \<noteq> 0" by auto
  then have "unat i \<noteq> 0" by (simp add: unat_eq_0)
  then show "((y, x), (i, width)) \<in> measure (\<lambda>(i, width). unat i)" using \<open>y = i div 10\<close> by (simp add: unat_div del: unsigned_0)
qed simp

declare digit_width.simps [simp del]

definition zxc_num_printBase :: "BcNum \<Rightarrow> u64 \<Rightarrow> BcOutput \<Rightarrow> BcOutput bc_status" where
  "zxc_num_printBase n ob_t st =
    (let st = (if neg n then add_chars 1 (bb_putchar (CHR ''-'') st) else st);
       n = n\<lparr>neg := False\<rparr>
     in if ob_t \<le> 16 then zxc_num_printNum n (ucast ob_t) 1 bc_num_printHex st
        else zxc_num_printNum n (ucast ob_t) (digit_width (ucast (ob_t - 1)) 0) bc_num_printDigits st)"

definition zxc_num_print :: "BcNum \<Rightarrow> bool \<Rightarrow> u64 \<Rightarrow> BcOutput \<Rightarrow> BcOutput bc_status" where
  "zxc_num_print n nl ob_t st =
    (let st = bc_num_printNewline st
     in on_success
          (if len n = 0 then Inr (add_chars 1 (bb_putchar (CHR ''0'') st))
           else if ob_t = 10 then Inr (bc_num_printDecimal n st)
           else zxc_num_printBase n ob_t st)
          (\<lambda>st. Inr (if nl then (bb_putchar newline st)\<lparr>nchars := 0\<rparr> else st)))"

end
