(* ===== verification/Bc_Roundtrip.thy ===== *)
theory Bc_Roundtrip
  imports Bc_Text Bc_Calc
begin

text \<open>
  Reading back what bc prints in base 10: the printer breaks lines with a backslash, the lexer joins them, and
  the parser restores the digits.
\<close>

subsection \<open>Printed text\<close>

text \<open>\<open>emit cs\<close> writes the characters \<open>cs\<close>, each after a line break if the line is full; \<open>broken ws cs\<close>: \<open>ws\<close> is
  \<open>cs\<close> with line breaks in it.\<close>

definition emit :: "cstr \<Rightarrow> BcOutput \<Rightarrow> BcOutput" where
  "emit cs st = fold (\<lambda>c st. add_chars 1 (bb_putchar c (bc_num_printNewline st))) cs st"

lemma emit_simps [simp]:
  "emit [] st = st"
  "emit (c # cs) st = emit cs (add_chars 1 (bb_putchar c (bc_num_printNewline st)))"
  by (simp_all add: emit_def)

lemma emit_append [simp]: "emit (cs @ ds) st = emit ds (emit cs st)"
  by (simp add: emit_def)

inductive broken :: "cstr \<Rightarrow> cstr \<Rightarrow> bool" where
  broken_Nil: "broken [] []"
| broken_Cons: "broken ws cs \<Longrightarrow> broken (c # ws) (c # cs)"
| broken_line: "broken (c # ws) (c # cs) \<Longrightarrow> broken (backslash # newline # c # ws) (c # cs)"

lemma emit_broken: "\<exists>ws. out (emit cs st) = out st @ ws \<and> broken ws cs"
proof (induction cs arbitrary: st)
  case (Cons c cs)
  obtain ws where ws: "out (emit cs (add_chars 1 (bb_putchar c (bc_num_printNewline st)))) =
      out (add_chars 1 (bb_putchar c (bc_num_printNewline st))) @ ws" "broken ws cs"
    using Cons.IH by blast
  then show ?case
    by (auto simp: bc_num_printNewline_def bb_putchar_def add_chars_def intro: broken_Cons broken_line)
qed (auto intro: broken_Nil)

lemma emit_first:
  assumes "nchars st \<noteq> line_len st - 1"
  shows "\<exists>ws. out (emit (c # cs) st) = out st @ c # ws \<and> broken ws cs"
  using emit_broken [of cs "add_chars 1 (bb_putchar c st)"] assms
  by (auto simp: bc_num_printNewline_def bb_putchar_def add_chars_def)

definition dec_char :: "int \<Rightarrow> char" where
  "dec_char d = char_at bb_hexdigits_upcase (nat d)"

lemma dec_char_10: "0 \<le> d \<Longrightarrow> d \<le> 9 \<Longrightarrow> dec_char d = char_of (48 + nat d)"
proof -
  assume "0 \<le> d" "d \<le> 9"
  then have "d = 0 \<or> d = 1 \<or> d = 2 \<or> d = 3 \<or> d = 4 \<or> d = 5 \<or> d = 6 \<or> d = 7 \<or> d = 8 \<or> d = 9" by presburger
  then show ?thesis by (auto simp: dec_char_def bb_hexdigits_upcase_def char_of_def bit_iff_odd)
qed

lemma printHex_emit:
  assumes "0 \<le> d" "d \<le> 9"
  shows "bc_num_printHex (of_int d) 1 radix st = emit ((if radix then ''.'' else []) @ [dec_char d]) st"
proof -
  have "unat (of_int d :: u64) = nat d"
    using assms unat_of_nat_small [of "nat d", where 'a = 64] by simp
  then show ?thesis by (simp add: bc_num_printHex_def dec_char_def)
qed

text \<open>The text of a number without its sign, from the most significant digit on.\<close>

fun number_text :: "nat \<Rightarrow> int list \<Rightarrow> cstr" where
  "number_text r [] = []"
| "number_text r (d # ds) = (if Suc (length ds) = r then ''.'' else []) @ dec_char d # number_text r ds"

lemma printDecimal_emit:
  assumes "digits (num n)" "rdx n < 2 ^ 63" "len n < 2 ^ 63"
  shows "bc_num_printDecimal n st =
    emit (number_text (rdx n) (rev (num n))) (if neg n then add_chars 1 (bb_putchar (CHR ''-'') st) else st)"
proof -
  have i: "(i = size_t (int (rdx n) - 1)) = (Suc i = rdx n)" if "i < len n" for i
  proof (cases "rdx n")
    case 0
    then show ?thesis using that assms(3) by (simp add: size_t_def)
  qed (use assms(2) in \<open>simp add: size_t_small\<close>)
  have "fold (\<lambda>i. bc_num_printHex (of_int (num n ! i)) 1 (i = size_t (int (rdx n) - 1))) (rev [0..<k]) st =
      emit (number_text (rdx n) (rev (take k (num n)))) st" if "k \<le> len n" for k st
    using that
  proof (induction k arbitrary: st)
    case (Suc k)
    have "num n ! k \<in> set (num n)" using Suc.prems by (intro nth_mem) simp
    then have d: "0 \<le> num n ! k" "num n ! k \<le> 9" using assms(1) by (auto simp: digits_def)
    show ?case
      using Suc i [of k] by (simp add: take_Suc_conv_app_nth printHex_emit [OF d])
  qed simp
  from this [of "len n"] show ?thesis by (simp add: bc_num_printDecimal_def Let_def)
qed

subsection \<open>Reading broken text\<close>

text \<open>\<open>number_chars pt cs\<close>: digits up to F with at most one point, none when \<open>pt\<close>.\<close>

definition hex_char :: "char \<Rightarrow> bool" where
  "hex_char c \<longleftrightarrow> isdigit c \<or> 65 \<le> ord c \<and> ord c \<le> 70"

fun number_chars :: "bool \<Rightarrow> cstr \<Rightarrow> bool" where
  "number_chars pt [] = True"
| "number_chars pt (c # cs) = (if c = CHR ''.'' then \<not> pt \<and> number_chars True cs else hex_char c \<and> number_chars pt cs)"

lemma isdigit_not: "\<not> isdigit NUL" "\<not> isdigit backslash" "\<not> isdigit (CHR ''.'')" "\<not> isdigit newline"
  by (simp_all add: isdigit_ord)

lemma hex_char_not: "\<not> hex_char NUL" "\<not> hex_char backslash" "\<not> hex_char (CHR ''.'')" "\<not> hex_char newline"
  by (simp_all add: hex_char_def isdigit_ord)

lemma hex_char_lex: "hex_char c \<Longrightarrow> 70 \<le> ord v \<Longrightarrow> isdigit c \<or> \<not> (uchar c < uchar (CHR ''A'') \<or> uchar v < uchar c)"
  by (auto simp: hex_char_def word_less_nat_alt)

lemma lex_stop: "lex_loop v l pt (newline # rest) line buf = (l, newline # rest, line, buf)"
  by (auto simp: isdigit_not word_less_nat_alt)

lemma lex_broken:
  assumes "broken ws cs" "number_chars pt cs" "70 \<le> ord v"
  shows "\<exists>k. lex_loop v l pt (ws @ newline # rest) line buf = (List.last (l # cs), newline # rest, line + k, buf @ cs)"
  using assms
proof (induction arbitrary: l pt line buf rule: broken.induct)
  case broken_Nil
  then show ?case using lex_stop by simp
next
  case (broken_Cons ws cs c)
  show ?case
  proof (cases "c = CHR ''.''")
    case True
    then show ?thesis
      using broken_Cons.IH [of True c line "buf @ [c]"] broken_Cons.prems by (auto simp: isdigit_not word_less_nat_alt)
  next
    case False
    then have c: "hex_char c" "number_chars pt cs" using broken_Cons.prems by auto
    then have "c \<noteq> NUL" "c \<noteq> backslash" using hex_char_not by metis+
    then show ?thesis
      using broken_Cons.IH [OF c(2) broken_Cons.prems(2), of c line "buf @ [c]"] hex_char_lex [OF c(1) broken_Cons.prems(2)] by auto
  qed
next
  case (broken_line c ws cs)
  then obtain k where "lex_loop v l pt ((c # ws) @ newline # rest) (line + 1) buf =
      (List.last (l # c # cs), newline # rest, line + 1 + k, buf @ c # cs)" by blast
  then have "lex_loop v l pt ((backslash # newline # c # ws) @ newline # rest) line buf =
      (List.last (l # c # cs), newline # rest, line + (1 + k), buf @ c # cs)" by simp
  then show ?case by blast
qed

lemma valid_number: "number_chars pt cs \<Longrightarrow> strValid_loop pt cs"
  by (induction pt cs rule: number_chars.induct)
    (auto simp: hex_char_def isdigit_ord word_less_nat_alt not_less split: if_splits)

lemma lex_number:
  assumes "broken ws cs" "number_chars (c = CHR ''.'') cs" "List.last (c # cs) \<noteq> CHR ''.''"
  shows "\<exists>k. zxc_lex_number is_bc c (ws @ newline # rest) line = (newline # rest, line + k, c # cs)"
  using lex_broken [OF assms(1,2), of "if is_bc then CHR ''Z'' else CHR ''F''" c rest line "[c]"] assms(3)
  by (auto simp: zxc_lex_number_def)

subsection \<open>Parsing decimal text\<close>

lemma decimal_digit_char:
  assumes "0 \<le> d" "d \<le> 9"
  shows "decimal_digit (dec_char d) = d"
proof -
  have "uint (of_int d :: byte) = d" using assms by (simp add: uint_word_of_int)
  then show ?thesis
    using assms by (simp add: dec_char_10 decimal_digit_def Let_def uchar_of_nat word_less_def)
qed

lemma dec_char_simps:
  assumes "0 \<le> d" "d \<le> 9"
  shows "isdigit (dec_char d)" "hex_char (dec_char d)" "dec_char d \<noteq> CHR ''.''" "dec_char d = CHR ''0'' \<longleftrightarrow> d = 0"
  using assms by (auto simp: dec_char_10 hex_char_def isdigit_ord simp flip: ord_eq_iff)

lemma number_text_chars:
  assumes "digits ds" "pt \<longrightarrow> length ds < r"
  shows "number_chars pt (number_text r ds)"
  using assms
proof (induction ds arbitrary: pt)
  case (Cons d ds)
  then have d: "0 \<le> d" "d \<le> 9" "digits ds" by auto
  note c = dec_char_simps [OF d(1,2)]
  show ?case using Cons.IH [OF d(3), of pt] Cons.IH [OF d(3), of True] Cons.prems(2) c by auto
qed simp

lemma number_text_Nil [simp]: "number_text r ds = [] \<longleftrightarrow> ds = []"
  by (cases ds) auto

lemma number_text_last: "digits ds \<Longrightarrow> ds \<noteq> [] \<Longrightarrow> List.last (number_text r ds) \<noteq> CHR ''.''"
  by (induction ds) (auto simp: dec_char_simps)

lemma number_text_digits:
  "digits ds \<Longrightarrow> filter (\<lambda>c. c \<noteq> CHR ''.'') (number_text r ds) = map dec_char ds"
  by (induction ds) (auto simp: dec_char_simps)

lemma number_text_frac:
  "digits ds \<Longrightarrow> (case dropWhile (\<lambda>c. c \<noteq> CHR ''.'') (number_text r ds) of [] \<Rightarrow> 0 | p # f \<Rightarrow> length f) = (if r \<le> length ds then r else 0)"
proof (induction ds)
  case (Cons d ds)
  then have d: "0 \<le> d" "d \<le> 9" "digits ds" by auto
  have l: "length (number_text r ds) = length ds" if "length ds < r" "digits ds" for ds
    using that by (induction ds) auto
  show ?case using Cons.IH [OF d(3)] dec_char_simps [OF d(1,2)] l [OF _ d(3)] by auto
qed auto

lemma number_text_zero:
  "digits ds \<Longrightarrow> list_all (\<lambda>c. c = CHR ''.'' \<or> c = CHR ''0'') (number_text r ds) \<longleftrightarrow> (\<forall>d \<in> set ds. d = 0)"
  by (induction ds) (auto simp: dec_char_simps)

text \<open>The text of a well-formed number, cut into its first character and the rest; \<open>val\<close> is what remains without
  leading zeros.\<close>

lemma number_text_strip:
  assumes "wf_num n" "num n \<noteq> []"
  shows "dropWhile (\<lambda>c. c = CHR ''0'') (number_text (rdx n) (rev (num n))) = number_text (rdx n) (rev (num n))"
proof -
  obtain d ds where rd: "rev (num n) = d # ds" using assms(2) by (cases "rev (num n)") auto
  then have nm: "num n = rev ds @ [d]" by (metis rev.simps(2) rev_rev_ident)
  have d: "0 \<le> d" "d \<le> 9" using wf_digits [OF assms(1)] by (auto simp: nm digits_def)
  show ?thesis
  proof (cases "rdx n = len n")
    case False
    then have "rdx n < len n" using wf_rdx [OF assms] by simp
    then have "d \<noteq> 0" using assms(1) by (simp add: wf_num_def nm)
    then show ?thesis using False dec_char_simps [OF d] by (auto simp: rd nm)
  qed (simp add: rd nm)
qed

lemma parse_number:
  assumes n: "wf_num n" "num n \<noteq> []"
  shows "\<exists>r. zxc_num_parse z (number_text (rdx n) (rev (num n))) 10 = Inr r \<and> num r = num n \<and> rdx r = rdx n \<and>
    neg r = False \<and> len n + 1 \<le> cap r"
proof -
  define T where "T = number_text (rdx n) (rev (num n))"
  have dg: "digits (rev (num n))" using wf_digits [OF n(1)] by (simp add: digits_def)
  have v: "xc_num_strValid T" using valid_number [OF number_text_chars [OF dg, of False]] by (simp add: T_def xc_num_strValid_def)
  have nz: "\<not> list_all (\<lambda>c. c = CHR ''.'' \<or> c = CHR ''0'') T"
    using n number_text_zero [OF dg, of "rdx n"] by (auto simp: T_def wf_num_def)
  then have ex: "list_ex (\<lambda>c. c \<noteq> CHR ''0'' \<and> c \<noteq> CHR ''.'') T" by (auto simp: list_all_iff list_ex_iff)
  have fl: "filter (\<lambda>c. c \<noteq> CHR ''.'') T = map dec_char (rev (num n))" unfolding T_def by (rule number_text_digits [OF dg])
  have lt: "len n \<le> length T" using length_filter_le [of "\<lambda>c. c \<noteq> CHR ''.''" T] by (simp add: fl)
  have bk: "map decimal_digit (rev (filter (\<lambda>c. c \<noteq> CHR ''.'') T)) = num n"
    using wf_digits [OF n(1)] unfolding fl by (auto simp: rev_map o_def digits_def decimal_digit_char intro!: map_idI)
  have fr: "(case dropWhile (\<lambda>c. c \<noteq> CHR ''.'') T of [] \<Rightarrow> 0 | p # f \<Rightarrow> length f) = rdx n"
    unfolding T_def number_text_frac [OF dg] using wf_rdx [OF n] by simp
  define m where "m = (bc_num_expand (bc_num_zero z) (length T + 1))\<lparr>rdx := rdx n\<rparr>"
  have m: "num m = []" "rdx m = rdx n" "\<not> neg m" "cap m = cap (bc_num_expand (bc_num_zero z) (Suc (length T)))" by (simp_all add: m_def)
  have cm: "length T + 1 \<le> cap m" using expand_simps(4) [of "length T + 1" "bc_num_zero z"] by (simp add: m_def)
  have "\<exists>r. bc_num_parseDecimal (bc_num_zero z) T = r \<and> num r = num n \<and> rdx r = rdx n \<and> neg r = False \<and> cap r = cap m"
  proof (cases "length T = 1")
    case False
    have "T \<noteq> []" using ex by auto
    then show ?thesis using False ex bk m by (simp add: bc_num_parseDecimal_def fr m_def [symmetric])
  next
    case True
    obtain c where c: "T = [c]" using True by (cases T) auto
    moreover have "c \<noteq> CHR ''.''" using ex c by simp
    ultimately obtain d where d: "num n = [d]" "c = dec_char d" using fl by (cases "num n") auto
    then have d9: "0 \<le> d" "d \<le> 9" using wf_digits [OF n(1)] by auto
    have "rdx n = 0" using fr c \<open>c \<noteq> CHR ''.''\<close> by simp
    moreover have "int (ord c) - 48 = d" using d d9 by (simp add: dec_char_10)
    ultimately show ?thesis using ex d d9 m by (simp add: bc_num_parseDecimal_def fr m_def [symmetric] c)
  qed
  moreover have "dropWhile (\<lambda>c. c = CHR ''0'') T = T" unfolding T_def by (rule number_text_strip [OF n])
  ultimately show ?thesis using v nz cm lt unfolding T_def [symmetric] by (auto simp: zxc_num_parse_def Let_def)
qed

lemma fresh_line:
  assumes "nchars st = 0" "4 \<le> line_len st"
  shows "bc_num_printNewline st = st" "line_len st - 1 \<noteq> 0" "nchars st + 1 \<noteq> line_len st - 1"
proof -
  have "line_len st \<noteq> 1" "line_len st \<noteq> 2" using assms(2) by (auto simp: word_le_nat_alt)
  then show l: "line_len st - 1 \<noteq> 0" "nchars st + 1 \<noteq> line_len st - 1" using assms(1) by (auto simp: diff_eq_eq)
  then show "bc_num_printNewline st = st" using assms(1) by (auto simp: bc_num_printNewline_def)
qed

text \<open>C13: printing and reading back.  In base 10 zxc_num_print writes, on a fresh line of at least four columns, a
  minus sign if the number is negative and then a text that breaks over lines; the lexer of bc and dc, started on
  the first character of that text, consumes it up to the newline, joins the lines, and the parser turns the
  result into a number with exactly the digits and decimals that were printed (a zero loses its decimals).
\<close>

theorem print_read_roundtrip:
  assumes n: "wf_num n" "fits n" and st: "nchars st = 0" "4 \<le> line_len st"
  shows "\<exists>st' c ws. zxc_num_print n True 10 st = Inr st' \<and> nchars st' = 0 \<and>
    out st' = out st @ (if neg n then ''-'' else []) @ c # ws @ [newline] \<and>
    (\<forall>rest is_bc line z. \<exists>k val r. zxc_lex_number is_bc c (ws @ newline # rest) line = (newline # rest, line + k, val) \<and>
       zxc_num_parse z val 10 = Inr r \<and> wf_num r \<and> num r = num n \<and> (num n \<noteq> [] \<longrightarrow> rdx r = rdx n) \<and>
       bc_value r = \<bar>bc_value n\<bar>)"
proof -
  note nl = fresh_line [OF st] and nl1 = fresh_line(3) [OF st]
  show ?thesis
  proof (cases "num n = []")
    case True
    have z: "xc_num_strValid ''0''" by (simp add: xc_num_strValid_def)
    have "\<exists>k val r. zxc_lex_number is_bc (CHR ''0'') ([] @ newline # rest) line = (newline # rest, line + k, val) \<and>
       zxc_num_parse z val 10 = Inr r \<and> wf_num r \<and> num r = num n \<and> (num n \<noteq> [] \<longrightarrow> rdx r = rdx n) \<and> bc_value r = \<bar>bc_value n\<bar>"
      for rest is_bc line z
    proof -
      have "zxc_num_parse z ''0'' 10 = Inr (bc_num_zero z)" using z by (simp add: zxc_num_parse_def)
      moreover have "wf_num (bc_num_zero z)" "num (bc_num_zero z) = num n" "bc_value (bc_num_zero z) = \<bar>bc_value n\<bar>"
        using True by (simp_all add: wf_empty value_0)
      ultimately show ?thesis using lex_number [OF broken_Nil, of "CHR ''0''" is_bc rest line] True by auto
    qed
    then show ?thesis using True nl wf_zero_sign [OF n(1) True]
      by (auto simp: zxc_num_print_def on_success_simps bb_putchar_def add_chars_def intro!: exI [of _ "[]"])
  next
    case False
    define T where "T = number_text (rdx n) (rev (num n))"
    define st2 where "st2 = (if neg n then add_chars 1 (bb_putchar (CHR ''-'') st) else st)"
    have dg: "digits (rev (num n))" using wf_digits [OF n(1)] by (simp add: digits_def)
    have "T \<noteq> []" using False by (simp add: T_def)
    then obtain c cs where T: "T = c # cs" by (cases T) auto
    have chars: "number_chars (c = CHR ''.'') cs" "List.last (c # cs) \<noteq> CHR ''.''"
      using number_text_chars [OF dg, of False "rdx n"] number_text_last [OF dg, of "rdx n"] False T
      by (auto simp: T_def [symmetric] hex_char_not split: if_splits)
    have "nchars st2 \<noteq> line_len st2 - 1"
      using nl1 nl(2) st(1) by (auto simp: st2_def add_chars_def bb_putchar_def)
    from emit_first [OF this] obtain ws where ws: "out (emit T st2) = out st2 @ c # ws" "broken ws cs" unfolding T by blast
    have sz: "rdx n < 2 ^ 63" "len n < 2 ^ 63" using n(2) by (simp_all add: fits_def)
    have "zxc_num_print n True 10 st = Inr ((bb_putchar newline (emit T st2))\<lparr>nchars := 0\<rparr>)"
      using False printDecimal_emit [OF wf_digits [OF n(1)] sz, of st]
      by (simp add: zxc_num_print_def nl on_success_simps T_def st2_def)
    moreover have "out ((bb_putchar newline (emit T st2))\<lparr>nchars := 0\<rparr>) =
        out st @ (if neg n then ''-'' else []) @ c # ws @ [newline]"
      using ws(1) by (simp add: bb_putchar_def st2_def add_chars_def)
    moreover have "\<exists>k val r. zxc_lex_number is_bc c (ws @ newline # rest) line = (newline # rest, line + k, val) \<and>
       zxc_num_parse z val 10 = Inr r \<and> wf_num r \<and> num r = num n \<and> (num n \<noteq> [] \<longrightarrow> rdx r = rdx n) \<and> bc_value r = \<bar>bc_value n\<bar>"
      for rest is_bc line z
    proof -
      obtain k where k: "zxc_lex_number is_bc c (ws @ newline # rest) line = (newline # rest, line + k, T)"
        using lex_number [OF ws(2) chars, of is_bc rest line] unfolding T by blast
      obtain r where r: "zxc_num_parse z T 10 = Inr r" "num r = num n" "rdx r = rdx n" "\<not> neg r" "len n + 1 \<le> cap r"
        using parse_number [OF n(1) False, of z] unfolding T_def by blast
      have "wf_num r" using n(1) r unfolding wf_num_def by simp
      moreover have "bc_value r = \<bar>bc_value n\<bar>" using abs_value [OF n(1)] r by (simp add: bc_value_def)
      ultimately show ?thesis using k r by blast
    qed
    ultimately show ?thesis by (intro exI [of _ "(bb_putchar newline (emit T st2))\<lparr>nchars := 0\<rparr>"] exI [of _ c] exI [of _ ws]) auto
  qed
qed

text \<open>-1234567.5 on lines of four columns\<close>

theorem print_read_roundtrip_witness:
  "\<exists>st' c ws. zxc_num_print \<lparr>num = [5, 7, 6, 5, 4, 3, 2, 1], neg = True, rdx = 1, cap = 16\<rparr> True 10
       \<lparr>out = [], nchars = 0, line_len = 4\<rparr> = Inr st' \<and> out st' = CHR ''-'' # c # ws @ [newline] \<and>
     (\<exists>k val r. zxc_lex_number True c (ws @ [newline]) 1 = ([newline], 1 + k, val) \<and>
       zxc_num_parse (bc_num_init 16) val 10 = Inr r \<and> bc_value r = 2469135 / 2)"
proof -
  let ?n = "\<lparr>num = [5, 7, 6, 5, 4, 3, 2, 1], neg = True, rdx = 1, cap = 16\<rparr>" and ?st = "\<lparr>out = [], nchars = 0, line_len = 4\<rparr>"
  have "wf_num ?n" "fits ?n" "nchars ?st = 0" "4 \<le> line_len ?st" by (simp_all add: wf_num_def fits_def)
  from print_read_roundtrip [OF this] obtain st' c ws where p: "zxc_num_print ?n True 10 ?st = Inr st'"
    "out st' = out ?st @ (if neg ?n then ''-'' else []) @ c # ws @ [newline]"
    "\<And>rest is_bc line z. \<exists>k val r. zxc_lex_number is_bc c (ws @ newline # rest) line = (newline # rest, line + k, val) \<and>
       zxc_num_parse z val 10 = Inr r \<and> wf_num r \<and> num r = num ?n \<and> (num ?n \<noteq> [] \<longrightarrow> rdx r = rdx ?n) \<and>
       bc_value r = \<bar>bc_value ?n\<bar>" by blast
  have v: "\<bar>bc_value ?n\<bar> = 2469135 / 2" by (simp add: bc_value_def)
  have "out st' = CHR ''-'' # c # ws @ [newline]" using p(2) by simp
  moreover have "\<exists>k val r. zxc_lex_number True c (ws @ [newline]) 1 = ([newline], 1 + k, val) \<and>
       zxc_num_parse (bc_num_init 16) val 10 = Inr r \<and> bc_value r = 2469135 / 2"
    using p(3) [of True "[]" 1 "bc_num_init 16"] unfolding v by blast
  ultimately show "\<exists>st' c ws. zxc_num_print ?n True 10 ?st = Inr st' \<and> out st' = CHR ''-'' # c # ws @ [newline] \<and>
     (\<exists>k val r. zxc_lex_number True c (ws @ [newline]) 1 = ([newline], 1 + k, val) \<and>
       zxc_num_parse (bc_num_init 16) val 10 = Inr r \<and> bc_value r = 2469135 / 2)" using p(1) by blast
qed

end
