(* ===== verification/Bc_Parse.thy ===== *)
theory Bc_Parse
  imports Bc_Roundtrip
begin

text \<open>
  What the parser of numbers computes, for every input base of bc (2 to 36): the digits read by Horner's rule,
  digits too large for the base counted as base - 1, the fraction cut after as many decimals as it has digits.
\<close>

subsection \<open>The value of a text\<close>

definition digit_value :: "char \<Rightarrow> int" where
  "digit_value c = (if ord c \<le> 57 then int (ord c) - 48 else int (ord c) - 55)"

definition clamped :: "int \<Rightarrow> char \<Rightarrow> int" where
  "clamped b c = min (b - 1) (digit_value c)"

fun text_val :: "int \<Rightarrow> int \<Rightarrow> cstr \<Rightarrow> int" where
  "text_val b x [] = x"
| "text_val b x (c # cs) = text_val b (x * b + clamped b c) cs"

definition numeral_char :: "char \<Rightarrow> bool" where
  "numeral_char c \<longleftrightarrow> 48 \<le> ord c \<and> ord c \<le> 57 \<or> 65 \<le> ord c \<and> ord c \<le> 90"

abbreviation point :: char where "point \<equiv> CHR ''.''"

lemma text_val_append: "text_val b x (cs @ ds) = text_val b (text_val b x cs) ds"
  by (induction cs arbitrary: x) auto

lemma text_val_shift: "text_val b x cs = x * b ^ length cs + text_val b 0 cs"
proof (induction cs arbitrary: x)
  case (Cons c cs)
  show ?case unfolding text_val.simps Cons.IH [of "x * b + clamped b c"] Cons.IH [of "0 * b + clamped b c"]
    by (simp add: algebra_simps)
qed simp

lemma clamped_range: "numeral_char c \<Longrightarrow> 2 \<le> b \<Longrightarrow> 0 \<le> clamped b c \<and> clamped b c < b"
  by (auto simp: clamped_def digit_value_def numeral_char_def)

lemma text_val_range:
  "list_all numeral_char cs \<Longrightarrow> 2 \<le> b \<Longrightarrow> 0 \<le> x \<Longrightarrow> x < b ^ k \<Longrightarrow> 0 \<le> text_val b x cs \<and> text_val b x cs < b ^ (k + length cs)"
proof (induction cs arbitrary: x k)
  case (Cons c cs)
  then have c: "0 \<le> clamped b c" "clamped b c < b" using clamped_range by auto
  have "0 \<le> x * b + clamped b c" using Cons.prems c by simp
  moreover have "(x + 1) * b \<le> b ^ k * b" using Cons.prems by (intro mult_right_mono) auto
  then have "x * b + clamped b c < b ^ (k + 1)" using c by (simp add: algebra_simps)
  ultimately show ?case using Cons.IH [of "x * b + clamped b c" "k + 1"] Cons.prems by simp
qed simp

lemma text_val_zeros: "list_all (\<lambda>c. c = CHR ''0'') cs \<Longrightarrow> 2 \<le> b \<Longrightarrow> text_val b 0 cs = 0"
  by (induction cs) (auto simp: clamped_def digit_value_def)

lemma valid_chars: "strValid_loop pt cs \<Longrightarrow> c \<in> set cs \<Longrightarrow> c = point \<or> numeral_char c"
  by (induction pt cs rule: strValid_loop.induct)
    (auto simp: numeral_char_def word_less_nat_alt not_less split: if_splits)

lemma valid_frac: "strValid_loop True cs \<Longrightarrow> list_all numeral_char cs"
  by (induction cs) (auto simp: numeral_char_def word_less_nat_alt not_less split: if_splits)

lemma valid_split: "strValid_loop False cs \<Longrightarrow>
    list_all numeral_char (takeWhile (\<lambda>c. c \<noteq> point) cs) \<and> list_all numeral_char (tl (dropWhile (\<lambda>c. c \<noteq> point) cs))"
  by (induction cs) (auto simp: valid_frac numeral_char_def word_less_nat_alt not_less split: if_splits)

lemma base_digit_value:
  assumes c: "numeral_char c" and b: "2 \<le> uint b"
  shows "uint (base_digit (b - 1) c) = clamped (uint b) c"
proof -
  define k where "k = (if ord c \<le> 57 then ord c - 48 else ord c - 55)"
  have k: "int k = digit_value c" "k < 2 ^ 32" using c ord_less_256 [of c] by (auto simp: k_def digit_value_def numeral_char_def)
  have w: "(ucast (uchar c) :: u32) = of_nat (ord c)" for c
    using of_nat_unat [of "uchar c"] unfolding unat_uchar by (rule sym)
  have v: "(if uchar c \<le> uchar (CHR ''9'') then ucast (uchar c) - ucast (uchar (CHR ''0''))
      else ucast (uchar c) - ucast (uchar (CHR ''A'')) + 10) = (of_nat k :: u32)"
    using c by (auto simp: w k_def numeral_char_def of_nat_diff word_le_nat_alt)
  have "unat (of_nat k :: u32) = k" using k(2) by (intro unat_of_nat_small) simp
  then have u: "uint (of_nat k :: u32) = int k" by (simp only: uint_nat)
  have "b \<noteq> 0" using b by auto
  then have "unat (b - 1) = unat b - 1" "unat b \<noteq> 0" by (simp_all add: unat_pred unat_eq_0)
  then have "int (unat (b - 1)) = int (unat b) - 1" by linarith
  then have m: "uint (b - 1) = uint b - 1" by (simp only: uint_nat)
  show ?thesis unfolding base_digit_def v Let_def word_less_def u m clamped_def k(1) [symmetric] using u m by auto
qed

subsection \<open>The two loops of \<^verbatim>\<open>bc_num_parseBase\<close>\<close>

definition ibase :: "u32 \<Rightarrow> BcNum \<Rightarrow> bool" where
  "ibase b base \<longleftrightarrow> 2 \<le> uint b \<and> uint b \<le> 36 \<and> int_num base (uint b) \<and> len base \<le> 2"

lemma ibase_num: "2 \<le> uint b \<Longrightarrow> uint b \<le> 36 \<Longrightarrow> ibase b (bc_num_ulong2num stack_num (ucast b))"
proof -
  assume b: "2 \<le> uint b" "uint b \<le> 36"
  have "uint (ucast b :: u64) = uint b" using b(2) by (simp add: uint_up_ucast is_up)
  then have n: "int_num (bc_num_ulong2num stack_num (ucast b)) (uint b)" using ulong2num [of stack_num "ucast b"] by (simp add: int_num_def)
  then show ?thesis using b int_num_len [OF n, of 2] by (simp add: ibase_def)
qed

lemma digit_num: "numeral_char c \<Longrightarrow> 2 \<le> uint b \<Longrightarrow> int_num (bc_num_ulong2num stack_num (ucast (base_digit (b - 1) c))) (clamped (uint b) c)"
proof -
  assume c: "numeral_char c" and b: "2 \<le> uint b"
  have "uint (ucast (base_digit (b - 1) c) :: u64) = clamped (uint b) c" unfolding base_digit_value [OF c b, symmetric] by (simp add: uint_up_ucast is_up)
  then show ?thesis using ulong2num [of stack_num "ucast (base_digit (b - 1) c)"] by (simp add: int_num_def)
qed

lemma int_add:
  assumes a: "int_num a x" and b: "int_num b y" and l: "len a < 2 ^ 62" "len b < 2 ^ 62"
  shows "\<exists>r. zbc_num_add al a b c s = Inr r \<and> int_num r (x + y)"
  using num_add [of a b al c s] a b l by (auto simp: int_num_def fits_def sum_ok_def)

text \<open>The length of a number below a power of the base.\<close>

lemma power_len: "int_num n x \<Longrightarrow> 0 \<le> x \<Longrightarrow> x < b ^ k \<Longrightarrow> b \<le> 36 \<Longrightarrow> 2 \<le> b \<Longrightarrow> len n \<le> 2 * k"
proof -
  assume n: "int_num n x" and x: "0 \<le> x" "x < b ^ k" and b: "b \<le> 36" "2 \<le> b"
  have "b ^ k \<le> 100 ^ k" using b by (intro power_mono) auto
  also have "\<dots> = 10 ^ (2 * k)" by (simp add: power_mult)
  finally show ?thesis using x by (intro int_num_len [OF n]) simp
qed

text \<open>One digit: multiply by the base and add it.\<close>

lemma horner_step:
  assumes n: "int_num n x" "0 \<le> x" "x < uint b ^ k" and b: "ibase b base" and c: "numeral_char c" and l: "2 * int k + 2 \<le> BC_MAX_NUM"
  shows "\<exists>m. zbc_num_mul al n base u 0 = Inr m \<and>
    (\<forall>v. \<exists>r. zbc_num_add al' m (bc_num_ulong2num stack_num (ucast (base_digit (b - 1) c))) v 0 = Inr r \<and>
      int_num r (x * uint b + clamped (uint b) c))"
proof -
  note bb = b [unfolded ibase_def]
  have ln: "len n \<le> 2 * k" using power_len [OF n] bb by simp
  have k62: "2 * k + 2 < 2 ^ 62" using l by (simp add: BC_MAX_NUM_def)
  have "int (len n + len base) \<le> BC_MAX_NUM" using ln bb l by linarith
  from int_mul [OF n(1) _ this, of "uint b" al u] obtain m where m: "zbc_num_mul al n base u 0 = Inr m" "int_num m (x * uint b)" "len m \<le> len n + len base"
    using bb by blast
  define d where "d = bc_num_ulong2num stack_num (ucast (base_digit (b - 1) c))"
  have d: "int_num d (clamped (uint b) c)" unfolding d_def by (rule digit_num) (use c bb in auto)
  have "len d \<le> 2" by (rule int_num_len [OF d]) (use clamped_range [OF c, of "uint b"] bb in auto)
  moreover have "len m \<le> 2 * k + 2" using m(3) ln bb by linarith
  ultimately have "len m < 2 ^ 62" "len d < 2 ^ 62" using k62 by linarith+
  then show ?thesis using int_add [OF m(2) d, of al' _ 0] m(1) unfolding d_def by blast
qed

lemma parse_int_spec:
  assumes "int_num n x" "0 \<le> x" "x < uint b ^ k" "ibase b base" "\<forall>c \<in> set val. c = point \<or> numeral_char c"
    "2 * int (k + length val) + 2 \<le> BC_MAX_NUM"
  shows "\<exists>r. parse_int (b - 1) base val n mult = (r, case dropWhile (\<lambda>c. c \<noteq> point) val of [] \<Rightarrow> None | c # f \<Rightarrow> Some f) \<and>
    int_num r (text_val (uint b) x (takeWhile (\<lambda>c. c \<noteq> point) val))"
  using assms
proof (induction val arbitrary: n x k mult)
  case (Cons c val)
  show ?case
  proof (cases "c = point")
    case False
    then have c: "numeral_char c" using Cons.prems(5) by auto
    have b: "2 \<le> uint b" using Cons.prems(4) by (simp add: ibase_def)
    have "2 * int k + 2 \<le> BC_MAX_NUM" using Cons.prems(6) by simp
    from horner_step [OF Cons.prems(1-4) c this, of False mult False] obtain m r where
      s: "zbc_num_mul False n base mult 0 = Inr m"
        "zbc_num_add False m (bc_num_ulong2num stack_num (ucast (base_digit (b - 1) c))) n 0 = Inr r"
        "int_num r (x * uint b + clamped (uint b) c)" by blast
    have "0 \<le> x * uint b + clamped (uint b) c \<and> x * uint b + clamped (uint b) c < uint b ^ (k + 1)"
      using text_val_range [of "[c]" "uint b" x k] Cons.prems(2,3) c b by simp
    then have "\<exists>r'. parse_int (b - 1) base val r m = (r', case dropWhile (\<lambda>c. c \<noteq> point) val of [] \<Rightarrow> None | c # f \<Rightarrow> Some f) \<and>
        int_num r' (text_val (uint b) (x * uint b + clamped (uint b) c) (takeWhile (\<lambda>c. c \<noteq> point) val))"
      by (intro Cons.IH [OF s(3), of "k + 1"]) (use Cons.prems in auto)
    then show ?thesis using False s by (simp add: on_success_simps)
  qed (use Cons.prems in simp)
qed simp

lemma parse_frac_spec:
  assumes "int_num n x" "0 \<le> x" "x < uint b ^ k" "int_num m (uint b ^ k)" "ibase b base" "list_all numeral_char val"
    "2 * int (k + 1 + length val) + 2 \<le> BC_MAX_NUM"
  shows "\<exists>r q. parse_frac (b - 1) base val n m digs = Inr (r, q, digs + length val) \<and>
    int_num r (text_val (uint b) x val) \<and> int_num q (uint b ^ (k + length val))"
  using assms
proof (induction val arbitrary: n x k m digs)
  case (Cons c val)
  have b: "2 \<le> uint b" "uint b \<le> 36" "int_num base (uint b)" "len base \<le> 2" using Cons.prems(5) by (simp_all add: ibase_def)
  have c: "numeral_char c" using Cons.prems(6) by simp
  have "2 * int k + 2 \<le> BC_MAX_NUM" using Cons.prems(7) by simp
  from horner_step [OF Cons.prems(1-3,5) c this, of True n True] obtain t r where
    s: "zbc_num_mul True n base n 0 = Inr t"
      "zbc_num_add True t (bc_num_ulong2num stack_num (ucast (base_digit (b - 1) c))) t 0 = Inr r"
      "int_num r (x * uint b + clamped (uint b) c)" by blast
  have "uint b ^ k < uint b ^ (k + 1)" using b(1) by (intro power_strict_increasing) auto
  then have "len m \<le> 2 * (k + 1)" using power_len [OF Cons.prems(4), of "uint b" "k + 1"] b by simp
  then have "int (len m + len base) \<le> BC_MAX_NUM" using b(4) Cons.prems(7) by simp
  from int_mul [OF Cons.prems(4) b(3) this, of True m] obtain q where q: "zbc_num_mul True m base m 0 = Inr q" "int_num q (uint b ^ (k + 1))"
    by (auto simp: mult.commute)
  have "0 \<le> x * uint b + clamped (uint b) c \<and> x * uint b + clamped (uint b) c < uint b ^ (k + 1)"
    using text_val_range [of "[c]" "uint b" x k] Cons.prems(2,3) c b by simp
  then have "\<exists>r' q'. parse_frac (b - 1) base val r q (digs + 1) = Inr (r', q', digs + 1 + length val) \<and>
      int_num r' (text_val (uint b) (x * uint b + clamped (uint b) c) val) \<and> int_num q' (uint b ^ (k + 1 + length val))"
    by (intro Cons.IH [OF s(3) _ _ q(2)]) (use Cons.prems in auto)
  then show ?case using s q(1) by (simp add: on_success_simps)
qed simp

subsection \<open>Numbers with a fraction\<close>

lemma extend_num:
  assumes "wf_num n" "num n \<noteq> []"
  shows "wf_num (bc_num_extend n p) \<and> bc_value (bc_num_extend n p) = bc_value n"
proof
  show "wf_num (bc_num_extend n p)" using assms extend_cap [of n p] by (auto simp: wf_num_def digits_def)
  show "bc_value (bc_num_extend n p) = bc_value n" by (simp add: bc_value_def power_add)
qed

lemma zero_num: "int_num (bc_num_zero n) 0" "int_num (bc_num_init k) 0"
  by (simp_all add: int_num_def wf_num_def bc_value_def)

text \<open>The value of an integer part and a fraction in base \<open>b\<close>.\<close>

definition point_value :: "int \<Rightarrow> cstr \<Rightarrow> cstr \<Rightarrow> rat" where
  "point_value b i f = of_int (text_val b 0 i) + trunc_dec (length f) (of_int (text_val b 0 f) / of_int (b ^ length f))"

abbreviation int_part :: "cstr \<Rightarrow> cstr" where "int_part \<equiv> takeWhile (\<lambda>c. c \<noteq> point)"
abbreviation frac_part :: "cstr \<Rightarrow> cstr" where "frac_part val \<equiv> tl (dropWhile (\<lambda>c. c \<noteq> point) val)"

lemma parse_tail:
  assumes n: "int_num n x" "len n < 2 ^ 61" and b: "ibase b base" and f: "list_all numeral_char f"
    and l: "2 * int (length f + 1) + 2 \<le> BC_MAX_NUM"
  shows "\<exists>r. on_success (parse_frac (b - 1) base f (bc_num_init (len base)) (bc_num_one (bc_num_init 0)) 0)
        (\<lambda>(result, mult, digs).
          on_success (zbc_num_div True result mult result digs) (\<lambda>result.
          on_success (zbc_num_add True n result n digs) (\<lambda>n. Inr (n, digs)))) = Inr (r, length f) \<and>
      wf_num r \<and> bc_value r = of_int x + trunc_dec (length f) (of_int (text_val (uint b) 0 f) / of_int (uint b ^ length f))"
proof -
  have bb: "2 \<le> uint b" "uint b \<le> 36" using b by (simp_all add: ibase_def)
  have one: "int_num (bc_num_one (bc_num_init 0)) (uint b ^ 0)"
    by (simp add: bc_num_one_def bc_num_init_def BC_NUM_DEF_SIZE_def int_num_def wf_num_def bc_value_def)
  have "2 * int (0 + 1 + length f) + 2 \<le> BC_MAX_NUM" using l by simp
  from parse_frac_spec [OF zero_num(2) _ _ one b f this, of "len base" 0] obtain r q where
    p: "parse_frac (b - 1) base f (bc_num_init (len base)) (bc_num_one (bc_num_init 0)) 0 = Inr (r, q, length f)"
      "int_num r (text_val (uint b) 0 f)" "int_num q (uint b ^ length f)" by auto
  have rng: "0 \<le> text_val (uint b) 0 f" "text_val (uint b) 0 f < uint b ^ length f"
    using text_val_range [OF f bb(1), of 0 0] by auto
  have q0: "num q \<noteq> []" using int_num_0 [OF p(3)] bb(1) by simp
  obtain d where d: "zbc_num_div True r q r (length f) = Inr d" "wf_num d" "rdx d = length f"
    "bc_value d = trunc_dec (length f) (bc_value r / bc_value q)"
    "dval (num d) = \<lfloor>\<bar>bc_value r / bc_value q\<bar> * 10 ^ length f\<rfloor>"
    using num_div [OF int_num_simps(1) [OF p(2)] int_num_simps(1) [OF p(3)] q0, of True r "length f"] by blast
  have "len d \<le> len r + rdx q + length f"
    by (rule quotient_len [OF int_num_simps(1) [OF p(2)] int_num_simps(1) [OF p(3)] q0 d(2,3,5)])
  then have "len d \<le> 3 * length f" using power_len [OF p(2) rng bb(2,1)] int_num_simps(2) [OF p(3)] by simp
  moreover have "3 * length f < 2 ^ 61" using l by (simp add: BC_MAX_NUM_def)
  ultimately have fd: "fits d" using d(3) by (simp add: fits_def)
  have fn: "fits n" using n by (simp add: fits_def int_num_simps)
  obtain s where s: "zbc_num_add True n d n (length f) = Inr s" "sum_ok n d (bc_value n + bc_value d) s"
    using num_add [OF int_num_simps(1) [OF n(1)] fn d(2) fd, of True n "length f"] by blast
  have "on_success (parse_frac (b - 1) base f (bc_num_init (len base)) (bc_num_one (bc_num_init 0)) 0)
        (\<lambda>(result, mult, digs).
          on_success (zbc_num_div True result mult result digs) (\<lambda>result.
          on_success (zbc_num_add True n result n digs) (\<lambda>n. Inr (n, digs)))) = Inr (s, length f)"
    by (simp add: p(1) d(1) s(1) on_success_simps)
  then show ?thesis using s(2) d(4) n(1) p(2,3) by (auto simp: sum_ok_def int_num_simps)
qed

lemma parse_base_spec:
  assumes b: "2 \<le> uint b" "uint b \<le> 36" and v: "strValid_loop False val" and l: "2 * int (length val + 2) + 2 \<le> BC_MAX_NUM"
  shows "wf_num (bc_num_parseBase (bc_num_zero z) val b) \<and>
    bc_value (bc_num_parseBase (bc_num_zero z) val b) = point_value (uint b) (int_part val) (frac_part val)"
proof -
  define base where "base = bc_num_ulong2num stack_num (ucast b)"
  have base: "ibase b base" unfolding base_def by (rule ibase_num [OF b])
  have chars: "list_all numeral_char (int_part val)" "list_all numeral_char (frac_part val)" using valid_split [OF v] by auto
  have "\<forall>c \<in> set val. c = point \<or> numeral_char c" using valid_chars [OF v] by blast
  moreover have "2 * int (0 + length val) + 2 \<le> BC_MAX_NUM" using l by simp
  ultimately obtain n where n: "parse_int (b - 1) base val (bc_num_zero z) (bc_num_init BC_NUM_DEF_SIZE) =
      (n, case dropWhile (\<lambda>c. c \<noteq> point) val of [] \<Rightarrow> None | c # f \<Rightarrow> Some f)"
    "int_num n (text_val (uint b) 0 (int_part val))"
    using parse_int_spec [OF zero_num(1) _ _ base, of 0 val z "bc_num_init BC_NUM_DEF_SIZE"] by auto
  have ln: "len n < 2 ^ 61"
  proof -
    have "text_val (uint b) 0 (int_part val) < uint b ^ length (int_part val)" "0 \<le> text_val (uint b) 0 (int_part val)"
      using text_val_range [OF chars(1) b(1), of 0 0] by auto
    then have "len n \<le> 2 * length (int_part val)" using power_len [OF n(2) _ _ b(2,1)] by blast
    also have "\<dots> \<le> 2 * length val" by (simp add: length_takeWhile_le)
    finally show ?thesis using l by (simp add: BC_MAX_NUM_def)
  qed
  show ?thesis
  proof (cases "dropWhile (\<lambda>c. c \<noteq> point) val")
    case Nil
    then have "bc_num_parseBase (bc_num_zero z) val b = n"
      unfolding bc_num_parseBase_def base_def [symmetric] Let_def n(1) Nil by simp
    then show ?thesis using n(2) by (simp add: point_value_def int_num_simps trunc_dec_def Nil)
  next
    case (Cons p f)
    have "length f \<le> length val" using length_dropWhile_le [of "\<lambda>c. c \<noteq> point" val] Cons by simp
    then have lf: "2 * int (length f + 1) + 2 \<le> BC_MAX_NUM" using l by simp
    from parse_tail [OF n(2) ln base _ lf] chars(2) Cons obtain r where
      r: "on_success (parse_frac (b - 1) base f (bc_num_init (len base)) (bc_num_one (bc_num_init 0)) 0)
        (\<lambda>(result, mult, digs).
          on_success (zbc_num_div True result mult result digs) (\<lambda>result.
          on_success (zbc_num_add True n result n digs) (\<lambda>n. Inr (n, digs)))) = Inr (r, length f)"
      "wf_num r" "bc_value r = point_value (uint b) (int_part val) (frac_part val)"
      by (auto simp: point_value_def)
    have e: "bc_num_parseBase (bc_num_zero z) val b =
        (if len r \<noteq> 0 then (if rdx r < length f then bc_num_extend r (length f - rdx r) else r) else bc_num_zero r)"
      unfolding bc_num_parseBase_def base_def [symmetric] Let_def n(1) Cons by (simp add: r(1))
    show ?thesis unfolding e using r(2,3) extend_num [OF r(2)] value_0 [of r] by (auto simp: wf_empty value_0)
  qed
qed

subsection \<open>Decimal numbers\<close>

lemma decimal_clamped: "numeral_char c \<Longrightarrow> decimal_digit c = clamped 10 c"
proof -
  assume c: "numeral_char c"
  have "uint (uchar c - 48) = int (ord c) - 48"
  proof -
    have "(uchar c - 48) = of_nat (ord c - 48)" using c by (auto simp: uchar_of_nat of_nat_diff numeral_char_def)
    moreover have "unat (of_nat (ord c - 48) :: byte) = ord c - 48"
      by (rule unat_of_nat_small) (simp add: less_imp_diff_less)
    ultimately have "unat (uchar c - 48) = ord c - 48" by simp
    then have "int (unat (uchar c - 48)) = int (ord c) - 48" using c by (auto simp: numeral_char_def)
    then show ?thesis by (simp only: uint_nat)
  qed
  then show ?thesis using c by (auto simp: decimal_digit_def Let_def word_less_def clamped_def digit_value_def numeral_char_def)
qed

lemma dval_text: "list_all numeral_char cs \<Longrightarrow> dval (map decimal_digit (rev cs)) = text_val 10 0 cs"
proof (induction cs rule: rev_induct)
  case (snoc c cs)
  then show ?case by (simp add: text_val_append decimal_clamped)
qed simp

lemma split_point: "strValid_loop False val \<Longrightarrow> filter (\<lambda>c. c \<noteq> point) val = int_part val @ frac_part val"
proof (induction val)
  case (Cons c val)
  have "filter (\<lambda>c. c \<noteq> point) val = val" if "strValid_loop True val"
    using valid_frac [OF that] by (intro filter_True) (auto simp: list_all_iff numeral_char_def)
  then show ?case using Cons by (auto split: if_splits)
qed simp

lemma case_tl: "(case xs of [] \<Rightarrow> 0 | p # f \<Rightarrow> length f) = length (tl xs)"
  by (cases xs) auto

lemma parse_decimal_spec:
  assumes v: "strValid_loop False val" and h: "val = [] \<or> hd val \<noteq> CHR ''0''"
    and nz: "\<not> list_all (\<lambda>c. c = point \<or> c = CHR ''0'') val" and l: "length val \<noteq> 1"
  shows "wf_num (bc_num_parseDecimal (bc_num_zero z) val) \<and>
    bc_value (bc_num_parseDecimal (bc_num_zero z) val) = point_value 10 (int_part val) (frac_part val)"
proof -
  define i f where "i = int_part val" and "f = frac_part val"
  have chars: "list_all numeral_char i" "list_all numeral_char f" using valid_split [OF v] by (auto simp: i_def f_def)
  have fl: "filter (\<lambda>c. c \<noteq> point) val = i @ f" using split_point [OF v] by (simp add: i_def f_def)
  define n where "n = (bc_num_expand (bc_num_zero z) (length val + 1))\<lparr>rdx := length f, num := map decimal_digit (rev (i @ f))\<rparr>"
  have fr: "(case dropWhile (\<lambda>c. c \<noteq> point) val of [] \<Rightarrow> 0 | p # f \<Rightarrow> length f) = length f"
    unfolding f_def by (rule case_tl)
  have ex: "list_ex (\<lambda>c. c \<noteq> CHR ''0'' \<and> c \<noteq> point) val" using nz by (auto simp: list_all_iff list_ex_iff)
  then have ne: "val \<noteq> []" by auto
  have e: "bc_num_parseDecimal (bc_num_zero z) val = n" using ne l ex by (simp add: bc_num_parseDecimal_def fr n_def fl)
  have cl: "decimal_digit c = clamped 10 c \<and> 0 \<le> clamped 10 c \<and> clamped 10 c \<le> 9" if "c \<in> set (i @ f)" for c
    using that chars clamped_range [of c 10] decimal_clamped [of c] by (auto simp: list_all_iff)
  have dg: "digits (num n)" using cl by (auto simp: n_def digits_def)
  have zc: "clamped 10 c \<noteq> 0" if "numeral_char c" "c \<noteq> CHR ''0''" for c
  proof -
    have "ord c \<noteq> 48" using that(2) ord_eq_iff [of c "CHR ''0''"] by simp
    then show ?thesis using that(1) by (auto simp: clamped_def digit_value_def numeral_char_def)
  qed
  have "\<exists>d \<in> set (num n). d \<noteq> 0"
  proof -
    obtain c where "c \<in> set val" "c \<noteq> CHR ''0''" "c \<noteq> point" using ex by (auto simp: list_ex_iff)
    then have c: "c \<in> set (i @ f)" "c \<noteq> CHR ''0''" using fl by (auto simp flip: fl)
    then have "numeral_char c" using chars by (auto simp: list_all_iff)
    then have "decimal_digit c \<noteq> 0" using zc c(2) cl [OF c(1)] by simp
    then show ?thesis using c(1) by (force simp: n_def)
  qed
  moreover have "last (num n) \<noteq> 0" if "rdx n < len n"
  proof -
    have "i \<noteq> []" using that by (auto simp: n_def)
    then obtain c cs where i: "i = c # cs" by (cases i) auto
    then have "c = hd val" using ne by (cases val) (auto simp: i_def split: if_splits)
    then have "c \<noteq> CHR ''0''" "numeral_char c" using h ne chars i by auto
    then show ?thesis using zc [of c] decimal_clamped [of c] by (simp add: n_def i)
  qed
  moreover have "len n \<le> cap n"
  proof -
    have "length (i @ f) \<le> length val" unfolding fl [symmetric] by (rule length_filter_le)
    moreover have "length val + 1 \<le> cap (bc_num_expand (bc_num_zero z) (length val + 1))" by (rule expand_simps(4))
    moreover have "len n = length (i @ f)" "cap n = cap (bc_num_expand (bc_num_zero z) (length val + 1))" by (simp_all add: n_def)
    ultimately show ?thesis by linarith
  qed
  ultimately have "wf_num n" using dg by (auto simp: wf_num_def n_def)
  moreover have "bc_value n = point_value 10 i f"
  proof -
    have "dval (num n) = text_val 10 0 i * 10 ^ length f + text_val 10 0 f"
      using dval_text [of "i @ f"] chars text_val_shift [of 10 "text_val 10 0 i" f] by (simp add: n_def text_val_append)
    moreover have "\<not> neg n" "rdx n = length f" by (simp_all add: n_def)
    moreover have "trunc_dec (length f) (of_int (text_val 10 0 f) / 10 ^ length f) = of_int (text_val 10 0 f) / 10 ^ length f"
      by (rule trunc_dec_exact)
    ultimately show ?thesis by (simp add: bc_value_def point_value_def add_divide_distrib)
  qed
  ultimately show ?thesis using e by (simp add: i_def f_def)
qed

lemma parse_single:
  assumes "numeral_char c" "c \<noteq> CHR ''0''"
  shows "wf_num (bc_num_parseDecimal (bc_num_zero z) [c]) \<and> bc_value (bc_num_parseDecimal (bc_num_zero z) [c]) = of_int (digit_value c)"
proof -
  have "ord c \<noteq> 48" using assms(2) ord_eq_iff [of c "CHR ''0''"] by simp
  then have o: "49 \<le> ord c \<and> ord c \<le> 57 \<or> 65 \<le> ord c \<and> ord c \<le> 90" "c \<noteq> point" using assms(1) by (auto simp: numeral_char_def)
  have cap: "2 \<le> cap (bc_num_expand (bc_num_zero z) (Suc (Suc 0)))" using expand_simps(4) [of 2 "bc_num_zero z"] by (simp add: numeral_2_eq_2)
  define d where "d = int (ord c) - 55"
  have m: "d mod 10 + 10 * (d div 10) = d" by simp
  show ?thesis
  proof (cases "ord c \<le> 57")
    case True
    then show ?thesis using o assms(2) cap
      by (auto simp: bc_num_parseDecimal_def wf_num_def bc_value_def digit_value_def digits_def)
  next
    case False
    then have d: "1 \<le> d div 10" "d div 10 \<le> 9" using o by (auto simp: d_def)
    have dv: "digit_value c = d" using False by (simp add: digit_value_def d_def)
    have "int (ord c) - 48 - 7 = d" by (simp add: d_def)
    then have "bc_num_parseDecimal (bc_num_zero z) [c] =
        (bc_num_expand (bc_num_zero z) (Suc (Suc 0)))\<lparr>rdx := 0, num := [d mod 10, d div 10]\<rparr>"
      using False o assms(2) by (simp add: bc_num_parseDecimal_def Let_def)
    then show ?thesis using d m cap by (auto simp: wf_num_def bc_value_def dv digits_def)
  qed
qed

subsection \<open>The value of a number read\<close>

text \<open>Leading zeros do not change the value.\<close>

lemma strip_value:
  assumes "2 \<le> b"
  defines "stripped \<equiv> \<lambda>val. dropWhile (\<lambda>c. c = CHR ''0'') val"
  shows "point_value b (int_part (stripped val)) (frac_part (stripped val)) = point_value b (int_part val) (frac_part val)"
proof -
  define zs where "zs = takeWhile (\<lambda>c. c = CHR ''0'') val"
  have v: "val = zs @ stripped val" by (simp add: zs_def stripped_def)
  have z: "c = CHR ''0''" if "c \<in> set zs" for c using that by (auto simp: zs_def dest: set_takeWhileD)
  then have "list_all (\<lambda>c. c = CHR ''0'') zs" and np: "\<And>c. c \<in> set zs \<Longrightarrow> c \<noteq> point" by (auto simp: list_all_iff)
  then have "text_val b 0 zs = 0" using text_val_zeros assms(1) by blast
  moreover have "int_part val = zs @ int_part (stripped val)" "frac_part val = frac_part (stripped val)"
    by (subst v, use np in \<open>simp add: takeWhile_append2 dropWhile_append2\<close>)+
  ultimately show ?thesis by (simp add: point_value_def text_val_append)
qed

lemma valid_strip: "strValid_loop False val \<Longrightarrow> strValid_loop False (dropWhile (\<lambda>c. c = CHR ''0'') val)"
  by (induction val) (auto split: if_splits)

lemma zero_value:
  assumes "list_all (\<lambda>c. c = point \<or> c = CHR ''0'') val" "strValid_loop False val" "2 \<le> b"
  shows "point_value b (int_part val) (frac_part val) = 0"
proof -
  have "set (tl xs) \<subseteq> set xs" for xs :: cstr by (cases xs) auto
  then have "set (frac_part val) \<subseteq> set val" using set_dropWhileD by fastforce
  moreover have "set (int_part val) \<subseteq> set val" by (auto dest: set_takeWhileD)
  ultimately have sub: "set (int_part val) \<subseteq> set val" "set (frac_part val) \<subseteq> set val" by simp_all
  have z: "list_all (\<lambda>c. c = CHR ''0'') p" if "set p \<subseteq> set val" "list_all numeral_char p" for p
  proof -
    have "\<not> numeral_char point" by (simp add: numeral_char_def)
    moreover have "numeral_char c" "c = point \<or> c = CHR ''0''" if "c \<in> set p" for c
      using that \<open>set p \<subseteq> set val\<close> \<open>list_all numeral_char p\<close> assms(1) unfolding list_all_iff by (blast, simp add: subset_iff)
    ultimately show ?thesis unfolding list_all_iff by metis
  qed
  have "list_all (\<lambda>c. c = CHR ''0'') (int_part val)" "list_all (\<lambda>c. c = CHR ''0'') (frac_part val)"
    by (rule z [OF sub(1) conjunct1 [OF valid_split [OF assms(2)]]], rule z [OF sub(2) conjunct2 [OF valid_split [OF assms(2)]]])
  then show ?thesis using text_val_zeros assms(3) by (simp add: point_value_def trunc_dec_def)
qed

lemma parse_spec:
  assumes b: "2 \<le> uint b" "uint b \<le> 36" and l: "2 * int (length val + 2) + 2 \<le> BC_MAX_NUM"
  defines "s \<equiv> dropWhile (\<lambda>c. c = CHR ''0'') val"
  shows "if xc_num_strValid val
    then \<exists>r. zxc_num_parse z val b = Inr r \<and> wf_num r \<and>
      bc_value r = (if length s = 1 \<and> hd s \<noteq> point then of_int (digit_value (hd s))
                    else point_value (uint b) (int_part val) (frac_part val))
    else zxc_num_parse z val b = Inl BcBadNumber"
proof (cases "xc_num_strValid val")
  case True
  then have vs: "strValid_loop False s" using valid_strip by (simp add: xc_num_strValid_def s_def)
  have pv: "point_value (uint b) (int_part val) (frac_part val) = point_value (uint b) (int_part s) (frac_part s)"
    using strip_value [OF b(1), of val] by (simp add: s_def)
  have h: "s = [] \<or> hd s \<noteq> CHR ''0''" using hd_dropWhile [of "\<lambda>c. c = CHR ''0''" val] by (auto simp: s_def)
  have ls: "2 * int (length s + 2) + 2 \<le> BC_MAX_NUM" using l length_dropWhile_le [of "\<lambda>c. c = CHR ''0''" val] by (simp add: s_def)
  consider (zero) "list_all (\<lambda>c. c = point \<or> c = CHR ''0'') s"
    | (single) "\<not> list_all (\<lambda>c. c = point \<or> c = CHR ''0'') s" "length s = 1"
    | (decimal) "\<not> list_all (\<lambda>c. c = point \<or> c = CHR ''0'') s" "length s \<noteq> 1" "b = 10"
    | (base) "\<not> list_all (\<lambda>c. c = point \<or> c = CHR ''0'') s" "length s \<noteq> 1" "b \<noteq> 10" by blast
  then show ?thesis
  proof cases
    case zero
    then have "zxc_num_parse z val b = Inr (bc_num_zero z)" using True by (simp add: zxc_num_parse_def s_def)
    moreover have "\<not> (length s = 1 \<and> hd s \<noteq> point)" using zero h by (cases s) auto
    moreover have "wf_num (bc_num_zero z)" "bc_value (bc_num_zero z) = 0" using zero_num(1) [of z] by (simp_all add: int_num_def)
    ultimately show ?thesis using True zero_value [OF zero vs b(1)] pv by auto
  next
    case single
    then obtain c where c: "s = [c]" by (cases s) auto
    then have "c \<noteq> point" "c \<noteq> CHR ''0''" "numeral_char c" using single valid_chars [OF vs, of c] by auto
    moreover have "zxc_num_parse z val b = Inr (bc_num_parseDecimal (bc_num_zero z) s)"
      using True single c by (simp add: zxc_num_parse_def s_def [symmetric])
    ultimately show ?thesis using True parse_single [of c z] c by simp
  next
    case decimal
    then have "zxc_num_parse z val b = Inr (bc_num_parseDecimal (bc_num_zero z) s)"
      using True by (simp add: zxc_num_parse_def s_def [symmetric])
    then show ?thesis using True parse_decimal_spec [OF vs h decimal(1,2), of z] decimal pv by simp
  next
    case base
    have "s \<noteq> []" using base(1) by auto
    then obtain c d t where s: "s = c # d # t" using base(2) by (cases s; cases "tl s") auto
    have "d \<noteq> NUL" using valid_chars [OF vs, of d] by (auto simp: s numeral_char_def)
    then have "zxc_num_parse z val b = Inr (bc_num_parseBase (bc_num_zero z) s b)"
      using True base s by (auto simp: zxc_num_parse_def s_def [symmetric] Let_def)
    then show ?thesis using True parse_base_spec [OF b vs ls, of z] base(2) pv by simp
  qed
qed (simp add: zxc_num_parse_def)

text \<open>C15: reading a number.  In every input base from 2 to 36, a string of digits, capital letters and at most one
  point is parsed to a well-formed number.  Without its leading zeros, a string of a single digit or letter has the value
  of that digit whatever the base; any other has the value of its digits in the base, digits too large for the
  base counting as base - 1, with the fraction cut after as many decimals as it has digits.  Any other string is an
  error.\<close>

theorem parse_value:
  assumes "2 \<le> uint b" "uint b \<le> 36" "2 * int (length val + 2) + 2 \<le> BC_MAX_NUM"
    and "s = dropWhile (\<lambda>c. c = CHR ''0'') val"
  shows "if xc_num_strValid val
    then \<exists>r. zxc_num_parse z val b = Inr r \<and> wf_num r \<and>
      bc_value r = (if length s = 1 \<and> hd s \<noteq> point then of_int (digit_value (hd s))
                    else point_value (uint b) (int_part val) (frac_part val))
    else zxc_num_parse z val b = Inl BcBadNumber"
  unfolding assms(4) by (rule parse_spec [OF assms(1-3)])

text \<open>"1A.C" in base 16, and "09" in base 2, which is 9 although it has two digits\<close>

theorem parse_value_witness:
  "(\<exists>r. zxc_num_parse (bc_num_init 0) ''1A.C'' 16 = Inr r \<and> bc_value r = 267 / 10) \<and>
   (\<exists>r. zxc_num_parse (bc_num_init 0) ''09'' 2 = Inr r \<and> bc_value r = 9)"
proof
  have l: "2 * int (length ''1A.C'' + 2) + 2 \<le> BC_MAX_NUM" "2 * int (length ''09'' + 2) + 2 \<le> BC_MAX_NUM" by (simp_all add: BC_MAX_NUM_def)
  have v: "xc_num_strValid ''1A.C''" "xc_num_strValid ''09''" by (simp_all add: xc_num_strValid_def)
  have "point_value 16 (int_part ''1A.C'') (frac_part ''1A.C'') = 267 / 10"
    by (simp add: point_value_def clamped_def digit_value_def trunc_dec_def) (simp add: floor_unique)
  then show "\<exists>r. zxc_num_parse (bc_num_init 0) ''1A.C'' 16 = Inr r \<and> bc_value r = 267 / 10"
    using parse_value [of 16, OF _ _ l(1) refl, of "bc_num_init 0"] v(1) by auto
  show "\<exists>r. zxc_num_parse (bc_num_init 0) ''09'' 2 = Inr r \<and> bc_value r = 9"
    using parse_value [of 2, OF _ _ l(2) refl, of "bc_num_init 0"] v(2) by (auto simp: digit_value_def)
qed

end
