(* ===== verification/Bc_Print.thy ===== *)
theory Bc_Print
  imports Bc_Parse
begin

text \<open>
  Printing integers in the output bases 2 to 16, and reading them back in the same input base.
\<close>

subsection \<open>The digits in a base\<close>

fun to_base :: "nat \<Rightarrow> nat \<Rightarrow> nat list" where
  "to_base b n = (if b < 2 \<or> n = 0 then [] else to_base b (n div b) @ [n mod b])"

declare to_base.simps [simp del]

lemma to_base_0 [simp]: "to_base b 0 = []"
  by (simp add: to_base.simps)

lemma to_base_step: "2 \<le> b \<Longrightarrow> n \<noteq> 0 \<Longrightarrow> to_base b n = to_base b (n div b) @ [n mod b]"
  by (subst to_base.simps) simp

lemma to_base_Nil: "2 \<le> b \<Longrightarrow> to_base b n = [] \<longleftrightarrow> n = 0"
  by (subst to_base.simps) simp

lemma to_base_less: "2 \<le> b \<Longrightarrow> d \<in> set (to_base b n) \<Longrightarrow> d < b"
proof (induction b n rule: to_base.induct)
  case (1 b n)
  then show ?case by (cases "n = 0") (auto simp: to_base_step)
qed

lemma to_base_hd: "2 \<le> b \<Longrightarrow> n \<noteq> 0 \<Longrightarrow> hd (to_base b n) \<noteq> 0"
proof (induction b n rule: to_base.induct)
  case (1 b n)
  show ?case
  proof (cases "n div b = 0")
    case True
    then have "to_base b n = [n mod b]" using to_base_step [OF 1(2,3)] by simp
    moreover have "n mod b = n" using True 1(2) by (simp add: div_eq_0_iff)
    ultimately show ?thesis using 1(3) by simp
  next
    case False
    have "\<not> (b < 2 \<or> n = 0)" using 1(2,3) by simp
    then have "hd (to_base b (n div b)) \<noteq> 0" by (rule 1(1) [OF _ 1(2) False])
    moreover have "to_base b (n div b) \<noteq> []" using False by (simp only: to_base_Nil [OF 1(2)] not_False_eq_True)
    ultimately show ?thesis unfolding to_base_step [OF 1(2,3)] by simp
  qed
qed

lemma to_base_length: "2 \<le> b \<Longrightarrow> n < 2 ^ k \<Longrightarrow> length (to_base b n) \<le> k"
proof (induction k arbitrary: n)
  case (Suc k)
  show ?case
  proof (cases "n = 0")
    case False
    have "n div b \<le> n div 2" using Suc.prems(1) by (intro div_le_mono2) auto
    moreover have "n div 2 < 2 ^ k" using Suc.prems(2) by (simp add: less_mult_imp_div_less mult.commute)
    ultimately have "n div b < 2 ^ k" by linarith
    then show ?thesis using Suc.IH [OF Suc.prems(1), of "n div b"] False Suc.prems(1) by (simp add: to_base_step)
  qed simp
qed simp

text \<open>The loop that pushes the digits.\<close>

lemma int_digits_spec:
  assumes "int_num intp (int n)" "int_num base (int b)" "2 \<le> b" "b \<le> 36" "rem_fits intp base 0" "n < 2 ^ fuel"
  shows "\<exists>z. int_digits (Suc fuel) intp base digit stack = Inr (z, map of_nat (to_base b n) @ stack)"
  using assms
proof (induction fuel arbitrary: n intp digit stack)
  case 0
  then show ?case using int_num_0 [of intp 0] by simp
next
  case (Suc fuel)
  show ?case
  proof (cases "n = 0")
    case True
    then show ?thesis using Suc.prems int_num_0 [of intp 0] by simp
  next
    case False
    have e: "len intp \<noteq> 0" using int_num_0 [OF Suc.prems(1)] False by simp
    have ts: "max (0 + rdx base) (rdx intp) = 0" using Suc.prems(1,2) by (simp add: int_num_simps)
    have "int b \<noteq> 0" using Suc.prems(3) by simp
    from int_divmod [OF Suc.prems(1,2) this Suc.prems(5), of "bc_num_init (BC_NUM_MREQ intp base 0)" digit]
    obtain q d where q: "zbc_num_divmod True intp base intp digit 0 = Inr (q, d)" "int_num d (int n smod int b)" "int_num q (int n sdiv int b)"
      using False ts by (auto simp: zbc_num_divmod_def Let_def)
    have qn: "int_num q (int (n div b))" and dn: "int_num d (int (n mod b))"
      using q(2,3) False Suc.prems(3) by (simp_all add: signed_modulo_int_def signed_divide_int_def zdiv_int zmod_int sgn_if)
    have "n mod b < 36" using Suc.prems(3,4) by (meson less_le_trans mod_less_divisor zero_less_numeral order_less_le_trans)
    then have u: "zbc_num_ulong d = Inr (of_nat (n mod b))"
      using ulong_abs [OF int_num_simps(1) [OF dn]] int_num_dval [OF dn] int_num_simps(2) [OF dn] value_neg [OF int_num_simps(1) [OF dn]]
        int_num_simps(3) [OF dn] by (simp add: zbc_num_ulong_def)
    have "int (n div b) \<le> int n" by (simp only: of_nat_le_iff div_le_dividend)
    then have "len q \<le> len intp" by (intro int_num_short [OF qn _ Suc.prems(1)]) simp
    then have "rem_fits q base 0" using Suc.prems(5) by (simp add: rem_fits_def)
    moreover have "n div b < 2 ^ fuel"
    proof -
      have "n div b \<le> n div 2" using Suc.prems(3) by (intro div_le_mono2) auto
      moreover have "n div 2 < 2 ^ fuel" using Suc.prems(6) by (simp add: less_mult_imp_div_less mult.commute)
      ultimately show ?thesis by linarith
    qed
    ultimately obtain z where "int_digits (Suc fuel) q base d (of_nat (n mod b) # stack) =
        Inr (z, map of_nat (to_base b (n div b)) @ of_nat (n mod b) # stack)"
      using Suc.IH [OF qn Suc.prems(2-4), of d "of_nat (n mod b) # stack"] by blast
    then show ?thesis using e q(1) u False Suc.prems(3) by (simp add: on_success_simps to_base_step)
  qed
qed

subsection \<open>Their text\<close>

definition base_char :: "nat \<Rightarrow> char" where
  "base_char d = char_at bb_hexdigits_upcase d"

lemma base_char_ord: "d < 16 \<Longrightarrow> base_char d = char_of (if d \<le> 9 then 48 + d else 55 + d)"
proof -
  assume "d < 16"
  then have "d = 0 \<or> d = 1 \<or> d = 2 \<or> d = 3 \<or> d = 4 \<or> d = 5 \<or> d = 6 \<or> d = 7 \<or> d = 8 \<or> d = 9 \<or>
    d = 10 \<or> d = 11 \<or> d = 12 \<or> d = 13 \<or> d = 14 \<or> d = 15" by presburger
  then show ?thesis by (elim disjE) (simp_all add: base_char_def bb_hexdigits_upcase_def char_of_def bit_iff_odd)
qed

lemma base_char_simps:
  assumes "d < 16"
  shows "hex_char (base_char d)" "base_char d \<noteq> point" "base_char d = CHR ''0'' \<longleftrightarrow> d = 0" "digit_value (base_char d) = int d"
    "numeral_char (base_char d)"
  using assms by (auto simp: base_char_ord hex_char_def isdigit_ord digit_value_def numeral_char_def simp flip: ord_eq_iff)

lemma fold_printHex:
  "\<forall>d \<in> set ds. d < 16 \<Longrightarrow> fold (\<lambda>dig. bc_num_printHex dig 1 False) (map of_nat ds) st = emit (map base_char ds) st"
proof (induction ds arbitrary: st)
  case (Cons d ds)
  have "unat (of_nat d :: u64) = d" using Cons.prems by (intro unat_of_nat_small) auto
  then have "bc_num_printHex (of_nat d) 1 False st = add_chars 1 (bb_putchar (base_char d) (bc_num_printNewline st))"
    by (simp add: bc_num_printHex_def base_char_def)
  then show ?case using Cons by simp
qed simp

lemma base_text_val: "\<forall>d \<in> set ds. d < b \<Longrightarrow> b \<le> 16 \<Longrightarrow>
    text_val (int b) (int x) (map base_char ds) = int (foldl (\<lambda>x d. x * b + d) x ds)"
proof (induction ds arbitrary: x)
  case (Cons d ds)
  then have "clamped (int b) (base_char d) = int d" by (simp add: clamped_def base_char_simps)
  then have e: "int x * int b + clamped (int b) (base_char d) = int (x * b + d)" by simp
  have "text_val (int b) (int (x * b + d)) (map base_char ds) = int (foldl (\<lambda>x d. x * b + d) (x * b + d) ds)"
    by (rule Cons.IH) (use Cons.prems in auto)
  then show ?case unfolding list.map text_val.simps e by simp
qed simp

lemma to_base_value: "2 \<le> b \<Longrightarrow> foldl (\<lambda>x d. x * b + d) 0 (to_base b n) = n"
proof (induction b n rule: to_base.induct)
  case (1 b n)
  then show ?case by (cases "n = 0") (simp_all add: to_base_step)
qed

text \<open>What \<^verbatim>\<open>zxc_num_printNum\<close> writes for an integer.\<close>

lemma printNum_int:
  assumes n: "int_num n (int k)" "k \<noteq> 0" and b: "2 \<le> unat b" "unat b \<le> 16" and f: "4 * int (len n + 2) \<le> BC_MAX_NUM"
  shows "zxc_num_printNum n b 1 bc_num_printHex st = Inr (emit (map base_char (to_base (unat b) k)) st)"
proof -
  define base where "base = bc_num_ulong2num stack_num (ucast b)"
  have ub: "uint b = int (unat b)" by (rule uint_nat)
  have "2 \<le> uint b" "uint b \<le> 36" unfolding ub using b by linarith+
  then have base: "int_num base (int (unat b))" "len base \<le> 2"
    using ibase_num [of b] unfolding base_def ibase_def ub by blast+
  have l0: "len n \<noteq> 0" using int_num_0 [OF n(1)] n(2) by simp
  define intp where "intp = bc_num_truncate (bc_num_init_and_copy n) (rdx (bc_num_init_and_copy n))"
  note cp = copy_num [OF n(1), of "bc_num_init (len n)", folded bc_num_init_and_copy_def]
  have "intp = bc_num_init_and_copy n"
    unfolding intp_def using int_num_simps(2) [OF conjunct1 [OF cp]] by (simp add: bc_num_truncate_def)
  then have intp: "int_num intp (int k)" "len intp = len n" using cp by simp_all
  have fits: "fits n" "fits intp" using f intp(2) int_num_simps(2) [OF n(1)] int_num_simps(2) [OF intp(1)] by (simp_all add: fits_def BC_MAX_NUM_def)
  obtain fracp where fracp: "zbc_num_sub False n intp (bc_num_init (rdx n)) 0 = Inr fracp"
    using num_sub [OF int_num_simps(1) [OF n(1)] fits(1) int_num_simps(1) [OF intp(1)] fits(2)] by blast
  have rf: "rem_fits intp base 0" using f base(2) intp(2) by (simp add: rem_fits_def)
  have kl: "k < 2 ^ (4 * len intp)"
  proof (rule modexp_fuel)
    have "int k < int (10 ^ len intp)" using int_num_less [OF intp(1)] by simp
    then show "k < 10 ^ len intp" by (simp only: of_nat_less_iff)
  qed
  have "unat b \<le> 36" using b(2) by simp
  from int_digits_spec [OF intp(1) base(1) b(1) this rf kl, of "bc_num_init (unat (1::u64))" "[]"]
  obtain z where z: "int_digits (Suc (4 * len intp)) intp base (bc_num_init (unat (1::u64))) [] = Inr (z, map of_nat (to_base (unat b) k))"
    by auto
  have "\<forall>d \<in> set (to_base (unat b) k). d < 16" using to_base_less [OF b(1)] b(2) by (meson less_le_trans)
  note pr = fold_printHex [OF this, of st]
  show ?thesis
    unfolding zxc_num_printNum_def Let_def intp_def [symmetric] base_def [symmetric] fracp on_success_simps
    using l0 z pr int_num_simps(2) [OF n(1)] by (simp add: on_success_simps)
qed

subsection \<open>Reading it back\<close>

lemma base_text_number: "\<forall>d \<in> set ds. d < 16 \<Longrightarrow> number_chars pt (map base_char ds)"
  by (induction ds) (auto simp: base_char_simps)

lemma base_text_point: "\<forall>d \<in> set ds. d < 16 \<Longrightarrow> int_part (map base_char ds) = map base_char ds \<and> frac_part (map base_char ds) = []"
  by (induction ds) (auto simp: base_char_simps)

lemma base_text_strip:
  "\<forall>d \<in> set ds. d < 16 \<Longrightarrow> hd ds \<noteq> 0 \<Longrightarrow> dropWhile (\<lambda>c. c = CHR ''0'') (map base_char ds) = map base_char ds"
  by (cases ds) (auto simp: base_char_simps)

lemma base_text_read:
  assumes b: "2 \<le> unat b" "unat b \<le> 16" and k: "k \<noteq> 0" and l: "2 * int (length (to_base (unat b) k) + 2) + 2 \<le> BC_MAX_NUM"
  shows "\<exists>r. zxc_num_parse z (map base_char (to_base (unat b) k)) b = Inr r \<and> wf_num r \<and> bc_value r = of_int (int k)"
proof -
  define ds where "ds = to_base (unat b) k"
  have d16: "\<forall>d \<in> set ds. d < 16" and db: "\<forall>d \<in> set ds. d < unat b"
    using to_base_less [OF b(1)] b(2) unfolding ds_def by (meson less_le_trans)+
  have ne: "ds \<noteq> []" "hd ds \<noteq> 0" using to_base_Nil [OF b(1)] to_base_hd [OF b(1) k] k unfolding ds_def by metis+
  have ub: "uint b = int (unat b)" by (rule uint_nat)
  have "2 \<le> uint b" "uint b \<le> 36" unfolding ub using b by linarith+
  moreover have "2 * int (length (map base_char ds) + 2) + 2 \<le> BC_MAX_NUM" using l by (simp add: ds_def)
  moreover have "xc_num_strValid (map base_char ds)"
    using valid_number [OF base_text_number [OF d16, of False]] by (simp add: xc_num_strValid_def)
  ultimately obtain r where r: "zxc_num_parse z (map base_char ds) b = Inr r" "wf_num r"
    "bc_value r = (if length (map base_char ds) = 1 \<and> hd (map base_char ds) \<noteq> point then of_int (digit_value (hd (map base_char ds)))
       else point_value (uint b) (int_part (map base_char ds)) (frac_part (map base_char ds)))"
    using parse_spec [of b "map base_char ds" z, unfolded base_text_strip [OF d16 ne(2)]] by auto
  have v: "foldl (\<lambda>x d. x * unat b + d) 0 ds = k" unfolding ds_def by (rule to_base_value [OF b(1)])
  have "bc_value r = of_int (int k)"
  proof (cases "length ds = 1")
    case True
    then obtain d where d: "ds = [d]" by (cases ds) auto
    then show ?thesis using r(3) v d16 by (simp add: base_char_simps)
  next
    case False
    have "text_val (uint b) 0 (map base_char ds) = int k"
      using base_text_val [OF db b(2), of 0] v unfolding ub by simp
    then show ?thesis using r(3) False base_text_point [OF d16] by (simp add: point_value_def trunc_dec_def)
  qed
  then show ?thesis using r(1,2) unfolding ds_def by blast
qed

lemma base_text_last: "\<forall>d \<in> set ds. d < 16 \<Longrightarrow> map base_char ds \<noteq> [] \<Longrightarrow> List.last (map base_char ds) \<noteq> point"
  by (simp add: last_map base_char_simps)

lemma small_base:
  fixes b :: u32
  assumes "unat b \<le> 16"
  shows "ucast b \<le> (16 :: u64)" "ucast b = (10 :: u64) \<longleftrightarrow> b = 10" "ucast (ucast b :: u64) = b"
proof -
  have "unat (of_nat (unat b) :: u64) = unat b" using assms by (intro unat_of_nat_small) simp
  then have u: "unat (ucast b :: u64) = unat b" unfolding of_nat_unat .
  then show "ucast b \<le> (16 :: u64)" using assms by (simp add: word_le_nat_alt)
  show "ucast b = (10 :: u64) \<longleftrightarrow> b = 10" 
    unfolding word_eq_iff_unsigned [where 'a = nat] u by simp
  have "(ucast (ucast b :: u64) :: u32) = of_nat (unat (ucast b :: u64))" by (rule of_nat_unat [symmetric])
  then show "ucast (ucast b :: u64) = b" unfolding u by simp
qed

text \<open>C14: printing and reading integers in a base.  For every base from 2 to 16 zxc_num_print writes an integer without
  decimals, on a fresh line of at least four columns, as a minus sign if it is negative and the digits of its
  magnitude in that base, most significant first and none of them a leading zero, broken over lines; the loop
  that divides by the base ends, and the lexer and the parser with the same input base read the magnitude back.\<close>

theorem print_base_roundtrip:
  assumes n: "int_num n k" "k \<noteq> 0" and b: "2 \<le> unat b" "unat b \<le> 16" "b \<noteq> 10" and f: "8 * int (len n + 2) + 2 \<le> BC_MAX_NUM"
    and st: "nchars st = 0" "4 \<le> line_len st"
  shows "\<exists>st' c ws. zxc_num_print n True (ucast b) st = Inr st' \<and> nchars st' = 0 \<and>
    out st' = out st @ (if k < 0 then ''-'' else []) @ c # ws @ [newline] \<and>
    (\<forall>rest is_bc line z. \<exists>l r.
       zxc_lex_number is_bc c (ws @ newline # rest) line = (newline # rest, line + l, map base_char (to_base (unat b) (nat \<bar>k\<bar>))) \<and>
       zxc_num_parse z (map base_char (to_base (unat b) (nat \<bar>k\<bar>))) b = Inr r \<and> wf_num r \<and> bc_value r = of_int \<bar>k\<bar>)"
proof -
  define T where "T = map base_char (to_base (unat b) (nat \<bar>k\<bar>))"
  define st2 where "st2 = (if neg n then add_chars 1 (bb_putchar (CHR ''-'') st) else st)"
  have k0: "nat \<bar>k\<bar> \<noteq> 0" using n(2) by simp
  have d16: "\<forall>d \<in> set (to_base (unat b) (nat \<bar>k\<bar>)). d < 16" using to_base_less [OF b(1)] b(2) by (meson less_le_trans)
  have ng: "neg n \<longleftrightarrow> k < 0" using value_neg [OF int_num_simps(1) [OF n(1)]] int_num_simps(3) [OF n(1)] by simp
  have pos: "int_num (n\<lparr>neg := False\<rparr>) (int (nat \<bar>k\<bar>))"
    using wf_abs [OF int_num_simps(1) [OF n(1)]] int_num_dval [OF n(1)] int_num_simps(2) [OF n(1)] by (simp add: int_num_def bc_value_def)
  have f4: "4 * int (len (n\<lparr>neg := False\<rparr>) + 2) \<le> BC_MAX_NUM" using f by simp
  note fl = fresh_line [OF st]
  have u10: "ucast b \<noteq> (10 :: u64)" "ucast b \<le> (16 :: u64)" "ucast (ucast b :: u64) = b"
    using small_base [of b] b by auto
  have "zxc_num_print n True (ucast b) st = Inr ((bb_putchar newline (emit T st2))\<lparr>nchars := 0\<rparr>)"
    using printNum_int [OF pos k0 b(1,2) f4, of st2] int_num_0 [OF n(1)] n(2) u10 fl(1)
    by (simp add: zxc_num_print_def zxc_num_printBase_def Let_def on_success_simps T_def st2_def)
  moreover have "T \<noteq> []" using k0 to_base_Nil [OF b(1)] by (simp add: T_def)
  then obtain c cs where T: "T = c # cs" by (cases T) auto
  have chars: "number_chars (c = point) cs" "List.last (c # cs) \<noteq> point"
    using base_text_number [OF d16, of False, folded T_def] base_text_last [OF d16, folded T_def] unfolding T
    by (auto simp: hex_char_not split: if_splits)
  have "nchars st2 \<noteq> line_len st2 - 1" using fl st(1) by (auto simp: st2_def add_chars_def bb_putchar_def)
  from emit_first [OF this] obtain ws where ws: "out (emit T st2) = out st2 @ c # ws" "broken ws cs" unfolding T by blast
  moreover have "length (to_base (unat b) (nat \<bar>k\<bar>)) \<le> 4 * len n"
  proof (rule to_base_length [OF b(1)], rule modexp_fuel)
    have "int (nat \<bar>k\<bar>) < int (10 ^ len n)" using int_num_less [OF n(1)] by simp
    then show "nat \<bar>k\<bar> < 10 ^ len n" by (simp only: of_nat_less_iff)
  qed
  then have "2 * int (length (to_base (unat b) (nat \<bar>k\<bar>)) + 2) + 2 \<le> BC_MAX_NUM" using f by simp
  note rd = base_text_read [OF b(1,2) k0 this, folded T_def]
  have "\<exists>l r. zxc_lex_number is_bc c (ws @ newline # rest) line = (newline # rest, line + l, T) \<and>
      zxc_num_parse z T b = Inr r \<and> wf_num r \<and> bc_value r = of_int \<bar>k\<bar>" for rest is_bc line z
    using lex_number [OF ws(2) chars, of is_bc rest line] rd [of z] unfolding T [symmetric] by auto
  moreover have "out ((bb_putchar newline (emit T st2))\<lparr>nchars := 0\<rparr>) = out st @ (if k < 0 then ''-'' else []) @ c # ws @ [newline]"
    using ws(1) ng by (simp add: bb_putchar_def st2_def add_chars_def)
  ultimately show ?thesis unfolding T_def [symmetric]
    by (intro exI [of _ "(bb_putchar newline (emit T st2))\<lparr>nchars := 0\<rparr>"] exI [of _ c] exI [of _ ws]) auto
qed

text \<open>-255 in base 16 is read back as 255.\<close>

theorem print_base_roundtrip_witness:
  "\<exists>st' c ws r. zxc_num_print \<lparr>num = [5, 5, 2], neg = True, rdx = 0, cap = 16\<rparr> True 16 \<lparr>out = [], nchars = 0, line_len = 70\<rparr> = Inr st' \<and>
     out st' = CHR ''-'' # c # ws @ [newline] \<and> snd (snd (zxc_lex_number True c (ws @ [newline]) 1)) = ''FF'' \<and>
     zxc_num_parse (bc_num_init 0) ''FF'' 16 = Inr r \<and> bc_value r = 255"
proof -
  let ?n = "\<lparr>num = [5, 5, 2], neg = True, rdx = 0, cap = 16\<rparr>" and ?st = "\<lparr>out = [], nchars = 0, line_len = 70\<rparr>"
  have n: "int_num ?n (- 255)" by (simp add: int_num_def wf_num_def bc_value_def)
  have u: "unat (16 :: u32) = 16" "nat \<bar>- 255 :: int\<bar> = 255" by simp_all
  have "to_base 16 255 = [15, 15]" by (simp add: to_base.simps)
  then have t: "map base_char (to_base 16 255) = ''FF''" by (simp add: base_char_def bb_hexdigits_upcase_def)
  have h: "(- 255 :: int) \<noteq> 0" "2 \<le> unat (16 :: u32)" "unat (16 :: u32) \<le> 16" "(16 :: u32) \<noteq> 10"
    "8 * int (len ?n + 2) + 2 \<le> BC_MAX_NUM" "nchars ?st = 0" "4 \<le> line_len ?st" by (simp_all add: BC_MAX_NUM_def)
  from print_base_roundtrip [OF n h, unfolded u t] obtain st' c ws where
    p: "zxc_num_print ?n True (ucast (16 :: u32)) ?st = Inr st'" "out st' = out ?st @ (if (- 255 :: int) < 0 then ''-'' else []) @ c # ws @ [newline]"
    "\<And>rest is_bc line z. \<exists>l r. zxc_lex_number is_bc c (ws @ newline # rest) line = (newline # rest, line + l, ''FF'') \<and>
       zxc_num_parse z ''FF'' 16 = Inr r \<and> wf_num r \<and> bc_value r = of_int \<bar>- 255\<bar>" by blast
  from p(3) [of True "[]" 1 "bc_num_init 0"] obtain l r where
    "zxc_lex_number True c (ws @ [newline]) 1 = ([newline], 1 + l, ''FF'')" "zxc_num_parse (bc_num_init 0) ''FF'' 16 = Inr r" "bc_value r = 255" by auto
  then show ?thesis using p(1,2) by (intro exI [of _ st'] exI [of _ c] exI [of _ ws] exI [of _ r]) simp
qed

end
