(* ===== verification/Sh_Math.thy ===== *)
theory Sh_Math
  imports Libbb_Str "HOL-Library.Signed_Division"
begin

text \<open>
  The shell arithmetic evaluator, \<^verbatim>\<open>shell/math.c\<close>, with 64-bit \<^verbatim>\<open>arith_t\<close>
  (FEATURE_SH_MATH_64) and numbers in any base (FEATURE_SH_MATH_BASE).

  \<^item> \<open>arith_t\<close> is a 64-bit word read as two's complement; \<open>operator\<close> is a byte.
  \<^item> The two stacks of \<open>evaluate_string\<close> are arrays of the sizes the code hands to
    \<^verbatim>\<open>alloca\<close>, with an index for the stack pointer.  The initial contents of \<^verbatim>\<open>numstack\<close> are
    an argument (\<open>junk\<close>), since the memory is not initialised.
  \<^item> An access outside an array and a shift by a count outside 0..63 have no defined
    result in C: they are \<open>Undefined\<close> outcomes.
  \<^item> \<open>lookupvar\<close> and \<open>setvar\<close>, the function pointers the shell supplies, are a record of
    functions over an abstract variable store.
  \<^item> \<open>evaluate_string\<close> calls itself through \<open>arith_lookup_val\<close> on the text of a variable:
    its first argument bounds the depth of those calls.
  \<^item> A C label that is the target of a \<^verbatim>\<open>goto\<close> is a definition of its own.
\<close>

subsection \<open>Operators\<close>

type_synonym arith_t = u64
type_synonym operator = byte

definition tok_decl :: "byte \<Rightarrow> byte \<Rightarrow> operator" where
  "tok_decl prec uid = push_bit 5 uid OR prec"

definition PREC :: "operator \<Rightarrow> byte" where
  "PREC oper = oper AND 0x1f"

definition "TOK_LPAREN = tok_decl 0 0"
definition "TOK_RPAREN = tok_decl 1 1"
definition "TOK_COMMA = tok_decl 1 0"
definition "TOK_ASSIGN = tok_decl 2 0"
definition "TOK_AND_ASSIGN = tok_decl 2 1"
definition "TOK_OR_ASSIGN = tok_decl 2 2"
definition "TOK_XOR_ASSIGN = tok_decl 2 3"
definition "TOK_ADD_ASSIGN = tok_decl 2 4"
definition "TOK_SUB_ASSIGN = tok_decl 2 5"
definition "TOK_LSHIFT_ASSIGN = tok_decl 2 6"
definition "TOK_RSHIFT_ASSIGN = tok_decl 2 7"
definition "TOK_MUL_ASSIGN = tok_decl 3 0"
definition "TOK_DIV_ASSIGN = tok_decl 3 1"
definition "TOK_REM_ASSIGN = tok_decl 3 2"
definition "TOK_CONDITIONAL = tok_decl 4 0"
definition "TOK_CONDITIONAL_SEP = tok_decl 4 1"
definition "TOK_OR = tok_decl 5 0"
definition "TOK_AND = tok_decl 6 0"
definition "TOK_BOR = tok_decl 7 0"
definition "TOK_BXOR = tok_decl 8 0"
definition "TOK_BAND = tok_decl 9 0"
definition "TOK_EQ = tok_decl 10 0"
definition "TOK_NE = tok_decl 10 1"
definition "TOK_LT = tok_decl 11 0"
definition "TOK_GT = tok_decl 11 1"
definition "TOK_GE = tok_decl 11 2"
definition "TOK_LE = tok_decl 11 3"
definition "TOK_LSHIFT = tok_decl 12 0"
definition "TOK_RSHIFT = tok_decl 12 1"
definition "TOK_ADD = tok_decl 13 0"
definition "TOK_SUB = tok_decl 13 1"
definition "TOK_MUL = tok_decl 14 0"
definition "TOK_DIV = tok_decl 14 1"
definition "TOK_REM = tok_decl 14 2"
definition "TOK_EXPONENT = tok_decl 15 1"
definition "TOK_BNOT = tok_decl 16 0"
definition "TOK_NOT = tok_decl 16 1"
definition "TOK_UMINUS = tok_decl 17 0"
definition "TOK_PRE_INC = tok_decl 18 0"
definition "TOK_PRE_DEC = tok_decl 18 1"
definition "TOK_POST_INC = tok_decl 19 0"
definition "TOK_POST_DEC = tok_decl 19 1"
definition "TOK_VALUE = tok_decl 19 2"

lemmas tok_defs = TOK_LPAREN_def TOK_RPAREN_def TOK_COMMA_def TOK_ASSIGN_def TOK_AND_ASSIGN_def
  TOK_OR_ASSIGN_def TOK_XOR_ASSIGN_def TOK_ADD_ASSIGN_def TOK_SUB_ASSIGN_def TOK_LSHIFT_ASSIGN_def
  TOK_RSHIFT_ASSIGN_def TOK_MUL_ASSIGN_def TOK_DIV_ASSIGN_def TOK_REM_ASSIGN_def
  TOK_CONDITIONAL_def TOK_CONDITIONAL_SEP_def TOK_OR_def TOK_AND_def TOK_BOR_def TOK_BXOR_def
  TOK_BAND_def TOK_EQ_def TOK_NE_def TOK_LT_def TOK_GT_def TOK_GE_def TOK_LE_def TOK_LSHIFT_def
  TOK_RSHIFT_def TOK_ADD_def TOK_SUB_def TOK_MUL_def TOK_DIV_def TOK_REM_def TOK_EXPONENT_def
  TOK_BNOT_def TOK_NOT_def TOK_UMINUS_def TOK_PRE_INC_def TOK_PRE_DEC_def TOK_POST_INC_def
  TOK_POST_DEC_def TOK_VALUE_def tok_decl_def

definition fix_assignment_prec :: "byte \<Rightarrow> byte" where
  "fix_assignment_prec prec = (if prec = 3 then prec - 1 else prec)"

definition is_assign_op :: "operator \<Rightarrow> bool" where
  "is_assign_op oper \<longleftrightarrow> (let prec = PREC oper in prec = 2 \<or> prec = 3 \<or> prec = 18 \<or> prec = 19)"

definition is_right_associative :: "byte \<Rightarrow> bool" where
  "is_right_associative prec \<longleftrightarrow>
     prec = PREC TOK_ASSIGN \<or> prec = PREC TOK_EXPONENT \<or> prec = PREC TOK_CONDITIONAL"

subsection \<open>State\<close>

record var_or_num =
  cval :: arith_t
  var_name :: "cstr option"

datatype errmsg =
    ArithSyntaxError
  | MalformedTernary
  | ExponentLessThan0
  | DivideByZero
  | RecursionLoop

datatype ub = UB_numstack | UB_opstack_write | UB_opstack_read | UB_shift

record 'v hooks =
  lookupvar :: "'v \<Rightarrow> cstr \<Rightarrow> cstr option"
  setvar :: "cstr \<Rightarrow> cstr \<Rightarrow> 'v \<Rightarrow> 'v"

record 'v arith_state =
  evaluation_disabled :: u32
  errmsg :: "errmsg option"
  list_of_recursed_names :: "cstr list"
  vars :: 'v

definition isalnum_us :: "char \<Rightarrow> bool" where
  "isalnum_us c \<longleftrightarrow> isalnum c \<or> c = CHR ''_''"

text \<open>\<^verbatim>\<open>sprintf(buf, "%lld", rez)\<close>.\<close>

fun show_nat :: "nat \<Rightarrow> cstr" where
  "show_nat n = (if n < 10 then [char_of (48 + n)] else show_nat (n div 10) @ [char_of (48 + n mod 10)])"

declare show_nat.simps [simp del]

definition show_arith :: "arith_t \<Rightarrow> cstr" where
  "show_arith v = (if sint v < 0 then CHR ''-'' # show_nat (nat (- sint v)) else show_nat (nat (sint v)))"

subsection \<open>arith_apply\<close>

lemma even_word_half:
  fixes x :: arith_t
  assumes "x \<noteq> 0" and "x AND 1 = 0"
  shows "unat x = 2 * unat (drop_bit 1 x)" and "drop_bit 1 x \<noteq> 0"
proof -
  have "even x" using assms(2) by (simp add: and_one_eq mod_2_eq_odd)
  moreover have "bit (unat x) 0 \<longleftrightarrow> bit x 0" by (rule bit_unsigned_iff [of x 0, simplified])
  ultimately have "even (unat x)" by (simp add: bit_0)
  then show *: "unat x = 2 * unat (drop_bit 1 x)"
    by (simp add: drop_bit_eq_div unat_div)
  show "drop_bit 1 x \<noteq> 0"
  proof
    assume "drop_bit 1 x = 0"
    with * have "unat x = 0" by simp
    with assms(1) show False by (simp add: unat_eq_zero)
  qed
qed

function exponent_loop :: "arith_t \<Rightarrow> arith_t \<Rightarrow> arith_t \<Rightarrow> arith_t" where
  "exponent_loop rez c right_side_val =
     (if right_side_val \<noteq> 0 then
        (let (rez, right_side_val) =
           (if right_side_val AND 1 = 0 then (rez * rez, drop_bit 1 right_side_val)
            else (rez, right_side_val))
         in exponent_loop rez (c * rez) (right_side_val - 1))
      else c)"
  by pat_completeness auto

termination
proof (relation "measure (\<lambda>(rez, c, r). unat r)", goal_cases)
  case (2 rez c r x rez' r')
  show ?case
  proof (cases "r AND 1 = 0")
    case True
    with 2 have "r' = drop_bit 1 r" by simp
    with even_word_half [of r] True 2(1) have "unat r = 2 * unat r'" "r' \<noteq> 0" by simp_all
    moreover from this have "0 < unat r'" by (simp add: unat_gt_0)
    ultimately show ?thesis by (simp add: unat_pred)
  next
    case False
    with 2 have "r' = r" by simp
    with 2(1) show ?thesis by (simp add: unat_pred unat_gt_0)
  qed
qed simp

declare exponent_loop.simps [simp del]

definition c_div :: "arith_t \<Rightarrow> arith_t \<Rightarrow> arith_t" where
  "c_div a b = word_of_int (sint a sdiv sint b)"

definition c_mod :: "arith_t \<Rightarrow> arith_t \<Rightarrow> arith_t" where
  "c_mod a b = word_of_int (sint a smod sint b)"

text \<open>The chain of binary operators; the last \<^verbatim>\<open>else\<close> is division and remainder.\<close>

definition arith_binop :: "operator \<Rightarrow> arith_t \<Rightarrow> arith_t \<Rightarrow> ub + (errmsg + arith_t)" where
  "arith_binop oper rez right_side_val =
    (if oper = TOK_BOR \<or> oper = TOK_OR_ASSIGN then Inr (Inr (rez OR right_side_val))
     else if oper = TOK_OR then Inr (Inr (of_bool (right_side_val \<noteq> 0 \<or> rez \<noteq> 0)))
     else if oper = TOK_BAND \<or> oper = TOK_AND_ASSIGN then Inr (Inr (rez AND right_side_val))
     else if oper = TOK_BXOR \<or> oper = TOK_XOR_ASSIGN then Inr (Inr (rez XOR right_side_val))
     else if oper = TOK_AND then Inr (Inr (of_bool (rez \<noteq> 0 \<and> right_side_val \<noteq> 0)))
     else if oper = TOK_EQ then Inr (Inr (of_bool (rez = right_side_val)))
     else if oper = TOK_NE then Inr (Inr (of_bool (rez \<noteq> right_side_val)))
     else if oper = TOK_GE then Inr (Inr (of_bool (sint rez \<ge> sint right_side_val)))
     else if oper = TOK_RSHIFT \<or> oper = TOK_RSHIFT_ASSIGN then
       (if right_side_val < 64 then Inr (Inr (signed_drop_bit (unat right_side_val) rez))
        else Inl UB_shift)
     else if oper = TOK_LSHIFT \<or> oper = TOK_LSHIFT_ASSIGN then
       (if right_side_val < 64 then Inr (Inr (push_bit (unat right_side_val) rez))
        else Inl UB_shift)
     else if oper = TOK_GT then Inr (Inr (of_bool (sint rez > sint right_side_val)))
     else if oper = TOK_LT then Inr (Inr (of_bool (sint rez < sint right_side_val)))
     else if oper = TOK_LE then Inr (Inr (of_bool (sint rez \<le> sint right_side_val)))
     else if oper = TOK_MUL \<or> oper = TOK_MUL_ASSIGN then Inr (Inr (rez * right_side_val))
     else if oper = TOK_ADD \<or> oper = TOK_ADD_ASSIGN then Inr (Inr (rez + right_side_val))
     else if oper = TOK_SUB \<or> oper = TOK_SUB_ASSIGN then Inr (Inr (rez - right_side_val))
     else if oper = TOK_ASSIGN \<or> oper = TOK_COMMA then Inr (Inr right_side_val)
     else if oper = TOK_EXPONENT then
       (if sint right_side_val < 0 then Inr (Inl ExponentLessThan0)
        else Inr (Inr (exponent_loop rez 1 right_side_val)))
     else if right_side_val = 0 then Inr (Inl DivideByZero)
     else
       (let right_side_val = (if right_side_val = - 1 \<and> push_bit 1 rez = 0 then 1 else right_side_val)
        in if oper AND push_bit 5 1 \<noteq> 0 then Inr (Inr (c_div rez right_side_val))
           else Inr (Inr (c_mod rez right_side_val))))"

definition is_unary_op :: "operator \<Rightarrow> bool" where
  "is_unary_op oper \<longleftrightarrow>
     oper = TOK_UMINUS \<or> oper = TOK_NOT \<or> oper = TOK_BNOT \<or> oper = TOK_POST_INC \<or>
     oper = TOK_PRE_INC \<or> oper = TOK_POST_DEC \<or> oper = TOK_PRE_DEC"

definition arith_unop :: "operator \<Rightarrow> arith_t \<Rightarrow> arith_t" where
  "arith_unop oper rez =
    (if oper = TOK_UMINUS then - rez
     else if oper = TOK_NOT then of_bool (rez = 0)
     else if oper = TOK_BNOT then NOT rez
     else if oper = TOK_POST_INC \<or> oper = TOK_PRE_INC then rez + 1
     else rez - 1)"

text \<open>
  The result of \<open>arith_apply\<close>: the error message if any, \<^verbatim>\<open>numstack\<close>, \<^verbatim>\<open>*numstackptr\<close> as an
  index, and the state.
\<close>

type_synonym 'v applied = "ub + (errmsg option \<times> var_or_num list \<times> nat \<times> 'v arith_state)"

definition name_at :: "cstr \<Rightarrow> cstr" where
  "name_at p = take (length p - length (endofname p)) p"

definition arith_store ::
  "'v hooks \<Rightarrow> 'v arith_state \<Rightarrow> operator \<Rightarrow> var_or_num list \<Rightarrow> nat \<Rightarrow> nat \<Rightarrow> arith_t \<Rightarrow> 'v applied"
where
  "arith_store h ms oper numstack np tos rez =
    (if evaluation_disabled ms \<noteq> 0 then Inr (None, numstack, np, ms)
     else if is_assign_op oper then
       (case var_name (numstack ! tos) of
          None \<Rightarrow> Inr (Some ArithSyntaxError, numstack, np, ms)
        | Some p \<Rightarrow>
            (let ms' = ms\<lparr>vars := setvar h (name_at p) (show_arith rez) (vars ms)\<rparr>
             in if PREC oper = 19
                then Inr (None, numstack[tos := (numstack ! tos)\<lparr>var_name := None\<rparr>], np, ms')
                else Inr (None, numstack[tos := \<lparr>cval = rez, var_name = None\<rparr>], np, ms')))
     else Inr (None, numstack[tos := \<lparr>cval = rez, var_name = None\<rparr>], np, ms))"

definition arith_apply ::
  "'v hooks \<Rightarrow> 'v arith_state \<Rightarrow> operator \<Rightarrow> var_or_num list \<Rightarrow> nat \<Rightarrow> 'v applied"
where
  "arith_apply h ms oper numstack np =
    (if np = 0 then Inr (Some ArithSyntaxError, numstack, np, ms)
     else let tos = np - 1 in
     if oper = TOK_CONDITIONAL_SEP then
       (if tos < 2 then Inr (Some MalformedTernary, numstack, tos - 1, ms)
        else let expr1 = tos - 2;
                 sel = (if cval (numstack ! expr1) \<noteq> 0 then tos - 1 else tos);
                 rez = cval (numstack ! sel)
             in Inr (None, numstack[expr1 := \<lparr>cval = rez, var_name = None\<rparr>], expr1 + 1, ms))
     else if oper = TOK_CONDITIONAL then Inr (Some MalformedTernary, numstack, np, ms)
     else let rez = cval (numstack ! tos) in
     if is_unary_op oper then arith_store h ms oper numstack np tos (arith_unop oper rez)
     else if tos = 0 then Inr (Some ArithSyntaxError, numstack, np, ms)
     else if evaluation_disabled ms \<noteq> 0 then Inr (None, numstack, tos, ms)
     else case arith_binop oper (cval (numstack ! (tos - 1))) rez of
            Inl u \<Rightarrow> Inl u
          | Inr (Inl e) \<Rightarrow> Inr (Some e, numstack, tos, ms)
          | Inr (Inr rez') \<Rightarrow> arith_store h ms oper numstack tos (tos - 1) rez')"

subsection \<open>Numbers and the operator table\<close>

definition op_tokens :: "(cstr \<times> operator) list" where
  "op_tokens =
    [(''<<='', TOK_LSHIFT_ASSIGN), (''>>='', TOK_RSHIFT_ASSIGN), (''<<'', TOK_LSHIFT),
     (''>>'', TOK_RSHIFT), (''||'', TOK_OR), (''&&'', TOK_AND), (''!='', TOK_NE), (''<='', TOK_LE),
     (''>='', TOK_GE), (''=='', TOK_EQ), (''|='', TOK_OR_ASSIGN), (''&='', TOK_AND_ASSIGN),
     (''*='', TOK_MUL_ASSIGN), (''/='', TOK_DIV_ASSIGN), (''%='', TOK_REM_ASSIGN),
     (''+='', TOK_ADD_ASSIGN), (''-='', TOK_SUB_ASSIGN), (''--'', TOK_POST_DEC),
     (''^='', TOK_XOR_ASSIGN), (''++'', TOK_POST_INC), (''**'', TOK_EXPONENT), (''!'', TOK_NOT),
     (''<'', TOK_LT), (''>'', TOK_GT), (''='', TOK_ASSIGN), (''|'', TOK_BOR), (''&'', TOK_BAND),
     (''*'', TOK_MUL), (''/'', TOK_DIV), (''%'', TOK_REM), (''+'', TOK_ADD), (''-'', TOK_SUB),
     (''^'', TOK_BXOR), (''~'', TOK_BNOT), ('','', TOK_COMMA), (''?'', TOK_CONDITIONAL),
     ('':'', TOK_CONDITIONAL_SEP), ('')'', TOK_RPAREN), (''('', TOK_LPAREN)]"

text \<open>One character of a number: \<open>None\<close> is one of the \<^verbatim>\<open>break\<close>s.\<close>

definition parse_digit :: "u32 \<Rightarrow> char \<Rightarrow> u32 option" where
  "parse_digit base c =
    (let digit = ucast (uchar c) - 48 :: u32;
         digit' =
           (if digit \<ge> 10 \<and> digit \<le> 122 - 48 then
              (let d = ucast (uchar c OR 0x20) - (97 - 10) :: u32;
                   d' = (if base > 36 \<and> ord c \<le> 95 then
                           (if c = CHR ''_'' then Some 63
                            else if c = CHR ''@'' then Some 62
                            else if d < 36 then Some (d + (36 - 10))
                            else None)
                         else Some d)
               in Option.bind d' (\<lambda>d. if d < 10 then None else Some d))
            else Some digit)
     in Option.bind digit' (\<lambda>d. if d \<ge> base then None else Some d))"

fun parse_with_base_loop :: "u32 \<Rightarrow> arith_t \<Rightarrow> cstr \<Rightarrow> arith_t \<times> cstr" where
  "parse_with_base_loop base n [] = (n, [])"
| "parse_with_base_loop base n (c # s) =
     (case parse_digit base c of
        None \<Rightarrow> (n, c # s)
      | Some d \<Rightarrow> parse_with_base_loop base (n * ucast base + ucast d) s)"

definition parse_with_base :: "cstr \<Rightarrow> u32 \<Rightarrow> arith_t \<times> cstr option" where
  "parse_with_base nptr base =
     (let (n, r) = parse_with_base_loop base 0 nptr
      in (n, if r = nptr then None else Some r))"

definition strto_arith_t :: "cstr \<Rightarrow> arith_t \<times> cstr option" where
  "strto_arith_t nptr =
    (let base = ucast (uchar (deref nptr)) - 48 :: u32 in
     if base = 0 then
       (if uchar (char_at nptr 1) OR 0x20 = uchar (CHR ''x'') then parse_with_base (drop 2 nptr) 16
        else parse_with_base nptr 8)
     else if char_at nptr 1 = CHR ''#'' \<and> base > 1 then parse_with_base (drop 2 nptr) base
     else if isdigit (char_at nptr 1) \<and> char_at nptr 2 = CHR ''#''
             \<and> 10 * base + (ucast (uchar (char_at nptr 1)) - 48) \<le> 64
       then parse_with_base (drop 3 nptr) (10 * base + (ucast (uchar (char_at nptr 1)) - 48))
     else parse_with_base nptr 10)"

subsection \<open>evaluate_string: applying pending operators\<close>

record 'v frame =
  expr :: cstr
  at_END_POINTER :: bool
  numstack :: "var_or_num list"
  nsp :: nat
  opstack :: "operator list"
  osp :: nat
  lasttok :: operator
  insert_op :: operator
  ternary_level :: u32
  mstate :: "'v arith_state"

datatype 'v result =
    Return arith_t "'v arith_state"
  | Undefined ub
  | TooDeep

datatype 'v outc =
    Continue "'v frame"
  | Done "'v result"

definition err_with_custom_msg :: "'v frame \<Rightarrow> errmsg \<Rightarrow> 'v result" where
  "err_with_custom_msg f e = Return (- 1) ((mstate f)\<lparr>errmsg := Some e\<rparr>)"

text \<open>How the loop that applies pending operators is left.\<close>

datatype 'v reduced =
    ToNext "'v frame"
  | ToCheckCond "'v frame"
  | StackEmpty "'v frame"
  | Stop "'v result"

definition keeps_pending :: "operator \<Rightarrow> operator \<Rightarrow> bool" where
  "keeps_pending oper prev_op \<longleftrightarrow>
     (let prec = fix_assignment_prec (PREC oper); prev_prec = fix_assignment_prec (PREC prev_op)
      in prev_prec < prec \<or> (prev_prec = prec \<and> is_right_associative prec))"

definition close_ternary :: "'v frame \<Rightarrow> 'v frame" where
  "close_ternary f =
     f\<lparr>mstate := (if ternary_level f = evaluation_disabled (mstate f)
                   then (mstate f)\<lparr>evaluation_disabled := 0\<rparr> else mstate f),
       ternary_level := ternary_level f - 1\<rparr>"

text \<open>One turn of the loop: \<open>Inl\<close> leaves it, \<open>Inr\<close> goes round again.\<close>

definition after_apply :: "operator \<Rightarrow> 'v frame \<Rightarrow> 'v reduced + 'v frame" where
  "after_apply prev_op f =
    (if prev_op = TOK_CONDITIONAL_SEP then
       (if osp f = 0 then Inl (Stop (Undefined UB_opstack_read))
        else let f' = f\<lparr>osp := osp f - 1\<rparr> in
          if opstack f' ! osp f' \<noteq> TOK_CONDITIONAL
          then Inl (Stop (err_with_custom_msg f' MalformedTernary))
          else Inr (close_ternary f'))
     else Inr f)"

definition pending_step :: "'v hooks \<Rightarrow> operator \<Rightarrow> 'v frame \<Rightarrow> 'v reduced + 'v frame" where
  "pending_step h oper f =
    (if osp f = 0 then Inl (StackEmpty f)
     else
       let prev_op = opstack f ! (osp f - 1); f1 = f\<lparr>osp := osp f - 1\<rparr> in
       if oper = TOK_RPAREN \<and> prev_op = TOK_LPAREN then
         (if nsp f = 0 then Inl (Stop (Undefined UB_numstack))
          else Inl (ToNext (f1\<lparr>numstack := (numstack f)[nsp f - 1 := (numstack f ! (nsp f - 1))\<lparr>var_name := None\<rparr>],
                           lasttok := TOK_VALUE\<rparr>)))
       else if oper \<noteq> TOK_RPAREN \<and> keeps_pending oper prev_op then Inl (ToCheckCond f)
       else case arith_apply h (mstate f) prev_op (numstack f) (nsp f) of
         Inl u \<Rightarrow> Inl (Stop (Undefined u))
       | Inr (err, ns, np, ms) \<Rightarrow>
           (let f2 = f1\<lparr>numstack := ns, nsp := np, mstate := ms\<rparr> in
            case err of
              Some e \<Rightarrow> Inl (Stop (err_with_custom_msg f2 e))
            | None \<Rightarrow> after_apply prev_op f2))"

lemma after_apply_osp: "after_apply prev_op f = Inr f' \<Longrightarrow> osp f' \<le> osp f"
  by (auto simp: after_apply_def close_ternary_def Let_def split: if_splits)

lemma pending_step_osp: "pending_step h oper f = Inr f' \<Longrightarrow> osp f' < osp f"
  by (auto simp: pending_step_def Let_def dest!: after_apply_osp
      split: if_splits sum.splits prod.splits option.splits)

function apply_pending :: "'v hooks \<Rightarrow> operator \<Rightarrow> 'v frame \<Rightarrow> 'v reduced" where
  "apply_pending h oper f =
    (case pending_step h oper f of Inl r \<Rightarrow> r | Inr f' \<Rightarrow> apply_pending h oper f')"
  by pat_completeness auto
termination
  by (relation "measure (\<lambda>(h, oper, f). osp f)") (auto simp: pending_step_osp)

declare apply_pending.simps [simp del]

subsection \<open>evaluate_string: one token\<close>

datatype 'v tokres =
    AtNext "'v frame"
  | AtContinue "'v frame"
  | AtStop "'v result"

definition push_op :: "operator \<Rightarrow> 'v frame \<Rightarrow> 'v tokres" where
  "push_op oper f =
    (if osp f < length (opstack f)
     then AtNext (f\<lparr>opstack := (opstack f)[osp f := oper], osp := osp f + 1, lasttok := oper\<rparr>)
     else AtStop (Undefined UB_opstack_write))"

definition check_cond :: "operator \<Rightarrow> 'v frame \<Rightarrow> 'v tokres" where
  "check_cond oper f =
    (if oper = TOK_CONDITIONAL then
       (if nsp f = 0 then AtStop (Undefined UB_numstack)
        else let f1 = f\<lparr>ternary_level := ternary_level f + 1\<rparr>
             in if cval (numstack f1 ! (nsp f1 - 1)) = 0 \<and> evaluation_disabled (mstate f1) = 0
                then push_op oper
                       (f1\<lparr>mstate := (mstate f1)\<lparr>evaluation_disabled := ternary_level f1\<rparr>\<rparr>)
                else push_op oper f1)
     else push_op oper f)"

definition unary_form :: "operator \<Rightarrow> operator" where
  "unary_form oper =
    (if oper = TOK_SUB then TOK_UMINUS
     else if oper = TOK_POST_INC then TOK_PRE_INC
     else if oper = TOK_POST_DEC then TOK_PRE_DEC
     else oper)"

definition tok_found1_once :: "'v hooks \<Rightarrow> operator \<Rightarrow> 'v frame \<Rightarrow> 'v tokres" where
  "tok_found1_once h oper0 f0 =
    (let f = (if PREC (lasttok f0) = 19 then f0\<lparr>lasttok := TOK_VALUE\<rparr> else f0) in
     if lasttok f \<noteq> TOK_VALUE \<and> oper0 = TOK_ADD then AtContinue f
     else let oper = (if lasttok f \<noteq> TOK_VALUE then unary_form oper0 else oper0); prec = PREC oper in
     if prec \<noteq> 0 \<and> prec < 16 then
       (if lasttok f \<noteq> TOK_VALUE then AtStop (err_with_custom_msg f ArithSyntaxError)
        else case apply_pending h oper f of
          ToNext f' \<Rightarrow> AtNext f'
        | ToCheckCond f' \<Rightarrow> check_cond oper f'
        | StackEmpty f' \<Rightarrow>
            (if oper = TOK_RPAREN then AtStop (err_with_custom_msg f' ArithSyntaxError)
             else check_cond oper f')
        | Stop r \<Rightarrow> AtStop r)
     else push_op oper f)"

definition toggle_disabled :: "'v frame \<Rightarrow> 'v frame" where
  "toggle_disabled f =
    (if evaluation_disabled (mstate f) = 0
     then f\<lparr>mstate := (mstate f)\<lparr>evaluation_disabled := ternary_level f\<rparr>\<rparr>
     else if ternary_level f = evaluation_disabled (mstate f)
     then f\<lparr>mstate := (mstate f)\<lparr>evaluation_disabled := 0\<rparr>\<rparr>
     else f)"

definition tok_found1 :: "'v hooks \<Rightarrow> operator \<Rightarrow> 'v frame \<Rightarrow> 'v outc" where
  "tok_found1 h oper f =
    (case tok_found1_once h oper f of
       AtContinue f' \<Rightarrow> Continue f'
     | AtStop r \<Rightarrow> Done r
     | AtNext f' \<Rightarrow>
         if insert_op f' \<noteq> 0xff then
           (let oper' = insert_op f'; f1 = f'\<lparr>insert_op := 0xff\<rparr>;
                f2 = (if oper' = TOK_CONDITIONAL_SEP then toggle_disabled f1 else f1)
            in case tok_found1_once h oper' f2 of
                 AtContinue f'' \<Rightarrow> Continue f''
               | AtNext f'' \<Rightarrow> Continue f''
               | AtStop r \<Rightarrow> Done r)
         else Continue f')"

definition tok_found :: "'v hooks \<Rightarrow> operator \<Rightarrow> 'v frame \<Rightarrow> 'v outc" where
  "tok_found h oper f =
    (if oper = TOK_CONDITIONAL then tok_found1 h oper (f\<lparr>insert_op := TOK_LPAREN\<rparr>)
     else if oper = TOK_CONDITIONAL_SEP then tok_found1 h TOK_RPAREN (f\<lparr>insert_op := oper\<rparr>)
     else tok_found1 h oper f)"

fun find_op :: "(cstr \<times> operator) list \<Rightarrow> cstr \<Rightarrow> (operator \<times> cstr) option" where
  "find_op [] e = None"
| "find_op ((t, oper) # ts) e =
     (case is_prefixed_with e t of Some e' \<Rightarrow> Some (oper, e') | None \<Rightarrow> find_op ts e)"

definition eval_operator :: "'v hooks \<Rightarrow> 'v frame \<Rightarrow> 'v outc" where
  "eval_operator h f =
    (let e = expr f; c0 = deref e in
     if (c0 = CHR ''+'' \<or> c0 = CHR ''-'') \<and> char_at e 1 = c0
        \<and> (nsp f = 0 \<or> var_name (numstack f ! (nsp f - 1)) = None)
        \<and> \<not> (let nxt = deref (skip_whitespace (drop 2 e)) in isalpha nxt \<or> nxt = CHR ''_'')
     then tok_found1 h (if c0 = CHR ''+'' then TOK_ADD else TOK_SUB) (f\<lparr>expr := tl e\<rparr>)
     else case find_op op_tokens e of
            None \<Rightarrow> Done (err_with_custom_msg f ArithSyntaxError)
          | Some (oper, e') \<Rightarrow> tok_found h oper (f\<lparr>expr := e'\<rparr>))"

subsection \<open>evaluate_string: names and numbers\<close>

definition push_value :: "'v frame \<Rightarrow> var_or_num \<Rightarrow> 'v outc" where
  "push_value f v =
    (if nsp f < length (numstack f)
     then Continue (f\<lparr>numstack := (numstack f)[nsp f := v], nsp := nsp f + 1, lasttok := TOK_VALUE\<rparr>)
     else Done (Undefined UB_numstack))"

definition already_seen :: "cstr list \<Rightarrow> cstr \<Rightarrow> nat \<Rightarrow> bool" where
  "already_seen names name len \<longleftrightarrow>
     list_ex (\<lambda>cur. take len cur = take len name \<and> \<not> isalnum_us (char_at cur len)) names"

type_synonym 'v evaluator = "'v arith_state \<Rightarrow> cstr \<Rightarrow> 'v result"

definition arith_lookup_val ::
  "'v evaluator \<Rightarrow> 'v hooks \<Rightarrow> 'v arith_state \<Rightarrow> cstr \<Rightarrow> nat \<Rightarrow> 'v result"
where
  "arith_lookup_val ev h ms name len =
    (case lookupvar h (vars ms) (take len name) of
       None \<Rightarrow> Return 0 ms
     | Some p \<Rightarrow>
         if already_seen (list_of_recursed_names ms) name len
         then Return (- 1) (ms\<lparr>errmsg := Some RecursionLoop\<rparr>)
         else case ev (ms\<lparr>list_of_recursed_names := name # list_of_recursed_names ms\<rparr>) p of
                Return v ms' \<Rightarrow>
                  Return v (ms'\<lparr>list_of_recursed_names := list_of_recursed_names ms\<rparr>)
              | r \<Rightarrow> r)"

definition eval_name :: "'v evaluator \<Rightarrow> 'v hooks \<Rightarrow> 'v frame \<Rightarrow> cstr \<Rightarrow> 'v outc" where
  "eval_name ev h f p =
    (if nsp f \<ge> length (numstack f) then Done (Undefined UB_numstack)
     else if evaluation_disabled (mstate f) = 0 then
       (let name = expr f; e = skip_whitespace p;
            f1 = f\<lparr>expr := e\<rparr>; stale = cval (numstack f ! nsp f)
        in if deref e \<noteq> CHR ''='' \<or> char_at e 1 = CHR ''='' then
             (case arith_lookup_val ev h (mstate f) name (length name - length p) of
                Return v ms \<Rightarrow>
                  (if errmsg ms \<noteq> None then Done (Return v ms)
                   else push_value (f1\<lparr>mstate := ms\<rparr>) \<lparr>cval = v, var_name = Some name\<rparr>)
              | r \<Rightarrow> Done r)
           else push_value f1 \<lparr>cval = stale, var_name = Some name\<rparr>)
     else push_value (f\<lparr>expr := p\<rparr>) \<lparr>cval = 0, var_name = None\<rparr>)"

definition eval_number :: "'v frame \<Rightarrow> 'v outc" where
  "eval_number f =
    (if nsp f \<ge> length (numstack f) then Done (Undefined UB_numstack)
     else case strto_arith_t (expr f) of
       (v, None) \<Rightarrow> Done (err_with_custom_msg f ArithSyntaxError)
     | (v, Some e) \<Rightarrow>
         if isalnum (deref e) \<or> deref e = CHR ''_'' then Done (err_with_custom_msg f ArithSyntaxError)
         else push_value (f\<lparr>expr := e\<rparr>) \<lparr>cval = v, var_name = None\<rparr>)"

subsection \<open>evaluate_string: the main loop\<close>

definition eval_step :: "'v evaluator \<Rightarrow> 'v hooks \<Rightarrow> cstr \<Rightarrow> 'v frame \<Rightarrow> 'v outc" where
  "eval_step ev h start_expr f0 =
    (let f = f0\<lparr>expr := skip_whitespace (expr f0)\<rparr>; e = expr f in
     if e = [] then
       (if start_expr = [] \<and> \<not> at_END_POINTER f then Done (Return 0 (mstate f))
        else if \<not> at_END_POINTER f then tok_found1 h TOK_RPAREN (f\<lparr>at_END_POINTER := True\<rparr>)
        else if nsp f \<noteq> 1 then Done (err_with_custom_msg f ArithSyntaxError)
        else Done (Return (cval (numstack f ! 0)) (mstate f)))
     else let p = endofname e in
       if p \<noteq> e then eval_name ev h f p
       else if isdigit (deref e) then eval_number f
       else eval_operator h f)"

definition frame_measure :: "'v frame \<Rightarrow> nat" where
  "frame_measure f = 2 * length (expr f) + (if at_END_POINTER f then 0 else 1)"

subsubsection \<open>What one token does to a frame\<close>

lemma apply_pending_rule:
  assumes "P f"
    and "\<And>f f'. P f \<Longrightarrow> pending_step h oper f = Inr f' \<Longrightarrow> P f'"
    and "\<And>f r. P f \<Longrightarrow> pending_step h oper f = Inl r \<Longrightarrow> Q r"
  shows "Q (apply_pending h oper f)"
  using assms(1)
proof (induction "osp f" arbitrary: f rule: less_induct)
  case less
  show ?case
  proof (cases "pending_step h oper f")
    case (Inl r)
    with less.prems show ?thesis by (subst apply_pending.simps) (simp add: assms(3))
  next
    case (Inr f')
    with less assms(2) pending_step_osp have "Q (apply_pending h oper f')" by blast
    with Inr show ?thesis by (subst apply_pending.simps) simp
  qed
qed

text \<open>
  \<open>shrinks f f'\<close>: \<open>f'\<close> reads the same text as \<open>f\<close>, has the same arrays' sizes and no more
  on either stack, and its number stack is not emptied.
\<close>

definition shrinks :: "'v frame \<Rightarrow> 'v frame \<Rightarrow> bool" where
  "shrinks f f' \<longleftrightarrow>
     expr f' = expr f \<and> at_END_POINTER f' = at_END_POINTER f \<and> insert_op f' = insert_op f \<and>
     length (numstack f') = length (numstack f) \<and> opstack f' = opstack f \<and>
     nsp f' \<le> nsp f \<and> (0 < nsp f \<longrightarrow> 0 < nsp f') \<and> osp f' \<le> osp f"

lemma shrinks_refl [simp]: "shrinks f f"
  by (simp add: shrinks_def)

lemma shrinks_trans: "shrinks f g \<Longrightarrow> shrinks g k \<Longrightarrow> shrinks f k"
  by (auto simp: shrinks_def)

lemma arith_store_shape:
  "arith_store h ms oper ns np tos rez = Inr (None, ns', np', ms') \<Longrightarrow>
   length ns' = length ns \<and> np' = np"
  by (auto simp: arith_store_def Let_def split: if_splits option.splits)

lemma arith_apply_shape:
  "arith_apply h ms oper ns np = Inr (None, ns', np', ms') \<Longrightarrow>
   length ns' = length ns \<and> np' \<le> np \<and> 0 < np'"
  by (auto simp: arith_apply_def Let_def dest!: arith_store_shape
      split: if_splits sum.splits)

lemma arith_store_defined: "arith_store h ms oper ns np tos rez \<noteq> Inl u"
  by (auto simp: arith_store_def Let_def split: option.splits)

lemma arith_binop_undefined: "arith_binop oper a b = Inl u \<Longrightarrow> u = UB_shift"
  by (auto simp: arith_binop_def Let_def split: if_splits)

lemma arith_apply_undefined: "arith_apply h ms oper ns np = Inl u \<Longrightarrow> u = UB_shift"
  by (auto simp: arith_apply_def Let_def arith_store_defined dest!: arith_binop_undefined
      split: if_splits sum.splits)

lemma after_apply_shape:
  "after_apply prev_op f = Inr f' \<Longrightarrow> shrinks f f' \<and> lasttok f' = lasttok f"
  by (auto simp: after_apply_def shrinks_def close_ternary_def Let_def split: if_splits)

lemma after_apply_exit:
  "after_apply prev_op f = Inl r \<Longrightarrow>
   r = Stop (Undefined UB_opstack_read) \<or> (\<exists>v ms. r = Stop (Return v ms))"
  by (auto simp: after_apply_def err_with_custom_msg_def Let_def split: if_splits)

lemma pending_step_shape:
  assumes "pending_step h oper f = Inr f'"
  shows "shrinks f f' \<and> lasttok f' = lasttok f"
proof -
  obtain ns np ms where ap: "arith_apply h (mstate f) (opstack f ! (osp f - 1)) (numstack f) (nsp f)
      = Inr (None, ns, np, ms)"
    and f': "after_apply (opstack f ! (osp f - 1))
      (f\<lparr>osp := osp f - 1, numstack := ns, nsp := np, mstate := ms\<rparr>) = Inr f'"
    using assms
    by (auto simp: pending_step_def Let_def split: if_splits sum.splits option.splits)
  from arith_apply_shape [OF ap]
  have "shrinks f (f\<lparr>osp := osp f - 1, numstack := ns, nsp := np, mstate := ms\<rparr>)"
    by (simp add: shrinks_def)
  with after_apply_shape [OF f'] show ?thesis by (auto intro: shrinks_trans)
qed

definition reduced_ok :: "'v frame \<Rightarrow> 'v reduced \<Rightarrow> bool" where
  "reduced_ok f r \<longleftrightarrow>
    (case r of
       ToNext f' \<Rightarrow> shrinks f f' \<and> osp f' < osp f \<and> lasttok f' = TOK_VALUE
     | ToCheckCond f' \<Rightarrow> shrinks f f' \<and> lasttok f' = lasttok f
     | StackEmpty f' \<Rightarrow> shrinks f f' \<and> lasttok f' = lasttok f
     | Stop (Undefined u) \<Rightarrow> u = UB_shift \<or> u = UB_opstack_read
     | Stop (Return v ms) \<Rightarrow> True
     | Stop TooDeep \<Rightarrow> False)"

lemma pending_step_exit:
  assumes "pending_step h oper f = Inl r" and "0 < nsp f"
  shows "reduced_ok f r"
  using assms
  by (auto simp: pending_step_def reduced_ok_def shrinks_def Let_def err_with_custom_msg_def
      dest!: after_apply_exit arith_apply_undefined
      split: if_splits sum.splits option.splits)

lemma reduced_ok_mono:
  assumes "shrinks f g" and "lasttok g = lasttok f" and "reduced_ok g r"
  shows "reduced_ok f r"
proof (cases r)
  case (Stop x)
  with assms(3) show ?thesis by (auto simp: reduced_ok_def)
qed (use assms in \<open>auto simp: reduced_ok_def shrinks_def\<close>)

lemma apply_pending_ok:
  assumes "0 < nsp f"
  shows "reduced_ok f (apply_pending h oper f)"
proof (rule apply_pending_rule [where P = "\<lambda>g. shrinks f g \<and> lasttok g = lasttok f"])
  show "shrinks f g' \<and> lasttok g' = lasttok f"
    if "shrinks f g \<and> lasttok g = lasttok f" "pending_step h oper g = Inr g'" for g g'
    using that pending_step_shape shrinks_trans by metis
  show "reduced_ok f r"
    if "shrinks f g \<and> lasttok g = lasttok f" "pending_step h oper g = Inl r" for g r
  proof -
    have "0 < nsp g" using that(1) assms by (simp add: shrinks_def)
    with pending_step_exit that reduced_ok_mono show ?thesis by blast
  qed
qed simp

subsubsection \<open>Every iteration makes progress\<close>

definition same_text :: "'v frame \<Rightarrow> 'v frame \<Rightarrow> bool" where
  "same_text f f' \<longleftrightarrow> expr f' = expr f \<and> at_END_POINTER f' = at_END_POINTER f"

lemma apply_pending_text:
  "case apply_pending h oper f of
     ToNext f' \<Rightarrow> same_text f f' | ToCheckCond f' \<Rightarrow> same_text f f'
   | StackEmpty f' \<Rightarrow> same_text f f' | Stop r \<Rightarrow> True"
proof (rule apply_pending_rule [where P = "same_text f"])
  show "same_text f g'" if "same_text f g" "pending_step h oper g = Inr g'" for g g'
    using that pending_step_shape [of h oper g g'] by (simp add: same_text_def shrinks_def)
  show "case r of ToNext f' \<Rightarrow> same_text f f' | ToCheckCond f' \<Rightarrow> same_text f f'
      | StackEmpty f' \<Rightarrow> same_text f f' | Stop r \<Rightarrow> True"
    if "same_text f g" "pending_step h oper g = Inl r" for g r
    using that
    by (cases "osp g = 0"; cases r)
      (auto simp: pending_step_def same_text_def Let_def dest!: after_apply_exit
        split: if_splits sum.splits option.splits)
qed (simp add: same_text_def)

lemma push_op_text: "push_op oper f = AtNext f' \<Longrightarrow> same_text f f'"
  by (auto simp: push_op_def same_text_def split: if_splits)

lemma push_op_not_continue: "push_op oper f \<noteq> AtContinue f'"
  by (simp add: push_op_def)

lemma check_cond_text: "check_cond oper f = AtNext f' \<Longrightarrow> same_text f f'"
  by (auto simp: check_cond_def Let_def same_text_def dest!: push_op_text split: if_splits)

lemma check_cond_not_continue: "check_cond oper f \<noteq> AtContinue f'"
  by (auto simp: check_cond_def Let_def push_op_not_continue)

lemma tok_found1_once_text:
  assumes "tok_found1_once h oper f = AtNext f' \<or> tok_found1_once h oper f = AtContinue f'"
  shows "same_text f f'"
proof -
  define f0 where "f0 = (if PREC (lasttok f) = 19 then f\<lparr>lasttok := TOK_VALUE\<rparr> else f)"
  have f0: "same_text f f0" by (simp add: f0_def same_text_def)
  have "same_text f0 f'"
    using assms apply_pending_text [where h = h and oper = oper and f = f0]
      apply_pending_text [where h = h and oper = "unary_form oper" and f = f0]
    unfolding tok_found1_once_def f0_def [symmetric] Let_def
    by (auto simp: push_op_not_continue check_cond_not_continue
        dest!: push_op_text check_cond_text
        split: if_splits reduced.splits) (auto simp: same_text_def)
  with f0 show ?thesis by (simp add: same_text_def)
qed

lemma tok_found1_text: "tok_found1 h oper f = Continue f' \<Longrightarrow> same_text f f'"
proof -
  have upd: "same_text g (toggle_disabled g)" "same_text g (g\<lparr>insert_op := x\<rparr>)" for g x
    by (simp_all add: same_text_def toggle_disabled_def)
  have tr: "same_text a b \<Longrightarrow> same_text b c \<Longrightarrow> same_text a c" for a b c
    by (simp add: same_text_def)
  assume "tok_found1 h oper f = Continue f'"
  then show ?thesis
    unfolding tok_found1_def Let_def
    by (auto dest!: tok_found1_once_text [OF disjI1] tok_found1_once_text [OF disjI2]
        simp: same_text_def toggle_disabled_def split: tokres.splits if_splits)
qed

lemma tok_found_text: "tok_found h oper f = Continue f' \<Longrightarrow> same_text f f'"
  by (auto simp: tok_found_def same_text_def dest!: tok_found1_text split: if_splits)

lemma parse_with_base_loop_suffix:
  "parse_with_base_loop base n s = (v, r) \<Longrightarrow> suffix r s"
  by (induction base n s rule: parse_with_base_loop.induct)
    (auto split: option.splits intro: suffix_ConsI)

lemma suffix_shorter: "suffix r s \<Longrightarrow> r \<noteq> s \<Longrightarrow> length r < length s"
  by (auto simp: suffix_def)

lemma parse_with_base_shorter:
  "parse_with_base s base = (v, Some r) \<Longrightarrow> suffix r s \<and> length r < length s"
  by (auto simp: parse_with_base_def intro!: suffix_shorter
      dest: parse_with_base_loop_suffix split: prod.splits if_splits)

lemma strto_arith_t_shorter:
  assumes "strto_arith_t s = (v, Some r)"
  shows "suffix r s \<and> length r < length s"
proof -
  obtain k base where "parse_with_base (drop k s) base = (v, Some r)"
    using assms unfolding strto_arith_t_def Let_def
    by (auto split: if_splits intro: that [of 0])
  from parse_with_base_shorter [OF this] have "suffix r (drop k s)" "length r < length (drop k s)"
    by simp_all
  then show ?thesis by (auto intro: suffix_order.trans suffix_drop)
qed

lemma find_op_shorter:
  assumes "find_op ts e = Some (oper, e')" and "\<forall>(t, x) \<in> set ts. t \<noteq> [] \<and> wf_cstr t"
  shows "suffix e' e \<and> length e' < length e"
  using assms
proof (induction ts e rule: find_op.induct)
  case (2 t x ts e)
  show ?case
  proof (cases "is_prefixed_with e t")
    case None
    with 2 show ?thesis by simp
  next
    case (Some r)
    with 2 have "wf_cstr t" "t \<noteq> []" "r = e'" by auto
    with Some have "prefix t e" "e' = drop (length t) e"
      by (auto simp: is_prefixed_with_eq split: if_splits)
    with \<open>t \<noteq> []\<close> show ?thesis
      by (auto simp: suffix_drop prefix_def)
  qed
qed simp

lemma op_tokens_wf: "\<forall>(t, x) \<in> set op_tokens. t \<noteq> [] \<and> wf_cstr t"
  by (simp add: op_tokens_def)

lemma dropWhile_isspace_length: "length (dropWhile isspace s) \<le> length s"
  by (rule length_dropWhile_le)

lemma eval_operator_progress:
  assumes "eval_operator h f = Continue f'" and "expr f \<noteq> []"
  shows "length (expr f') < length (expr f) \<and> at_END_POINTER f' = at_END_POINTER f"
  using assms
  by (auto simp: eval_operator_def Let_def same_text_def
      dest!: tok_found1_text tok_found_text find_op_shorter [OF _ op_tokens_wf]
      split: if_splits option.splits)

lemma push_value_text: "push_value f v = Continue f' \<Longrightarrow> same_text f f'"
  by (auto simp: push_value_def same_text_def split: if_splits)

lemma eval_name_progress:
  assumes "eval_name ev h f p = Continue f'" and "length p < length (expr f)"
  shows "length (expr f') < length (expr f) \<and> at_END_POINTER f' = at_END_POINTER f"
  using assms dropWhile_isspace_length [of p]
  by (auto simp: eval_name_def Let_def same_text_def
      dest!: push_value_text split: if_splits result.splits)

lemma eval_number_progress:
  assumes "eval_number f = Continue f'"
  shows "length (expr f') < length (expr f) \<and> at_END_POINTER f' = at_END_POINTER f"
  using assms
  by (auto simp: eval_number_def same_text_def dest!: push_value_text strto_arith_t_shorter
      split: if_splits option.splits prod.splits)

lemma endofname_suffix: "suffix (endofname s) s"
  by (simp add: endofname_eq suffix_dropWhile)

lemma eval_step_progress:
  assumes "eval_step ev h start f = Continue f'"
  shows "frame_measure f' < frame_measure f"
proof -
  define g where "g = f\<lparr>expr := skip_whitespace (expr f)\<rparr>"
  have g: "length (expr g) \<le> length (expr f)" "at_END_POINTER g = at_END_POINTER f"
    by (simp_all add: g_def dropWhile_isspace_length)
  show ?thesis
  proof (cases "expr g = []")
    case True
    then have "\<not> at_END_POINTER g" "tok_found1 h TOK_RPAREN (g\<lparr>at_END_POINTER := True\<rparr>) = Continue f'"
      using assms unfolding eval_step_def g_def [symmetric] Let_def by (auto split: if_splits)
    with True g tok_found1_text show ?thesis
      by (fastforce simp: frame_measure_def same_text_def)
  next
    case False
    have "length (expr f') < length (expr g) \<and> at_END_POINTER f' = at_END_POINTER g"
      using assms False suffix_shorter [OF endofname_suffix]
      unfolding eval_step_def g_def [symmetric] Let_def
      by (auto dest: eval_name_progress eval_number_progress eval_operator_progress split: if_splits)
    with g show ?thesis by (simp add: frame_measure_def)
  qed
qed

function eval_loop :: "'v evaluator \<Rightarrow> 'v hooks \<Rightarrow> cstr \<Rightarrow> 'v frame \<Rightarrow> 'v result" where
  "eval_loop ev h start_expr f =
    (case eval_step ev h start_expr f of
       Continue f' \<Rightarrow> eval_loop ev h start_expr f'
     | Done r \<Rightarrow> r)"
  by pat_completeness auto
termination
  by (relation "measure (\<lambda>(ev, h, start, f). frame_measure f)") (auto simp: eval_step_progress)

declare eval_loop.simps [simp del]

text \<open>The estimate of the depth of the stacks counts a run of white space once.\<close>

fun expr_len_loop :: "cstr \<Rightarrow> u32 \<Rightarrow> u32" where
  "expr_len_loop [] expr_len = expr_len"
| "expr_len_loop (c # p) expr_len =
     expr_len_loop p (if isspace c \<and> isspace (deref p) then expr_len - 1 else expr_len)"

definition initial_frame :: "(nat \<Rightarrow> var_or_num) \<Rightarrow> 'v arith_state \<Rightarrow> cstr \<Rightarrow> 'v frame" where
  "initial_frame junk ms e =
    (let expr_len = expr_len_loop e (of_nat (length e)) + 1;
         opdepth = unat expr_len;
         numdepth = unat (expr_len div 2 + 1)
     in \<lparr>expr = e, at_END_POINTER = False,
         numstack = map junk [0..<numdepth], nsp = 0,
         opstack = (replicate opdepth 0)[0 := TOK_LPAREN], osp = 1,
         lasttok = TOK_LPAREN, insert_op = 0xff, ternary_level = 0, mstate = ms\<rparr>)"

fun evaluate_string ::
  "nat \<Rightarrow> (nat \<Rightarrow> var_or_num) \<Rightarrow> 'v hooks \<Rightarrow> 'v arith_state \<Rightarrow> cstr \<Rightarrow> 'v result"
where
  "evaluate_string 0 junk h ms e = TooDeep"
| "evaluate_string (Suc depth) junk h ms e =
     (let start_expr = skip_whitespace e
      in eval_loop (evaluate_string depth junk h) h start_expr (initial_frame junk ms start_expr))"

definition arith :: "nat \<Rightarrow> (nat \<Rightarrow> var_or_num) \<Rightarrow> 'v hooks \<Rightarrow> 'v \<Rightarrow> cstr \<Rightarrow> 'v result" where
  "arith depth junk h vs e =
     evaluate_string depth junk h
       \<lparr>evaluation_disabled = 0, errmsg = None, list_of_recursed_names = [], vars = vs\<rparr> e"

end
