(* ===== verification/Sh_Math_Safe.thy ===== *)
theory Sh_Math_Safe
  imports Sh_Math
begin

text \<open>
  Memory safety of \<^verbatim>\<open>evaluate_string\<close>: the sizes given to \<^verbatim>\<open>alloca\<close> are enough for every
  push onto the two stacks, whatever the expression.  The invariant \<open>frame_inv\<close> relates the
  depth of each stack to the characters already consumed, counting a run of white space as one
  character as the code's estimate does.
\<close>

subsection \<open>The cost of a text\<close>

fun cost :: "cstr \<Rightarrow> nat" where
  "cost [] = 0"
| "cost (c # s) = (if isspace c \<and> isspace (deref s) then cost s else Suc (cost s))"

lemma cost_le_length: "cost s \<le> length s"
  by (induction s) auto

lemma cost_Cons_nonspace [simp]: "\<not> isspace c \<Longrightarrow> cost (c # s) = Suc (cost s)"
  by simp

lemma cost_positive: "s \<noteq> [] \<Longrightarrow> 0 < cost s"
  by (induction s rule: cost.induct) (metis NUL_ctype(4) cost.simps(2) deref_simps(1) zero_less_Suc)+

lemma cost_skip:
  "isspace (deref s) \<Longrightarrow> Suc (cost (dropWhile isspace s)) = cost s"
proof (induction s)
  case (Cons c s)
  then show ?case by (cases s) auto
qed simp

lemma cost_skip_le: "cost (dropWhile isspace s) \<le> cost s"
  using cost_skip [of s] by (cases s) auto

lemma cost_suffix_nonspace:
  assumes "s = a @ t" and "a \<noteq> []" and "\<not> isspace (last a)"
  shows "cost t < cost s"
  using assms
proof (induction a arbitrary: s)
  case (Cons c a)
  show ?case
  proof (cases "a = []")
    case True
    with Cons.prems show ?thesis by simp
  next
    case False
    with Cons have "cost t < cost (a @ t)" by simp
    with Cons.prems show ?thesis by simp
  qed
qed simp

lemma expr_len_loop_eq: "expr_len_loop s w = w - of_nat (length s - cost s)"
proof (induction s arbitrary: w)
  case (Cons c s)
  then show ?case
    using cost_le_length [of s] by (auto simp: Suc_diff_le of_nat_diff)
qed simp

lemma expr_len_initial: "expr_len_loop s (of_nat (length s)) = of_nat (cost s)"
  using cost_le_length [of s] by (simp add: expr_len_loop_eq of_nat_diff)

subsection \<open>Budgets\<close>

definition credit :: "'v frame \<Rightarrow> nat" where
  "credit f = (if PREC (lasttok f) = 19 then 1 else 0)"

definition harmless :: "'v result \<Rightarrow> bool" where
  "harmless r \<longleftrightarrow> (\<forall>u. r = Undefined u \<longrightarrow> u = UB_shift \<or> u = UB_opstack_read)"

lemma harmless_simps [simp]:
  "harmless (Return v ms)" "harmless TooDeep" "harmless (err_with_custom_msg f e)"
  "harmless (Undefined u) \<longleftrightarrow> u = UB_shift \<or> u = UB_opstack_read"
  by (simp_all add: harmless_def err_with_custom_msg_def)

definition binary_prec :: "operator \<Rightarrow> bool" where
  "binary_prec oper \<longleftrightarrow> PREC oper \<noteq> 0 \<and> PREC oper < 16"

definition post_ok :: "operator \<Rightarrow> bool" where
  "post_ok oper \<longleftrightarrow> (PREC oper = 19 \<longrightarrow> oper = TOK_POST_INC \<or> oper = TOK_POST_DEC)"

text \<open>What a token keeps of a frame.\<close>

definition keeps :: "'v frame \<Rightarrow> 'v frame \<Rightarrow> bool" where
  "keeps f f' \<longleftrightarrow>
     expr f' = expr f \<and> at_END_POINTER f' = at_END_POINTER f \<and> insert_op f' = insert_op f \<and>
     length (numstack f') = length (numstack f) \<and> length (opstack f') = length (opstack f) \<and>
     nsp f' \<le> nsp f \<and> (credit f' = 1 \<longrightarrow> 0 < nsp f')"

lemma PREC_toks [simp]:
  "PREC TOK_VALUE = 19" "PREC TOK_LPAREN = 0" "PREC TOK_RPAREN = 1"
  "PREC TOK_CONDITIONAL = 4" "PREC TOK_CONDITIONAL_SEP = 4"
  "PREC TOK_PRE_INC = 18" "PREC TOK_PRE_DEC = 18" "PREC TOK_UMINUS = 17"
  "PREC TOK_POST_INC = 19" "PREC TOK_POST_DEC = 19" "PREC TOK_ADD = 13" "PREC TOK_SUB = 13"
  by (simp_all add: PREC_def tok_defs)

lemma push_op_safe:
  assumes "osp f < length (opstack f)"
  shows "\<exists>f'. push_op oper f = AtNext f' \<and> lasttok f' = oper \<and> osp f' = osp f + 1 \<and>
    expr f' = expr f \<and> at_END_POINTER f' = at_END_POINTER f \<and> insert_op f' = insert_op f \<and>
    numstack f' = numstack f \<and> length (opstack f') = length (opstack f) \<and> nsp f' = nsp f"
  using assms by (simp add: push_op_def)

lemma check_cond_safe:
  assumes "osp f < length (opstack f)" and "0 < nsp f"
  shows "\<exists>f'. check_cond oper f = AtNext f' \<and> lasttok f' = oper \<and> osp f' = osp f + 1 \<and>
    expr f' = expr f \<and> at_END_POINTER f' = at_END_POINTER f \<and> insert_op f' = insert_op f \<and>
    numstack f' = numstack f \<and> length (opstack f') = length (opstack f) \<and> nsp f' = nsp f"
  using assms by (simp add: check_cond_def push_op_def Let_def)

text \<open>How far a token may raise the operator stack, the credit of a value counted in.\<close>

definition raise_ok :: "operator \<Rightarrow> nat \<Rightarrow> nat \<Rightarrow> bool" where
  "raise_ok oper n n' \<longleftrightarrow>
     (if oper = TOK_RPAREN then n' < n
      else if oper = TOK_CONDITIONAL \<or> oper = TOK_CONDITIONAL_SEP then n' \<le> n
      else n' \<le> n + 1)"

definition tokres_ok :: "operator \<Rightarrow> 'v frame \<Rightarrow> 'v tokres \<Rightarrow> bool" where
  "tokres_ok oper f r \<longleftrightarrow>
    (case r of
       AtNext f' \<Rightarrow> keeps f f' \<and> raise_ok oper (osp f + credit f) (osp f' + credit f')
     | AtContinue f' \<Rightarrow> keeps f f' \<and> osp f' + credit f' \<le> osp f + credit f
     | AtStop x \<Rightarrow> harmless x)"

lemma unary_form_toks:
  "post_ok oper \<Longrightarrow> PREC (unary_form oper) \<noteq> 19"
  "unary_form oper = TOK_RPAREN \<longleftrightarrow> oper = TOK_RPAREN"
  "unary_form TOK_CONDITIONAL = TOK_CONDITIONAL"
  "unary_form TOK_CONDITIONAL_SEP = TOK_CONDITIONAL_SEP"
  by (auto simp: unary_form_def post_ok_def tok_defs PREC_def)

lemma push_op_tokres:
  assumes "osp f < length (opstack f)" and "\<not> binary_prec oper'"
    and "PREC oper' = 19 \<Longrightarrow> credit f = 1" and "credit f = 1 \<Longrightarrow> 0 < nsp f"
    and "oper \<noteq> TOK_RPAREN" "oper \<noteq> TOK_CONDITIONAL" "oper \<noteq> TOK_CONDITIONAL_SEP"
  shows "tokres_ok oper f (push_op oper' f)"
proof -
  from push_op_safe [OF assms(1), of oper'] obtain f' where
    "push_op oper' f = AtNext f'" "lasttok f' = oper'" "osp f' = osp f + 1" "expr f' = expr f"
    "at_END_POINTER f' = at_END_POINTER f" "insert_op f' = insert_op f" "numstack f' = numstack f"
    "length (opstack f') = length (opstack f)" "nsp f' = nsp f" by blast
  with assms show ?thesis
    by (auto simp: tokres_ok_def keeps_def raise_ok_def credit_def split: if_splits)
qed

lemma binary_tokres:
  assumes "osp f < length (opstack f) \<or> oper = TOK_RPAREN" and "lasttok f = TOK_VALUE"
    and "0 < nsp f" and "binary_prec oper"
  shows "tokres_ok oper f
    (case apply_pending h oper f of
       ToNext f' \<Rightarrow> AtNext f'
     | ToCheckCond f' \<Rightarrow> check_cond oper f'
     | StackEmpty f' \<Rightarrow>
         (if oper = TOK_RPAREN then AtStop (err_with_custom_msg f' ArithSyntaxError)
          else check_cond oper f')
     | Stop r \<Rightarrow> AtStop r)"
proof -
  have pushed: "tokres_ok oper f (check_cond oper f')"
    if "shrinks f f'" "oper \<noteq> TOK_RPAREN" for f'
  proof -
    have "osp f' < length (opstack f')" "0 < nsp f'"
      using that assms by (auto simp: shrinks_def)
    from check_cond_safe [OF this, of oper] obtain g where
      "check_cond oper f' = AtNext g" "lasttok g = oper" "osp g = osp f' + 1" "expr g = expr f'"
      "at_END_POINTER g = at_END_POINTER f'" "insert_op g = insert_op f'" "numstack g = numstack f'"
      "length (opstack g) = length (opstack f')" "nsp g = nsp f'" by blast
    with that assms show ?thesis
      by (auto simp: tokres_ok_def keeps_def raise_ok_def credit_def shrinks_def binary_prec_def)
  qed
  have never: "oper = TOK_RPAREN \<Longrightarrow> apply_pending h oper f \<noteq> ToCheckCond f'" for f'
  proof -
    assume "oper = TOK_RPAREN"
    moreover have "(\<lambda>r. r \<noteq> ToCheckCond f') (apply_pending h TOK_RPAREN f)"
      by (rule apply_pending_rule [where P = "\<lambda>_. True"])
        (auto simp: pending_step_def Let_def dest: after_apply_exit
          split: if_splits sum.splits option.splits)
    ultimately show ?thesis by simp
  qed
  have "reduced_ok f (apply_pending h oper f)" by (rule apply_pending_ok [OF assms(3)])
  then show ?thesis using pushed never assms(2-)
    by (auto simp: reduced_ok_def split: reduced.splits result.splits)
      (auto simp: tokres_ok_def keeps_def raise_ok_def credit_def shrinks_def)
qed

lemma tok_found1_once_ok:
  assumes "post_ok oper" and val: "credit f = 1 \<Longrightarrow> 0 < nsp f"
    and room: "oper \<noteq> TOK_RPAREN \<Longrightarrow> osp f + credit f < length (opstack f)"
  shows "tokres_ok oper f (tok_found1_once h oper f)"
proof -
  define g where "g = (if PREC (lasttok f) = 19 then f\<lparr>lasttok := TOK_VALUE\<rparr> else f)"
  have g: "osp g = osp f" "nsp g = nsp f" "opstack g = opstack f" "credit g = credit f"
    "expr g = expr f" "at_END_POINTER g = at_END_POINTER f" "insert_op g = insert_op f"
    "numstack g = numstack f"
    by (simp_all add: g_def credit_def)
  have from_g: "tokres_ok oper g r \<Longrightarrow> tokres_ok oper f r" for r
    by (auto simp: tokres_ok_def keeps_def g split: tokres.splits)
  have VAL: "credit g = 1 \<longleftrightarrow> lasttok g = TOK_VALUE" by (auto simp: g_def credit_def)
  have "tokres_ok oper g (tok_found1_once h oper f)"
  proof (cases "lasttok g = TOK_VALUE")
    case True
    show ?thesis
    proof (cases "binary_prec oper")
      case b: True
      have "osp g < length (opstack g) \<or> oper = TOK_RPAREN" using room g by auto
      from binary_tokres [OF this True _ b] True VAL val g b show ?thesis
        unfolding tok_found1_once_def g_def [symmetric] Let_def by (auto simp: binary_prec_def)
    next
      case b: False
      then have "oper \<noteq> TOK_RPAREN" "oper \<noteq> TOK_CONDITIONAL" "oper \<noteq> TOK_CONDITIONAL_SEP"
        by (auto simp: binary_prec_def)
      then have "tokres_ok oper g (push_op oper g)"
        using room g True VAL val b by (intro push_op_tokres) auto
      with True b show ?thesis
        unfolding tok_found1_once_def g_def [symmetric] Let_def by (auto simp: binary_prec_def)
    qed
  next
    case False
    show ?thesis
    proof (cases "binary_prec (unary_form oper) \<or> oper = TOK_ADD")
      case True
      with False val VAL g show ?thesis
        unfolding tok_found1_once_def g_def [symmetric] Let_def
        by (auto simp: tokres_ok_def keeps_def binary_prec_def)
    next
      case b: False
      then have n: "oper \<noteq> TOK_RPAREN" "oper \<noteq> TOK_CONDITIONAL" "oper \<noteq> TOK_CONDITIONAL_SEP"
        by (auto simp: binary_prec_def unary_form_toks(2) [THEN iffD2] unary_form_toks)
      have "tokres_ok oper g (push_op (unary_form oper) g)"
        using room g False VAL val b n assms(1)
        by (intro push_op_tokres) (auto simp: unary_form_toks)
      with False b show ?thesis
        unfolding tok_found1_once_def g_def [symmetric] Let_def by (auto simp: binary_prec_def)
    qed
  qed
  then show ?thesis by (rule from_g)
qed

lemma toggle_disabled_keeps [simp]:
  "osp (toggle_disabled f) = osp f" "credit (toggle_disabled f) = credit f"
  "opstack (toggle_disabled f) = opstack f" "nsp (toggle_disabled f) = nsp f"
  "expr (toggle_disabled f) = expr f" "at_END_POINTER (toggle_disabled f) = at_END_POINTER f"
  "numstack (toggle_disabled f) = numstack f" "insert_op (toggle_disabled f) = insert_op f"
  "lasttok (toggle_disabled f) = lasttok f"
  by (simp_all add: toggle_disabled_def credit_def)

text \<open>A whole token: what is left of \<^verbatim>\<open>insert_op\<close> is processed too.\<close>

definition after_token :: "'v frame \<Rightarrow> nat \<Rightarrow> 'v outc \<Rightarrow> bool" where
  "after_token f n r \<longleftrightarrow>
    (case r of
       Continue f' \<Rightarrow>
         expr f' = expr f \<and> at_END_POINTER f' = at_END_POINTER f \<and> insert_op f' = 0xff \<and>
         length (numstack f') = length (numstack f) \<and> length (opstack f') = length (opstack f) \<and>
         nsp f' \<le> nsp f \<and> (credit f' = 1 \<longrightarrow> 0 < nsp f') \<and> osp f' + credit f' \<le> n
     | Done x \<Rightarrow> harmless x)"

lemma tok_found1_plain:
  assumes "post_ok oper" and "credit f = 1 \<Longrightarrow> 0 < nsp f" and "insert_op f = 0xff"
    and "oper \<noteq> TOK_RPAREN \<Longrightarrow> osp f + credit f < length (opstack f)"
  shows "after_token f (osp f + credit f + (if oper = TOK_RPAREN then 0 else 1)) (tok_found1 h oper f)"
  using tok_found1_once_ok [OF assms(1,2,4), where h = h] assms(3)
  by (auto simp: after_token_def tok_found1_def tokres_ok_def keeps_def raise_ok_def
      split: tokres.splits if_splits)

lemma tok_found1_insert:
  assumes "oper = TOK_CONDITIONAL \<and> insert_op f = TOK_LPAREN \<or>
      oper = TOK_RPAREN \<and> insert_op f = TOK_CONDITIONAL_SEP"
    and "credit f = 1 \<Longrightarrow> 0 < nsp f"
    and "osp f + credit f < length (opstack f)"
  shows "after_token f (osp f + credit f + 1) (tok_found1 h oper f)"
proof -
  have po: "post_ok oper" "post_ok (insert_op f)" using assms(1) by (auto simp: post_ok_def)
  have ins: "insert_op f \<noteq> 0xff" "oper \<noteq> TOK_ADD" using assms(1) by (auto simp: tok_defs)
  from tok_found1_once_ok [OF po(1) assms(2,3), where h = h]
  have 1: "tokres_ok oper f (tok_found1_once h oper f)" by blast
  show ?thesis
  proof (cases "tok_found1_once h oper f")
    case (AtNext f1)
    with 1 assms(1) have k: "keeps f f1" and up: "osp f1 + credit f1 \<le> osp f + credit f"
      by (auto simp: tokres_ok_def raise_ok_def tok_defs split: if_splits)
    define f2 where "f2 = (let f1' = f1\<lparr>insert_op := 0xff\<rparr> in
      if insert_op f1 = TOK_CONDITIONAL_SEP then toggle_disabled f1' else f1')"
    have f2: "osp f2 = osp f1" "credit f2 = credit f1" "opstack f2 = opstack f1" "nsp f2 = nsp f1"
      "expr f2 = expr f1" "at_END_POINTER f2 = at_END_POINTER f1" "numstack f2 = numstack f1"
      "insert_op f2 = 0xff"
      by (auto simp: f2_def Let_def credit_def)
    have "tokres_ok (insert_op f) f2 (tok_found1_once h (insert_op f) f2)"
      using po(2) k up f2 assms(3) by (intro tok_found1_once_ok) (auto simp: keeps_def)
    moreover have "tok_found1 h oper f =
      (case tok_found1_once h (insert_op f) f2 of
         AtContinue f'' \<Rightarrow> Continue f'' | AtNext f'' \<Rightarrow> Continue f'' | AtStop r \<Rightarrow> Done r)"
      using AtNext ins(1) k
      by (simp add: tok_found1_def f2_def Let_def keeps_def)
    ultimately show ?thesis using f2 k up
      by (auto simp: after_token_def tokres_ok_def keeps_def raise_ok_def
          split: tokres.splits if_splits)
  next
    case (AtContinue f1)
    then have "oper = TOK_ADD"
      by (auto simp: tok_found1_once_def Let_def push_op_not_continue check_cond_not_continue
          split: if_splits reduced.splits)
    with ins show ?thesis by simp
  next
    case (AtStop r)
    with 1 show ?thesis by (simp add: tok_found1_def after_token_def tokres_ok_def)
  qed
qed

subsection \<open>The loop invariant\<close>

text \<open>\<open>F\<close> is the cost of the whole expression.\<close>

definition frame_inv :: "nat \<Rightarrow> 'v frame \<Rightarrow> bool" where
  "frame_inv F f \<longleftrightarrow>
     length (numstack f) = (F + 1) div 2 + 1 \<and> length (opstack f) = F + 1 \<and>
     2 * nsp f + cost (expr f) \<le> F + (if isalnum_us (deref (expr f)) then 0 else 1) \<and>
     osp f + credit f + cost (expr f) \<le> F + 1 \<and>
     (credit f = 1 \<longrightarrow> 0 < nsp f) \<and> insert_op f = 0xff \<and>
     (at_END_POINTER f \<longrightarrow> expr f = [])"

definition outc_inv :: "nat \<Rightarrow> 'v outc \<Rightarrow> bool" where
  "outc_inv F r \<longleftrightarrow> (case r of Continue f \<Rightarrow> frame_inv F f | Done x \<Rightarrow> harmless x)"

lemma isspace_not_alnum: "isspace c \<Longrightarrow> \<not> isalnum_us c"
  by (auto simp: isalnum_us_def isspace_ord isalnum_iff isdigit_ord isalpha_ord)

lemma frame_inv_skip:
  assumes "frame_inv F f"
  shows "frame_inv F (f\<lparr>expr := dropWhile isspace (expr f)\<rparr>)"
proof (cases "isspace (deref (expr f))")
  case True
  from cost_skip [OF True] isspace_not_alnum [OF True] assms show ?thesis
    by (auto simp: frame_inv_def credit_def)
next
  case False
  then have "dropWhile isspace (expr f) = expr f" by (cases "expr f") auto
  with assms show ?thesis by (simp add: frame_inv_def credit_def)
qed

text \<open>A token that consumed at least one character that cannot begin a value.\<close>

lemma after_token_inv:
  assumes "frame_inv F f" and "\<not> isalnum_us (deref (expr f))" and "cost e < cost (expr f)"
    and "after_token (f\<lparr>expr := e, insert_op := i\<rparr>) (osp f + credit f + 1) r"
    and "\<not> at_END_POINTER f"
  shows "outc_inv F r"
  using assms
  by (auto simp: after_token_def outc_inv_def frame_inv_def split: outc.splits)

lemma find_op_consumed:
  assumes "find_op op_tokens e = Some (oper, e')"
  shows "post_ok oper" and "cost e' < cost e"
proof -
  have in_tbl: "\<exists>t. (t, oper) \<in> set ts \<and> e = t @ e'"
    if "find_op ts e = Some (oper, e')" "\<forall>(t, x) \<in> set ts. t \<noteq> [] \<and> wf_cstr t" for ts
    using that
    by (induction ts e rule: find_op.induct)
      (auto simp: is_prefixed_with_eq prefix_def split: option.splits if_splits)
  from in_tbl [OF assms op_tokens_wf] obtain t where t: "(t, oper) \<in> set op_tokens" "e = t @ e'"
    by blast
  from t(1) show "post_ok oper"
    by (auto simp: op_tokens_def post_ok_def PREC_def tok_defs)
  from t(1) have "t \<noteq> [] \<and> \<not> isspace (last t)"
    by (auto simp: op_tokens_def isspace_def)
  with t(2) cost_suffix_nonspace show "cost e' < cost e" by blast
qed

lemma eval_operator_safe:
  assumes inv: "frame_inv F f" and ne: "expr f \<noteq> []" and na: "\<not> isalnum_us (deref (expr f))"
    and ns: "\<not> isspace (deref (expr f))"
  shows "outc_inv F (eval_operator h f)"
proof -
  have not_end: "\<not> at_END_POINTER f" using inv ne by (auto simp: frame_inv_def)
  have val: "credit f = 1 \<Longrightarrow> 0 < nsp f" using inv by (simp add: frame_inv_def)
  have room: "osp f + credit f < length (opstack f)"
    using inv cost_positive [OF ne] by (simp add: frame_inv_def)
  have cr: "credit (f\<lparr>expr := x, insert_op := y\<rparr>) = credit f" "credit (f\<lparr>expr := x\<rparr>) = credit f" for x y
    by (simp_all add: credit_def)
  have i: "insert_op f = 0xff" using inv by (simp add: frame_inv_def)
  have same: "f\<lparr>expr := x\<rparr> = f\<lparr>expr := x, insert_op := 0xff\<rparr>" for x
    by (simp add: i [symmetric])
  have plain: "outc_inv F (tok_found1 h oper (f\<lparr>expr := x\<rparr>))"
    if "post_ok oper" "cost x < cost (expr f)" for oper x
  proof -
    have "after_token (f\<lparr>expr := x\<rparr>)
        (osp f + credit f + (if oper = TOK_RPAREN then 0 else 1)) (tok_found1 h oper (f\<lparr>expr := x\<rparr>))"
      using tok_found1_plain [of oper "f\<lparr>expr := x\<rparr>" h] that(1) val room i by (simp add: cr)
    then have "after_token (f\<lparr>expr := x, insert_op := 0xff\<rparr>) (osp f + credit f + 1)
        (tok_found1 h oper (f\<lparr>expr := x\<rparr>))"
      by (auto simp: after_token_def split: outc.splits if_splits)
    then show ?thesis by (rule after_token_inv [OF inv na that(2) _ not_end])
  qed
  have ins: "outc_inv F (tok_found1 h oper (f\<lparr>expr := x, insert_op := y\<rparr>))"
    if "oper = TOK_CONDITIONAL \<and> y = TOK_LPAREN \<or> oper = TOK_RPAREN \<and> y = TOK_CONDITIONAL_SEP"
      "cost x < cost (expr f)" for oper x y
  proof -
    have "after_token (f\<lparr>expr := x, insert_op := y\<rparr>) (osp f + credit f + 1)
        (tok_found1 h oper (f\<lparr>expr := x, insert_op := y\<rparr>))"
      using tok_found1_insert [of oper "f\<lparr>expr := x, insert_op := y\<rparr>" h] that(1) val room
      by (simp add: cr)
    then show ?thesis by (rule after_token_inv [OF inv na that(2) _ not_end])
  qed
  have tl: "cost (tl (expr f)) < cost (expr f)"
    using ne ns by (cases "expr f") auto
  have "post_ok TOK_ADD" "post_ok TOK_SUB" by (simp_all add: post_ok_def)
  then show ?thesis
    using plain [OF _ tl] plain ins find_op_consumed [of "expr f"]
    by (auto simp: eval_operator_def tok_found_def Let_def outc_inv_def split: option.splits)
qed


text \<open>A value: it pays for its two units with a character that is not white space.\<close>

lemma push_value_room:
  assumes "frame_inv F f" and "expr f \<noteq> []" and "isalnum_us (deref (expr f))"
  shows "nsp f < length (numstack f)"
  using assms cost_positive [of "expr f"] by (auto simp: frame_inv_def)

lemma push_value_safe:
  assumes inv: "frame_inv F f" and ne: "expr f \<noteq> []" and al: "isalnum_us (deref (expr f))"
    and less: "cost e < cost (expr f)"
    and gap: "isalnum_us (deref e) \<Longrightarrow> cost e + 1 < cost (expr f)"
  shows "outc_inv F (push_value (f\<lparr>expr := e, mstate := ms\<rparr>) v)"
    and "outc_inv F (push_value (f\<lparr>expr := e\<rparr>) v)"
proof -
  have "\<not> at_END_POINTER f" using inv ne by (auto simp: frame_inv_def)
  then show *: "outc_inv F (push_value (f\<lparr>expr := e, mstate := ms\<rparr>) v)" for ms
    using inv al less gap push_value_room [OF inv ne al]
    by (auto simp: push_value_def outc_inv_def frame_inv_def credit_def split: if_splits)
  from * [of "mstate f"] show "outc_inv F (push_value (f\<lparr>expr := e\<rparr>) v)" by simp
qed

lemma deref_dropWhile_isspace [simp]: "\<not> isspace (deref (dropWhile isspace s))"
  by (induction s) auto

lemma alnum_not_space: "isalnum_us c \<Longrightarrow> \<not> isspace c"
  using isspace_not_alnum by blast

lemma endofname_cost:
  assumes "endofname e \<noteq> e"
  shows "cost (endofname e) < cost e" and "isalnum_us (deref e)"
    and "\<not> isalnum_us (deref (endofname e))" and "e \<noteq> []"
proof -
  have nm: "is_name c \<Longrightarrow> isalnum_us c" "is_in_name c \<longleftrightarrow> isalnum_us c" for c
    by (auto simp: is_name_def is_in_name_def isalnum_us_def isalnum_iff)
  define a where "a = takeWhile is_in_name e"
  have e: "is_name (deref e)" "endofname e = dropWhile is_in_name e"
    using assms by (auto simp: endofname_eq split: if_splits)
  then show al: "isalnum_us (deref e)" using nm by blast
  show ne: "e \<noteq> []" using assms by (auto simp: endofname_eq)
  have "a \<noteq> []" using ne al nm by (cases e) (auto simp: a_def)
  moreover have "isalnum_us (last a)"
    using last_in_set [OF \<open>a \<noteq> []\<close>] nm(2) by (auto simp: a_def dest: set_takeWhileD)
  moreover have "e = a @ endofname e" by (simp add: a_def e(2))
  ultimately show "cost (endofname e) < cost e"
    using cost_suffix_nonspace alnum_not_space by blast
  have "\<not> is_in_name (deref (dropWhile is_in_name e))" by (induction e) auto
  then show "\<not> isalnum_us (deref (endofname e))" by (simp add: e(2) nm)
qed

lemma isspace_codes: "isspace c \<Longrightarrow> uchar c \<in> {9, 10, 11, 12, 13, 32}"
proof -
  assume "isspace c"
  then have "ord c = 32 \<or> 9 \<le> ord c \<and> ord c \<le> 13" by (auto simp: isspace_ord)
  then have "ord c \<in> {9, 10, 11, 12, 13, 32}" by auto
  then show ?thesis by (auto simp: uchar_of_nat)
qed

lemma parse_digit_space:
  assumes "base \<le> 64" and "isspace c"
  shows "parse_digit base c = None"
proof -
  define digit :: u32 where "digit = ucast (uchar c) - 48"
  have "digit \<in> {0xFFFFFFD9, 0xFFFFFFDA, 0xFFFFFFDB, 0xFFFFFFDC, 0xFFFFFFDD, 0xFFFFFFF0}"
    using isspace_codes [OF assms(2)] by (elim insertE) (simp_all add: digit_def)
  then have "74 < digit" by (elim insertE) simp_all
  then have "\<not> digit \<le> 74" "digit \<ge> base" using assms(1) by (auto simp: word_le_nat_alt word_less_nat_alt)
  then show ?thesis by (simp add: parse_digit_def digit_def [symmetric])
qed

lemma parse_with_base_loop_consumed:
  assumes "parse_with_base_loop base n s = (v, r)" and "base \<le> 64"
  shows "\<exists>a. s = a @ r \<and> (\<forall>c \<in> set a. \<not> isspace c)"
  using assms
proof (induction base n s rule: parse_with_base_loop.induct)
  case (2 base n c s)
  show ?case
  proof (cases "parse_digit base c")
    case None
    with 2 show ?thesis by (intro exI [of _ "[]"]) simp
  next
    case (Some d)
    with 2 parse_digit_space [of base c] obtain a where "s = a @ r" "\<forall>c \<in> set a. \<not> isspace c" "\<not> isspace c"
      by auto
    then show ?thesis by (intro exI [of _ "c # a"]) simp
  qed
qed simp

lemma parse_with_base_cost:
  assumes "parse_with_base s base = (v, Some r)" and "base \<le> 64"
  shows "cost r < cost s"
proof -
  from assms(1) have l: "parse_with_base_loop base 0 s = (v, r)" "r \<noteq> s"
    by (auto simp: parse_with_base_def split: prod.splits if_splits)
  from parse_with_base_loop_consumed [OF l(1) assms(2)] l(2) obtain a where
    "s = a @ r" "\<forall>c \<in> set a. \<not> isspace c" "a \<noteq> []" by auto
  then show ?thesis by (intro cost_suffix_nonspace) auto
qed

lemma cost_drop_le: "cost (drop k s) \<le> cost s"
proof (induction k arbitrary: s)
  case (Suc k)
  show ?case
  proof (cases s)
    case (Cons c t)
    have "cost t \<le> cost (c # t)" by simp
    with Suc [of t] Cons show ?thesis by simp
  qed simp
qed simp

lemma strto_arith_t_cost:
  assumes "strto_arith_t s = (v, Some r)" and "isdigit (deref s)"
  shows "cost r < cost s"
proof -
  from assms(2) have "48 \<le> ord (deref s)" "ord (deref s) \<le> 57" by (auto simp: isdigit_ord)
  then have "unat (ucast (uchar (deref s)) - 48 :: u32) \<le> 9"
    by (simp add: unat_sub word_le_nat_alt unsigned_ucast_eq take_bit_nat_def)
  then have b: "(ucast (uchar (deref s)) - 48 :: u32) \<le> 64" by (simp add: word_le_nat_alt)
  obtain k base where "parse_with_base (drop k s) base = (v, Some r)" "base \<le> 64"
    using assms(1) b unfolding strto_arith_t_def Let_def
    by (auto simp: word_le_nat_alt split: if_splits intro: that [of 0])
  from parse_with_base_cost [OF this] cost_drop_le show ?thesis by (rule less_le_trans)
qed

definition short :: "cstr \<Rightarrow> bool" where
  "short s \<longleftrightarrow> length s < 2 ^ 32 - 1"

lemma arith_lookup_val_harmless:
  assumes "\<And>ms p. short p \<Longrightarrow> harmless (ev ms p)"
    and "\<And>n p. lookupvar h (vars ms) n = Some p \<Longrightarrow> short p"
  shows "harmless (arith_lookup_val ev h ms name len)"
proof (cases "lookupvar h (vars ms) (take len name)")
  case (Some p)
  have "harmless (ev (ms\<lparr>list_of_recursed_names := name # list_of_recursed_names ms\<rparr>) p)"
    by (rule assms(1) [OF assms(2) [OF Some]])
  then show ?thesis
    by (simp add: arith_lookup_val_def Some split: result.splits)
      (simp add: harmless_def)
qed (simp add: arith_lookup_val_def)

lemma eval_name_safe:
  assumes inv: "frame_inv F f" and p: "endofname (expr f) \<noteq> expr f"
    and "\<And>ms p. short p \<Longrightarrow> harmless (ev ms p)"
    and "\<And>vs n p. lookupvar h vs n = Some p \<Longrightarrow> short p"
  shows "outc_inv F (eval_name ev h f (endofname (expr f)))"
proof -
  note q = endofname_cost [OF p]
  let ?p = "endofname (expr f)" and ?e = "dropWhile isspace (endofname (expr f))"
  have gap: "cost ?e + 1 < cost (expr f)" if "isalnum_us (deref ?e)"
  proof (cases "isspace (deref ?p)")
    case True
    with cost_skip q(1) show ?thesis by fastforce
  next
    case False
    then have "?e = ?p" by (cases ?p) auto
    with that q(3) show ?thesis by simp
  qed
  have less: "cost ?e < cost (expr f)" using q(1) cost_skip_le [of ?p] by simp
  note push = push_value_safe [OF inv q(4) q(2) less gap] push_value_safe [OF inv q(4) q(2) q(1)]
  have look: "harmless (arith_lookup_val ev h (mstate f) (expr f) n)" for n
    by (rule arith_lookup_val_harmless [OF assms(3,4)])
  show ?thesis
  proof (cases "arith_lookup_val ev h (mstate f) (expr f) (length (expr f) - length ?p)")
    case (Return v ms)
    with push q(3) push_value_room [OF inv q(4,2)] show ?thesis
      unfolding eval_name_def Let_def skip_whitespace_eq
      by (simp add: outc_inv_def [where r = "Done x" for x])
  qed (use push q(3) push_value_room [OF inv q(4,2)] look [of "length (expr f) - length ?p"] in
    \<open>simp_all add: eval_name_def Let_def outc_inv_def [where r = "Done x" for x]\<close>)
qed

lemma eval_number_safe:
  assumes inv: "frame_inv F f" and d: "isdigit (deref (expr f))"
  shows "outc_inv F (eval_number f)"
proof -
  have "expr f \<noteq> []" using d by auto
  moreover have "isalnum_us (deref (expr f))" using d by (simp add: isalnum_us_def isalnum_iff)
  ultimately have room: "nsp f < length (numstack f)"
    and push: "\<And>e v. cost e < cost (expr f) \<Longrightarrow> \<not> isalnum_us (deref e) \<Longrightarrow>
      outc_inv F (push_value (f\<lparr>expr := e\<rparr>) v)"
    using push_value_safe(2) [OF inv] push_value_room [OF inv] by auto
  show ?thesis
  proof (cases "strto_arith_t (expr f)")
    case (Pair v r)
    with room push strto_arith_t_cost [OF _ d] show ?thesis
      by (auto simp: eval_number_def outc_inv_def [where r = "Done x" for x] isalnum_us_def
          split: option.splits)
  qed
qed

lemma eval_step_safe:
  assumes inv: "frame_inv F f"
    and "\<And>ms p. short p \<Longrightarrow> harmless (ev ms p)"
    and "\<And>vs n p. lookupvar h vs n = Some p \<Longrightarrow> short p"
  shows "outc_inv F (eval_step ev h start f)"
proof -
  define g where "g = f\<lparr>expr := skip_whitespace (expr f)\<rparr>"
  have ginv: "frame_inv F g" unfolding g_def skip_whitespace_eq by (rule frame_inv_skip [OF inv])
  have nospace: "\<not> isspace (deref (expr g))"
    by (simp add: g_def)
  have fin: "outc_inv F (tok_found1 h TOK_RPAREN (g\<lparr>at_END_POINTER := True\<rparr>))" if "expr g = []"
  proof -
    have "after_token (g\<lparr>at_END_POINTER := True\<rparr>) (osp g + credit g)
        (tok_found1 h TOK_RPAREN (g\<lparr>at_END_POINTER := True\<rparr>))"
      using tok_found1_plain [of TOK_RPAREN "g\<lparr>at_END_POINTER := True\<rparr>" h] ginv
      by (simp add: post_ok_def frame_inv_def credit_def)
    then show ?thesis using ginv that
      by (auto simp: after_token_def outc_inv_def frame_inv_def isalnum_us_def split: outc.splits)
  qed
  have op: "\<not> isalnum_us (deref (expr g))"
    if "endofname (expr g) = expr g" "\<not> isdigit (deref (expr g))"
  proof
    assume al: "isalnum_us (deref (expr g))"
    then have "is_name (deref (expr g))" "is_in_name (deref (expr g))"
      using that(2) by (auto simp: isalnum_us_def isalnum_iff is_name_def is_in_name_def)
    with that(1) show False
      using length_dropWhile_le [of is_in_name "tl (expr g)"]
      by (cases "expr g") (auto simp: endofname_eq dest: arg_cong [where f = length])
  qed
  show ?thesis
    using fin op nospace eval_name_safe [OF ginv _ assms(2,3)] eval_number_safe [OF ginv]
      eval_operator_safe [OF ginv]
    unfolding eval_step_def g_def [symmetric] Let_def
    by (auto simp: outc_inv_def [where r = "Done x" for x])
qed

lemma eval_loop_safe:
  assumes "frame_inv F f"
    and "\<And>ms p. short p \<Longrightarrow> harmless (ev ms p)"
    and "\<And>vs n p. lookupvar h vs n = Some p \<Longrightarrow> short p"
  shows "harmless (eval_loop ev h start f)"
  using assms(1)
proof (induction "frame_measure f" arbitrary: f rule: less_induct)
  case less
  have *: "outc_inv F (eval_step ev h start f)"
    by (rule eval_step_safe [OF less.prems assms(2,3)])
  show ?case
  proof (cases "eval_step ev h start f")
    case (Continue f')
    with * have "frame_inv F f'" by (simp add: outc_inv_def)
    from less.hyps [OF eval_step_progress [OF Continue] this] Continue show ?thesis
      by (subst eval_loop.simps) simp
  next
    case (Done r)
    with * show ?thesis by (subst eval_loop.simps) (simp add: outc_inv_def)
  qed
qed

lemma initial_frame_inv:
  assumes "short e"
  shows "frame_inv (cost e) (initial_frame junk ms e)"
proof -
  have l: "cost e < 2 ^ 32 - 1" using assms cost_le_length [of e] by (simp add: short_def)
  have "expr_len_loop e (of_nat (length e)) + 1 = (of_nat (cost e + 1) :: u32)"
    by (simp add: expr_len_initial)
  moreover have "unat (of_nat (cost e + 1) :: u32) = cost e + 1"
    using l by (simp only: unat_of_nat take_bit_nat_eq_self_iff) (simp add: take_bit_nat_eq_self)
  moreover from this have "unat ((of_nat (cost e + 1) :: u32) div 2 + 1) = (cost e + 1) div 2 + 1"
    using l by (simp add: unat_word_ariths unat_div)
  moreover have "credit (initial_frame junk ms e) = 0"
    by (simp add: initial_frame_def Let_def credit_def)
  ultimately show ?thesis
    by (simp add: initial_frame_def Let_def frame_inv_def add.commute)
qed

lemma evaluate_string_safe:
  assumes "\<And>vs n p. lookupvar h vs n = Some p \<Longrightarrow> short p" and "short e"
  shows "harmless (evaluate_string depth junk h ms e)"
  using assms(2)
proof (induction depth arbitrary: ms e)
  case (Suc depth)
  have "short (skip_whitespace e)"
    using Suc.prems length_dropWhile_le [of isspace e] unfolding skip_whitespace_eq short_def by linarith
  from eval_loop_safe [OF initial_frame_inv [OF this] Suc.IH assms(1)] show ?case
    by (simp add: Let_def)
qed simp


definition demo_hooks :: "unit hooks" where
  "demo_hooks = \<lparr>lookupvar = (\<lambda>_ n. if n = ''a'' then Some ''1<<64'' else None), setvar = (\<lambda>_ _ vs. vs)\<rparr>"

definition zeroes :: "nat \<Rightarrow> var_or_num" where
  "zeroes i = \<lparr>cval = 0, var_name = None\<rparr>"

lemma demo_shift: "arith 2 zeroes demo_hooks () ''2 + a'' = Undefined UB_shift"
  by code_simp



end
