(* ===== verification/Hash_Base.thy ===== *)
theory Hash_Base
  imports Bb_Prelude
begin

text \<open>
  What the digests of \<^verbatim>\<open>libbb/hash_md5_sha.c\<close> share: rotations, the little-endian view of a byte
  buffer as an array of words, byte swapping, \<^verbatim>\<open>memcpy\<close> into a buffer, and the cutting of a
  message into blocks.
\<close>

subsection \<open>Rotations\<close>

definition rotl32 :: "u32 \<Rightarrow> nat \<Rightarrow> u32" where
  "rotl32 x n = push_bit n x OR drop_bit (32 - n) x"

definition rotr32 :: "u32 \<Rightarrow> nat \<Rightarrow> u32" where
  "rotr32 x n = drop_bit n x OR push_bit (32 - n) x"

definition rotr64 :: "u64 \<Rightarrow> nat \<Rightarrow> u64" where
  "rotr64 x n = drop_bit n x OR push_bit (64 - n) x"

definition rotl64 :: "u64 \<Rightarrow> nat \<Rightarrow> u64" where
  "rotl64 x n = push_bit n x OR drop_bit (64 - n) x"

subsection \<open>Bytes and words\<close>

fun store_le :: "nat \<Rightarrow> 'a::len word \<Rightarrow> byte list" where
  "store_le 0 x = []"
| "store_le (Suc n) x = ucast x # store_le n (drop_bit 8 x)"

fun load_le :: "byte list \<Rightarrow> 'a::len word" where
  "load_le [] = 0"
| "load_le (b # bs) = ucast b OR push_bit 8 (load_le bs)"

definition bswap32 :: "u32 \<Rightarrow> u32" where
  "bswap32 x = load_le (rev (store_le 4 x))"

definition bswap64 :: "u64 \<Rightarrow> u64" where
  "bswap64 x = load_le (rev (store_le 8 x))"

fun chunks :: "nat \<Rightarrow> 'a list \<Rightarrow> 'a list list" where
  "chunks n xs = (if n = 0 \<or> xs = [] then [] else take n xs # chunks n (drop n xs))"

declare chunks.simps [simp del]

definition words32 :: "byte list \<Rightarrow> u32 list" where
  "words32 buf = map load_le (chunks 4 buf)"

definition words64 :: "byte list \<Rightarrow> u64 list" where
  "words64 buf = map load_le (chunks 8 buf)"

text \<open>\<^verbatim>\<open>memcpy(buf + pos, xs, n)\<close>.\<close>

definition blit :: "'a list \<Rightarrow> nat \<Rightarrow> 'a list \<Rightarrow> 'a list" where
  "blit buf pos xs = take pos buf @ xs @ drop (pos + length xs) buf"

text \<open>\<^verbatim>\<open>hash[0] += x0; hash[1] += x1; ...\<close>\<close>

definition add_to :: "'a::len word list \<Rightarrow> 'a word list \<Rightarrow> 'a word list" where
  "add_to hash xs = map2 (+) hash xs @ drop (length xs) hash"

subsection \<open>Lemmas\<close>

lemma store_le_length [simp]: "length (store_le n x) = n"
  by (induction n arbitrary: x) auto

lemma bit_load_le:
  "bit (load_le bs :: 'a::len word) i \<longleftrightarrow>
     i < LENGTH('a) \<and> i div 8 < length bs \<and> bit (bs ! (i div 8)) (i mod 8)"
proof (induction bs arbitrary: i)
  case (Cons b bs)
  show ?case
  proof (cases "i < 8")
    case True
    then show ?thesis by (simp add: bit_or_iff bit_push_bit_iff bit_ucast_iff)
  next
    case False
    then have "i div 8 = Suc ((i - 8) div 8)" "i mod 8 = (i - 8) mod 8"
      by (simp_all add: le_div_geq le_mod_geq)
    with False Cons [of "i - 8"] show ?thesis
      by (auto simp: bit_or_iff bit_push_bit_iff bit_ucast_iff dest: bit_imp_le_length)
  qed
qed simp

lemma nth_store_le: "k < n \<Longrightarrow> store_le n x ! k = ucast (drop_bit (8 * k) x)"
proof (induction n arbitrary: x k)
  case (Suc n)
  then show ?case
    by (cases k) (auto simp: drop_bit_drop_bit add.commute)
qed simp

lemma load_store_le: "LENGTH('a::len) \<le> 8 * n \<Longrightarrow> load_le (store_le n (x :: 'a word)) = x"
  by (rule bit_word_eqI)
    (auto simp: bit_load_le nth_store_le bit_ucast_iff bit_drop_bit_eq)

lemma store_load_le:
  assumes "length bs = n" and "LENGTH('a::len) = 8 * n"
  shows "store_le n (load_le bs :: 'a word) = bs"
proof (rule nth_equalityI)
  fix k assume "k < length (store_le n (load_le bs :: 'a word))"
  then have k: "k < n" by simp
  show "store_le n (load_le bs :: 'a word) ! k = bs ! k"
  proof (rule bit_word_eqI)
    fix i assume "i < LENGTH(8)"
    then have i: "i < 8" by simp
    have "(8 * k + i) div 8 = k" "(8 * k + i) mod 8 = i" "8 * k + i < 8 * n" using i k by auto
    with i k assms show "bit (store_le n (load_le bs :: 'a word) ! k) i = bit (bs ! k) i"
      by (simp add: nth_store_le bit_ucast_iff bit_drop_bit_eq bit_load_le)
  qed
qed (simp add: assms)

lemma fold_upt_invariant:
  assumes "P a s" and "\<And>t s. a \<le> t \<Longrightarrow> t < b \<Longrightarrow> P t s \<Longrightarrow> P (Suc t) (f t s)" and "a \<le> b"
  shows "P b (fold f [a..<b] s)"
  using assms(3,2)
proof (induction b rule: dec_induct)
  case base
  with assms(1) show ?case by simp
next
  case (step n)
  then show ?case by simp
qed

lemma blit_length [simp]: "pos + length xs \<le> length buf \<Longrightarrow> length (blit buf pos xs) = length buf"
  by (simp add: blit_def)

lemma take_blit: "pos + length xs \<le> length buf \<Longrightarrow> take (pos + length xs) (blit buf pos xs) = take pos buf @ xs"
  by (simp add: blit_def)

lemma add_to_length [simp]: "length xs \<le> length hash \<Longrightarrow> length (add_to hash xs) = length hash"
  by (simp add: add_to_def)

lemma chunks_Nil [simp]: "chunks n [] = []"
  by (simp add: chunks.simps)

lemma chunks_step: "0 < n \<Longrightarrow> xs \<noteq> [] \<Longrightarrow> chunks n xs = take n xs # chunks n (drop n xs)"
  by (subst chunks.simps) simp

lemma chunks_append:
  assumes "length xs = k * n" and "0 < n"
  shows "chunks n (xs @ ys) = chunks n xs @ chunks n ys"
  using assms(1)
proof (induction k arbitrary: xs)
  case (Suc k)
  then have "n \<le> length xs" "length (drop n xs) = k * n" "xs \<noteq> []" using assms(2) by auto
  from this chunks_step [OF assms(2) this(3)] Suc.IH [OF this(2)] show ?case
    using chunks_step [of n "xs @ ys"] assms(2) by simp
qed simp

lemma chunks_block: "0 < n \<Longrightarrow> length xs = n \<Longrightarrow> chunks n xs = [xs]"
  by (cases "xs = []") (simp_all add: chunks_step)

lemma chunks_count:
  assumes "length xs = k * n" and "0 < n"
  shows "length (chunks n xs) = k \<and> (\<forall>c \<in> set (chunks n xs). length c = n)"
  using assms(1)
proof (induction k arbitrary: xs)
  case (Suc k)
  then have "n \<le> length xs" "length (drop n xs) = k * n" "xs \<noteq> []" using assms(2) by auto
  then have "chunks n xs = take n xs # chunks n (drop n xs)" "length (take n xs) = n"
    using chunks_step [OF assms(2)] by simp_all
  moreover note Suc.IH [OF \<open>length (drop n xs) = k * n\<close>]
  ultimately show ?case by (simp only: list.size list.set) auto
qed simp

end
