(* ===== verification/Hash_Md5.thy ===== *)
theory Hash_Md5
  imports Hash_Base
begin

text \<open>
  \<^verbatim>\<open>md5_process_block64\<close> of \<^verbatim>\<open>libbb/hash_md5_sha.c\<close> in its four forms, selected at build time by
  \<^verbatim>\<open>MD5_SMALL\<close> (0: straight-line code, 1: rounds unrolled by four, 2: four loops, 3: one loop), and
  that they agree.  The working variables A, B, C, D are a quadruple.
\<close>

subsection \<open>Tables and functions\<close>

definition FF :: "u32 \<Rightarrow> u32 \<Rightarrow> u32 \<Rightarrow> u32" where "FF b c d = d XOR (b AND (c XOR d))"
definition FG :: "u32 \<Rightarrow> u32 \<Rightarrow> u32 \<Rightarrow> u32" where "FG b c d = FF d b c"
definition FH :: "u32 \<Rightarrow> u32 \<Rightarrow> u32 \<Rightarrow> u32" where "FH b c d = b XOR c XOR d"
definition FI :: "u32 \<Rightarrow> u32 \<Rightarrow> u32 \<Rightarrow> u32" where "FI b c d = c XOR (b OR NOT d)"

definition C_array :: "u32 list" where
  "C_array =
   [0xd76aa478, 0xe8c7b756, 0x242070db, 0xc1bdceee, 0xf57c0faf, 0x4787c62a, 0xa8304613, 0xfd469501,
    0x698098d8, 0x8b44f7af, 0xffff5bb1, 0x895cd7be, 0x6b901122, 0xfd987193, 0xa679438e, 0x49b40821,
    0xf61e2562, 0xc040b340, 0x265e5a51, 0xe9b6c7aa, 0xd62f105d, 0x02441453, 0xd8a1e681, 0xe7d3fbc8,
    0x21e1cde6, 0xc33707d6, 0xf4d50d87, 0x455a14ed, 0xa9e3e905, 0xfcefa3f8, 0x676f02d9, 0x8d2a4c8a,
    0xfffa3942, 0x8771f681, 0x6d9d6122, 0xfde5380c, 0xa4beea44, 0x4bdecfa9, 0xf6bb4b60, 0xbebfbc70,
    0x289b7ec6, 0xeaa127fa, 0xd4ef3085, 0x4881d05, 0xd9d4d039, 0xe6db99e5, 0x1fa27cf8, 0xc4ac5665,
    0xf4292244, 0x432aff97, 0xab9423a7, 0xfc93a039, 0x655b59c3, 0x8f0ccc92, 0xffeff47d, 0x85845dd1,
    0x6fa87e4f, 0xfe2ce6e0, 0xa3014314, 0x4e0811a1, 0xf7537e82, 0xbd3af235, 0x2ad7d2bb, 0xeb86d391]"

text \<open>The table of rounds 2 to 4, and the table with round 1 in front that \<^verbatim>\<open>MD5_SMALL > 1\<close> has.\<close>

definition P_array234 :: "nat list" where
  "P_array234 =
   [1, 6, 11, 0, 5, 10, 15, 4, 9, 14, 3, 8, 13, 2, 7, 12,
    5, 8, 11, 14, 1, 4, 7, 10, 13, 0, 3, 6, 9, 12, 15, 2,
    0, 7, 14, 5, 12, 3, 10, 1, 8, 15, 6, 13, 4, 11, 2, 9]"

definition P_array :: "nat list" where
  "P_array = [0, 1, 2, 3, 4, 5, 6, 7, 8, 9, 10, 11, 12, 13, 14, 15] @ P_array234"

definition S_array :: "nat list" where
  "S_array = [7, 12, 17, 22, 5, 9, 14, 20, 4, 11, 16, 23, 6, 10, 15, 21]"

type_synonym regs = "u32 \<times> u32 \<times> u32 \<times> u32"

subsection \<open>MD5_SMALL = 3\<close>

definition md5_step3 :: "u32 list \<Rightarrow> nat \<Rightarrow> regs \<Rightarrow> regs" where
  "md5_step3 words i r =
    (case r of (A, B, C, D) \<Rightarrow>
      let temp = A;
          temp = temp + (if i div 16 = 0 then FF B C D else if i div 16 = 1 then FG B C D
                         else if i div 16 = 2 then FH B C D else FI B C D);
          temp = temp + (words ! (P_array ! i) + C_array ! i);
          temp = rotl32 temp (S_array ! (4 * (i div 16) + i mod 4));
          temp = temp + B
      in (D, temp, B, C))"

definition md5_small3 :: "u32 list \<Rightarrow> regs \<Rightarrow> regs" where
  "md5_small3 words r = fold (md5_step3 words) [0..<64] r"

subsection \<open>MD5_SMALL = 2\<close>

definition md5_step2 :: "(u32 \<Rightarrow> u32 \<Rightarrow> u32 \<Rightarrow> u32) \<Rightarrow> u32 list \<Rightarrow> nat \<Rightarrow> nat \<Rightarrow> regs \<Rightarrow> regs" where
  "md5_step2 f words r i abcd =
    (case abcd of (A, B, C, D) \<Rightarrow>
      let temp = A + f B C D + words ! (P_array ! (16 * r + i)) + C_array ! (16 * r + i);
          temp = rotl32 temp (S_array ! (4 * r + i mod 4));
          temp = temp + B
      in (D, temp, B, C))"

definition md5_small2 :: "u32 list \<Rightarrow> regs \<Rightarrow> regs" where
  "md5_small2 words r =
     fold (md5_step2 FI words 3) [0..<16]
      (fold (md5_step2 FH words 2) [0..<16]
        (fold (md5_step2 FG words 1) [0..<16]
          (fold (md5_step2 FF words 0) [0..<16] r)))"

subsection \<open>MD5_SMALL = 1 and 0\<close>

text \<open>The macro \<^verbatim>\<open>OP(f, a, b, c, d, k, s, T)\<close>: the new value of \<^verbatim>\<open>a\<close>.\<close>

definition OP :: "(u32 \<Rightarrow> u32 \<Rightarrow> u32 \<Rightarrow> u32) \<Rightarrow> u32 \<Rightarrow> u32 \<Rightarrow> u32 \<Rightarrow> u32 \<Rightarrow> u32 \<Rightarrow> nat \<Rightarrow> u32 \<Rightarrow> u32" where
  "OP f a b c d w s T = rotl32 (a + (f b c d + w + T)) s + b"

text \<open>One turn of a loop body: four operations on A, D, C, B.\<close>

definition md5_quad ::
  "(u32 \<Rightarrow> u32 \<Rightarrow> u32 \<Rightarrow> u32) \<Rightarrow> nat \<Rightarrow> nat \<Rightarrow> nat \<Rightarrow> nat \<Rightarrow> u32 list \<Rightarrow> nat list \<Rightarrow> u32 list \<Rightarrow> regs \<Rightarrow> regs" where
  "md5_quad f s1 s2 s3 s4 words pp pc r =
    (case r of (A, B, C, D) \<Rightarrow>
      let A = OP f A B C D (words ! (pp ! 0)) s1 (pc ! 0);
          D = OP f D A B C (words ! (pp ! 1)) s2 (pc ! 1);
          C = OP f C D A B (words ! (pp ! 2)) s3 (pc ! 2);
          B = OP f B C D A (words ! (pp ! 3)) s4 (pc ! 3)
      in (A, B, C, D))"

text \<open>In round 1 \<^verbatim>\<open>*words++\<close> walks the words in order.\<close>

definition md5_small1 :: "u32 list \<Rightarrow> regs \<Rightarrow> regs" where
  "md5_small1 words r =
    (let r = fold (\<lambda>i. md5_quad FF 7 12 17 22 words [4*i, 4*i+1, 4*i+2, 4*i+3] (drop (4*i) C_array)) [0..<4] r;
         r = fold (\<lambda>i. md5_quad FG 5 9 14 20 words (drop (4*i) P_array234) (drop (16+4*i) C_array)) [0..<4] r;
         r = fold (\<lambda>i. md5_quad FH 4 11 16 23 words (drop (16+4*i) P_array234) (drop (32+4*i) C_array)) [0..<4] r
     in fold (\<lambda>i. md5_quad FI 6 10 15 21 words (drop (32+4*i) P_array234) (drop (48+4*i) C_array)) [0..<4] r)"

text \<open>
  The straight-line form: each line is four \<^verbatim>\<open>OP\<close> statements of the source, on A, D, C, B with
  the word index, the rotation and the constant the source writes out.
\<close>

definition md5_line ::
  "(u32 \<Rightarrow> u32 \<Rightarrow> u32 \<Rightarrow> u32) \<Rightarrow> u32 list \<Rightarrow> (nat \<times> nat \<times> u32) list \<Rightarrow> regs \<Rightarrow> regs" where
  "md5_line f words args r =
    (case args of
       [(k1, s1, T1), (k2, s2, T2), (k3, s3, T3), (k4, s4, T4)] \<Rightarrow>
         md5_quad f s1 s2 s3 s4 words [k1, k2, k3, k4] [T1, T2, T3, T4] r
     | _ \<Rightarrow> r)"

definition md5_lines1 :: "(nat \<times> nat \<times> u32) list list" where
  "md5_lines1 =
   [[(0, 7, 0xd76aa478), (1, 12, 0xe8c7b756), (2, 17, 0x242070db), (3, 22, 0xc1bdceee)],
    [(4, 7, 0xf57c0faf), (5, 12, 0x4787c62a), (6, 17, 0xa8304613), (7, 22, 0xfd469501)],
    [(8, 7, 0x698098d8), (9, 12, 0x8b44f7af), (10, 17, 0xffff5bb1), (11, 22, 0x895cd7be)],
    [(12, 7, 0x6b901122), (13, 12, 0xfd987193), (14, 17, 0xa679438e), (15, 22, 0x49b40821)]]"

definition md5_lines2 :: "(nat \<times> nat \<times> u32) list list" where
  "md5_lines2 =
   [[(1, 5, 0xf61e2562), (6, 9, 0xc040b340), (11, 14, 0x265e5a51), (0, 20, 0xe9b6c7aa)],
    [(5, 5, 0xd62f105d), (10, 9, 0x02441453), (15, 14, 0xd8a1e681), (4, 20, 0xe7d3fbc8)],
    [(9, 5, 0x21e1cde6), (14, 9, 0xc33707d6), (3, 14, 0xf4d50d87), (8, 20, 0x455a14ed)],
    [(13, 5, 0xa9e3e905), (2, 9, 0xfcefa3f8), (7, 14, 0x676f02d9), (12, 20, 0x8d2a4c8a)]]"

definition md5_lines3 :: "(nat \<times> nat \<times> u32) list list" where
  "md5_lines3 =
   [[(5, 4, 0xfffa3942), (8, 11, 0x8771f681), (11, 16, 0x6d9d6122), (14, 23, 0xfde5380c)],
    [(1, 4, 0xa4beea44), (4, 11, 0x4bdecfa9), (7, 16, 0xf6bb4b60), (10, 23, 0xbebfbc70)],
    [(13, 4, 0x289b7ec6), (0, 11, 0xeaa127fa), (3, 16, 0xd4ef3085), (6, 23, 0x04881d05)],
    [(9, 4, 0xd9d4d039), (12, 11, 0xe6db99e5), (15, 16, 0x1fa27cf8), (2, 23, 0xc4ac5665)]]"

definition md5_lines4 :: "(nat \<times> nat \<times> u32) list list" where
  "md5_lines4 =
   [[(0, 6, 0xf4292244), (7, 10, 0x432aff97), (14, 15, 0xab9423a7), (5, 21, 0xfc93a039)],
    [(12, 6, 0x655b59c3), (3, 10, 0x8f0ccc92), (10, 15, 0xffeff47d), (1, 21, 0x85845dd1)],
    [(8, 6, 0x6fa87e4f), (15, 10, 0xfe2ce6e0), (6, 15, 0xa3014314), (13, 21, 0x4e0811a1)],
    [(4, 6, 0xf7537e82), (11, 10, 0xbd3af235), (2, 15, 0x2ad7d2bb), (9, 21, 0xeb86d391)]]"

definition md5_small0 :: "u32 list \<Rightarrow> regs \<Rightarrow> regs" where
  "md5_small0 words r =
    (let r = fold (md5_line FF words) md5_lines1 r;
         r = fold (md5_line FG words) md5_lines2 r;
         r = fold (md5_line FH words) md5_lines3 r
     in fold (md5_line FI words) md5_lines4 r)"

subsection \<open>The function\<close>

definition md5_rounds :: "nat \<Rightarrow> u32 list \<Rightarrow> regs \<Rightarrow> regs" where
  "md5_rounds small =
    (if small = 0 then md5_small0 else if small = 1 then md5_small1
     else if small = 2 then md5_small2 else md5_small3)"

definition md5_process_block64 :: "nat \<Rightarrow> byte list \<Rightarrow> u32 list \<Rightarrow> u32 list" where
  "md5_process_block64 small wbuffer hash =
    (case md5_rounds small (words32 wbuffer) (hash ! 0, hash ! 1, hash ! 2, hash ! 3) of
       (A, B, C, D) \<Rightarrow> add_to hash [A, B, C, D])"

subsection \<open>The four forms agree\<close>

lemma fold_upt_shift: "fold f [k..<k + n] x = fold (\<lambda>i. f (k + i)) [0..<n] x"
proof -
  have "[k..<k + n] = map (\<lambda>i. k + i) [0..<n]" by (simp add: map_add_upt add.commute)
  then show ?thesis by (simp add: fold_map comp_def)
qed

lemma fold_concat_lists: "fold f (concat xss) x = fold (fold f) xss x"
  by (induction xss arbitrary: x) auto

lemma fold_upt_split: "fold f [0..<n + k] x = fold (\<lambda>i. f (n + i)) [0..<k] (fold f [0..<n] x)"
proof -
  have "[0..<n + k] = [0..<n] @ [n..<n + k]" by (rule upt_add_eq_append) simp
  then show ?thesis by (simp add: fold_upt_shift)
qed

lemma md5_step_round:
  "i < 16 \<Longrightarrow> md5_step3 words i = md5_step2 FF words 0 i"
  "i < 16 \<Longrightarrow> md5_step3 words (16 + i) = md5_step2 FG words 1 i"
  "i < 16 \<Longrightarrow> md5_step3 words (32 + i) = md5_step2 FH words 2 i"
  "i < 16 \<Longrightarrow> md5_step3 words (48 + i) = md5_step2 FI words 3 i"
proof -
  have "i < 16 \<Longrightarrow> (16 * r + i) div 16 = r \<and> (16 * r + i) mod 4 = i mod 4" for r i :: nat
    by (simp add: mod_add_eq [symmetric, of "16 * r"])
  from this [of _ 0] this [of _ 1] this [of _ 2] this [of _ 3]
  show "i < 16 \<Longrightarrow> md5_step3 words i = md5_step2 FF words 0 i"
    "i < 16 \<Longrightarrow> md5_step3 words (16 + i) = md5_step2 FG words 1 i"
    "i < 16 \<Longrightarrow> md5_step3 words (32 + i) = md5_step2 FH words 2 i"
    "i < 16 \<Longrightarrow> md5_step3 words (48 + i) = md5_step2 FI words 3 i"
    by (auto simp: md5_step3_def md5_step2_def Let_def add.assoc fun_eq_iff)
qed

lemma md5_small3_eq_small2: "md5_small3 words r = md5_small2 words r"
proof -
  have cong: "fold f [0..<16] x = fold g [0..<16] x" if "\<And>i. i < 16 \<Longrightarrow> f i = g i"
    for f g :: "nat \<Rightarrow> regs \<Rightarrow> regs" and x
    using that by (intro fold_cong) auto
  have "md5_small3 words r =
      fold (\<lambda>i. md5_step3 words (48 + i)) [0..<16] (fold (\<lambda>i. md5_step3 words (32 + i)) [0..<16]
        (fold (\<lambda>i. md5_step3 words (16 + i)) [0..<16] (fold (md5_step3 words) [0..<16] r)))"
    using fold_upt_split [of "md5_step3 words" 48 16 r] fold_upt_split [of "md5_step3 words" 32 16 r]
      fold_upt_split [of "md5_step3 words" 16 16 r]
    by (simp add: md5_small3_def)
  also have "\<dots> = md5_small2 words r"
    unfolding md5_small2_def
    by (simp only: cong [where f = "md5_step3 words", OF md5_step_round(1)]
        cong [where f = "\<lambda>i. md5_step3 words (16 + i)", OF md5_step_round(2)]
        cong [where f = "\<lambda>i. md5_step3 words (32 + i)", OF md5_step_round(3)]
        cong [where f = "\<lambda>i. md5_step3 words (48 + i)", OF md5_step_round(4)])
  finally show ?thesis .
qed

text \<open>Four rotated steps are one group of four in-place operations.\<close>

definition quad4 ::
  "(u32 \<Rightarrow> u32 \<Rightarrow> u32 \<Rightarrow> u32) \<Rightarrow> (nat \<times> u32 \<times> u32) list \<Rightarrow> regs \<Rightarrow> regs" where
  "quad4 f args r = fold (\<lambda>(s, w, T) (A, B, C, D). (D, OP f A B C D w s T, B, C)) args r"

lemma md5_quad_eq_quad4:
  "md5_quad f s1 s2 s3 s4 words pp pc r =
   quad4 f [(s1, words ! (pp ! 0), pc ! 0), (s2, words ! (pp ! 1), pc ! 1),
            (s3, words ! (pp ! 2), pc ! 2), (s4, words ! (pp ! 3), pc ! 3)] r"
  by (cases r) (simp add: md5_quad_def quad4_def Let_def)

lemma md5_step2_eq_quad4:
  "md5_step2 f words r i = quad4 f [(S_array ! (4 * r + i mod 4), words ! (P_array ! (16 * r + i)), C_array ! (16 * r + i))]"
  by (auto simp: md5_step2_def quad4_def OP_def Let_def add.assoc fun_eq_iff)

lemma quad4_compose: "quad4 f ys (quad4 f xs r) = quad4 f (xs @ ys) r"
  by (simp add: quad4_def)

lemmas md5_tables = C_array_def P_array_def P_array234_def S_array_def
  md5_lines1_def md5_lines2_def md5_lines3_def md5_lines4_def

lemma upt16: "[0..<16] = [0, 1, 2, 3, 4, 5, 6, 7, 8, 9, 10, 11, 12, 13, 14, 15 :: nat]"
  by code_simp

lemma upt4: "[0..<4] = [0, 1, 2, 3 :: nat]"
  by code_simp

lemma md5_rounds_quad4:
  "fold (md5_step2 FF words 0) [0..<16] r =
   fold (\<lambda>i. md5_quad FF 7 12 17 22 words [4*i, 4*i+1, 4*i+2, 4*i+3] (drop (4*i) C_array)) [0..<4] r"
  "fold (md5_step2 FG words 1) [0..<16] r =
   fold (\<lambda>i. md5_quad FG 5 9 14 20 words (drop (4*i) P_array234) (drop (16+4*i) C_array)) [0..<4] r"
  "fold (md5_step2 FH words 2) [0..<16] r =
   fold (\<lambda>i. md5_quad FH 4 11 16 23 words (drop (16+4*i) P_array234) (drop (32+4*i) C_array)) [0..<4] r"
  "fold (md5_step2 FI words 3) [0..<16] r =
   fold (\<lambda>i. md5_quad FI 6 10 15 21 words (drop (32+4*i) P_array234) (drop (48+4*i) C_array)) [0..<4] r"
  by (simp_all add: upt16 upt4 md5_step2_eq_quad4 md5_quad_eq_quad4 quad4_compose md5_tables numeral_2_eq_2)

lemma md5_small2_eq_small1: "md5_small2 words r = md5_small1 words r"
  by (simp only: md5_small2_def md5_small1_def md5_rounds_quad4 Let_def)

lemma md5_small1_eq_small0: "md5_small1 words r = md5_small0 words r"
  by (simp add: md5_small1_def md5_small0_def Let_def upt4 md5_line_def md5_quad_eq_quad4 md5_tables
      numeral_2_eq_2)

text \<open>MD5 compresses a block to the same value under every setting of \<^verbatim>\<open>MD5_SMALL\<close>: the unrolled,
  the half-unrolled and the two looping forms are one function.\<close>

theorem md5_small_irrelevant:
  "md5_process_block64 small wbuffer hash = md5_process_block64 small' wbuffer hash"
  by (simp add: md5_process_block64_def md5_rounds_def md5_small3_eq_small2 md5_small2_eq_small1
      md5_small1_eq_small0)

end
