(* ===== verification/Hash_Sha.thy ===== *)
theory Hash_Sha
  imports Hash_Base
begin

text \<open>
  The block functions of SHA-1, SHA-256 and SHA-512 of \<^verbatim>\<open>libbb/hash_md5_sha.c\<close>.  SHA-1 has three
  forms in C, selected by \<^verbatim>\<open>SHA1_SMALL\<close> (0: unrolled with a ring of 16 words, 1: one loop per
  round with a mirrored array of 32 words, 2 or 3: one nested loop); they are compared with the
  schedule of 80 words of FIPS 180.
\<close>

subsection \<open>SHA-1, compact form\<close>

type_synonym regs5 = "u32 \<times> u32 \<times> u32 \<times> u32 \<times> u32"

definition rconsts :: "u32 list" where
  "rconsts = [0x5A827999, 0x6ED9EBA1, 0x8F1BBCDC, 0xCA62C1D6]"

definition mix32 :: "u32 list \<Rightarrow> nat \<Rightarrow> u32" where
  "mix32 W n = rotl32 (W ! (n+13) XOR W ! (n+8) XOR W ! (n+2) XOR W ! n) 1"

definition mirror :: "u32 list \<Rightarrow> nat \<Rightarrow> u32 \<Rightarrow> u32 list" where
  "mirror W n v = W[n + 16 := v, n := v]"

definition sha1_compact_step :: "nat \<Rightarrow> nat \<Rightarrow> u32 list \<times> nat \<times> regs5 \<Rightarrow> u32 list \<times> nat \<times> regs5" where
  "sha1_compact_step i j s =
    (case s of (W, n, a, b, c, d, e) \<Rightarrow>
      let work = c XOR d;
          (work, ge16) =
            (if i = 0 then ((work AND b) XOR d, j \<le> 3)
             else (if i = 2 then ((b OR c) AND d) OR (b AND c) else work XOR b, True));
          W = (if ge16 then mirror W n (mix32 W n) else W);
          work = work + W ! n;
          work = work + (e + rotl32 a 5 + rconsts ! i)
      in (W, (n + 1) mod 16, work, a, rotl32 b 30, c, d))"

definition sha1_compact :: "byte list \<Rightarrow> regs5 \<Rightarrow> regs5" where
  "sha1_compact wbuffer r =
    (let w = map bswap32 (words32 wbuffer)
     in snd (snd (fold (\<lambda>i. fold (\<lambda>j. sha1_compact_step i j) (rev [0..<20])) [0..<4] (w @ w, 0, r))))"

subsection \<open>SHA-1, one loop per round\<close>

text \<open>The body shared by the loops: \<open>v\<close> is stored in both halves of \<^verbatim>\<open>W\<close>.\<close>

definition sha1_medium_op ::
  "(u32 \<Rightarrow> u32 \<Rightarrow> u32 \<Rightarrow> u32) \<Rightarrow> nat \<Rightarrow> u32 \<Rightarrow> u32 list \<times> nat \<times> regs5 \<Rightarrow> u32 list \<times> nat \<times> regs5" where
  "sha1_medium_op expr i v s =
    (case s of (W, n, a, b, c, d, e) \<Rightarrow>
      let work = expr b c d;
          W = mirror W n v;
          work = work + W ! n;
          work = work + (e + rotl32 a 5 + rconsts ! i)
      in (W, (n + 1) mod 16, work, a, rotl32 b 30, c, d))"

definition sha1_medium_mix :: "(u32 \<Rightarrow> u32 \<Rightarrow> u32 \<Rightarrow> u32) \<Rightarrow> nat \<Rightarrow> u32 list \<times> nat \<times> regs5 \<Rightarrow> u32 list \<times> nat \<times> regs5" where
  "sha1_medium_mix expr i s = (case s of (W, n, r) \<Rightarrow> sha1_medium_op expr i (mix32 W n) s)"

definition choice :: "u32 \<Rightarrow> u32 \<Rightarrow> u32 \<Rightarrow> u32" where "choice b c d = ((c XOR d) AND b) XOR d"
definition parity3 :: "u32 \<Rightarrow> u32 \<Rightarrow> u32 \<Rightarrow> u32" where "parity3 b c d = c XOR d XOR b"
definition majority :: "u32 \<Rightarrow> u32 \<Rightarrow> u32 \<Rightarrow> u32" where "majority b c d = ((b OR c) AND d) OR (b AND c)"

text \<open>\<open>W0\<close> is the array before it is written.\<close>

definition sha1_medium :: "u32 list \<Rightarrow> byte list \<Rightarrow> regs5 \<Rightarrow> regs5" where
  "sha1_medium W0 wbuffer r =
    (let words = words32 wbuffer;
         s = fold (\<lambda>n. sha1_medium_op choice 0 (bswap32 (words ! n))) [0..<16] (W0, 0, r);
         s = fold (\<lambda>_. sha1_medium_mix choice 0) [0..<4] s;
         s = fold (\<lambda>_. sha1_medium_mix parity3 1) [0..<20] s;
         s = fold (\<lambda>_. sha1_medium_mix majority 2) [0..<20] s;
         s = fold (\<lambda>_. sha1_medium_mix parity3 3) [0..<20] s
     in snd (snd s))"

subsection \<open>SHA-1, unrolled\<close>

text \<open>The macro \<^verbatim>\<open>OP(A,B,C,D,E, n)\<close> on the ring of 16 words: the new ring, B and E.\<close>

definition sha1_OP ::
  "(u32 \<Rightarrow> u32 \<Rightarrow> u32 \<Rightarrow> u32) \<Rightarrow> u32 list \<Rightarrow> nat \<Rightarrow> u32 list \<Rightarrow> u32 \<Rightarrow> u32 \<Rightarrow> u32 \<Rightarrow> u32 \<Rightarrow> u32 \<Rightarrow> u32 list \<times> u32 \<times> u32" where
  "sha1_OP expr words n W A B C D E =
    (let work = expr B C D;
         v = (if n \<le> 15 then bswap32 (words ! n)
              else rotl32 (W ! ((n+13) mod 16) XOR W ! ((n+8) mod 16) XOR W ! ((n+2) mod 16) XOR W ! (n mod 16)) 1);
         W = W[n mod 16 := v];
         work = work + v;
         E = E + (work + rotl32 A 5 + rconsts ! (n div 20))
     in (W, rotl32 B 30, E))"

text \<open>Five operations, one line of \<^verbatim>\<open>OP20\<close>.\<close>

definition sha1_OP5 ::
  "(u32 \<Rightarrow> u32 \<Rightarrow> u32 \<Rightarrow> u32) \<Rightarrow> u32 list \<Rightarrow> nat \<Rightarrow> u32 list \<times> regs5 \<Rightarrow> u32 list \<times> regs5" where
  "sha1_OP5 expr words n s =
    (case s of (W, a, b, c, d, e) \<Rightarrow>
      let (W, b, e) = sha1_OP expr words n W a b c d e;
          (W, a, d) = sha1_OP expr words (n + 1) W e a b c d;
          (W, e, c) = sha1_OP expr words (n + 2) W d e a b c;
          (W, d, b) = sha1_OP expr words (n + 3) W c d e a b;
          (W, c, a) = sha1_OP expr words (n + 4) W b c d e a
      in (W, a, b, c, d, e))"

definition sha1_OP20 ::
  "(u32 \<Rightarrow> u32 \<Rightarrow> u32 \<Rightarrow> u32) \<Rightarrow> u32 list \<Rightarrow> nat \<Rightarrow> u32 list \<times> regs5 \<Rightarrow> u32 list \<times> regs5" where
  "sha1_OP20 expr words n s =
     sha1_OP5 expr words (n + 15) (sha1_OP5 expr words (n + 10)
       (sha1_OP5 expr words (n + 5) (sha1_OP5 expr words n s)))"

definition sha1_fast :: "u32 list \<Rightarrow> byte list \<Rightarrow> regs5 \<Rightarrow> regs5" where
  "sha1_fast W0 wbuffer r =
    (let words = words32 wbuffer
     in snd (sha1_OP20 parity3 words 60 (sha1_OP20 majority words 40
          (sha1_OP20 parity3 words 20 (sha1_OP20 choice words 0 (W0, r))))))"

subsection \<open>SHA-1, the function\<close>

definition sha1_rounds :: "nat \<Rightarrow> u32 list \<Rightarrow> byte list \<Rightarrow> regs5 \<Rightarrow> regs5" where
  "sha1_rounds small W0 =
     (if small = 0 then sha1_fast W0 else if small = 1 then sha1_medium W0 else sha1_compact)"

definition sha1_process_block64 :: "nat \<Rightarrow> u32 list \<Rightarrow> byte list \<Rightarrow> u32 list \<Rightarrow> u32 list" where
  "sha1_process_block64 small W0 wbuffer hash =
    (case sha1_rounds small W0 wbuffer (hash ! 0, hash ! 1, hash ! 2, hash ! 3, hash ! 4) of
       (a, b, c, d, e) \<Rightarrow> add_to hash [a, b, c, d, e])"

subsection \<open>SHA-256 and SHA-512\<close>

definition K :: "u64 \<Rightarrow> u64" where
  "K v = v"

definition sha_K :: "u64 list" where
  "sha_K =
   [K 0x428a2f98d728ae22, K 0x7137449123ef65cd, K 0xb5c0fbcfec4d3b2f, K 0xe9b5dba58189dbbc,
    K 0x3956c25bf348b538, K 0x59f111f1b605d019, K 0x923f82a4af194f9b, K 0xab1c5ed5da6d8118,
    K 0xd807aa98a3030242, K 0x12835b0145706fbe, K 0x243185be4ee4b28c, K 0x550c7dc3d5ffb4e2,
    K 0x72be5d74f27b896f, K 0x80deb1fe3b1696b1, K 0x9bdc06a725c71235, K 0xc19bf174cf692694,
    K 0xe49b69c19ef14ad2, K 0xefbe4786384f25e3, K 0x0fc19dc68b8cd5b5, K 0x240ca1cc77ac9c65,
    K 0x2de92c6f592b0275, K 0x4a7484aa6ea6e483, K 0x5cb0a9dcbd41fbd4, K 0x76f988da831153b5,
    K 0x983e5152ee66dfab, K 0xa831c66d2db43210, K 0xb00327c898fb213f, K 0xbf597fc7beef0ee4,
    K 0xc6e00bf33da88fc2, K 0xd5a79147930aa725, K 0x06ca6351e003826f, K 0x142929670a0e6e70,
    K 0x27b70a8546d22ffc, K 0x2e1b21385c26c926, K 0x4d2c6dfc5ac42aed, K 0x53380d139d95b3df,
    K 0x650a73548baf63de, K 0x766a0abb3c77b2a8, K 0x81c2c92e47edaee6, K 0x92722c851482353b,
    K 0xa2bfe8a14cf10364, K 0xa81a664bbc423001, K 0xc24b8b70d0f89791, K 0xc76c51a30654be30,
    K 0xd192e819d6ef5218, K 0xd69906245565a910, K 0xf40e35855771202a, K 0x106aa07032bbd1b8,
    K 0x19a4c116b8d2d0c8, K 0x1e376c085141ab53, K 0x2748774cdf8eeb99, K 0x34b0bcb5e19b48a8,
    K 0x391c0cb3c5c95a63, K 0x4ed8aa4ae3418acb, K 0x5b9cca4f7763e373, K 0x682e6ff3d6b2b8a3,
    K 0x748f82ee5defb2fc, K 0x78a5636f43172f60, K 0x84c87814a1f0ab72, K 0x8cc702081a6439ec,
    K 0x90befffa23631e28, K 0xa4506cebde82bde9, K 0xbef9a3f7b2c67915, K 0xc67178f2e372532b,
    K 0xca273eceea26619c, K 0xd186b8c721c0c207, K 0xeada7dd6cde0eb1e, K 0xf57d4f7fee6ed178,
    K 0x06f067aa72176fba, K 0x0a637dc5a2c898a6, K 0x113f9804bef90dae, K 0x1b710b35131c471b,
    K 0x28db77f523047d84, K 0x32caab7b40c72493, K 0x3c9ebe0a15c9bebc, K 0x431d67c49c100d4c,
    K 0x4cc5d4becb3e42b6, K 0x597f299cfc657e2a, K 0x5fcb6fab3ad6faec, K 0x6c44198c4a475817]"

definition Ch :: "'a::len word \<Rightarrow> 'a word \<Rightarrow> 'a word \<Rightarrow> 'a word" where
  "Ch x y z = (x AND y) XOR (NOT x AND z)"
definition Maj :: "'a::len word \<Rightarrow> 'a word \<Rightarrow> 'a word \<Rightarrow> 'a word" where
  "Maj x y z = (x AND y) XOR (x AND z) XOR (y AND z)"
definition S0_256 :: "u32 \<Rightarrow> u32" where "S0_256 x = rotr32 x 2 XOR rotr32 x 13 XOR rotr32 x 22"
definition S1_256 :: "u32 \<Rightarrow> u32" where "S1_256 x = rotr32 x 6 XOR rotr32 x 11 XOR rotr32 x 25"
definition R0_256 :: "u32 \<Rightarrow> u32" where "R0_256 x = rotr32 x 7 XOR rotr32 x 18 XOR drop_bit 3 x"
definition R1_256 :: "u32 \<Rightarrow> u32" where "R1_256 x = rotr32 x 17 XOR rotr32 x 19 XOR drop_bit 10 x"
definition S0_512 :: "u64 \<Rightarrow> u64" where "S0_512 x = rotr64 x 28 XOR rotr64 x 34 XOR rotr64 x 39"
definition S1_512 :: "u64 \<Rightarrow> u64" where "S1_512 x = rotr64 x 14 XOR rotr64 x 18 XOR rotr64 x 41"
definition R0_512 :: "u64 \<Rightarrow> u64" where "R0_512 x = rotr64 x 1 XOR rotr64 x 8 XOR drop_bit 7 x"
definition R1_512 :: "u64 \<Rightarrow> u64" where "R1_512 x = rotr64 x 19 XOR rotr64 x 61 XOR drop_bit 6 x"

text \<open>The message schedule: \<^verbatim>\<open>W[t]\<close> is written in order, the list grows by one word a turn.\<close>

definition extend_W :: "('a::len word \<Rightarrow> 'a word) \<Rightarrow> ('a word \<Rightarrow> 'a word) \<Rightarrow> nat \<Rightarrow> 'a word list \<Rightarrow> 'a word list" where
  "extend_W R0 R1 t W = W @ [R1 (W ! (t - 2)) + W ! (t - 7) + R0 (W ! (t - 15)) + W ! (t - 16)]"

type_synonym 'a regs8 = "'a \<times> 'a \<times> 'a \<times> 'a \<times> 'a \<times> 'a \<times> 'a \<times> 'a"

definition sha2_step ::
  "('a::len word \<Rightarrow> 'a word) \<Rightarrow> ('a word \<Rightarrow> 'a word) \<Rightarrow> 'a word \<Rightarrow> 'a word \<Rightarrow> 'a word regs8 \<Rightarrow> 'a word regs8" where
  "sha2_step S0 S1 K_t W_t r =
    (case r of (a, b, c, d, e, f, g, h) \<Rightarrow>
      let T1 = h + S1 e + Ch e f g + K_t + W_t;
          T2 = S0 a + Maj a b c
      in (T1 + T2, a, b, c, d + T1, e, f, g))"

definition regs8_of :: "'a list \<Rightarrow> 'a regs8" where
  "regs8_of hash = (hash ! 0, hash ! 1, hash ! 2, hash ! 3, hash ! 4, hash ! 5, hash ! 6, hash ! 7)"

definition list_of_regs8 :: "'a regs8 \<Rightarrow> 'a list" where
  "list_of_regs8 r = (case r of (a, b, c, d, e, f, g, h) \<Rightarrow> [a, b, c, d, e, f, g, h])"

definition sha256_process_block64 :: "byte list \<Rightarrow> u32 list \<Rightarrow> u32 list" where
  "sha256_process_block64 wbuffer hash =
    (let W = fold (extend_W R0_256 R1_256) [16..<64] (map bswap32 (words32 wbuffer));
         r = fold (\<lambda>t. sha2_step S0_256 S1_256 (ucast (drop_bit 32 (sha_K ! t))) (W ! t)) [0..<64]
               (regs8_of hash)
     in add_to hash (list_of_regs8 r))"

definition sha512_process_block128 :: "byte list \<Rightarrow> u64 list \<Rightarrow> u64 list" where
  "sha512_process_block128 wbuffer hash =
    (let W = fold (extend_W R0_512 R1_512) [16..<80] (map bswap64 (words64 wbuffer));
         r = fold (\<lambda>t. sha2_step S0_512 S1_512 (sha_K ! t) (W ! t)) [0..<80] (regs8_of hash)
     in add_to hash (list_of_regs8 r))"

subsection \<open>The schedule of FIPS 180 and the three forms\<close>

fun sched :: "u32 list \<Rightarrow> nat \<Rightarrow> u32" where
  "sched w t = (if t < 16 then w ! t
     else rotl32 (sched w (t - 3) XOR sched w (t - 8) XOR sched w (t - 14) XOR sched w (t - 16)) 1)"

declare sched.simps [simp del]

definition fips_f :: "nat \<Rightarrow> u32 \<Rightarrow> u32 \<Rightarrow> u32 \<Rightarrow> u32" where
  "fips_f t = (if t < 20 then choice else if t < 40 then parity3 else if t < 60 then majority else parity3)"

definition fips_step :: "u32 list \<Rightarrow> nat \<Rightarrow> regs5 \<Rightarrow> regs5" where
  "fips_step w t r =
    (case r of (a, b, c, d, e) \<Rightarrow>
      (rotl32 a 5 + fips_f t b c d + e + rconsts ! (t div 20) + sched w t, a, rotl32 b 30, c, d))"

definition sha1_fips :: "u32 list \<Rightarrow> regs5 \<Rightarrow> regs5" where
  "sha1_fips w r = fold (fips_step w) [0..<80] r"

text \<open>The last sixteen words before \<open>m\<close> are in both halves.\<close>

definition sched_ok :: "u32 list \<Rightarrow> nat \<Rightarrow> u32 list \<Rightarrow> bool" where
  "sched_ok w m W \<longleftrightarrow> length W = 32 \<and>
    (\<forall>s. s < m \<longrightarrow> m \<le> s + 16 \<longrightarrow> W ! (s mod 16) = sched w s \<and> W ! (s mod 16 + 16) = sched w s)"

lemma sched_ok_at:
  assumes "sched_ok w t W" and "s < t" and "t \<le> s + 16" and "k mod 16 = s mod 16" and "k < 32"
  shows "W ! k = sched w s"
proof (cases "k < 16")
  case True
  with assms show ?thesis by (auto simp: sched_ok_def)
next
  case False
  with assms(4,5) have "k = s mod 16 + 16" by (simp add: le_mod_geq)
  with assms show ?thesis by (auto simp: sched_ok_def)
qed

lemma mix32_sched:
  assumes "sched_ok w t W" and "16 \<le> t"
  shows "mix32 W (t mod 16) = sched w t"
proof -
  have wrapped: "(t mod 16 + (16 - k)) mod 16 = (t - k) mod 16" if "k \<le> 16" for k
  proof -
    have "(t mod 16 + (16 - k)) mod 16 = (t + (16 - k)) mod 16" by (simp add: mod_add_left_eq)
    also have "t + (16 - k) = (t - k) + 16" using that assms(2) by simp
    finally show ?thesis by simp
  qed
  have "W ! (t mod 16 + (16 - k)) = sched w (t - k)" if "0 < k" "k \<le> 16" for k
    by (rule sched_ok_at [OF assms(1)]) (use that assms(2) wrapped in auto)
  from this [of 3] this [of 8] this [of 14] this [of 16]
  have at: "W ! (t mod 16 + 13) = sched w (t - 3)" "W ! (t mod 16 + 8) = sched w (t - 8)"
    "W ! (t mod 16 + 2) = sched w (t - 14)" "W ! (t mod 16) = sched w (t - 16)"
    by simp_all
  have eq: "sched w t =
      rotl32 (sched w (t - 3) XOR sched w (t - 8) XOR sched w (t - 14) XOR sched w (t - 16)) 1"
  proof -
    have "\<not> t < 16" using assms(2) by simp
    then show ?thesis by (rule trans [OF sched.simps if_not_P])
  qed
  show ?thesis unfolding mix32_def at eq by (rule refl)
qed

lemma same_residue:
  assumes "s mod 16 = t mod 16" and "s \<le> t" and "t < s + 16"
  shows "s = (t :: nat)"
proof -
  have "16 dvd t - s" using assms(1,2) by (metis mod_eq_dvd_iff_nat)
  with assms(2,3) show ?thesis using nat_dvd_not_less [of "t - s" 16] by linarith
qed

lemma sched_ok_mirror:
  assumes "sched_ok w t W"
  shows "sched_ok w (Suc t) (mirror W (t mod 16) (sched w t))"
proof -
  have len: "length W = 32" using assms by (simp add: sched_ok_def)
  have "mirror W (t mod 16) (sched w t) ! (s mod 16) = sched w s \<and>
      mirror W (t mod 16) (sched w t) ! (s mod 16 + 16) = sched w s"
    if s: "s < Suc t" "Suc t \<le> s + 16" for s
  proof (cases "s = t")
    case True
    with len show ?thesis by (simp add: mirror_def nth_list_update)
  next
    case False
    then have "s mod 16 \<noteq> t mod 16" using s same_residue by force
    moreover have "W ! (s mod 16) = sched w s" "W ! (s mod 16 + 16) = sched w s"
      using assms s False by (auto simp: sched_ok_def)
    moreover have "t mod 16 < 16" "s mod 16 < 16" by simp_all
    ultimately show ?thesis using len by (simp add: mirror_def nth_list_update)
  qed
  then show ?thesis using len by (simp add: sched_ok_def mirror_def)
qed

text \<open>The compact form.\<close>

lemma choice_commute: "((c XOR d) AND b) XOR d = choice b c d" "c XOR d XOR b = parity3 b c d"
  "((b OR c) AND d) OR (b AND c) = majority b c d"
  by (simp_all add: choice_def parity3_def majority_def)

definition compact_inv :: "u32 list \<Rightarrow> regs5 \<Rightarrow> nat \<Rightarrow> u32 list \<times> nat \<times> regs5 \<Rightarrow> bool" where
  "compact_inv w r t s \<longleftrightarrow>
    (case s of (W, n, r') \<Rightarrow> sched_ok w (max 16 t) W \<and> n = t mod 16 \<and> r' = fold (fips_step w) [0..<t] r)"

lemma compact_step:
  assumes "compact_inv w r t s" and "t < 80"
  shows "compact_inv w r (Suc t) (sha1_compact_step (t div 20) (19 - t mod 20) s)"
proof -
  obtain W n a b c d e where s: "s = (W, n, a, b, c, d, e)" by (cases s)
  from assms have W: "sched_ok w (max 16 t) W" and n: "n = t mod 16"
    and r: "fold (fips_step w) [0..<t] r = (a, b, c, d, e)"
    by (simp_all add: compact_inv_def s)
  define W' where "W' = (if 16 \<le> t then mirror W n (mix32 W n) else W)"
  have W': "sched_ok w (max 16 (Suc t)) W'"
  proof (cases "16 \<le> t")
    case True
    with W sched_ok_mirror [of w t W] mix32_sched [of w t W] show ?thesis
      by (simp add: W'_def n max_def)
  next
    case False
    then have "max 16 t = 16" "max 16 (Suc t) = 16" by simp_all
    with W False show ?thesis by (simp add: W'_def)
  qed
  have v: "W' ! n = sched w t"
    by (rule sched_ok_at [OF W']) (auto simp: n)
  have i: "t div 20 = 0 \<longleftrightarrow> t < 20" by (simp add: div_eq_0_iff)
  have i2: "t div 20 = 2 \<longleftrightarrow> 40 \<le> t \<and> t < 60"
    using div_nat_eqI [of 20 2 t] div_times_less_eq_dividend [of t 20] dividend_less_div_times [of 20 t] by auto
  have f: "(if t div 20 = 0 then ((c XOR d) AND b) XOR d
      else if t div 20 = 2 then ((b OR c) AND d) OR (b AND c) else c XOR d XOR b) = fips_f t b c d"
    using assms(2) by (auto simp: i i2 fips_f_def choice_commute)
  have g: "(t div 20 = 0 \<longrightarrow> 19 - t mod 20 \<le> 3) \<longleftrightarrow> 16 \<le> t" using i by auto
  have step: "sha1_compact_step (t div 20) (19 - t mod 20) s =
      (W', (n + 1) mod 16, fips_f t b c d + W' ! n + (e + rotl32 a 5 + rconsts ! (t div 20)), a, rotl32 b 30, c, d)"
    unfolding sha1_compact_step_def s f [symmetric] W'_def g [symmetric] by (simp add: Let_def xor.assoc)
  show ?thesis
    unfolding compact_inv_def step
    using W' v r by (simp add: n mod_Suc_eq fips_step_def ac_simps)
qed

lemma compact_order:
  "concat (map (\<lambda>i. map (\<lambda>j. (i, j)) (rev [0..<20])) [0..<4]) =
   map (\<lambda>t. (t div 20, 19 - t mod 20)) [0..<80 :: nat]"
  by code_simp

lemma fold_nested:
  "fold (\<lambda>i. fold (\<lambda>j. f i j) (js i)) is s = fold (\<lambda>(i, j). f i j) (concat (map (\<lambda>i. map (\<lambda>j. (i, j)) (js i)) is)) s"
  by (induction "is" arbitrary: s) (simp_all add: fold_map comp_def)

lemma sha1_compact_fips:
  assumes "length wbuffer = 64"
  shows "sha1_compact wbuffer r = sha1_fips (map bswap32 (words32 wbuffer)) r"
proof -
  define w where "w = map bswap32 (words32 wbuffer)"
  have len: "length w = 16" using chunks_count [of wbuffer 16 4] assms by (simp add: w_def words32_def)
  have "compact_inv w r 0 (w @ w, 0, r)"
    using len by (auto simp: compact_inv_def sched_ok_def nth_append sched.simps)
  then have "compact_inv w r 80 (fold (\<lambda>t. sha1_compact_step (t div 20) (19 - t mod 20)) [0..<80] (w @ w, 0, r))"
    by (rule fold_upt_invariant) (auto intro: compact_step)
  then show ?thesis
    by (auto simp: sha1_compact_def w_def [symmetric] sha1_fips_def Let_def compact_inv_def
        fold_nested compact_order fold_map comp_def)
qed

text \<open>The form with one loop per round.\<close>

definition medium_inv :: "u32 list \<Rightarrow> regs5 \<Rightarrow> nat \<Rightarrow> u32 list \<times> nat \<times> regs5 \<Rightarrow> bool" where
  "medium_inv w r t s \<longleftrightarrow>
    (case s of (W, n, r') \<Rightarrow> sched_ok w t W \<and> n = t mod 16 \<and> r' = fold (fips_step w) [0..<t] r)"

lemma medium_op:
  assumes "medium_inv w r t s" and "v = sched w t" and "expr = fips_f t" and "i = t div 20"
  shows "medium_inv w r (Suc t) (sha1_medium_op expr i v s)"
proof -
  obtain W n a b c d e where s: "s = (W, n, a, b, c, d, e)" by (cases s)
  from assms have W: "sched_ok w t W" and n: "n = t mod 16"
    and r: "fold (fips_step w) [0..<t] r = (a, b, c, d, e)"
    by (simp_all add: medium_inv_def s)
  have "sched_ok w (Suc t) (mirror W n v)" using sched_ok_mirror [OF W] assms(2) n by simp
  moreover from sched_ok_at [OF this, of t n] have "mirror W n v ! n = sched w t" using n by simp
  ultimately show ?thesis using r assms(3,4)
    by (simp add: medium_inv_def sha1_medium_op_def s Let_def n mod_Suc_eq fips_step_def ac_simps)
qed

lemma medium_mix:
  assumes "medium_inv w r t s" and "16 \<le> t" and "expr = fips_f t" and "i = t div 20"
  shows "medium_inv w r (Suc t) (sha1_medium_mix expr i s)"
proof -
  obtain W n r' where s: "s = (W, n, r')" by (cases s)
  with assms mix32_sched have "mix32 W n = sched w t" by (simp add: medium_inv_def)
  from medium_op [OF assms(1) this assms(3,4)] show ?thesis by (simp add: sha1_medium_mix_def s)
qed

lemma medium_mixes:
  assumes "medium_inv w r t s" and "16 \<le> t"
    and "\<And>k. k < m \<Longrightarrow> expr = fips_f (t + k) \<and> i = (t + k) div 20"
  shows "medium_inv w r (t + m) (fold (\<lambda>_. sha1_medium_mix expr i) [0..<m] s)"
proof -
  have "medium_inv w r (t + Suc k) (sha1_medium_mix expr i s')"
    if "k < m" "medium_inv w r (t + k) s'" for k s'
    using medium_mix [OF that(2)] assms(2,3) that(1) by simp
  then show ?thesis
    using fold_upt_invariant [where P = "\<lambda>k. medium_inv w r (t + k)" and a = 0 and b = m] assms(1) by simp
qed

lemma round_of: "k < 20 \<Longrightarrow> (20 * i + k) div 20 = (i :: nat)"
  by simp

lemma sha1_medium_fips:
  assumes "length wbuffer = 64" and "length W0 = 32"
  shows "sha1_medium W0 wbuffer r = sha1_fips (map bswap32 (words32 wbuffer)) r"
proof -
  define w where "w = map bswap32 (words32 wbuffer)"
  have len: "length (words32 wbuffer) = 16" using chunks_count [of wbuffer 16 4] assms by (simp add: words32_def)
  let ?s1 = "fold (\<lambda>n. sha1_medium_op choice 0 (bswap32 (words32 wbuffer ! n))) [0..<16] (W0, 0, r)"
  have "medium_inv w r 0 (W0, 0, r)" using assms(2) by (simp add: medium_inv_def sched_ok_def)
  then have "medium_inv w r 16 ?s1"
    by (rule fold_upt_invariant)
      (auto intro!: medium_op simp: w_def len sched.simps fips_f_def)
  from medium_mixes [OF this, of 4 choice 0]
  have "medium_inv w r 20 (fold (\<lambda>_. sha1_medium_mix choice 0) [0..<4] ?s1)"
    by (simp add: fips_f_def)
  from medium_mixes [OF this, of 20 parity3 1]
  have "medium_inv w r 40 (fold (\<lambda>_. sha1_medium_mix parity3 1) [0..<20]
      (fold (\<lambda>_. sha1_medium_mix choice 0) [0..<4] ?s1))"
    by (simp add: fips_f_def round_of [of _ 1, simplified])
  from medium_mixes [OF this, of 20 majority 2]
  have "medium_inv w r 60 (fold (\<lambda>_. sha1_medium_mix majority 2) [0..<20]
      (fold (\<lambda>_. sha1_medium_mix parity3 1) [0..<20]
        (fold (\<lambda>_. sha1_medium_mix choice 0) [0..<4] ?s1)))"
    by (simp add: fips_f_def round_of [of _ 2, simplified])
  from medium_mixes [OF this, of 20 parity3 3]
  have "medium_inv w r 80 (fold (\<lambda>_. sha1_medium_mix parity3 3) [0..<20]
      (fold (\<lambda>_. sha1_medium_mix majority 2) [0..<20]
        (fold (\<lambda>_. sha1_medium_mix parity3 1) [0..<20]
          (fold (\<lambda>_. sha1_medium_mix choice 0) [0..<4] ?s1))))"
    by (simp add: fips_f_def round_of [of _ 3, simplified])
  then show ?thesis
    by (auto simp: sha1_medium_def sha1_fips_def medium_inv_def w_def [symmetric] Let_def)
qed

text \<open>The unrolled form.\<close>

definition ring_ok :: "u32 list \<Rightarrow> nat \<Rightarrow> u32 list \<Rightarrow> bool" where
  "ring_ok w t W \<longleftrightarrow> length W = 16 \<and> (\<forall>s. s < t \<longrightarrow> t \<le> s + 16 \<longrightarrow> W ! (s mod 16) = sched w s)"

lemma ring_ok_update:
  assumes "ring_ok w t W"
  shows "ring_ok w (Suc t) (W[t mod 16 := sched w t])"
proof -
  have "W[t mod 16 := sched w t] ! (s mod 16) = sched w s" if "s < Suc t" "Suc t \<le> s + 16" for s
  proof (cases "s = t")
    case False
    then have "s mod 16 \<noteq> t mod 16" using that same_residue by force
    with that False assms show ?thesis by (simp add: ring_ok_def)
  qed (use assms in \<open>simp add: ring_ok_def\<close>)
  then show ?thesis using assms by (simp add: ring_ok_def)
qed

lemma ring_mix:
  assumes "ring_ok w n W" and "16 \<le> n"
  shows "rotl32 (W ! ((n+13) mod 16) XOR W ! ((n+8) mod 16) XOR W ! ((n+2) mod 16) XOR W ! (n mod 16)) 1 = sched w n"
proof -
  have "W ! ((n + (16 - k)) mod 16) = sched w (n - k)" if "0 < k" "k \<le> 16" for k
  proof -
    have "n + (16 - k) = (n - k) + 16" using that assms(2) by simp
    then have "(n + (16 - k)) mod 16 = (n - k) mod 16" by simp
    with that assms show ?thesis by (simp add: ring_ok_def)
  qed
  from this [of 3] this [of 8] this [of 14] this [of 16]
  have at: "W ! ((n + 13) mod 16) = sched w (n - 3)" "W ! ((n + 8) mod 16) = sched w (n - 8)"
    "W ! ((n + 2) mod 16) = sched w (n - 14)" "W ! (n mod 16) = sched w (n - 16)"
    by simp_all
  have "\<not> n < 16" using assms(2) by simp
  then have eq: "sched w n =
      rotl32 (sched w (n - 3) XOR sched w (n - 8) XOR sched w (n - 14) XOR sched w (n - 16)) 1"
    by (rule trans [OF sched.simps if_not_P])
  show ?thesis unfolding at eq by (rule refl)
qed

lemma sha1_OP_step:
  assumes "ring_ok w n W" and "w = map bswap32 words" and "length words = 16"
    and "sha1_OP (fips_f n) words n W a b c d e = (W', b', e')"
  shows "ring_ok w (Suc n) W'" and "fips_step w n (a, b, c, d, e) = (e', a, b', c, d)"
proof -
  have "(if n \<le> 15 then bswap32 (words ! n)
      else rotl32 (W ! ((n+13) mod 16) XOR W ! ((n+8) mod 16) XOR W ! ((n+2) mod 16) XOR W ! (n mod 16)) 1)
    = sched w n"
  proof (cases "n \<le> 15")
    case True
    then show ?thesis using assms(2,3) by (subst sched.simps) simp
  qed (simp add: ring_mix [OF assms(1), simplified])
  with assms(4) have "W' = W[n mod 16 := sched w n]" "b' = rotl32 b 30"
    "e' = e + (fips_f n b c d + sched w n + rotl32 a 5 + rconsts ! (n div 20))"
    by (auto simp: sha1_OP_def Let_def)
  with ring_ok_update [OF assms(1)]
  show "ring_ok w (Suc n) W'" "fips_step w n (a, b, c, d, e) = (e', a, b', c, d)"
    by (simp_all add: fips_step_def ac_simps)
qed

definition fast_inv :: "u32 list \<Rightarrow> regs5 \<Rightarrow> nat \<Rightarrow> u32 list \<times> regs5 \<Rightarrow> bool" where
  "fast_inv w r t s \<longleftrightarrow> ring_ok w t (fst s) \<and> snd s = fold (fips_step w) [0..<t] r"

lemma sha1_OP5_steps:
  assumes "fast_inv w r0 n s" and "w = map bswap32 words" and "length words = 16"
    and "\<And>k. k < 5 \<Longrightarrow> expr = fips_f (n + k)"
  shows "fast_inv w r0 (n + 5) (sha1_OP5 expr words n s)"
proof -
  obtain W a b c d e where s: "s = (W, a, b, c, d, e)" by (cases s)
  from assms(1) have W: "ring_ok w n W" and r: "fold (fips_step w) [0..<n] r0 = (a, b, c, d, e)"
    by (simp_all add: fast_inv_def s)
  have f: "expr = fips_f n" "expr = fips_f (n + 1)" "expr = fips_f (n + 2)" "expr = fips_f (n + 3)"
    "expr = fips_f (n + 4)"
    using assms(4) [of 0] assms(4) [of 1] assms(4) [of 2] assms(4) [of 3] assms(4) [of 4] by simp_all
  have next_op: "ring_ok w (Suc m) W'" "fips_step w m (a, b, c, d, e) = (e', a, b', c, d)"
    if "ring_ok w m W" "sha1_OP (fips_f m) words m W a b c d e = (W', b', e')" for m W a b c d e W' b' e'
    using sha1_OP_step [OF that(1) assms(2,3) that(2)] .
  obtain W1 b1 e1 where 1: "sha1_OP expr words n W a b c d e = (W1, b1, e1)" by (metis prod_cases3)
  obtain W2 a2 d2 where 2: "sha1_OP expr words (n + 1) W1 e1 a b1 c d = (W2, a2, d2)" by (metis prod_cases3)
  obtain W3 e3 c3 where 3: "sha1_OP expr words (n + 2) W2 d2 e1 a2 b1 c = (W3, e3, c3)" by (metis prod_cases3)
  obtain W4 d4 b4 where 4: "sha1_OP expr words (n + 3) W3 c3 d2 e3 a2 b1 = (W4, d4, b4)" by (metis prod_cases3)
  obtain W5 c5 a5 where 5: "sha1_OP expr words (n + 4) W4 b4 c3 d4 e3 a2 = (W5, c5, a5)" by (metis prod_cases3)
  note s1 = next_op [OF W 1 [unfolded f(1)]]
  have r2: "ring_ok w (n + 1) W1" using s1(1) by simp
  note s2 = next_op [OF r2 2 [unfolded f(2)]]
  have r3: "ring_ok w (n + 2) W2" using s2(1) by simp
  note s3 = next_op [OF r3 3 [unfolded f(3)]]
  have r4: "ring_ok w (n + 3) W3" using s3(1) by (simp add: numeral_3_eq_3)
  note s4 = next_op [OF r4 4 [unfolded f(4)]]
  have r5: "ring_ok w (n + 4) W4" using s4(1) by (simp add: add.commute)
  note s5 = next_op [OF r5 5 [unfolded f(5)]]
  have "sha1_OP5 expr words n s = (W5, a5, b4, c5, d4, e3)"
    by (simp add: sha1_OP5_def s 1 2 [simplified] 3 [simplified] 4 5 Let_def)
  moreover have "[0..<n + 5] = [0..<n] @ [n, n + 1, n + 2, n + 3, n + 4]"
    using upt_add_eq_append [of 0 n 5] by (simp add: upt_rec)
  then have "fold (fips_step w) [0..<n + 5] r0 = (a5, b4, c5, d4, e3)"
    by (simp only: fold_append comp_apply fold_simps r s1(2) s2(2) s3(2) s4(2) s5(2))
  moreover have "ring_ok w (n + 5) W5" using s5(1) by (simp add: add.commute)
  ultimately show ?thesis by (simp add: fast_inv_def)
qed

lemma sha1_OP20_steps:
  assumes "fast_inv w r0 n s" and "w = map bswap32 words" and "length words = 16"
    and "\<And>k. k < 20 \<Longrightarrow> expr = fips_f (n + k)"
  shows "fast_inv w r0 (n + 20) (sha1_OP20 expr words n s)"
proof -
  have five: "fast_inv w r0 (n + (j + 5)) (sha1_OP5 expr words (n + j) s)"
    if "fast_inv w r0 (n + j) s" "j + 5 \<le> 20" for j s
    using sha1_OP5_steps [OF that(1) assms(2,3)] assms(4) [of "j + k" for k] that(2) by (simp add: add.assoc)
  from five [OF five [OF five [OF five [of 0]]]] assms(1) show ?thesis
    by (simp add: sha1_OP20_def)
qed

lemma sha1_fast_fips:
  assumes "length wbuffer = 64" and "length W0 = 16"
  shows "sha1_fast W0 wbuffer r = sha1_fips (map bswap32 (words32 wbuffer)) r"
proof -
  define w where "w = map bswap32 (words32 wbuffer)"
  have len: "length (words32 wbuffer) = 16" using chunks_count [of wbuffer 16 4] assms by (simp add: words32_def)
  note op20 = sha1_OP20_steps [OF _ w_def len]
  let ?s1 = "sha1_OP20 choice (words32 wbuffer) 0 (W0, r)"
  let ?s2 = "sha1_OP20 parity3 (words32 wbuffer) 20 ?s1"
  let ?s3 = "sha1_OP20 majority (words32 wbuffer) 40 ?s2"
  have "fast_inv w r 0 (W0, r)" using assms(2) by (simp add: fast_inv_def ring_ok_def)
  from op20 [OF this, of choice] have "fast_inv w r 20 ?s1" by (simp add: fips_f_def)
  from op20 [OF this, of parity3] have "fast_inv w r 40 ?s2" by (simp add: fips_f_def)
  from op20 [OF this, of majority] have "fast_inv w r 60 ?s3" by (simp add: fips_f_def)
  from op20 [OF this, of parity3] show ?thesis
    by (simp add: fips_f_def sha1_fast_def sha1_fips_def fast_inv_def w_def [symmetric] Let_def)
qed

text \<open>Every form of the SHA-1 block function (unrolled on a ring of sixteen words, one loop per
  round on a mirrored array, one nested loop) computes the FIPS 180 compression of the block,
  whatever the working array held before.\<close>

theorem sha1_forms_agree:
  assumes "length wbuffer = 64" and "length W0 = (if small = 0 then 16 else 32)"
  shows "sha1_process_block64 small W0 wbuffer hash =
    (case sha1_fips (map bswap32 (words32 wbuffer)) (hash ! 0, hash ! 1, hash ! 2, hash ! 3, hash ! 4) of
       (a, b, c, d, e) \<Rightarrow> add_to hash [a, b, c, d, e])"
  using assms sha1_fast_fips sha1_medium_fips sha1_compact_fips
  by (simp add: sha1_process_block64_def sha1_rounds_def)

theorem sha1_forms_agree_witness:
  "sha1_process_block64 0 (replicate 16 0) (replicate 64 0) [1, 2, 3, 4, 5] =
   sha1_process_block64 3 (replicate 32 0) (replicate 64 0) [1, 2, 3, 4, 5]"
  using sha1_forms_agree [of "replicate 64 0" "replicate 16 0" 0 "[1, 2, 3, 4, 5]"]
    sha1_forms_agree [of "replicate 64 0" "replicate 32 0" 3 "[1, 2, 3, 4, 5]"]
  by simp

end
