(* ===== verification/Hash_Absorb.thy ===== *)
theory Hash_Absorb
  imports Hash_Base
begin

text \<open>
  The interface between the buffering loops (\<^verbatim>\<open>md5_hash\<close>, \<^verbatim>\<open>sha512_hash\<close>, \<^verbatim>\<open>sha3_hash\<close>) and the
  block functions they call.  The three loops fill a buffer of \<open>blk\<close> bytes and process it each
  time it is full; what they compute is proved once here, from the two things a context does:
  take bytes at a position and process a full buffer.
\<close>

subsection \<open>Blocks of a message\<close>

definition full :: "nat \<Rightarrow> 'a list \<Rightarrow> 'a list" where
  "full n m = take (n * (length m div n)) m"

definition rest :: "nat \<Rightarrow> 'a list \<Rightarrow> 'a list" where
  "rest n m = drop (n * (length m div n)) m"

definition blocks :: "nat \<Rightarrow> 'a list \<Rightarrow> 'a list list" where
  "blocks n m = chunks n (full n m)"

lemma full_rest [simp]: "full n m @ rest n m = m"
  by (simp add: full_def rest_def)

lemma rest_length: "length (rest n m) = length m mod n"
  by (simp add: rest_def minus_mult_div_eq_mod)

lemma rest_less: "0 < n \<Longrightarrow> length (rest n m) < n"
  by (simp add: rest_length)

lemma full_length: "length (full n m) = (length m div n) * n"
  by (simp add: full_def min_absorb2 mult.commute)

lemma short_message:
  assumes "length m < n"
  shows "rest n m = m" and "blocks n m = []"
  using assms by (simp_all add: rest_def blocks_def full_def)

lemma cons_block:
  assumes "length b = n" and "0 < n"
  shows "rest n (b @ m) = rest n m" and "blocks n (b @ m) = b # blocks n m"
proof -
  have "length (b @ m) div n = Suc (length m div n)" using assms by (simp add: div_add_self1)
  then have f: "full n (b @ m) = b @ full n m" and "rest n (b @ m) = rest n m"
    using assms by (simp_all add: full_def rest_def)
  then show "rest n (b @ m) = rest n m" by simp
  from f show "blocks n (b @ m) = b # blocks n m"
    using chunks_append [of b 1 n "full n m"] chunks_block [of n b] assms by (simp add: blocks_def)
qed

lemma blocks_append:
  assumes "0 < n"
  shows "rest n (m @ d) = rest n (rest n m @ d)" and "blocks n (m @ d) = blocks n m @ blocks n (rest n m @ d)"
proof -
  have split: "m @ d = full n m @ (rest n m @ d)" by (metis append.assoc full_rest)
  have *: "rest n (f @ x) = rest n x \<and> blocks n (f @ x) = chunks n f @ blocks n x" if "length f = k * n" for f k x
    using that
  proof (induction k arbitrary: f)
    case (Suc k)
    define b g where "b = take n f" and "g = drop n f"
    have fg: "f = b @ g" "length b = n" "length g = k * n" using Suc.prems by (auto simp: b_def g_def)
    have "chunks n f = b # chunks n g"
      using chunks_append [of b 1 n g] chunks_block [of n b] fg assms by simp
    with Suc.IH [OF fg(3)] cons_block [OF fg(2) assms, of "g @ x"] fg(1) show ?case by simp
  qed simp
  show "rest n (m @ d) = rest n (rest n m @ d)" "blocks n (m @ d) = blocks n m @ blocks n (rest n m @ d)"
    using * [OF full_length [of n m], of "rest n m @ d"] unfolding split [symmetric]
    by (simp_all add: blocks_def)
qed

subsection \<open>The interface\<close>

text \<open>
  \<open>rep c q h\<close>: the context \<open>c\<close> has processed blocks down to the chaining value \<open>h\<close> and holds the
  queued bytes \<open>q\<close>.
\<close>

locale absorb =
  fixes blk :: nat
    and put :: "'c \<Rightarrow> nat \<Rightarrow> byte list \<Rightarrow> 'c"
    and block :: "'c \<Rightarrow> 'c"
    and loop :: "'c \<Rightarrow> nat \<Rightarrow> byte list \<Rightarrow> 'c"
    and rep :: "'c \<Rightarrow> byte list \<Rightarrow> 'h \<Rightarrow> bool"
    and compress :: "byte list \<Rightarrow> 'h \<Rightarrow> 'h"
  assumes blk_pos: "0 < blk"
    and put_rep: "rep c q h \<Longrightarrow> length q + length d \<le> blk \<Longrightarrow> rep (put c (length q) d) (q @ d) h"
    and block_rep: "rep c q h \<Longrightarrow> length q = blk \<Longrightarrow> rep (block c) [] (compress q h)"
    and loop_stop: "rep c q h \<Longrightarrow> length q + length d < blk \<Longrightarrow> loop c (length q) d = put c (length q) d"
    and loop_block: "rep c q h \<Longrightarrow> length q < blk \<Longrightarrow> blk \<le> length q + length d \<Longrightarrow>
      loop c (length q) d = loop (block (put c (length q) (take (blk - length q) d))) 0 (drop (blk - length q) d)"
begin

lemma loop_rep:
  "rep c q h \<Longrightarrow> length q < blk \<Longrightarrow>
   rep (loop c (length q) d) (rest blk (q @ d)) (fold compress (blocks blk (q @ d)) h)"
proof (induction "length d" arbitrary: c q h d rule: less_induct)
  case less
  show ?case
  proof (cases "length q + length d < blk")
    case True
    with less.prems show ?thesis by (simp add: loop_stop put_rep short_message)
  next
    case False
    define d1 d2 where "d1 = take (blk - length q) d" and "d2 = drop (blk - length q) d"
    have d: "d = d1 @ d2" "length (q @ d1) = blk" "length d2 < length d"
      using False less.prems(2) by (auto simp: d1_def d2_def)
    have "rep (put c (length q) d1) (q @ d1) h"
      using put_rep [OF less.prems(1)] d(2) by simp
    from block_rep [OF this d(2)] less.hyps [OF d(3), of _ "[]"] blk_pos
    have "rep (loop (block (put c (length q) d1)) 0 d2) (rest blk d2)
        (fold compress (blocks blk d2) (compress (q @ d1) h))" by fastforce
    moreover have "loop c (length q) d = loop (block (put c (length q) d1)) 0 d2"
      using loop_block [OF less.prems] False by (simp add: d1_def d2_def)
    moreover have "q @ d = (q @ d1) @ d2" by (simp add: d(1))
    ultimately show ?thesis using cons_block [OF d(2) blk_pos, of d2] by (simp only:) simp
  qed
qed

lemma loop_message:
  assumes "rep c (rest blk m) (fold compress (blocks blk m) h0)"
  shows "rep (loop c (length m mod blk) d) (rest blk (m @ d)) (fold compress (blocks blk (m @ d)) h0)"
  using loop_rep [OF assms rest_less [OF blk_pos], of d] blocks_append [OF blk_pos, of m d]
  by (simp add: rest_length)

end

text \<open>A digest: its client feeds any number of pieces and asks for the result.\<close>

locale digest =
  fixes feed :: "'c \<Rightarrow> byte list \<Rightarrow> 'c"
    and finish :: "'c \<Rightarrow> byte list"
    and holds :: "'c \<Rightarrow> byte list \<Rightarrow> bool"
    and digest :: "byte list \<Rightarrow> byte list"
  assumes feed_holds: "holds c m \<Longrightarrow> length d < 2 ^ 64 \<Longrightarrow> holds (feed c d) (m @ d)"
    and finish_holds: "holds c m \<Longrightarrow> finish c = digest m"
begin

lemma feed_all:
  "holds c m \<Longrightarrow> \<forall>d \<in> set ds. length d < 2 ^ 64 \<Longrightarrow> holds (foldl feed c ds) (m @ concat ds)"
proof (induction ds arbitrary: c m)
  case (Cons d ds)
  then show ?case using feed_holds [of c m d] Cons.IH [of "feed c d" "m @ d"] by simp
qed simp

lemma finish_feed_all:
  "holds c [] \<Longrightarrow> \<forall>d \<in> set ds. length d < 2 ^ 64 \<Longrightarrow> finish (foldl feed c ds) = digest (concat ds)"
  using feed_all [of c "[]" ds] finish_holds by simp

lemma chunking_irrelevant:
  "holds c [] \<Longrightarrow> \<forall>d \<in> set ds \<union> set es. length d < 2 ^ 64 \<Longrightarrow> concat ds = concat es \<Longrightarrow>
   finish (foldl feed c ds) = finish (foldl feed c es)"
  using finish_feed_all [of c ds] finish_feed_all [of c es] by auto

end

end
