(* ===== verification/Hash_Stream.thy ===== *)
theory Hash_Stream
  imports Hash_Md5 Hash_Sha Hash_Absorb
begin

text \<open>
  The contexts of MD5, SHA-1, SHA-256 and SHA-512 (\<^verbatim>\<open>libbb/hash_md5_sha.c\<close>, \<^verbatim>\<open>include/libbb.h\<close>):
  initialisation, feeding of data and finishing, with the default build options MD5_SMALL=1 and
  SHA1_SMALL=3 on a little-endian CPU without the SHA instructions.  \<^verbatim>\<open>process_block\<close>, a pointer to
  one of three functions, is a tag.
\<close>

subsection \<open>The 64-byte contexts\<close>

datatype block_fn = Md5_block | Sha1_block | Sha256_block

record md5_ctx =
  wbuffer :: "byte list"
  process_block :: block_fn
  total64 :: u64
  hash :: "u32 list"

definition run_block :: "block_fn \<Rightarrow> byte list \<Rightarrow> u32 list \<Rightarrow> u32 list" where
  "run_block fn wb h =
    (case fn of
       Md5_block \<Rightarrow> md5_process_block64 1 wb h
     | Sha1_block \<Rightarrow> sha1_process_block64 3 (replicate 32 0) wb h
     | Sha256_block \<Rightarrow> sha256_process_block64 wb h)"

definition call_process_block :: "md5_ctx \<Rightarrow> md5_ctx" where
  "call_process_block ctx = ctx\<lparr>hash := run_block (process_block ctx) (wbuffer ctx) (hash ctx)\<rparr>"

definition md5_begin :: "md5_ctx \<Rightarrow> md5_ctx" where
  "md5_begin ctx =
     ctx\<lparr>hash := [0x67452301, 0xefcdab89, 0x98badcfe, 0x10325476] @ drop 4 (hash ctx),
         total64 := 0, process_block := Md5_block\<rparr>"

definition sha1_begin :: "md5_ctx \<Rightarrow> md5_ctx" where
  "sha1_begin ctx =
     ctx\<lparr>hash := [0x67452301, 0xefcdab89, 0x98badcfe, 0x10325476, 0xc3d2e1f0] @ drop 5 (hash ctx),
         total64 := 0, process_block := Sha1_block\<rparr>"

definition init256 :: "u32 list" where
  "init256 = [0, 0, 0x6a09e667, 0xbb67ae85, 0x3c6ef372, 0xa54ff53a,
     0x510e527f, 0x9b05688c, 0x1f83d9ab, 0x5be0cd19]"

text \<open>One \<^verbatim>\<open>memcpy\<close> fills \<^verbatim>\<open>total64\<close> and \<^verbatim>\<open>hash\<close>, which are adjacent.\<close>

definition sha256_begin :: "md5_ctx \<Rightarrow> md5_ctx" where
  "sha256_begin ctx =
     ctx\<lparr>total64 := ucast (init256 ! 0) OR push_bit 32 (ucast (init256 ! 1)),
         hash := drop 2 init256, process_block := Sha256_block\<rparr>"

definition ctx_put :: "md5_ctx \<Rightarrow> nat \<Rightarrow> byte list \<Rightarrow> md5_ctx" where
  "ctx_put ctx bufpos d = ctx\<lparr>wbuffer := blit (wbuffer ctx) bufpos d\<rparr>"

function md5_hash_loop :: "md5_ctx \<Rightarrow> nat \<Rightarrow> byte list \<Rightarrow> md5_ctx" where
  "md5_hash_loop ctx bufpos buffer =
    (let remaining = min (64 - bufpos) (length buffer);
         ctx = ctx_put ctx bufpos (take remaining buffer);
         buffer = drop remaining buffer;
         bufpos' = bufpos + remaining
     in if bufpos' \<noteq> 64 then ctx
        else md5_hash_loop (call_process_block ctx) 0 buffer)"
  by pat_completeness auto
termination
  by (relation "measure (\<lambda>(ctx, bufpos, buffer). 2 * length buffer + (if bufpos < 64 then 0 else 1))") auto

declare md5_hash_loop.simps [simp del]

definition md5_hash :: "md5_ctx \<Rightarrow> byte list \<Rightarrow> md5_ctx" where
  "md5_hash ctx buffer =
     md5_hash_loop (ctx\<lparr>total64 := total64 ctx + of_nat (length buffer)\<rparr>)
       (unat (total64 ctx AND 63)) buffer"

function common64_end_loop :: "bool \<Rightarrow> md5_ctx \<Rightarrow> nat \<Rightarrow> md5_ctx" where
  "common64_end_loop swap_needed ctx bufpos =
    (let remaining = 64 - bufpos;
         ctx = ctx_put ctx bufpos (replicate remaining 0);
         t = push_bit 3 (total64 ctx);
         t' = (if swap_needed then bswap64 t else t);
         ctx = (if remaining \<ge> 8 then ctx_put ctx (64 - 8) (store_le 8 t') else ctx);
         ctx = call_process_block ctx
     in if remaining \<ge> 8 then ctx else common64_end_loop swap_needed ctx 0)"
  by pat_completeness auto
termination
  by (relation "measure (\<lambda>(swap_needed, ctx, bufpos). if 64 - bufpos \<ge> 8 then 0 else 1)") auto

declare common64_end_loop.simps [simp del]

definition common64_end :: "md5_ctx \<Rightarrow> bool \<Rightarrow> md5_ctx" where
  "common64_end ctx swap_needed =
    (let bufpos = unat (total64 ctx AND 63)
     in common64_end_loop swap_needed (ctx_put ctx bufpos [0x80]) (bufpos + 1))"

text \<open>The end functions return the bytes of \<^verbatim>\<open>resbuf\<close>; their number is the returned size.\<close>

definition md5_end :: "md5_ctx \<Rightarrow> byte list" where
  "md5_end ctx = concat (map (store_le 4) (take 4 (hash (common64_end ctx False))))"

definition sha1_end :: "md5_ctx \<Rightarrow> byte list" where
  "sha1_end ctx =
    (let ctx = common64_end ctx True;
         hash_size = (if process_block ctx = Sha1_block then 5 else 8)
     in concat (map (\<lambda>h. store_le 4 (bswap32 h)) (take hash_size (hash ctx))))"

subsection \<open>SHA-512\<close>

record sha512_ctx =
  total512 :: "u64 list"
  hash512 :: "u64 list"
  wbuffer512 :: "byte list"

definition init512_lo :: "u32 list" where
  "init512_lo = [0, 0, 0xf3bcc908, 0x84caa73b, 0xfe94f82b, 0x5f1d36f1, 0xade682d1, 0x2b3e6c1f,
     0xfb41bd6b, 0x137e2179]"

definition sha512_begin :: "sha512_ctx \<Rightarrow> sha512_ctx" where
  "sha512_begin ctx =
    (let tp = map2 (\<lambda>hi lo. push_bit 32 (ucast hi) + ucast lo) init256 init512_lo
     in ctx\<lparr>total512 := take 2 tp, hash512 := drop 2 tp\<rparr>)"

definition ctx512_put :: "sha512_ctx \<Rightarrow> nat \<Rightarrow> byte list \<Rightarrow> sha512_ctx" where
  "ctx512_put ctx bufpos d = ctx\<lparr>wbuffer512 := blit (wbuffer512 ctx) bufpos d\<rparr>"

definition sha512_block :: "sha512_ctx \<Rightarrow> sha512_ctx" where
  "sha512_block ctx = ctx\<lparr>hash512 := sha512_process_block128 (wbuffer512 ctx) (hash512 ctx)\<rparr>"

function sha512_hash_loop :: "sha512_ctx \<Rightarrow> nat \<Rightarrow> byte list \<Rightarrow> sha512_ctx" where
  "sha512_hash_loop ctx bufpos buffer =
    (let remaining = min (128 - bufpos) (length buffer);
         ctx = ctx512_put ctx bufpos (take remaining buffer);
         buffer = drop remaining buffer;
         bufpos' = bufpos + remaining
     in if bufpos' \<noteq> 128 then ctx
        else sha512_hash_loop (sha512_block ctx) 0 buffer)"
  by pat_completeness auto
termination
  by (relation "measure (\<lambda>(ctx, bufpos, buffer). 2 * length buffer + (if bufpos < 128 then 0 else 1))") auto

declare sha512_hash_loop.simps [simp del]

definition count_bytes :: "u64 list \<Rightarrow> u64 \<Rightarrow> u64 list" where
  "count_bytes tot len =
    (let lo = tot ! 0 + len
     in if lo < len then [lo, tot ! 1 + 1] else [lo, tot ! 1])"

definition sha512_hash :: "sha512_ctx \<Rightarrow> byte list \<Rightarrow> sha512_ctx" where
  "sha512_hash ctx buffer =
     sha512_hash_loop (ctx\<lparr>total512 := count_bytes (total512 ctx) (of_nat (length buffer))\<rparr>)
       (unat (total512 ctx ! 0 AND 127)) buffer"

function sha512_end_loop :: "sha512_ctx \<Rightarrow> nat \<Rightarrow> sha512_ctx" where
  "sha512_end_loop ctx bufpos =
    (let remaining = 128 - bufpos;
         ctx = ctx512_put ctx bufpos (replicate remaining 0);
         t0 = bswap64 (push_bit 3 (total512 ctx ! 0));
         t1 = bswap64 (push_bit 3 (total512 ctx ! 1) OR drop_bit 61 (total512 ctx ! 0));
         ctx = (if remaining \<ge> 16 then
                  ctx512_put (ctx512_put ctx (128 - 8) (store_le 8 t0)) (128 - 16) (store_le 8 t1)
                else ctx);
         ctx = sha512_block ctx
     in if remaining \<ge> 16 then ctx else sha512_end_loop ctx 0)"
  by pat_completeness auto
termination
  by (relation "measure (\<lambda>(ctx, bufpos). if 128 - bufpos \<ge> 16 then 0 else 1)") auto

declare sha512_end_loop.simps [simp del]

definition sha512_end :: "sha512_ctx \<Rightarrow> byte list" where
  "sha512_end ctx =
    (let bufpos = unat (total512 ctx ! 0 AND 127);
         ctx = sha512_end_loop (ctx512_put ctx bufpos [0x80]) (bufpos + 1)
     in concat (map (\<lambda>h. store_le 8 (bswap64 h)) (hash512 ctx)))"

subsection \<open>The reference: Merkle-Damgard with length padding\<close>

definition md_padding :: "nat \<Rightarrow> nat \<Rightarrow> byte list \<Rightarrow> nat \<Rightarrow> byte list" where
  "md_padding blk lenbytes len n =
     [0x80] @ replicate ((2 * blk - 1 - lenbytes - n mod blk) mod blk) 0 @ len"

definition len64_le :: "nat \<Rightarrow> byte list" where
  "len64_le n = store_le 8 (of_nat (8 * n) :: u64)"

definition padded64 :: "bool \<Rightarrow> byte list \<Rightarrow> byte list" where
  "padded64 big m =
     m @ md_padding 64 8 (if big then rev (len64_le (length m)) else len64_le (length m)) (length m)"

definition md_digest64 :: "block_fn \<Rightarrow> u32 list \<Rightarrow> byte list \<Rightarrow> u32 list" where
  "md_digest64 fn h0 m = fold (run_block fn) (chunks 64 (padded64 (fn \<noteq> Md5_block) m)) h0"

subsection \<open>The 64-byte contexts implement it\<close>

definition rep64 :: "block_fn \<Rightarrow> u64 \<Rightarrow> md5_ctx \<Rightarrow> byte list \<Rightarrow> u32 list \<Rightarrow> bool" where
  "rep64 fn n ctx q h \<longleftrightarrow>
     length (wbuffer ctx) = 64 \<and> process_block ctx = fn \<and> total64 ctx = n \<and> hash ctx = h \<and>
     length q \<le> 64 \<and> take (length q) (wbuffer ctx) = q"

lemma rep64_put:
  "rep64 fn n ctx q h \<Longrightarrow> length q + length d \<le> 64 \<Longrightarrow> rep64 fn n (ctx_put ctx (length q) d) (q @ d) h"
  by (simp add: rep64_def ctx_put_def take_blit)

lemma rep64_block:
  "rep64 fn n ctx q h \<Longrightarrow> length q = 64 \<Longrightarrow> rep64 fn n (call_process_block ctx) [] (run_block fn q h)"
  by (auto simp: rep64_def call_process_block_def)

lemma min_take: "min k (length d) = length (take k d)"
  by simp

interpretation buf64: absorb 64 ctx_put call_process_block md5_hash_loop "rep64 fn n" "run_block fn" for fn n
proof (unfold_locales, goal_cases)
  case (4 c q h d)
  then show ?case by (subst md5_hash_loop.simps) (simp add: Let_def min_def)
next
  case (5 c q h d)
  then show ?case by (subst md5_hash_loop.simps) (simp add: Let_def min_def)
qed (simp_all add: rep64_put rep64_block)

text \<open>The blocks of a padded message: the last one or two hold the queue and the padding.\<close>

lemma chunks_full_rest:
  assumes "0 < n"
  shows "chunks n (m @ p) = blocks n m @ chunks n (rest n m @ p)"
proof -
  have "m @ p = full n m @ (rest n m @ p)" by (metis append.assoc full_rest)
  then have "chunks n (m @ p) = chunks n (full n m @ (rest n m @ p))" by (rule arg_cong)
  with chunks_append [OF full_length assms, of m "rest n m @ p"] show ?thesis by (simp only: blocks_def)
qed

lemma chunks_padded:
  fixes len m :: "byte list"
  assumes "length len = lb" and "lb < blk"
  defines "q \<equiv> rest blk m"
  shows "chunks blk (m @ md_padding blk lb len (length m)) = blocks blk m @
    (if length q + 1 + lb \<le> blk
     then [q @ [0x80] @ replicate (blk - 1 - lb - length q) 0 @ len]
     else [q @ [0x80] @ replicate (blk - 1 - length q) 0, replicate (blk - lb) 0 @ len])"
proof -
  have q: "length q = length m mod blk" "length q < blk"
    using assms(2) by (simp_all add: q_def rest_length)
  show ?thesis
  proof (cases "length q + 1 + lb \<le> blk")
    case True
    have "2 * blk - 1 - lb - length m mod blk = blk + (blk - 1 - lb - length q)"
      using True q by simp
    then have "(2 * blk - 1 - lb - length m mod blk) mod blk = blk - 1 - lb - length q"
      using assms(2) by (simp only: mod_add_self1) simp
    then show ?thesis
      using True q assms(1,2) chunks_full_rest [of blk m]
      by (simp add: md_padding_def q_def [symmetric] chunks_block)
  next
    case False
    have "(2 * blk - 1 - lb - length m mod blk) mod blk = (blk - 1 - length q) + (blk - lb)"
    proof -
      have "2 * blk - 1 - lb - length m mod blk = (blk - 1 - length q) + (blk - lb)"
        using q assms(2) by linarith
      moreover have "2 * blk - 1 - lb - length m mod blk < blk" using False q by linarith
      ultimately show ?thesis by simp
    qed
    then have "rest blk m @ md_padding blk lb len (length m) =
        (q @ [0x80] @ replicate (blk - 1 - length q) 0) @ (replicate (blk - lb) 0 @ len)"
      by (simp add: md_padding_def q_def replicate_add)
    moreover have "length (q @ [0x80] @ replicate (blk - 1 - length q) 0) = 1 * blk"
      "length (replicate (blk - lb) 0 @ len) = blk"
      using q(2) assms(1,2) by simp_all
    ultimately show ?thesis
      using False assms(2) chunks_full_rest [of blk m]
        chunks_append [of "q @ [0x80] @ replicate (blk - 1 - length q) 0" 1 blk "replicate (blk - lb) 0 @ len"]
      by (simp add: chunks_block)
  qed
qed

definition holds64 :: "block_fn \<Rightarrow> u32 list \<Rightarrow> md5_ctx \<Rightarrow> byte list \<Rightarrow> bool" where
  "holds64 fn h0 ctx m \<longleftrightarrow>
     rep64 fn (of_nat (length m)) ctx (rest 64 m) (fold (run_block fn) (blocks 64 m) h0)"

lemma len64: "LENGTH(64) = 64"
  by simp

lemma unat_and_mask:
  "unat (of_nat k AND 63 :: u64) = k mod 64" "unat (of_nat k AND 127 :: u64) = k mod 128"
proof -
  have "(63 :: u64) = mask 6" "(127 :: u64) = mask 7" by (simp_all add: mask_eq_exp_minus_1)
  then have m: "(of_nat k AND 63 :: u64) = take_bit 6 (of_nat k)" "(of_nat k AND 127 :: u64) = take_bit 7 (of_nat k)"
    by (simp_all only: take_bit_eq_mask)
  have "unat (take_bit j (of_nat k :: u64)) = k mod 2 ^ j" if "j \<le> 64" for j
  proof -
    have "unat (take_bit j (of_nat k :: u64)) = take_bit j (take_bit 64 k)"
      by (simp only: unsigned_take_bit_eq unat_of_nat len64 take_bit_nat_def [of 64 k])
    also have "\<dots> = take_bit j k" using that by (simp only: take_bit_take_bit min_absorb1)
    finally show ?thesis by (simp only: take_bit_nat_def)
  qed
  from this [of 6] this [of 7] show
    "unat (of_nat k AND 63 :: u64) = k mod 64" "unat (of_nat k AND 127 :: u64) = k mod 128"
    unfolding m by simp_all
qed

lemma md5_hash_holds:
  assumes "holds64 fn h0 ctx m"
  shows "holds64 fn h0 (md5_hash ctx d) (m @ d)"
proof -
  have n: "total64 ctx = of_nat (length m)" using assms by (simp add: holds64_def rep64_def)
  have "rep64 fn (of_nat (length (m @ d))) (ctx\<lparr>total64 := total64 ctx + of_nat (length d)\<rparr>)
      (rest 64 m) (fold (run_block fn) (blocks 64 m) h0)"
    using assms by (simp add: holds64_def rep64_def)
  from buf64.loop_message [OF this, of d] show ?thesis
    by (simp add: md5_hash_def holds64_def n unat_and_mask)
qed

lemma rep64_overwrite:
  assumes "rep64 fn n ctx (x @ y) h" and "length z = length y"
  shows "rep64 fn n (ctx_put ctx (length x) z) (x @ z) h"
proof -
  have "take (length x) (wbuffer ctx) = x"
  proof -
    have "take (length (x @ y)) (wbuffer ctx) = x @ y" using assms(1) by (simp add: rep64_def)
    then have "take (length x) (take (length (x @ y)) (wbuffer ctx)) = take (length x) (x @ y)" by (rule arg_cong)
    then show ?thesis by simp
  qed
  then have "rep64 fn n ctx x h" using assms(1) by (simp add: rep64_def)
  with rep64_put [of fn n ctx x h z] assms show ?thesis by (simp add: rep64_def)
qed

lemma common64_end_digest:
  assumes "holds64 fn h0 ctx m"
  shows "hash (common64_end ctx (fn \<noteq> Md5_block)) = md_digest64 fn h0 m \<and>
    process_block (common64_end ctx (fn \<noteq> Md5_block)) = fn"
proof -
  define q h n where "q = rest 64 m" and "h = fold (run_block fn) (blocks 64 m) h0" and "n = (of_nat (length m) :: u64)"
  define swap where "swap \<longleftrightarrow> fn \<noteq> Md5_block"
  define len where "len = (if swap then rev (len64_le (length m)) else len64_le (length m))"
  have rep: "rep64 fn n ctx q h" using assms by (simp add: holds64_def q_def h_def n_def)
  have q: "length q < 64" "unat (total64 ctx AND 63) = length q"
    using rep by (simp_all add: q_def rest_length rep64_def n_def unat_and_mask)
  have t: "store_le 8 (if swap then bswap64 (push_bit 3 n) else push_bit 3 n) = len"
  proof -
    have "push_bit 3 n = (of_nat (8 * length m) :: u64)" by (simp add: n_def push_bit_eq_mult)
    moreover have "store_le 8 (bswap64 x) = rev (store_le 8 x)" for x
      by (simp add: bswap64_def store_load_le)
    ultimately show ?thesis by (simp add: len_def len64_le_def)
  qed
  have len: "length len = 8" by (simp add: len_def len64_le_def)
  define c1 where "c1 = ctx_put ctx (length q) [0x80]"
  have c1: "rep64 fn n c1 (q @ [0x80]) h" unfolding c1_def by (rule rep64_put [OF rep]) (use q in simp)
  have last: "rep64 fn n (common64_end_loop swap c (length p)) [] (run_block fn (p @ replicate (56 - length p) 0 @ len) h')"
    if "rep64 fn n c p h'" "length p \<le> 56" for c p h'
  proof -
    let ?c1 = "ctx_put c (length p) (replicate (64 - length p) 0)"
    let ?c2 = "ctx_put ?c1 56 len"
    have "rep64 fn n ?c1 ((p @ replicate (56 - length p) 0) @ replicate 8 0) h'"
      using rep64_put [OF that(1), of "replicate (64 - length p) 0"] that(2)
      by (simp add: replicate_add [symmetric])
    from rep64_overwrite [OF this, of len] have "rep64 fn n ?c2 (p @ replicate (56 - length p) 0 @ len) h'"
      using that(2) len by simp
    from rep64_block [OF this] that(2) len
    have "rep64 fn n (call_process_block ?c2) [] (run_block fn (p @ replicate (56 - length p) 0 @ len) h')" by simp
    moreover have "total64 ?c1 = n" using that(1) by (simp add: ctx_put_def rep64_def)
    moreover have "8 \<le> 64 - length p" using that(2) by simp
    ultimately show ?thesis
      using t by (cases swap; subst common64_end_loop.simps) (simp_all add: Let_def)
  qed
  have res: "rep64 fn n (common64_end ctx swap) [] (fold (run_block fn) (chunks 64 (padded64 swap m)) h0)"
  proof (cases "length q \<le> 55")
    case True
    from last [OF c1] True chunks_padded [of len 8 64 m] len show ?thesis
      by (simp add: common64_end_def Let_def q(2) c1_def padded64_def len_def [symmetric] q_def [symmetric] h_def)
  next
    case False
    let ?c2 = "call_process_block (ctx_put c1 (length q + 1) (replicate (63 - length q) 0))"
    have "rep64 fn n (ctx_put c1 (length q + 1) (replicate (63 - length q) 0))
        (q @ [0x80] @ replicate (63 - length q) 0) h"
      using rep64_put [OF c1, of "replicate (63 - length q) 0"] q(1) by simp
    from rep64_block [OF this] q(1)
    have "rep64 fn n ?c2 [] (run_block fn (q @ [0x80] @ replicate (63 - length q) 0) h)" by simp
    from last [OF this] have "rep64 fn n (common64_end_loop swap ?c2 0) []
        (run_block fn (replicate 56 0 @ len) (run_block fn (q @ [0x80] @ replicate (63 - length q) 0) h))" by simp
    moreover have "common64_end_loop swap c1 (length q + 1) = common64_end_loop swap ?c2 0"
      using False q(1) by (subst common64_end_loop.simps) (simp add: Let_def)
    ultimately show ?thesis
      using False chunks_padded [of len 8 64 m] len
      by (simp add: common64_end_def Let_def q(2) c1_def padded64_def len_def [symmetric] q_def [symmetric] h_def)
  qed
  then show ?thesis by (simp add: rep64_def md_digest64_def swap_def)
qed

subsection \<open>MD5, SHA-1 and SHA-256 as digests\<close>

definition md5_init :: "u32 list" where
  "md5_init = [0x67452301, 0xefcdab89, 0x98badcfe, 0x10325476]"

definition sha1_init :: "u32 list" where
  "sha1_init = md5_init @ [0xc3d2e1f0]"

definition md5_ref :: "byte list \<Rightarrow> byte list" where
  "md5_ref m = concat (map (store_le 4) (md_digest64 Md5_block md5_init m))"

definition sha1_ref :: "byte list \<Rightarrow> byte list" where
  "sha1_ref m = concat (map (\<lambda>h. store_le 4 (bswap32 h)) (md_digest64 Sha1_block sha1_init m))"

definition sha256_ref :: "byte list \<Rightarrow> byte list" where
  "sha256_ref m = concat (map (\<lambda>h. store_le 4 (bswap32 h)) (md_digest64 Sha256_block (drop 2 init256) m))"

text \<open>Words of \<^verbatim>\<open>hash\<close> past those a function uses are carried along untouched.\<close>

definition hash_words :: "block_fn \<Rightarrow> nat" where
  "hash_words fn = (case fn of Md5_block \<Rightarrow> 4 | Sha1_block \<Rightarrow> 5 | Sha256_block \<Rightarrow> 8)"

lemma add_to_append: "length xs \<le> length x \<Longrightarrow> add_to (x @ y) xs = add_to x xs @ y"
  by (simp add: add_to_def zip_append1)

lemma run_block_frame:
  assumes "length x = hash_words fn"
  shows "run_block fn b (x @ y) = run_block fn b x @ y" and "length (run_block fn b x) = hash_words fn"
proof -
  have "run_block fn b (x @ y) = run_block fn b x @ y \<and> length (run_block fn b x) = hash_words fn"
  proof (cases fn)
    case Md5_block
    with assms show ?thesis
      by (simp add: hash_words_def run_block_def md5_process_block64_def nth_append add_to_append
          split: prod.split)
  next
    case Sha1_block
    with assms show ?thesis
      by (simp add: hash_words_def run_block_def sha1_process_block64_def nth_append add_to_append
          split: prod.split)
  next
    case Sha256_block
    with assms show ?thesis
      by (simp add: hash_words_def run_block_def sha256_process_block64_def regs8_of_def list_of_regs8_def
          nth_append add_to_append Let_def split: prod.split)
  qed
  then show "run_block fn b (x @ y) = run_block fn b x @ y" "length (run_block fn b x) = hash_words fn"
    by simp_all
qed

lemma md_digest64_frame:
  assumes "length x = hash_words fn"
  shows "take (hash_words fn) (md_digest64 fn (x @ y) m) = md_digest64 fn x m"
proof -
  have "fold (run_block fn) bs (x @ y) = fold (run_block fn) bs x @ y \<and>
      length (fold (run_block fn) bs x) = hash_words fn" for bs
    using assms by (induction bs arbitrary: x) (simp_all add: run_block_frame)
  then show ?thesis by (simp add: md_digest64_def)
qed

lemma holds64_begin:
  assumes "length (wbuffer ctx) = 64"
  shows "holds64 Md5_block (md5_init @ drop 4 (hash ctx)) (md5_begin ctx) []"
    and "holds64 Sha1_block (sha1_init @ drop 5 (hash ctx)) (sha1_begin ctx) []"
    and "holds64 Sha256_block (drop 2 init256) (sha256_begin ctx) []"
  using assms
  by (simp_all add: holds64_def rep64_def rest_def blocks_def full_def md5_begin_def sha1_begin_def
      sha256_begin_def md5_init_def sha1_init_def init256_def)

interpretation md5: digest md5_hash md5_end "holds64 Md5_block (md5_init @ t)" md5_ref for t
proof (unfold_locales, goal_cases)
  case (2 c m)
  then show ?case
    using common64_end_digest [OF 2] md_digest64_frame [of md5_init Md5_block t m]
    by (simp add: md5_end_def md5_ref_def hash_words_def md5_init_def)
qed (simp add: md5_hash_holds)

interpretation sha1: digest md5_hash sha1_end "holds64 Sha1_block (sha1_init @ t)" sha1_ref for t
proof (unfold_locales, goal_cases)
  case (2 c m)
  then show ?case
    using common64_end_digest [OF 2] md_digest64_frame [of sha1_init Sha1_block t m]
    by (simp add: sha1_end_def sha1_ref_def hash_words_def sha1_init_def md5_init_def Let_def)
qed (simp add: md5_hash_holds)

interpretation sha256: digest md5_hash sha1_end "holds64 Sha256_block (drop 2 init256)" sha256_ref
proof (unfold_locales, goal_cases)
  case (2 c m)
  then show ?case
    using common64_end_digest [OF 2] md_digest64_frame [of "drop 2 init256" Sha256_block "[]" m]
    by (simp add: sha1_end_def sha256_ref_def hash_words_def init256_def Let_def)
qed (simp add: md5_hash_holds)


definition blank_ctx :: md5_ctx where
  "blank_ctx = \<lparr>wbuffer = replicate 64 0, process_block = Md5_block, total64 = 7, hash = replicate 8 1\<rparr>"


text \<open>SHA-1, through the same feeding function with the big-endian length: the FIPS 180 digest of
  the concatenation.\<close>

theorem sha1_stream:
  assumes "length (wbuffer ctx) = 64" and "\<forall>d \<in> set ds. length d < 2 ^ 64"
  shows "sha1_end (foldl md5_hash (sha1_begin ctx) ds) = sha1_ref (concat ds)"
  by (rule sha1.finish_feed_all [OF holds64_begin(2) [OF assms(1)] assms(2)])

theorem sha1_stream_witness:
  "sha1_end (foldl md5_hash (sha1_begin blank_ctx) [[1], [2, 3]]) = sha1_ref [1, 2, 3]"
  using sha1_stream [of blank_ctx "[[1], [2, 3]]"] by (simp add: blank_ctx_def)



subsection \<open>SHA-512\<close>

text \<open>The 128-bit count of bits, most significant byte first.\<close>

definition len128_be :: "nat \<Rightarrow> byte list" where
  "len128_be n = rev (store_le 16 (of_nat (8 * n) :: 128 word))"

definition sha512_ref :: "byte list \<Rightarrow> byte list" where
  "sha512_ref m =
     concat (map (\<lambda>h. store_le 8 (bswap64 h))
       (fold sha512_process_block128 (chunks 128 (m @ md_padding 128 16 (len128_be (length m)) (length m)))
         (drop 2 (map2 (\<lambda>hi lo. push_bit 32 (ucast hi) + ucast lo) init256 init512_lo))))"

definition rep512 :: "u64 list \<Rightarrow> sha512_ctx \<Rightarrow> byte list \<Rightarrow> u64 list \<Rightarrow> bool" where
  "rep512 n ctx q h \<longleftrightarrow>
     length (wbuffer512 ctx) = 128 \<and> total512 ctx = n \<and> hash512 ctx = h \<and>
     length q \<le> 128 \<and> take (length q) (wbuffer512 ctx) = q"

lemma rep512_put:
  "rep512 n ctx q h \<Longrightarrow> length q + length d \<le> 128 \<Longrightarrow> rep512 n (ctx512_put ctx (length q) d) (q @ d) h"
  by (simp add: rep512_def ctx512_put_def take_blit)

lemma rep512_block:
  "rep512 n ctx q h \<Longrightarrow> length q = 128 \<Longrightarrow> rep512 n (sha512_block ctx) [] (sha512_process_block128 q h)"
  by (auto simp: rep512_def sha512_block_def)

lemma rep512_overwrite:
  assumes "rep512 n ctx (x @ y @ w) h" and "length z = length y"
  shows "rep512 n (ctx512_put ctx (length x) z) (x @ z @ w) h"
proof -
  define b where "b = wbuffer512 ctx"
  have b: "take (length x + length y + length w) b = x @ y @ w" "length b = 128"
    "length x + length y + length w \<le> 128"
    using assms(1) by (simp_all add: rep512_def b_def add.assoc)
  define t where "t = drop (length x + length y + length w) b"
  have eq: "b = x @ y @ w @ t" using b(1) append_take_drop_id [of "length x + length y + length w" b]
    by (simp add: t_def)
  have "blit b (length x) z = x @ z @ w @ t" by (simp add: blit_def eq assms(2))
  with assms b eq show ?thesis by (simp add: rep512_def ctx512_put_def b_def [symmetric])
qed

interpretation buf128: absorb 128 ctx512_put sha512_block sha512_hash_loop "rep512 n" sha512_process_block128 for n
proof (unfold_locales, goal_cases)
  case (4 c q h d)
  then show ?case by (subst sha512_hash_loop.simps) (simp add: Let_def min_def)
next
  case (5 c q h d)
  then show ?case by (subst sha512_hash_loop.simps) (simp add: Let_def min_def)
qed (simp_all add: rep512_put rep512_block)

text \<open>The byte count in two words, with its carry.\<close>

definition count128 :: "nat \<Rightarrow> u64 list" where
  "count128 n = [of_nat n, of_nat (n div 2 ^ 64)]"

lemma count_bytes_add:
  assumes "k < 2 ^ 64"
  shows "count_bytes (count128 n) (of_nat k) = count128 (n + k)"
proof -
  define a where "a = n mod 2 ^ 64"
  have a: "a < 2 ^ 64" "n = a + 2 ^ 64 * (n div 2 ^ 64)"
    using mod_less_divisor [of "2 ^ 64" n] mod_mult_div_eq [of n "2 ^ 64"] by (simp_all add: a_def)
  have lo: "unat (of_nat (n + k) :: u64) = (a + k) mod 2 ^ 64"
    by (simp only: unat_of_nat len64 a_def mod_add_left_eq)
  have "unat (of_nat k :: u64) = k" using assms by (intro unat_of_nat_small) simp
  then have less: "(of_nat n + of_nat k :: u64) < of_nat k \<longleftrightarrow> (a + k) mod 2 ^ 64 < k"
    using lo by (simp only: word_less_nat_alt of_nat_add)
  have carry: "(a + k) mod 2 ^ 64 < k \<longleftrightarrow> 2 ^ 64 \<le> a + k"
  proof (cases "2 ^ 64 \<le> a + k")
    case True
    then have "(a + k) mod 2 ^ 64 = a + k - 2 ^ 64" using a(1) assms by (simp add: le_mod_geq)
    with True a(1) show ?thesis by linarith
  qed simp
  have "(n + k) div 2 ^ 64 = n div 2 ^ 64 + (if 2 ^ 64 \<le> a + k then 1 else 0)"
  proof -
    have "(n + k) div 2 ^ 64 = n div 2 ^ 64 + (a + k) div 2 ^ 64"
    proof -
      have "n + k = (a + k) + 2 ^ 64 * (n div 2 ^ 64)" using a(2) by linarith
      then have "(n + k) div 2 ^ 64 = ((a + k) + 2 ^ 64 * (n div 2 ^ 64)) div 2 ^ 64" by (rule arg_cong)
      also have "\<dots> = n div 2 ^ 64 + (a + k) div 2 ^ 64" by (rule div_mult_self2) simp
      finally show ?thesis .
    qed
    moreover have "(a + k) div 2 ^ 64 = (if 2 ^ 64 \<le> a + k then 1 else 0)"
      using a(1) assms by (auto simp: le_div_geq)
    ultimately show ?thesis by simp
  qed
  then show ?thesis
    using less carry by (simp add: count_bytes_def count128_def Let_def)
qed

definition holds512 :: "u64 list \<Rightarrow> sha512_ctx \<Rightarrow> byte list \<Rightarrow> bool" where
  "holds512 h0 ctx m \<longleftrightarrow>
     rep512 (count128 (length m)) ctx (rest 128 m) (fold sha512_process_block128 (blocks 128 m) h0)"

lemma sha512_hash_holds:
  assumes "holds512 h0 ctx m" and "length d < 2 ^ 64"
  shows "holds512 h0 (sha512_hash ctx d) (m @ d)"
proof -
  have n: "total512 ctx = count128 (length m)" using assms(1) by (simp add: holds512_def rep512_def)
  have "rep512 (count128 (length (m @ d)))
      (ctx\<lparr>total512 := count_bytes (total512 ctx) (of_nat (length d))\<rparr>)
      (rest 128 m) (fold sha512_process_block128 (blocks 128 m) h0)"
    using assms(1) count_bytes_add [OF assms(2)] by (simp add: holds512_def rep512_def n)
  from buf128.loop_message [OF this, of d] show ?thesis
    by (simp add: sha512_hash_def holds512_def n unat_and_mask count128_def [of "length m"])
qed

lemma store_le_split:
  assumes "8 * a \<le> LENGTH('b::len)" and "8 * b \<le> LENGTH('c::len)"
  shows "store_le (a + b) (x :: 'a::len word) =
    store_le a (ucast x :: 'b word) @ store_le b (ucast (drop_bit (8 * a) x) :: 'c word)"
proof (rule nth_equalityI)
  fix k assume "k < length (store_le (a + b) x)"
  then have k: "k < a + b" by simp
  show "store_le (a + b) x ! k =
      (store_le a (ucast x :: 'b word) @ store_le b (ucast (drop_bit (8 * a) x) :: 'c word)) ! k"
    using k assms
    by (intro bit_word_eqI)
      (auto simp: nth_append nth_store_le bit_ucast_iff bit_drop_bit_eq right_diff_distrib' dest: bit_imp_le_length)
qed simp

lemma bit_of_nat_word: "bit (of_nat n :: 'a::len word) i \<longleftrightarrow> i < LENGTH('a) \<and> bit n i"
  by transfer (simp add: bit_take_bit_iff bit_of_nat_iff)

lemma len128_split:
  "len128_be n = store_le 8 (bswap64 (push_bit 3 (of_nat (n div 2 ^ 64)) OR drop_bit 61 (of_nat n))) @
     store_le 8 (bswap64 (push_bit 3 (of_nat n)))"
proof -
  have sw: "store_le 8 (bswap64 x) = rev (store_le 8 x)" for x
    by (simp add: bswap64_def store_load_le)
  have b8: "bit (8 * n) i \<longleftrightarrow> 3 \<le> i \<and> bit n (i - 3)" for i
    using bit_push_bit_iff [of 3 n i] by (simp add: push_bit_eq_mult mult.commute)
  have hi: "bit (n div 2 ^ 64) j \<longleftrightarrow> bit n (j + 64)" for j
    using bit_drop_bit_eq [of 64 n] by (simp add: drop_bit_eq_div add.commute)
  have "(ucast (of_nat (8 * n) :: 128 word) :: u64) = push_bit 3 (of_nat n)"
    by (rule bit_word_eqI) (auto simp only: bit_ucast_iff bit_of_nat_word bit_push_bit_iff b8, auto)
  moreover have "(ucast (drop_bit (8 * 8) (of_nat (8 * n) :: 128 word)) :: u64) =
      push_bit 3 (of_nat (n div 2 ^ 64)) OR drop_bit 61 (of_nat n)"
  proof (rule bit_word_eqI)
    fix j assume "j < LENGTH(64)"
    then have j: "j < 64" by simp
    have "bit (ucast (drop_bit (8 * 8) (of_nat (8 * n) :: 128 word)) :: u64) j \<longleftrightarrow> bit n (61 + j)"
      using j by (simp only: bit_ucast_iff bit_drop_bit_eq comp_apply bit_of_nat_word b8) simp
    moreover have "bit (push_bit 3 (of_nat (n div 2 ^ 64)) OR drop_bit 61 (of_nat n) :: u64) j \<longleftrightarrow> bit n (61 + j)"
    proof (cases "3 \<le> j")
      case True
      then have "61 + j = j - 3 + 64" by simp
      with True j show ?thesis
        by (simp only: bit_or_iff bit_push_bit_iff bit_drop_bit_eq comp_apply bit_of_nat_word hi) simp
    next
      case False
      then show ?thesis
        by (simp only: bit_or_iff bit_push_bit_iff bit_drop_bit_eq comp_apply bit_of_nat_word hi) simp
    qed
    ultimately show "bit (ucast (drop_bit (8 * 8) (of_nat (8 * n) :: 128 word)) :: u64) j =
        bit (push_bit 3 (of_nat (n div 2 ^ 64)) OR drop_bit 61 (of_nat n) :: u64) j" by simp
  qed
  ultimately show ?thesis
    using store_le_split [of 8 8 "of_nat (8 * n) :: 128 word", where 'b = 64 and 'c = 64]
    by (simp add: len128_be_def sw)
qed

lemma sha512_end_last:
  assumes "rep512 (count128 k) c p h" and "length p \<le> 112"
  shows "rep512 (count128 k) (sha512_end_loop c (length p)) []
    (sha512_process_block128 (p @ replicate (112 - length p) 0 @ len128_be k) h)"
proof -
  define t0 where "t0 = store_le 8 (bswap64 (push_bit 3 (of_nat k)))"
  define t1 where "t1 = store_le 8 (bswap64 (push_bit 3 (of_nat (k div 2 ^ 64)) OR drop_bit 61 (of_nat k)))"
  let ?x = "p @ replicate (112 - length p) 0"
  let ?c1 = "ctx512_put c (length p) (replicate (128 - length p) 0)"
  have z: "replicate (128 - length p) 0 = replicate (112 - length p) 0 @ replicate 8 0 @ replicate 8 (0 :: byte)"
    using assms(2) by (simp add: replicate_add [symmetric])
  have "rep512 (count128 k) ?c1 ((?x @ replicate 8 0) @ replicate 8 0 @ []) h"
    using rep512_put [OF assms(1), of "replicate (128 - length p) 0"] assms(2) by (simp add: z)
  from rep512_overwrite [OF this, of t0]
  have "rep512 (count128 k) (ctx512_put ?c1 120 t0) (?x @ replicate 8 0 @ t0) h"
    using assms(2) by (simp add: t0_def)
  from rep512_overwrite [OF this, of t1]
  have "rep512 (count128 k) (ctx512_put (ctx512_put ?c1 120 t0) 112 t1) (?x @ t1 @ t0) h"
    using assms(2) by (simp add: t1_def)
  moreover have "length (?x @ t1 @ t0) = 128" using assms(2) by (simp add: t0_def t1_def)
  ultimately have "rep512 (count128 k) (sha512_block (ctx512_put (ctx512_put ?c1 120 t0) 112 t1)) []
      (sha512_process_block128 (?x @ t1 @ t0) h)" by (rule rep512_block)
  moreover have "16 \<le> 128 - length p" "total512 ?c1 = count128 k"
    using assms by (simp_all add: ctx512_put_def rep512_def)
  ultimately show ?thesis
    by (subst sha512_end_loop.simps)
      (simp add: Let_def count128_def t0_def t1_def len128_split)
qed

lemma sha512_end_holds:
  assumes "holds512 h0 ctx m"
  shows "sha512_end ctx = concat (map (\<lambda>h. store_le 8 (bswap64 h))
    (fold sha512_process_block128 (chunks 128 (m @ md_padding 128 16 (len128_be (length m)) (length m))) h0))"
proof -
  define q h where "q = rest 128 m" and "h = fold sha512_process_block128 (blocks 128 m) h0"
  define n where "n = count128 (length m)"
  define len where "len = len128_be (length m)"
  have rep: "rep512 n ctx q h" using assms by (simp add: holds512_def q_def h_def n_def)
  have len: "length len = 16" by (simp add: len_def len128_be_def)
  have q: "length q < 128" "unat (total512 ctx ! 0 AND 127) = length q"
    using rep by (simp_all add: q_def rest_length rep512_def n_def count128_def unat_and_mask)
  define c1 where "c1 = ctx512_put ctx (length q) [0x80]"
  have c1: "rep512 n c1 (q @ [0x80]) h" unfolding c1_def by (rule rep512_put [OF rep]) (use q in simp)
  have "rep512 n (sha512_end_loop c1 (length q + 1)) []
      (fold sha512_process_block128 (chunks 128 (m @ md_padding 128 16 len (length m))) h0)"
  proof (cases "length q \<le> 111")
    case True
    from sha512_end_last [of "length m", folded n_def len_def, OF c1] True chunks_padded [of len 16 128 m] len
    show ?thesis by (simp add: q_def [symmetric] h_def)
  next
    case False
    let ?c2 = "sha512_block (ctx512_put c1 (length q + 1) (replicate (127 - length q) 0))"
    have "rep512 n (ctx512_put c1 (length q + 1) (replicate (127 - length q) 0))
        (q @ [0x80] @ replicate (127 - length q) 0) h"
      using rep512_put [OF c1, of "replicate (127 - length q) 0"] q(1) by simp
    from rep512_block [OF this] q(1)
    have "rep512 n ?c2 [] (sha512_process_block128 (q @ [0x80] @ replicate (127 - length q) 0) h)" by simp
    from sha512_end_last [of "length m", folded n_def len_def, OF this]
    have "rep512 n (sha512_end_loop ?c2 0) [] (sha512_process_block128 (replicate 112 0 @ len)
        (sha512_process_block128 (q @ [0x80] @ replicate (127 - length q) 0) h))" by simp
    moreover have "sha512_end_loop c1 (length q + 1) = sha512_end_loop ?c2 0"
      using False q(1) by (subst sha512_end_loop.simps) (simp add: Let_def)
    ultimately show ?thesis
      using False chunks_padded [of len 16 128 m] len by (simp add: q_def [symmetric] h_def)
  qed
  then show ?thesis by (simp add: sha512_end_def Let_def q(2) c1_def rep512_def len_def)
qed

interpretation sha512: digest sha512_hash sha512_end
    "holds512 (drop 2 (map2 (\<lambda>hi lo. push_bit 32 (ucast hi) + ucast lo) init256 init512_lo))" sha512_ref
  by unfold_locales (simp_all add: sha512_hash_holds sha512_end_holds sha512_ref_def)

text \<open>SHA-512: pieces of any sizes give the FIPS 180 digest of their concatenation; the count of
  bytes carries from its low to its high word, so the 128-bit length in the padding is right for
  messages beyond 2^61 bytes too.\<close>

theorem sha512_stream:
  assumes "length (wbuffer512 ctx) = 128" and "\<forall>d \<in> set ds. length d < 2 ^ 64"
  shows "sha512_end (foldl sha512_hash (sha512_begin ctx) ds) = sha512_ref (concat ds)"
proof (rule sha512.finish_feed_all [OF _ assms(2)])
  show "holds512 (drop 2 (map2 (\<lambda>hi lo. push_bit 32 (ucast hi) + ucast lo) init256 init512_lo)) (sha512_begin ctx) []"
    using assms(1)
    by (simp add: holds512_def rep512_def rest_def blocks_def full_def sha512_begin_def count128_def
        init256_def init512_lo_def Let_def)
qed

theorem sha512_stream_witness:
  "sha512_end (foldl sha512_hash
     (sha512_begin \<lparr>total512 = [5, 6], hash512 = [], wbuffer512 = replicate 128 0\<rparr>) [[1], [2, 3]]) =
   sha512_ref [1, 2, 3]"
  using sha512_stream [of "\<lparr>total512 = [5, 6], hash512 = [], wbuffer512 = replicate 128 0\<rparr>" "[[1], [2, 3]]"]
  by simp

end
