(* ===== verification/Hash_Sha3.thy ===== *)
theory Hash_Sha3
  imports Hash_Absorb "HOL-Library.Monad_Syntax"
begin

text \<open>
  SHA-3 of \<^verbatim>\<open>libbb/hash_md5_sha.c\<close>: the native 64-bit form of Keccak-f with its two variants of the
  rho and pi steps (\<^verbatim>\<open>SHA3_SMALL\<close> 1 and 0), and the sponge around it, with \<^verbatim>\<open>SHA3_SMALL\<close> = 1.  The
  state is 25 words; the code also addresses it as bytes, which on a little-endian CPU is the byte
  \<open>i mod 8\<close> of the word \<open>i div 8\<close>.
\<close>

subsection \<open>sha3_process_block72\<close>

definition IOTA_CONST :: "u16 list" where
  "IOTA_CONST =
   [0x0001, 0x8082, 0x808a, 0x8000, 0x808b, 0x0001, 0x8081, 0x8009, 0x008a, 0x0088, 0x8009, 0x000a,
    0x808b, 0x008b, 0x8089, 0x8003, 0x8002, 0x0080, 0x800a, 0x000a, 0x8081, 0x8080, 0x0001, 0x8008]"

definition IOTA_CONST_bit63 :: u32 where "IOTA_CONST_bit63 = 0x3307dd00"
definition IOTA_CONST_bit31 :: u32 where "IOTA_CONST_bit31 = 0x16381b00"

definition ROT_CONST :: "nat list" where
  "ROT_CONST = [1, 3, 6, 10, 15, 21, 28, 36, 45, 55, 2, 14, 27, 41, 56, 8, 25, 43, 62, 18, 39, 61, 20, 44]"

definition PI_LANE :: "nat list" where
  "PI_LANE = [10, 7, 11, 17, 18, 3, 5, 16, 8, 21, 24, 4, 15, 23, 19, 13, 12, 2, 20, 14, 22, 9, 6, 1]"

definition xor_lane :: "nat \<Rightarrow> u64 \<Rightarrow> u64 list \<Rightarrow> u64 list" where
  "xor_lane i v st = st[i := st ! i XOR v]"

definition theta :: "u64 list \<Rightarrow> u64 list" where
  "theta st =
    (let BC = map (\<lambda>x. st ! x XOR st ! (x + 5) XOR st ! (x + 10) XOR st ! (x + 15) XOR st ! (x + 20)) [0..<5];
         BC = BC @ BC
     in fold (\<lambda>x st.
          let temp = BC ! (x + 4) XOR rotl64 (BC ! (x + 1)) 1
          in xor_lane (x + 20) temp (xor_lane (x + 15) temp (xor_lane (x + 10) temp
               (xor_lane (x + 5) temp (xor_lane x temp st))))) [0..<5] st)"

definition rho_pi_small :: "u64 list \<Rightarrow> u64 list" where
  "rho_pi_small st =
     fst (fold (\<lambda>x (st, t1).
       let t0 = st ! (PI_LANE ! x)
       in (st[PI_LANE ! x := rotl64 t1 (ROT_CONST ! x)], t0)) [0..<24] (st, st ! 1))"

definition RhoPi_twice :: "nat \<Rightarrow> u64 list \<times> u64 \<Rightarrow> u64 list \<times> u64" where
  "RhoPi_twice x s =
    (case s of (st, t1) \<Rightarrow>
      let t0 = st ! (PI_LANE ! x);
          st = st[PI_LANE ! x := rotl64 t1 (ROT_CONST ! x)];
          t1 = st ! (PI_LANE ! (x + 1));
          st = st[PI_LANE ! (x + 1) := rotl64 t0 (ROT_CONST ! (x + 1))]
      in (st, t1))"

definition rho_pi_unrolled :: "u64 list \<Rightarrow> u64 list" where
  "rho_pi_unrolled st =
     fst (fold RhoPi_twice [0, 2, 4, 6, 8, 10, 12, 14, 16, 18, 20, 22] (st, st ! 1))"

definition chi_row :: "nat \<Rightarrow> u64 list \<Rightarrow> u64 list" where
  "chi_row x st =
    (let BC0 = st ! (x + 0); BC1 = st ! (x + 1); BC2 = st ! (x + 2);
         st = st[x + 0 := BC0 XOR (NOT BC1 AND BC2)];
         BC3 = st ! (x + 3);
         st = st[x + 1 := BC1 XOR (NOT BC2 AND BC3)];
         BC4 = st ! (x + 4);
         st = st[x + 2 := BC2 XOR (NOT BC3 AND BC4)];
         st = st[x + 3 := BC3 XOR (NOT BC4 AND BC0)]
     in st[x + 4 := BC4 XOR (NOT BC0 AND BC1)])"

definition chi :: "u64 list \<Rightarrow> u64 list" where
  "chi st = fold chi_row [0, 5, 10, 15, 20] st"

definition iota_const :: "nat \<Rightarrow> u64" where
  "iota_const round =
     ucast (IOTA_CONST ! round)
     OR ucast (push_bit round IOTA_CONST_bit31 AND 0x80000000)
     OR push_bit 32 (ucast (push_bit round IOTA_CONST_bit63 AND 0x80000000))"

definition keccak_round :: "(u64 list \<Rightarrow> u64 list) \<Rightarrow> nat \<Rightarrow> u64 list \<Rightarrow> u64 list" where
  "keccak_round rho_pi round st = xor_lane 0 (iota_const round) (chi (rho_pi (theta st)))"

definition sha3_process_block72 :: "bool \<Rightarrow> u64 list \<Rightarrow> u64 list" where
  "sha3_process_block72 small st =
     fold (keccak_round (if small then rho_pi_small else rho_pi_unrolled)) [0..<24] st"

subsection \<open>Keccak-f of FIPS 202\<close>

text \<open>Lane (x, y) is at x + 5y.\<close>

definition theta_ref :: "u64 list \<Rightarrow> u64 list" where
  "theta_ref st =
    (let C = (\<lambda>x. st ! x XOR st ! (x + 5) XOR st ! (x + 10) XOR st ! (x + 15) XOR st ! (x + 20))
     in map (\<lambda>i. st ! i XOR (C ((i mod 5 + 4) mod 5) XOR rotl64 (C ((i mod 5 + 1) mod 5)) 1)) [0..<25])"

definition rho_offset :: "nat list" where
  "rho_offset =
   [0, 1, 62, 28, 27, 36, 44, 6, 55, 20, 3, 10, 43, 25, 39, 41, 45, 15, 21, 8, 18, 2, 61, 56, 14]"

definition rho_pi_ref :: "u64 list \<Rightarrow> u64 list" where
  "rho_pi_ref st =
     map (\<lambda>i. let X = i mod 5; Y = i div 5; src = (X + 3 * Y) mod 5 + 5 * X
               in rotl64 (st ! src) (rho_offset ! src)) [0..<25]"

definition chi_ref :: "u64 list \<Rightarrow> u64 list" where
  "chi_ref st =
     map (\<lambda>i. let x = i mod 5; y = 5 * (i div 5)
               in st ! i XOR (NOT (st ! (y + (x + 1) mod 5)) AND st ! (y + (x + 2) mod 5))) [0..<25]"

definition RC :: "u64 list" where
  "RC =
   [0x0000000000000001, 0x0000000000008082, 0x800000000000808A, 0x8000000080008000,
    0x000000000000808B, 0x0000000080000001, 0x8000000080008081, 0x8000000000008009,
    0x000000000000008A, 0x0000000000000088, 0x0000000080008009, 0x000000008000000A,
    0x000000008000808B, 0x800000000000008B, 0x8000000000008089, 0x8000000000008003,
    0x8000000000008002, 0x8000000000000080, 0x000000000000800A, 0x800000008000000A,
    0x8000000080008081, 0x8000000000008080, 0x0000000080000001, 0x8000000080008008]"

definition keccak_ref :: "u64 list \<Rightarrow> u64 list" where
  "keccak_ref st =
     fold (\<lambda>round st. let st = chi_ref (rho_pi_ref (theta_ref st)) in st[0 := st ! 0 XOR RC ! round]) [0..<24] st"

lemma upt_numerals:
  "[0..<5] = [0, 1, 2, 3, 4 :: nat]"
  "[0..<24] = [0, 1, 2, 3, 4, 5, 6, 7, 8, 9, 10, 11, 12, 13, 14, 15, 16, 17, 18, 19, 20, 21, 22, 23 :: nat]"
  "[0..<25] = [0, 1, 2, 3, 4, 5, 6, 7, 8, 9, 10, 11, 12, 13, 14, 15, 16, 17, 18, 19, 20, 21, 22, 23, 24 :: nat]"
  by code_simp+

lemma list25:
  assumes "length st = 25"
  shows "st = map (\<lambda>i. st ! i) [0..<25]"
  using assms by (metis map_nth)

lemma list25_cases:
  assumes "length (st :: 'a list) = 25"
    and "\<And>a0 a1 a2 a3 a4 a5 a6 a7 a8 a9 a10 a11 a12 a13 a14 a15 a16 a17 a18 a19 a20 a21 a22 a23 a24.
      P [a0, a1, a2, a3, a4, a5, a6, a7, a8, a9, a10, a11, a12, a13, a14, a15, a16, a17, a18, a19, a20,
         a21, a22, a23, a24]"
  shows "P st"
proof -
  have "P (map (\<lambda>i. st ! i) [0..<25])"
    unfolding upt_numerals list.map by (rule assms(2))
  then show ?thesis using list25 [OF assms(1)] by simp
qed

lemma theta_eq: "length st = 25 \<Longrightarrow> theta st = theta_ref st"
  by (rule list25_cases [of st], assumption)
    (simp add: theta_def theta_ref_def upt_numerals xor_lane_def Let_def)

lemma rho_pi_eq: "length st = 25 \<Longrightarrow> rho_pi_small st = rho_pi_ref st"
  by (rule list25_cases [of st], assumption)
    (simp add: rho_pi_small_def rho_pi_ref_def upt_numerals PI_LANE_def ROT_CONST_def rho_offset_def
      rotl64_def Let_def)

lemma rho_pi_unrolled_eq: "rho_pi_unrolled st = rho_pi_small st"
  by (simp add: rho_pi_small_def rho_pi_unrolled_def RhoPi_twice_def upt_numerals Let_def
      PI_LANE_def ROT_CONST_def)

lemma chi_eq: "length st = 25 \<Longrightarrow> chi st = chi_ref st"
  by (rule list25_cases [of st], assumption)
    (simp add: chi_def chi_row_def chi_ref_def upt_numerals Let_def)

lemma iota_const_eq: "round < 24 \<Longrightarrow> iota_const round = RC ! round"
proof -
  have "map iota_const [0..<24] = RC" by code_simp
  moreover assume "round < 24"
  ultimately show ?thesis by (metis add_0 diff_zero length_upt nth_map nth_upt)
qed

text \<open>C28: Both variants of the permutation are Keccak-f[1600] of FIPS 202, its round constants rebuilt
  from the 16-bit table and the two words of high bits included.\<close>

theorem keccak_correct:
  assumes "length st = 25"
  shows "sha3_process_block72 small st = keccak_ref st"
proof -
  have len: "length (theta_ref s) = 25" "length (rho_pi_ref s) = 25" "length (chi_ref s) = 25" for s
    by (simp_all add: theta_ref_def rho_pi_ref_def chi_ref_def Let_def)
  let ?f = "keccak_round (if small then rho_pi_small else rho_pi_unrolled)"
  define g where "g = (\<lambda>round st. let st = chi_ref (rho_pi_ref (theta_ref st)) in st[0 := st ! 0 XOR RC ! round])"
  let ?g = g
  have glen: "length (g n s) = 25" for n s by (simp add: g_def len Let_def)
  have "fold ?f [0..<n] st = fold ?g [0..<n] st \<and> length (fold ?g [0..<n] st) = 25" if "n \<le> 24" for n
    using that
  proof (induction n)
    case (Suc n)
    define s where "s = fold ?g [0..<n] st"
    with Suc have s: "fold ?f [0..<n] st = s" "length s = 25" by simp_all
    then have "?f n s = ?g n s"
      using Suc.prems
      by (simp add: g_def keccak_round_def xor_lane_def theta_eq rho_pi_unrolled_eq rho_pi_eq chi_eq len iota_const_eq Let_def)
    with s show ?case by (simp add: s_def [symmetric] glen)
  qed (simp add: assms)
  from this [of 24] show ?thesis by (simp add: sha3_process_block72_def keccak_ref_def g_def)
qed

theorem keccak_correct_witness:
  "sha3_process_block72 True (replicate 25 0) = keccak_ref (replicate 25 0) \<and>
   sha3_process_block72 False (replicate 25 0) = keccak_ref (replicate 25 0)"
  using keccak_correct [of "replicate 25 0"] by simp

subsection \<open>The sponge\<close>

record sha3_ctx =
  state :: "u64 list"
  bytes_queued :: nat
  input_block_bytes :: nat

definition sha3_begin :: "sha3_ctx \<Rightarrow> sha3_ctx" where
  "sha3_begin ctx = \<lparr>state = replicate 25 0, bytes_queued = 0, input_block_bytes = (1600 - 512*2) div 8\<rparr>"

text \<open>\<^verbatim>\<open>buf[pos] ^= b\<close> on the bytes of the state.\<close>

definition xor_byte :: "nat \<Rightarrow> byte \<Rightarrow> u64 list \<Rightarrow> u64 list" where
  "xor_byte pos b st = xor_lane (pos div 8) (push_bit (8 * (pos mod 8)) (ucast b)) st"

fun xor_at :: "nat \<Rightarrow> byte list \<Rightarrow> u64 list \<Rightarrow> u64 list" where
  "xor_at pos [] st = st"
| "xor_at pos (b # bs) st = xor_at (Suc pos) bs (xor_byte pos b st)"

text \<open>The result is the context and \<^verbatim>\<open>bufpos\<close>; with \<^verbatim>\<open>input_block_bytes\<close> 0 the loop never ends.\<close>

partial_function (option) sha3_hash_loop :: "sha3_ctx \<Rightarrow> nat \<Rightarrow> byte list \<Rightarrow> (sha3_ctx \<times> nat) option" where
  "sha3_hash_loop ctx bufpos data =
    (let remaining = min (input_block_bytes ctx - bufpos) (length data);
         ctx = ctx\<lparr>state := xor_at bufpos (take remaining data) (state ctx)\<rparr>;
         data = drop remaining data;
         bufpos' = bufpos + remaining
     in if bufpos' \<noteq> input_block_bytes ctx then Some (ctx, bufpos')
        else sha3_hash_loop (ctx\<lparr>state := sha3_process_block72 True (state ctx)\<rparr>) 0 data)"

definition sha3_hash :: "sha3_ctx \<Rightarrow> byte list \<Rightarrow> sha3_ctx option" where
  "sha3_hash ctx data =
     do { (ctx, bufpos) \<leftarrow> sha3_hash_loop ctx (bytes_queued ctx) data;
          Some (ctx\<lparr>bytes_queued := bufpos\<rparr>) }"

definition sha3_end :: "sha3_ctx \<Rightarrow> byte list" where
  "sha3_end ctx =
    (let st = xor_byte (bytes_queued ctx) 6 (state ctx);
         st = xor_byte (input_block_bytes ctx - 1) 0x80 st;
         st = sha3_process_block72 True st
     in take 64 (concat (map (store_le 8) st)))"

subsection \<open>The sponge absorbs the message\<close>

lemma xor_at_append: "xor_at pos (a @ b) st = xor_at (pos + length a) b (xor_at pos a st)"
  by (induction a arbitrary: pos st) simp_all

definition absorb_block :: "byte list \<Rightarrow> u64 list \<Rightarrow> u64 list" where
  "absorb_block b st = sha3_process_block72 True (xor_at 0 b st)"

definition rep3 :: "nat \<Rightarrow> (sha3_ctx \<times> nat) option \<Rightarrow> byte list \<Rightarrow> u64 list \<Rightarrow> bool" where
  "rep3 rate s q h \<longleftrightarrow>
    (\<exists>ctx. s = Some (ctx, length q) \<and> input_block_bytes ctx = rate \<and> state ctx = xor_at 0 q h)"

definition put3 :: "(sha3_ctx \<times> nat) option \<Rightarrow> nat \<Rightarrow> byte list \<Rightarrow> (sha3_ctx \<times> nat) option" where
  "put3 s pos d = map_option (\<lambda>(ctx, _). (ctx\<lparr>state := xor_at pos d (state ctx)\<rparr>, pos + length d)) s"

definition block3 :: "(sha3_ctx \<times> nat) option \<Rightarrow> (sha3_ctx \<times> nat) option" where
  "block3 s = map_option (\<lambda>(ctx, _). (ctx\<lparr>state := sha3_process_block72 True (state ctx)\<rparr>, 0)) s"

definition loop3 :: "(sha3_ctx \<times> nat) option \<Rightarrow> nat \<Rightarrow> byte list \<Rightarrow> (sha3_ctx \<times> nat) option" where
  "loop3 s pos d = Option.bind s (\<lambda>(ctx, _). sha3_hash_loop ctx pos d)"

interpretation sponge: absorb "Suc r" put3 block3 loop3 "rep3 (Suc r)" absorb_block for r
proof (unfold_locales, goal_cases)
  case (4 c q h d)
  then show ?case
    by (auto simp: rep3_def loop3_def put3_def sha3_hash_loop.simps Let_def min_def)
next
  case (5 c q h d)
  then obtain ctx where c: "c = Some (ctx, length q)" "input_block_bytes ctx = Suc r" by (auto simp: rep3_def)
  from 5 have "min (Suc r - length q) (length d) = Suc r - length q" by linarith
  with c 5 show ?case
    by (simp add: loop3_def put3_def block3_def sha3_hash_loop.simps [of ctx] Let_def)
qed (auto simp: rep3_def put3_def block3_def absorb_block_def xor_at_append)

definition holds3 :: "nat \<Rightarrow> sha3_ctx option \<Rightarrow> byte list \<Rightarrow> bool" where
  "holds3 rate s m \<longleftrightarrow>
    rep3 rate (map_option (\<lambda>ctx. (ctx, bytes_queued ctx)) s) (rest rate m)
      (fold absorb_block (blocks rate m) (replicate 25 0))"

definition sha3_ref :: "nat \<Rightarrow> byte list \<Rightarrow> byte list" where
  "sha3_ref rate m =
    (let q = rest rate m;
         pad = (if length q = rate - 1 then [0x86] else [6] @ replicate (rate - 2 - length q) 0 @ [0x80])
     in take 64 (concat (map (store_le 8) (fold absorb_block (blocks rate m @ [q @ pad]) (replicate 25 0)))))"

lemma sha3_hash_holds:
  assumes "holds3 (Suc r) s m"
  shows "holds3 (Suc r) (Option.bind s (\<lambda>ctx. sha3_hash ctx d)) (m @ d)"
proof -
  obtain ctx where s: "s = Some ctx" and q: "bytes_queued ctx = length m mod Suc r"
    using assms by (auto simp: holds3_def rep3_def rest_length)
  from assms sponge.loop_message [of r "Some (ctx, bytes_queued ctx)" m "replicate 25 0" d]
  have "rep3 (Suc r) (sha3_hash_loop ctx (length m mod Suc r) d) (rest (Suc r) (m @ d))
      (fold absorb_block (blocks (Suc r) (m @ d)) (replicate 25 0))"
    by (simp add: holds3_def s loop3_def)
  then show ?thesis by (auto simp: holds3_def s sha3_hash_def q rep3_def)
qed

lemma xor_at_zeros: "xor_at pos (replicate n 0) st = st"
  by (induction n arbitrary: pos) (simp_all add: xor_byte_def xor_lane_def)

lemma xor_byte_twice: "xor_byte pos a (xor_byte pos b st) = xor_byte pos (b XOR a) st"
proof (cases "pos div 8 < length st")
  case True
  have "push_bit k (ucast (b XOR a) :: u64) = push_bit k (ucast b) XOR push_bit k (ucast a)" for k
    by (simp add: bit_eq_iff bit_simps) blast
  with True show ?thesis by (simp add: xor_byte_def xor_lane_def xor.assoc)
qed (simp add: xor_byte_def xor_lane_def list_update_beyond)

lemma sha3_end_holds:
  assumes "holds3 (Suc r) s m"
  shows "\<exists>ctx. s = Some ctx \<and> sha3_end ctx = sha3_ref (Suc r) m"
proof -
  define q h where "q = rest (Suc r) m" and "h = fold absorb_block (blocks (Suc r) m) (replicate 25 0)"
  obtain ctx where s: "s = Some ctx" and n: "bytes_queued ctx = length q" "input_block_bytes ctx = Suc r"
    and st: "state ctx = xor_at 0 q h"
    using assms by (auto simp: holds3_def rep3_def q_def h_def)
  have len: "length q \<le> r" using rest_less [of "Suc r" m] by (simp add: q_def)
  define pad where "pad = (if length q = r then [0x86] else [6] @ replicate (r - 1 - length q) 0 @ [0x80 :: byte])"
  have "xor_byte r 0x80 (xor_byte (length q) 6 (xor_at 0 q h)) = xor_at 0 (q @ pad) h"
    using len by (auto simp: pad_def xor_at_append xor_byte_twice xor_at_zeros)
  with s n st show ?thesis
    by (simp add: sha3_end_def sha3_ref_def Let_def q_def [symmetric] h_def [symmetric] pad_def
        absorb_block_def)
qed

text \<open>The client's view, with a context that may be lost in a call that does not return.\<close>

interpretation sha3: digest "\<lambda>s d. Option.bind s (\<lambda>ctx. sha3_hash ctx d)"
    "\<lambda>s. case s of Some ctx \<Rightarrow> sha3_end ctx | None \<Rightarrow> []" "holds3 (Suc r)" "sha3_ref (Suc r)" for r
proof (unfold_locales, goal_cases)
  case (2 c m)
  then show ?case by (auto dest: sha3_end_holds)
qed (simp add: sha3_hash_holds)

text \<open>C27: SHA3-512: every call of the feeding function returns, and pieces of any sizes give the sponge
  digest of their concatenation, with the SHA-3 domain bits and the 10*1 padding in the last block
  also when both fall into its last byte.\<close>

theorem sha3_stream:
  assumes "\<forall>d \<in> set ds. length d < 2 ^ 64"
  shows "\<exists>ctx'. foldl (\<lambda>s d. Option.bind s (\<lambda>ctx. sha3_hash ctx d)) (Some (sha3_begin ctx)) ds = Some ctx' \<and>
    sha3_end ctx' = sha3_ref 72 (concat ds)"
proof -
  have "holds3 (Suc 71) (Some (sha3_begin ctx)) []"
    by (simp add: holds3_def rep3_def rest_def blocks_def full_def sha3_begin_def)
  from sha3.feed_all [OF this assms]
  have "holds3 (Suc 71) (foldl (\<lambda>s d. Option.bind s (\<lambda>ctx. sha3_hash ctx d)) (Some (sha3_begin ctx)) ds) (concat ds)"
    by simp
  from sha3_end_holds [OF this] show ?thesis by simp
qed

theorem sha3_stream_witness:
  "\<exists>ctx'. foldl (\<lambda>s d. Option.bind s (\<lambda>ctx. sha3_hash ctx d))
      (Some (sha3_begin \<lparr>state = [], bytes_queued = 3, input_block_bytes = 0\<rparr>)) [[1, 2], [3]] = Some ctx' \<and>
    sha3_end ctx' = sha3_ref 72 [1, 2, 3]"
  using sha3_stream [of "[[1, 2], [3]]" "\<lparr>state = [], bytes_queued = 3, input_block_bytes = 0\<rparr>"] by simp

end
