(* ===== verification/Tls_Aes.thy ===== *)
theory Tls_Aes
  imports Hash_Base
begin

text \<open>
  AES of the TLS client, \<^verbatim>\<open>networking/tls_aes.c\<close>: key expansion, the cipher and its inverse on a
  state of sixteen \<^verbatim>\<open>unsigned\<close> (\<^verbatim>\<open>astate\<close>, each holding a byte), and the CBC mode.  Whatever the mode
  needs of the block cipher is the locale \<open>block_cipher\<close>; it is interpreted on the code's AES.
\<close>

subsection \<open>Tables\<close>

definition sbox :: "byte list" where
  "sbox =
   [0x63, 0x7c, 0x77, 0x7b, 0xf2, 0x6b, 0x6f, 0xc5, 0x30, 0x01, 0x67, 0x2b, 0xfe, 0xd7, 0xab, 0x76,
    0xca, 0x82, 0xc9, 0x7d, 0xfa, 0x59, 0x47, 0xf0, 0xad, 0xd4, 0xa2, 0xaf, 0x9c, 0xa4, 0x72, 0xc0,
    0xb7, 0xfd, 0x93, 0x26, 0x36, 0x3f, 0xf7, 0xcc, 0x34, 0xa5, 0xe5, 0xf1, 0x71, 0xd8, 0x31, 0x15,
    0x04, 0xc7, 0x23, 0xc3, 0x18, 0x96, 0x05, 0x9a, 0x07, 0x12, 0x80, 0xe2, 0xeb, 0x27, 0xb2, 0x75,
    0x09, 0x83, 0x2c, 0x1a, 0x1b, 0x6e, 0x5a, 0xa0, 0x52, 0x3b, 0xd6, 0xb3, 0x29, 0xe3, 0x2f, 0x84,
    0x53, 0xd1, 0x00, 0xed, 0x20, 0xfc, 0xb1, 0x5b, 0x6a, 0xcb, 0xbe, 0x39, 0x4a, 0x4c, 0x58, 0xcf,
    0xd0, 0xef, 0xaa, 0xfb, 0x43, 0x4d, 0x33, 0x85, 0x45, 0xf9, 0x02, 0x7f, 0x50, 0x3c, 0x9f, 0xa8,
    0x51, 0xa3, 0x40, 0x8f, 0x92, 0x9d, 0x38, 0xf5, 0xbc, 0xb6, 0xda, 0x21, 0x10, 0xff, 0xf3, 0xd2,
    0xcd, 0x0c, 0x13, 0xec, 0x5f, 0x97, 0x44, 0x17, 0xc4, 0xa7, 0x7e, 0x3d, 0x64, 0x5d, 0x19, 0x73,
    0x60, 0x81, 0x4f, 0xdc, 0x22, 0x2a, 0x90, 0x88, 0x46, 0xee, 0xb8, 0x14, 0xde, 0x5e, 0x0b, 0xdb,
    0xe0, 0x32, 0x3a, 0x0a, 0x49, 0x06, 0x24, 0x5c, 0xc2, 0xd3, 0xac, 0x62, 0x91, 0x95, 0xe4, 0x79,
    0xe7, 0xc8, 0x37, 0x6d, 0x8d, 0xd5, 0x4e, 0xa9, 0x6c, 0x56, 0xf4, 0xea, 0x65, 0x7a, 0xae, 0x08,
    0xba, 0x78, 0x25, 0x2e, 0x1c, 0xa6, 0xb4, 0xc6, 0xe8, 0xdd, 0x74, 0x1f, 0x4b, 0xbd, 0x8b, 0x8a,
    0x70, 0x3e, 0xb5, 0x66, 0x48, 0x03, 0xf6, 0x0e, 0x61, 0x35, 0x57, 0xb9, 0x86, 0xc1, 0x1d, 0x9e,
    0xe1, 0xf8, 0x98, 0x11, 0x69, 0xd9, 0x8e, 0x94, 0x9b, 0x1e, 0x87, 0xe9, 0xce, 0x55, 0x28, 0xdf,
    0x8c, 0xa1, 0x89, 0x0d, 0xbf, 0xe6, 0x42, 0x68, 0x41, 0x99, 0x2d, 0x0f, 0xb0, 0x54, 0xbb, 0x16]"

definition rsbox :: "byte list" where
  "rsbox =
   [0x52, 0x09, 0x6a, 0xd5, 0x30, 0x36, 0xa5, 0x38, 0xbf, 0x40, 0xa3, 0x9e, 0x81, 0xf3, 0xd7, 0xfb,
    0x7c, 0xe3, 0x39, 0x82, 0x9b, 0x2f, 0xff, 0x87, 0x34, 0x8e, 0x43, 0x44, 0xc4, 0xde, 0xe9, 0xcb,
    0x54, 0x7b, 0x94, 0x32, 0xa6, 0xc2, 0x23, 0x3d, 0xee, 0x4c, 0x95, 0x0b, 0x42, 0xfa, 0xc3, 0x4e,
    0x08, 0x2e, 0xa1, 0x66, 0x28, 0xd9, 0x24, 0xb2, 0x76, 0x5b, 0xa2, 0x49, 0x6d, 0x8b, 0xd1, 0x25,
    0x72, 0xf8, 0xf6, 0x64, 0x86, 0x68, 0x98, 0x16, 0xd4, 0xa4, 0x5c, 0xcc, 0x5d, 0x65, 0xb6, 0x92,
    0x6c, 0x70, 0x48, 0x50, 0xfd, 0xed, 0xb9, 0xda, 0x5e, 0x15, 0x46, 0x57, 0xa7, 0x8d, 0x9d, 0x84,
    0x90, 0xd8, 0xab, 0x00, 0x8c, 0xbc, 0xd3, 0x0a, 0xf7, 0xe4, 0x58, 0x05, 0xb8, 0xb3, 0x45, 0x06,
    0xd0, 0x2c, 0x1e, 0x8f, 0xca, 0x3f, 0x0f, 0x02, 0xc1, 0xaf, 0xbd, 0x03, 0x01, 0x13, 0x8a, 0x6b,
    0x3a, 0x91, 0x11, 0x41, 0x4f, 0x67, 0xdc, 0xea, 0x97, 0xf2, 0xcf, 0xce, 0xf0, 0xb4, 0xe6, 0x73,
    0x96, 0xac, 0x74, 0x22, 0xe7, 0xad, 0x35, 0x85, 0xe2, 0xf9, 0x37, 0xe8, 0x1c, 0x75, 0xdf, 0x6e,
    0x47, 0xf1, 0x1a, 0x71, 0x1d, 0x29, 0xc5, 0x89, 0x6f, 0xb7, 0x62, 0x0e, 0xaa, 0x18, 0xbe, 0x1b,
    0xfc, 0x56, 0x3e, 0x4b, 0xc6, 0xd2, 0x79, 0x20, 0x9a, 0xdb, 0xc0, 0xfe, 0x78, 0xcd, 0x5a, 0xf4,
    0x1f, 0xdd, 0xa8, 0x33, 0x88, 0x07, 0xc7, 0x31, 0xb1, 0x12, 0x10, 0x59, 0x27, 0x80, 0xec, 0x5f,
    0x60, 0x51, 0x7f, 0xa9, 0x19, 0xb5, 0x4a, 0x0d, 0x2d, 0xe5, 0x7a, 0x9f, 0x93, 0xc9, 0x9c, 0xef,
    0xa0, 0xe0, 0x3b, 0x4d, 0xae, 0x2a, 0xf5, 0xb0, 0xc8, 0xeb, 0xbb, 0x3c, 0x83, 0x53, 0x99, 0x61,
    0x17, 0x2b, 0x04, 0x7e, 0xba, 0x77, 0xd6, 0x26, 0xe1, 0x69, 0x14, 0x63, 0x55, 0x21, 0x0c, 0x7d]"

subsection \<open>Key expansion\<close>

record tls_aes =
  aes_key :: "u32 list"
  rounds :: nat

definition Subword :: "u32 \<Rightarrow> u32" where
  "Subword x =
     push_bit 24 (ucast (sbox ! unat (drop_bit 24 x)))
     OR push_bit 16 (ucast (sbox ! unat (drop_bit 16 x AND 255)))
     OR push_bit 8 (ucast (sbox ! unat (drop_bit 8 x AND 255)))
     OR ucast (sbox ! unat (x AND 255))"

definition Rcon :: "byte list" where
  "Rcon = [0x01, 0x02, 0x04, 0x08, 0x10, 0x20, 0x40, 0x80, 0x1b, 0x36]"

definition get_unaligned_be32 :: "byte list \<Rightarrow> u32" where
  "get_unaligned_be32 p = load_le (rev (take 4 p))"

text \<open>One turn of the second loop: the array and the counters j and k.\<close>

definition expand_step :: "nat \<Rightarrow> nat \<Rightarrow> u32 list \<times> nat \<times> nat \<Rightarrow> u32 list \<times> nat \<times> nat" where
  "expand_step words_key i s =
    (case s of (RoundKey, j, k) \<Rightarrow>
      let tempa = RoundKey ! (i - 1);
          tempa = (if j = 0 then Subword (push_bit 8 tempa OR drop_bit 24 tempa) XOR push_bit 24 (ucast (Rcon ! k))
                   else if words_key > 6 \<and> j = 4 then Subword tempa
                   else tempa);
          RoundKey = RoundKey[i := RoundKey ! (i - words_key) XOR tempa];
          j = j + 1
      in if j = words_key then (RoundKey, 0, k + 1) else (RoundKey, j, k))"

definition KeyExpansion :: "u32 list \<Rightarrow> byte list \<Rightarrow> nat \<Rightarrow> u32 list \<times> nat" where
  "KeyExpansion RoundKey key key_len =
    (let words_key = key_len div 4;
         rounds = 6 + key_len div 4;
         words_RoundKey = 28 + key_len;
         RoundKey = fold (\<lambda>i RoundKey. RoundKey[i := get_unaligned_be32 (drop (4 * i) key)]) [0..<words_key] RoundKey;
         (RoundKey, _, _) = fold (expand_step words_key) [words_key..<words_RoundKey] (RoundKey, 0, 0)
     in (RoundKey, rounds))"

definition aes_setkey :: "tls_aes \<Rightarrow> byte list \<Rightarrow> nat \<Rightarrow> tls_aes" where
  "aes_setkey aes key key_len =
    (let (RoundKey, rounds) = KeyExpansion (aes_key aes) key key_len
     in aes\<lparr>aes_key := RoundKey, rounds := rounds\<rparr>)"

subsection \<open>The steps of the cipher\<close>

text \<open>The state is a list of sixteen words; \<open>RoundKeys\<close> is the array from the pointer on.\<close>

type_synonym astate = "u32 list"

definition add_word :: "astate \<Rightarrow> nat \<Rightarrow> u32 \<Rightarrow> astate" where
  "add_word st i n =
     st[i + 0 := st ! (i + 0) XOR drop_bit 24 n,
        i + 1 := st ! (i + 1) XOR (drop_bit 16 n AND 255),
        i + 2 := st ! (i + 2) XOR (drop_bit 8 n AND 255),
        i + 3 := st ! (i + 3) XOR (n AND 255)]"

definition AddRoundKey :: "astate \<Rightarrow> u32 list \<Rightarrow> astate" where
  "AddRoundKey st RoundKeys = fold (\<lambda>c st. add_word st (4 * c) (RoundKeys ! c)) [0..<4] st"

definition SubBytes :: "astate \<Rightarrow> astate" where
  "SubBytes st = map (\<lambda>v. ucast (sbox ! unat v)) st"

definition InvSubBytes :: "astate \<Rightarrow> astate" where
  "InvSubBytes st = map (\<lambda>v. ucast (rsbox ! unat v)) st"

definition ASTATE :: "nat \<Rightarrow> nat \<Rightarrow> nat" where
  "ASTATE col row = col * 4 + row"

definition ShiftRows :: "astate \<Rightarrow> astate" where
  "ShiftRows st =
    (let v = st ! ASTATE 0 1;
         st = st[ASTATE 0 1 := st ! ASTATE 1 1];
         st = st[ASTATE 1 1 := st ! ASTATE 2 1];
         st = st[ASTATE 2 1 := st ! ASTATE 3 1];
         st = st[ASTATE 3 1 := v];
         v = st ! ASTATE 0 2; st = st[ASTATE 0 2 := st ! ASTATE 2 2]; st = st[ASTATE 2 2 := v];
         v = st ! ASTATE 1 2; st = st[ASTATE 1 2 := st ! ASTATE 3 2]; st = st[ASTATE 3 2 := v];
         v = st ! ASTATE 3 3;
         st = st[ASTATE 3 3 := st ! ASTATE 2 3];
         st = st[ASTATE 2 3 := st ! ASTATE 1 3];
         st = st[ASTATE 1 3 := st ! ASTATE 0 3]
     in st[ASTATE 0 3 := v])"

definition InvShiftRows :: "astate \<Rightarrow> astate" where
  "InvShiftRows st =
    (let v = st ! ASTATE 3 1;
         st = st[ASTATE 3 1 := st ! ASTATE 2 1];
         st = st[ASTATE 2 1 := st ! ASTATE 1 1];
         st = st[ASTATE 1 1 := st ! ASTATE 0 1];
         st = st[ASTATE 0 1 := v];
         v = st ! ASTATE 0 2; st = st[ASTATE 0 2 := st ! ASTATE 2 2]; st = st[ASTATE 2 2 := v];
         v = st ! ASTATE 1 2; st = st[ASTATE 1 2 := st ! ASTATE 3 2]; st = st[ASTATE 3 2 := v];
         v = st ! ASTATE 0 3;
         st = st[ASTATE 0 3 := st ! ASTATE 1 3];
         st = st[ASTATE 1 3 := st ! ASTATE 2 3];
         st = st[ASTATE 2 3 := st ! ASTATE 3 3]
     in st[ASTATE 3 3 := v])"

definition reduce :: "u32 \<Rightarrow> u32" where
  "reduce x = x XOR (- drop_bit 8 x AND 0x11b)"

definition mix_column :: "nat \<Rightarrow> astate \<Rightarrow> astate" where
  "mix_column i st =
    (let a = st ! (i + 0); b = st ! (i + 1); c = st ! (i + 2); d = st ! (i + 3);
         x = push_bit 1 a XOR b XOR push_bit 1 b XOR c XOR d;
         y = a XOR push_bit 1 b XOR c XOR push_bit 1 c XOR d;
         z = a XOR b XOR push_bit 1 c XOR d XOR push_bit 1 d;
         t = a XOR push_bit 1 a XOR b XOR c XOR push_bit 1 d
     in st[i + 0 := reduce x, i + 1 := reduce y, i + 2 := reduce z, i + 3 := reduce t])"

definition MixColumns :: "astate \<Rightarrow> astate" where
  "MixColumns st = fold mix_column [0, 4, 8, 12] st"

definition Multiply :: "u32 \<Rightarrow> u32" where
  "Multiply x =
    (let y = drop_bit 8 x
     in (x XOR y XOR push_bit 1 y XOR push_bit 3 y XOR push_bit 4 y) AND 255)"

definition inv_mix_column :: "nat \<Rightarrow> astate \<Rightarrow> astate" where
  "inv_mix_column i st =
    (let a = st ! (i + 0); b = st ! (i + 1); c = st ! (i + 2); d = st ! (i + 3);
         x = push_bit 1 a XOR push_bit 2 a XOR push_bit 3 a XOR b XOR push_bit 1 b XOR push_bit 3 b
             XOR c XOR push_bit 2 c XOR push_bit 3 c XOR d XOR push_bit 3 d;
         st = st[i + 0 := Multiply x];
         y = a XOR push_bit 3 a XOR push_bit 1 b XOR push_bit 2 b XOR push_bit 3 b
             XOR c XOR push_bit 1 c XOR push_bit 3 c XOR d XOR push_bit 2 d XOR push_bit 3 d;
         st = st[i + 1 := Multiply y];
         z = a XOR push_bit 2 a XOR push_bit 3 a XOR b XOR push_bit 3 b
             XOR push_bit 1 c XOR push_bit 2 c XOR push_bit 3 c XOR d XOR push_bit 1 d XOR push_bit 3 d;
         st = st[i + 2 := Multiply z];
         t = a XOR push_bit 1 a XOR push_bit 3 a XOR b XOR push_bit 2 b XOR push_bit 3 b
             XOR c XOR push_bit 3 c XOR push_bit 1 d XOR push_bit 2 d XOR push_bit 3 d
     in st[i + 3 := Multiply t])"

definition InvMixColumns :: "astate \<Rightarrow> astate" where
  "InvMixColumns st = fold inv_mix_column [0, 4, 8, 12] st"

subsection \<open>The cipher and its inverse\<close>

text \<open>
  \<open>n\<close> is \<^verbatim>\<open>rounds\<close> less one and \<open>RoundKey\<close> the array from the pointer on; every key schedule has
  at least one round, so \<^verbatim>\<open>--rounds == 0\<close> is reached.
\<close>

fun encrypt_rounds :: "nat \<Rightarrow> u32 list \<Rightarrow> astate \<Rightarrow> astate" where
  "encrypt_rounds n RoundKey st =
    (let st = ShiftRows (SubBytes (AddRoundKey st RoundKey)); RoundKey = drop 4 RoundKey in
     case n of
       0 \<Rightarrow> AddRoundKey st RoundKey
     | Suc m \<Rightarrow> encrypt_rounds m RoundKey (MixColumns st))"

declare encrypt_rounds.simps [simp del]

definition aes_encrypt_1 :: "tls_aes \<Rightarrow> astate \<Rightarrow> astate" where
  "aes_encrypt_1 aes st = encrypt_rounds (rounds aes - 1) (aes_key aes) st"

text \<open>\<open>n\<close> is \<^verbatim>\<open>rounds\<close>: the pointer is at round key \<open>n\<close>, and moves back.\<close>

fun decrypt_rounds :: "nat \<Rightarrow> u32 list \<Rightarrow> astate \<Rightarrow> astate" where
  "decrypt_rounds 0 RoundKey st = st"
| "decrypt_rounds (Suc n) RoundKey st =
    (let st = AddRoundKey (InvSubBytes (InvShiftRows st)) (drop (4 * n) RoundKey)
     in if n = 0 then st else decrypt_rounds n RoundKey (InvMixColumns st))"

definition aes_decrypt_1 :: "tls_aes \<Rightarrow> astate \<Rightarrow> astate" where
  "aes_decrypt_1 aes st =
     decrypt_rounds (rounds aes) (aes_key aes) (AddRoundKey st (drop (4 * rounds aes) (aes_key aes)))"

definition aes_encrypt_one_block :: "tls_aes \<Rightarrow> byte list \<Rightarrow> byte list" where
  "aes_encrypt_one_block aes pt = map ucast (aes_encrypt_1 aes (map ucast (take 16 pt)))"

subsection \<open>CBC\<close>

text \<open>
  \<^verbatim>\<open>len\<close> is the length of \<open>pt\<close>.  A last piece of less than sixteen bytes is read past its end and
  makes \<^verbatim>\<open>len -= 16\<close> wrap: that is \<open>None\<close>.
\<close>

definition xor_bytes :: "byte list \<Rightarrow> byte list \<Rightarrow> byte list" where
  "xor_bytes xs ys = map2 (XOR) xs ys"

function cbc_encrypt :: "(byte list \<Rightarrow> byte list) \<Rightarrow> byte list \<Rightarrow> byte list \<Rightarrow> byte list option" where
  "cbc_encrypt enc iv2 pt =
    (if pt = [] then Some []
     else if length pt < 16 then None
     else let ct = enc (xor_bytes (take 16 pt) iv2)
          in map_option ((@) ct) (cbc_encrypt enc ct (drop 16 pt)))"
  by pat_completeness auto
termination by (relation "measure (\<lambda>(enc, iv2, pt). length pt)") auto

function cbc_decrypt :: "(byte list \<Rightarrow> byte list) \<Rightarrow> byte list \<Rightarrow> byte list \<Rightarrow> byte list option" where
  "cbc_decrypt dec ivbuf ct =
    (if ct = [] then Some []
     else if length ct < 16 then None
     else let ivnext = take 16 ct; pt = xor_bytes (dec ivnext) ivbuf
          in map_option ((@) pt) (cbc_decrypt dec ivnext (drop 16 ct)))"
  by pat_completeness auto
termination by (relation "measure (\<lambda>(dec, ivbuf, ct). length ct)") auto

declare cbc_encrypt.simps [simp del] cbc_decrypt.simps [simp del]

definition encrypt_bytes :: "tls_aes \<Rightarrow> byte list \<Rightarrow> byte list" where
  "encrypt_bytes aes b = map ucast (aes_encrypt_1 aes (map ucast b))"

definition decrypt_bytes :: "tls_aes \<Rightarrow> byte list \<Rightarrow> byte list" where
  "decrypt_bytes aes b = map ucast (aes_decrypt_1 aes (map ucast b))"

definition aes_cbc_encrypt :: "tls_aes \<Rightarrow> byte list \<Rightarrow> byte list \<Rightarrow> byte list option" where
  "aes_cbc_encrypt aes iv data = cbc_encrypt (encrypt_bytes aes) (take 16 iv) data"

definition aes_cbc_decrypt :: "tls_aes \<Rightarrow> byte list \<Rightarrow> byte list \<Rightarrow> byte list option" where
  "aes_cbc_decrypt aes iv data = cbc_decrypt (decrypt_bytes aes) (take 16 iv) data"

subsection \<open>The interface of a block cipher\<close>

locale block_cipher =
  fixes enc dec :: "'k \<Rightarrow> byte list \<Rightarrow> byte list" and wf_key :: "'k \<Rightarrow> bool"
  assumes enc_length: "wf_key k \<Longrightarrow> length b = 16 \<Longrightarrow> length (enc k b) = 16"
    and dec_enc: "wf_key k \<Longrightarrow> length b = 16 \<Longrightarrow> dec k (enc k b) = b"
begin

lemma xor_bytes_cancel: "length ys = length xs \<Longrightarrow> xor_bytes (xor_bytes xs ys) ys = xs"
  unfolding xor_bytes_def by (induction ys xs rule: list_induct2) (simp_all add: xor.assoc)

lemma cbc_roundtrip:
  assumes "wf_key k"
  shows "length iv = 16 \<Longrightarrow> 16 dvd length pt \<Longrightarrow>
    \<exists>ct. cbc_encrypt (enc k) iv pt = Some ct \<and> length ct = length pt \<and> cbc_decrypt (dec k) iv ct = Some pt"
proof (induction "length pt" arbitrary: iv pt rule: less_induct)
  case less
  show ?case
  proof (cases "pt = []")
    case True
    then show ?thesis by (simp add: cbc_encrypt.simps cbc_decrypt.simps)
  next
    case False
    then have n: "16 \<le> length pt" using less.prems(2) by (simp add: dvd_imp_le)
    let ?x = "xor_bytes (take 16 pt) iv"
    let ?c = "enc k ?x"
    have x: "length ?x = 16" using n less.prems(1) by (simp add: xor_bytes_def)
    have c: "length ?c = 16" by (rule enc_length [OF assms x])
    have "16 dvd length (drop 16 pt)" using less.prems(2) n by simp
    moreover have "length (drop 16 pt) < length pt" using n by simp
    ultimately obtain ct where ct: "cbc_encrypt (enc k) ?c (drop 16 pt) = Some ct"
      "length ct = length (drop 16 pt)" "cbc_decrypt (dec k) ?c ct = Some (drop 16 pt)"
      using less.hyps [of "drop 16 pt" ?c] c by blast
    have "cbc_encrypt (enc k) iv pt = Some (?c @ ct)"
      using n False ct(1) by (simp add: cbc_encrypt.simps [of "enc k" iv] Let_def)
    moreover have "cbc_decrypt (dec k) iv (?c @ ct) = Some pt"
      using c ct(3) dec_enc [OF assms x] xor_bytes_cancel [of iv "take 16 pt"] n less.prems(1)
      by (subst cbc_decrypt.simps) (auto simp: Let_def)
    ultimately show ?thesis using c ct(2) n by simp
  qed
qed

end

subsection \<open>The steps on bytes and their inverses\<close>

lemma all_bytes:
  assumes "list_all (\<lambda>n. P (of_nat n)) [0..<256]"
  shows "P (b :: byte)"
proof -
  have "unat b \<in> set [0..<256]" by simp
  with assms have "P (of_nat (unat b))" unfolding list_all_iff by blast
  then show ?thesis by simp
qed

definition bytes :: "byte list \<Rightarrow> astate" where
  "bytes bs = map ucast bs"

lemma bytes_simps [simp]: "bytes [] = []" "bytes (b # bs) = ucast b # bytes bs" "length (bytes bs) = length bs"
  by (simp_all add: bytes_def)

lemma list16_cases:
  assumes "length (st :: 'a list) = 16"
    and "\<And>a0 a1 a2 a3 a4 a5 a6 a7 a8 a9 a10 a11 a12 a13 a14 a15.
      P [a0, a1, a2, a3, a4, a5, a6, a7, a8, a9, a10, a11, a12, a13, a14, a15]"
  shows "P st"
proof -
  have "P (map (\<lambda>i. st ! i) [0..<16])"
    by (simp add: upt_rec numeral_eq_Suc) (rule assms(2))
  then show ?thesis using assms(1) by (metis map_nth)
qed

lemma ucast_xor: "(ucast a XOR ucast b :: u32) = ucast (a XOR b :: byte)"
  by (rule bit_word_eqI) (auto simp: bit_xor_iff bit_ucast_iff dest: bit_imp_le_length)

lemma byte_of_word: "(x :: u32) AND 255 = ucast (ucast x :: byte)" "drop_bit 24 (x :: u32) = ucast (ucast (drop_bit 24 x) :: byte)"
proof -
  have "(255 :: u32) = mask 8" by (simp add: mask_eq_exp_minus_1)
  then have "x AND 255 = take_bit 8 x" by (simp only: take_bit_eq_mask)
  also have "\<dots> = ucast (ucast x :: byte)"
    by (rule bit_word_eqI) (auto simp: bit_take_bit_iff bit_ucast_iff)
  finally show "x AND 255 = ucast (ucast x :: byte)" .
  show "drop_bit 24 x = ucast (ucast (drop_bit 24 x) :: byte)"
    by (rule bit_word_eqI) (auto simp: bit_ucast_iff bit_drop_bit_eq dest: bit_imp_le_length)
qed

lemma xor_key_byte:
  "ucast a XOR drop_bit 24 x = (ucast (a XOR ucast (drop_bit 24 x) :: byte) :: u32)"
  "ucast a XOR (x AND 255) = (ucast (a XOR ucast x :: byte) :: u32)"
  by (subst byte_of_word, simp only: ucast_xor)+

lemma unat_ucast_byte [simp]: "unat (ucast (b :: byte) :: u32) = unat b"
  by (simp only: unsigned_ucast_eq) (simp add: take_bit_nat_eq_self less_trans [OF unat_byte_less])

definition key_bytes :: "u32 list \<Rightarrow> byte list" where
  "key_bytes K = concat (map (\<lambda>c. [ucast (drop_bit 24 (K ! c)), ucast (drop_bit 16 (K ! c)),
     ucast (drop_bit 8 (K ! c)), ucast (K ! c)]) [0..<4])"

lemma AddRoundKey_bytes:
  "length bs = 16 \<Longrightarrow> AddRoundKey (bytes bs) K = bytes (map2 (XOR) bs (key_bytes K))"
  by (rule list16_cases [of bs], assumption)
    (simp add: AddRoundKey_def add_word_def key_bytes_def upt_rec xor_key_byte)

lemma key_bytes_length [simp]: "length (key_bytes K) = 16"
  by (simp add: key_bytes_def upt_rec)

lemma map2_xor_cancel: "length ys = length xs \<Longrightarrow> map2 (XOR) (map2 (XOR) xs ys) ys = (xs :: byte list)"
  by (induction ys xs rule: list_induct2) (simp_all add: xor.assoc)

lemma SubBytes_bytes:
  "SubBytes (bytes bs) = bytes (map (\<lambda>b. sbox ! unat b) bs)"
  "InvSubBytes (bytes bs) = bytes (map (\<lambda>b. rsbox ! unat b) bs)"
  by (simp_all add: SubBytes_def InvSubBytes_def bytes_def)

lemma rsbox_sbox: "rsbox ! unat (sbox ! unat (b :: byte)) = b"
  by (rule all_bytes) code_simp

lemma ShiftRows_bytes:
  assumes "length bs = 16"
  shows "\<exists>bs'. length bs' = 16 \<and> ShiftRows (bytes bs) = bytes bs' \<and> InvShiftRows (bytes bs') = bytes bs"
proof -
  define perm where "perm = [0, 5, 10, 15, 4, 9, 14, 3, 8, 13, 2, 7, 12, 1, 6, 11 :: nat]"
  have "ShiftRows (bytes bs) = bytes (map ((!) bs) perm) \<and> InvShiftRows (bytes (map ((!) bs) perm)) = bytes bs"
    using assms
    by (rule list16_cases) (simp add: ShiftRows_def InvShiftRows_def ASTATE_def Let_def perm_def)
  moreover have "length (map ((!) bs) perm) = 16" by (simp add: perm_def)
  ultimately show ?thesis by blast
qed

text \<open>Multiplication by x in the field, on bytes; both reductions of the code agree with it.\<close>

definition xtime :: "byte \<Rightarrow> byte" where
  "xtime b = ucast (Multiply (push_bit 1 (ucast b)))"

lemma Multiply_xor: "Multiply (x XOR y) = Multiply x XOR Multiply y"
  by (simp only: Multiply_def Let_def push_bit_xor drop_bit_xor bit.conj_xor_distrib2
      xor.assoc xor.left_commute)

text \<open>Additive functions of a byte are determined by the eight single bits.\<close>

lemma take_bit_Suc_xor:
  "take_bit (Suc n) (b :: byte) = take_bit n b XOR (if bit b n then 2 ^ n else 0)"
  by (rule bit_word_eqI) (auto simp: bit_xor_iff bit_take_bit_iff bit_exp_iff less_Suc_eq)

lemma additive_eqI:
  fixes f g :: "byte \<Rightarrow> 'a::len word"
  assumes "\<And>a b. f (a XOR b) = f a XOR f b" and "\<And>a b. g (a XOR b) = g a XOR g b"
    and "map f [1, 2, 4, 8, 16, 32, 64, 128] = map g [1, 2, 4, 8, 16, 32, 64, 128]"
  shows "f b = g b"
proof -
  have zero: "f 0 = 0" "g 0 = 0" using assms(1) [of 0 0] assms(2) [of 0 0] by simp_all
  have single: "f (2 ^ n) = g (2 ^ n)" if "n < 8" for n
  proof -
    from that have "n \<in> {0, 1, 2, 3, 4, 5, 6, 7}" by auto
    then show ?thesis using assms(3) by auto
  qed
  have "f (take_bit n b) = g (take_bit n b)" if "n \<le> 8" for n
    using that by (induction n) (simp_all add: take_bit_Suc_xor assms(1,2) zero single)
  from this [of 8] show ?thesis by (simp add: take_bit_word_eq_self)
qed

lemma push_ucast_xor: "(push_bit n (ucast (a XOR b :: byte)) :: u32) = push_bit n (ucast a) XOR push_bit n (ucast b)"
  by (simp add: ucast_xor [symmetric] push_bit_xor)

lemma ucast_byte_xor: "(ucast (x XOR y :: u32) :: byte) = ucast x XOR ucast y"
  by (auto intro!: bit_word_eqI simp: bit_xor_iff bit_ucast_iff)

lemma xtime_xor: "xtime (a XOR b) = xtime a XOR xtime b"
  by (simp only: xtime_def Multiply_xor push_ucast_xor ucast_byte_xor)

lemma Multiply_push_add:
  "Multiply (push_bit n (ucast (a XOR b :: byte))) = Multiply (push_bit n (ucast a)) XOR Multiply (push_bit n (ucast b))"
  by (simp only: push_ucast_xor Multiply_xor)

lemma Multiply_byte:
  "Multiply (ucast (b :: byte)) = ucast b"
  "Multiply (push_bit 1 (ucast (b :: byte))) = ucast (xtime b)"
  "Multiply (push_bit 2 (ucast (b :: byte))) = ucast (xtime (xtime b))"
  "Multiply (push_bit 3 (ucast (b :: byte))) = ucast (xtime (xtime (xtime b)))"
proof -
  have check:
    "map (\<lambda>b. Multiply (ucast (b :: byte))) [1, 2, 4, 8, 16, 32, 64, 128] = map ucast [1, 2, 4, 8, 16, 32, 64, 128 :: byte]"
    "map (\<lambda>b. Multiply (push_bit 1 (ucast (b :: byte)))) [1, 2, 4, 8, 16, 32, 64, 128] =
     map (\<lambda>b. ucast (xtime b)) [1, 2, 4, 8, 16, 32, 64, 128]"
    "map (\<lambda>b. Multiply (push_bit 2 (ucast (b :: byte)))) [1, 2, 4, 8, 16, 32, 64, 128] =
     map (\<lambda>b. ucast (xtime (xtime b))) [1, 2, 4, 8, 16, 32, 64, 128]"
    "map (\<lambda>b. Multiply (push_bit 3 (ucast (b :: byte)))) [1, 2, 4, 8, 16, 32, 64, 128] =
     map (\<lambda>b. ucast (xtime (xtime (xtime b)))) [1, 2, 4, 8, 16, 32, 64, 128]"
    by code_simp+
  show "Multiply (ucast b) = ucast b"
    by (rule additive_eqI [OF _ _ check(1)]) (simp_all only: ucast_xor [symmetric] Multiply_xor)
  show "Multiply (push_bit 1 (ucast b)) = ucast (xtime b)"
    by (rule additive_eqI [OF _ _ check(2)]) (simp_all only: Multiply_push_add xtime_xor ucast_xor)
  show "Multiply (push_bit 2 (ucast b)) = ucast (xtime (xtime b))"
    by (rule additive_eqI [OF _ _ check(3)]) (simp_all only: Multiply_push_add xtime_xor ucast_xor)
  show "Multiply (push_bit 3 (ucast b)) = ucast (xtime (xtime (xtime b)))"
    by (rule additive_eqI [OF _ _ check(4)]) (simp_all only: Multiply_push_add xtime_xor ucast_xor)
qed

lemma small_take_bit: "z < 512 \<longleftrightarrow> take_bit 9 z = (z :: u32)"
proof -
  have "take_bit 9 z = z mod 2 ^ 9" by (simp only: take_bit_eq_mod)
  then have "take_bit 9 z = z \<longleftrightarrow> unat z mod 512 = unat z"
    by (simp add: word_unat_eq_iff unat_mod)
  then show ?thesis by (simp add: word_less_nat_alt mod_nat_eqI) (metis mod_less mod_less_divisor zero_less_numeral)
qed

lemma reduce_Multiply:
  assumes "x < 512"
  shows "reduce x = Multiply x"
proof -
  have t: "take_bit 9 x = x" using assms by (simp add: small_take_bit)
  have y: "drop_bit 8 x = of_bool (bit x 8)"
    by (subst t [symmetric], rule bit_word_eqI) (auto simp: bit_drop_bit_eq bit_take_bit_iff bit_of_bool_iff)
  have "(255 :: u32) = mask 8" by (simp add: mask_eq_exp_minus_1)
  then have a: "x AND 255 = take_bit 8 x" by (simp only: take_bit_eq_mask)
  show ?thesis
  proof (cases "bit x 8")
    case False
    have "take_bit 8 x = x"
      by (subst (2) t [symmetric], rule bit_word_eqI) (use False in \<open>auto simp: bit_take_bit_iff less_Suc_eq numeral_eq_Suc\<close>)
    with False show ?thesis by (simp add: reduce_def Multiply_def y a)
  next
    case True
    have "x = take_bit 8 x XOR 256"
    proof -
      have "x = take_bit 8 x XOR 2 ^ 8"
        by (subst (1) t [symmetric], rule bit_word_eqI)
          (use True in \<open>auto simp: bit_take_bit_iff bit_xor_iff bit_exp_iff less_Suc_eq numeral_eq_Suc simp del: power_numeral\<close>)
      then show ?thesis by simp
    qed
    then have "reduce x = (take_bit 8 x XOR 256) XOR 0x11b"
      using True by (simp add: reduce_def y)
    also have "\<dots> = take_bit 8 x XOR 0x1b" by (simp add: xor.assoc)
    also have "\<dots> = Multiply x"
      using True by (simp add: Multiply_def y push_bit_eq_mult bit.conj_xor_distrib2 a xor.assoc)
    finally show ?thesis .
  qed
qed

lemma small_xor: "x < 512 \<Longrightarrow> y < 512 \<Longrightarrow> x XOR y < (512 :: u32)"
  by (simp add: small_take_bit take_bit_xor)

lemma small_byte: "(ucast (b :: byte) :: u32) < 512" "push_bit 1 (ucast (b :: byte) :: u32) < 512"
proof -
  have u: "unat (ucast b :: u32) < 256" by simp
  have "unat b < 512" using unat_byte_less [of b] by linarith
  then show "(ucast b :: u32) < 512" by (simp add: word_less_nat_alt)
  have "unat (2 * ucast b :: u32) = 2 * unat b"
  proof -
    have "2 * unat b < 4294967296" using unat_byte_less [of b] by linarith
    then show ?thesis by (simp only: unat_word_ariths) simp
  qed
  then have "unat (2 * ucast b :: u32) < 512" using unat_byte_less [of b] by linarith
  then show "push_bit 1 (ucast b :: u32) < 512" by (simp add: word_less_nat_alt push_bit_eq_mult mult.commute)
qed

lemmas column_simps = reduce_Multiply small_xor small_byte Multiply_xor Multiply_byte ucast_xor

text \<open>A column mixed and unmixed: the polynomial identities need no reduction.\<close>

definition mixed :: "byte \<Rightarrow> byte \<Rightarrow> byte \<Rightarrow> byte \<Rightarrow> byte" where
  "mixed a b c d = xtime a XOR b XOR xtime b XOR c XOR d"

definition unmixed :: "byte \<Rightarrow> byte \<Rightarrow> byte \<Rightarrow> byte \<Rightarrow> byte" where
  "unmixed a b c d =
     xtime a XOR xtime (xtime a) XOR xtime (xtime (xtime a)) XOR b XOR xtime b XOR xtime (xtime (xtime b))
     XOR c XOR xtime (xtime c) XOR xtime (xtime (xtime c)) XOR d XOR xtime (xtime (xtime d))"

lemma unmixed_mixed:
  "unmixed (mixed a b c d) (mixed b c d a) (mixed c d a b) (mixed d a b c) = a"
  unfolding unmixed_def mixed_def xtime_xor
  by (simp add: xor.assoc xor.left_commute xor.commute)

definition col4 :: "(u32 \<Rightarrow> u32 \<Rightarrow> u32 \<Rightarrow> u32 \<Rightarrow> u32) \<Rightarrow> nat \<Rightarrow> astate \<Rightarrow> astate" where
  "col4 f i st =
    (let a = st ! i; b = st ! (i + 1); c = st ! (i + 2); d = st ! (i + 3)
     in st[i := f a b c d, i + 1 := f b c d a, i + 2 := f c d a b, i + 3 := f d a b c])"

definition mx :: "u32 \<Rightarrow> u32 \<Rightarrow> u32 \<Rightarrow> u32 \<Rightarrow> u32" where
  "mx a b c d = reduce (push_bit 1 a XOR b XOR push_bit 1 b XOR c XOR d)"

definition umx :: "u32 \<Rightarrow> u32 \<Rightarrow> u32 \<Rightarrow> u32 \<Rightarrow> u32" where
  "umx a b c d =
     Multiply (push_bit 1 a XOR push_bit 2 a XOR push_bit 3 a XOR b XOR push_bit 1 b XOR push_bit 3 b
       XOR c XOR push_bit 2 c XOR push_bit 3 c XOR d XOR push_bit 3 d)"

lemma mix_column_eq: "mix_column i st = col4 mx i st"
  by (simp only: mix_column_def col4_def Let_def mx_def add_0_right xor.assoc xor.commute xor.left_commute)

lemma inv_mix_column_eq: "inv_mix_column i st = col4 umx i st"
  by (simp only: inv_mix_column_def col4_def Let_def umx_def add_0_right xor.assoc xor.commute xor.left_commute)

lemma mx_bytes: "mx (ucast a) (ucast b) (ucast c) (ucast d) = ucast (mixed a b c d)"
  by (simp only: mx_def column_simps mixed_def)

lemma umx_bytes: "umx (ucast a) (ucast b) (ucast c) (ucast d) = ucast (unmixed a b c d)"
  by (simp only: umx_def column_simps unmixed_def)

lemma MixColumns_bytes:
  assumes "length bs = 16"
  shows "\<exists>bs'. length bs' = 16 \<and> MixColumns (bytes bs) = bytes bs' \<and> InvMixColumns (bytes bs') = bytes bs"
proof -
  define f where "f = (\<lambda>bs :: byte list. concat (map (\<lambda>i. let a = bs ! i; b = bs ! (i + 1); c = bs ! (i + 2); d = bs ! (i + 3)
      in [mixed a b c d, mixed b c d a, mixed c d a b, mixed d a b c]) [0, 4, 8, 12]))"
  have "MixColumns (bytes bs) = bytes (f bs) \<and> InvMixColumns (bytes (f bs)) = bytes bs"
    using assms
    by (rule list16_cases)
      (simp add: f_def MixColumns_def InvMixColumns_def mix_column_eq inv_mix_column_eq col4_def Let_def
        mx_bytes umx_bytes unmixed_mixed)
  moreover have "length (f bs) = 16" by (simp add: f_def Let_def)
  ultimately show ?thesis by blast
qed

subsection \<open>The cipher is inverted\<close>

lemma round_bytes:
  assumes "length bs = 16"
  shows "\<exists>bs'. length bs' = 16 \<and> ShiftRows (SubBytes (AddRoundKey (bytes bs) K)) = bytes bs' \<and>
    AddRoundKey (InvSubBytes (InvShiftRows (bytes bs'))) K = bytes bs"
proof -
  let ?x = "map2 (XOR) bs (key_bytes K)"
  have x: "length ?x = 16" using assms by simp
  from ShiftRows_bytes [of "map (\<lambda>b. sbox ! unat b) ?x"] x obtain bs' where bs': "length bs' = 16"
    "ShiftRows (bytes (map (\<lambda>b. sbox ! unat b) ?x)) = bytes bs'"
    "InvShiftRows (bytes bs') = bytes (map (\<lambda>b. sbox ! unat b) ?x)" by auto
  have "AddRoundKey (InvSubBytes (InvShiftRows (bytes bs'))) K = bytes (map2 (XOR) ?x (key_bytes K))"
    using bs'(3) x AddRoundKey_bytes [of ?x K] by (simp add: SubBytes_bytes comp_def rsbox_sbox)
  with bs' assms show ?thesis
    by (auto simp: AddRoundKey_bytes SubBytes_bytes map2_xor_cancel)
qed

lemma decrypt_encrypt:
  assumes "length bs = 16"
  shows "\<exists>bs'. length bs' = 16 \<and> encrypt_rounds n (drop (4 * k) K) (bytes bs) = bytes bs' \<and>
    decrypt_rounds (k + n + 1) K (AddRoundKey (bytes bs') (drop (4 * (k + n + 1)) K)) =
    (if k = 0 then bytes bs else decrypt_rounds k K (InvMixColumns (bytes bs)))"
  using assms
proof (induction n arbitrary: bs k)
  case 0
  from round_bytes [OF 0] obtain cs where cs: "length cs = 16"
    "ShiftRows (SubBytes (AddRoundKey (bytes bs) (drop (4 * k) K))) = bytes cs"
    "AddRoundKey (InvSubBytes (InvShiftRows (bytes cs))) (drop (4 * k) K) = bytes bs" by blast
  let ?ds = "map2 (XOR) cs (key_bytes (drop (4 * (k + 1)) K))"
  have "AddRoundKey (bytes ?ds) (drop (4 * (k + 1)) K) = bytes cs" "length ?ds = 16"
    using cs(1) AddRoundKey_bytes [of ?ds] by (simp_all add: map2_xor_cancel)
  moreover have "encrypt_rounds 0 (drop (4 * k) K) (bytes bs) = bytes ?ds"
    using cs AddRoundKey_bytes [of cs] by (simp add: encrypt_rounds.simps add.commute)
  ultimately show ?case using cs by (intro exI [of _ ?ds]) (simp add: Let_def)
next
  case (Suc n)
  from round_bytes [OF Suc.prems] obtain cs where cs: "length cs = 16"
    "ShiftRows (SubBytes (AddRoundKey (bytes bs) (drop (4 * k) K))) = bytes cs"
    "AddRoundKey (InvSubBytes (InvShiftRows (bytes cs))) (drop (4 * k) K) = bytes bs" by blast
  from MixColumns_bytes [OF cs(1)] obtain ms where ms: "length ms = 16"
    "MixColumns (bytes cs) = bytes ms" "InvMixColumns (bytes ms) = bytes cs" by blast
  have "encrypt_rounds (Suc n) (drop (4 * k) K) (bytes bs) = encrypt_rounds n (drop (4 * Suc k) K) (bytes ms)"
    using cs(2) ms(2) by (simp add: encrypt_rounds.simps [of "Suc n"] add.commute)
  moreover have "decrypt_rounds (Suc k) K (InvMixColumns (bytes ms)) =
      (if k = 0 then bytes bs else decrypt_rounds k K (InvMixColumns (bytes bs)))"
    using cs(3) ms(3) by (simp add: Let_def)
  ultimately show ?case using Suc.IH [OF ms(1), of "Suc k"] by (simp add: add.commute add.left_commute)
qed

definition wf_aes :: "tls_aes \<Rightarrow> bool" where
  "wf_aes aes \<longleftrightarrow> 0 < rounds aes"

lemma cipher_inverse:
  assumes "wf_aes aes" and "length b = 16"
  shows "length (encrypt_bytes aes b) = 16" and "decrypt_bytes aes (encrypt_bytes aes b) = b"
proof -
  obtain n where n: "rounds aes = Suc n" using assms(1) by (cases "rounds aes") (auto simp: wf_aes_def)
  have low: "map ucast (bytes x) = x" for x :: "byte list"
  proof -
    have "(ucast (ucast c :: u32) :: byte) = c" for c :: byte
      by (rule bit_word_eqI) (auto simp: bit_ucast_iff)
    then show ?thesis by (simp add: bytes_def comp_def)
  qed
  from decrypt_encrypt [OF assms(2), of n 0 "aes_key aes"] obtain b' where b': "length b' = 16"
    "encrypt_rounds n (aes_key aes) (bytes b) = bytes b'"
    "decrypt_rounds (Suc n) (aes_key aes) (AddRoundKey (bytes b') (drop (4 * Suc n) (aes_key aes))) = bytes b"
    by auto
  have e: "encrypt_bytes aes b = b'"
    using b'(2) by (simp add: encrypt_bytes_def aes_encrypt_1_def n bytes_def [symmetric] low)
  then show "length (encrypt_bytes aes b) = 16" using b'(1) by simp
  show "decrypt_bytes aes (encrypt_bytes aes b) = b"
    using b'(3) by (simp only: e decrypt_bytes_def aes_decrypt_1_def n bytes_def [symmetric] low)
qed

interpretation aes: block_cipher encrypt_bytes decrypt_bytes wf_aes
  by unfold_locales (simp_all add: cipher_inverse)

lemma aes_setkey_wf: "wf_aes (aes_setkey aes key key_len)"
  by (simp add: aes_setkey_def wf_aes_def KeyExpansion_def Let_def split: prod.split)

text \<open>C19: TLS record encryption round trip: with any AES-128, AES-192 or AES-256 key, any initialisation vector of sixteen bytes and
  any data of a whole number of blocks, \<^verbatim>\<open>aes_cbc_encrypt\<close> returns as many bytes as it is given and
  \<^verbatim>\<open>aes_cbc_decrypt\<close> recovers the data from them.\<close>

theorem aes_cbc_roundtrip:
  assumes "length iv = 16" and "16 dvd length data"
    and "key_len \<in> {16, 24, 32}" and "length key = key_len" and "length (aes_key aes) = 60"
  shows "\<exists>ct. aes_cbc_encrypt (aes_setkey aes key key_len) iv data = Some ct \<and> length ct = length data \<and>
    aes_cbc_decrypt (aes_setkey aes key key_len) iv ct = Some data"
  using aes.cbc_roundtrip [OF aes_setkey_wf assms(1,2)] assms(1)
  by (simp add: aes_cbc_encrypt_def aes_cbc_decrypt_def)

theorem aes_cbc_roundtrip_witness:
  "\<exists>ct. aes_cbc_encrypt (aes_setkey \<lparr>aes_key = replicate 60 0, rounds = 0\<rparr> (replicate 16 7) 16)
      (replicate 16 1) (replicate 32 2) = Some ct \<and> length ct = 32 \<and>
    aes_cbc_decrypt (aes_setkey \<lparr>aes_key = replicate 60 0, rounds = 0\<rparr> (replicate 16 7) 16)
      (replicate 16 1) ct = Some (replicate 32 2)"
  using aes_cbc_roundtrip [of "replicate 16 1" "replicate 32 2" 16 "replicate 16 7"
      "\<lparr>aes_key = replicate 60 0, rounds = 0\<rparr>"] by simp

end
