(* ===== verification/Libbb_Crc.thy ===== *)
theory Libbb_Crc
  imports Bb_Prelude
begin

text \<open>
  CRC-32, \<^verbatim>\<open>libbb/crc32.c\<close>: the tables and the block functions of both bit orders, compared with the shift
  register that takes one bit of the message at a time.
\<close>

subsection \<open>The code\<close>

definition polynomial :: "bool \<Rightarrow> u32" where
  "polynomial endian = (if endian then 0x04c11db7 else 0xedb88320)"

definition table_step :: "bool \<Rightarrow> u32 \<Rightarrow> u32" where
  "table_step endian c =
    (if endian then (if c AND 0x80000000 \<noteq> 0 then push_bit 1 c XOR polynomial endian else push_bit 1 c)
     else (if c AND 1 \<noteq> 0 then drop_bit 1 c XOR polynomial endian else drop_bit 1 c))"

definition crc32_filltable :: "bool \<Rightarrow> u32 list" where
  "crc32_filltable endian =
    map (\<lambda>i. (table_step endian ^^ 8) (if endian then push_bit 24 (of_nat i) else of_nat i)) [0..<256]"

definition crc32_new_table_le :: "u32 list" where
  "crc32_new_table_le = crc32_filltable False"

fun crc32_block_endian1 :: "u32 \<Rightarrow> byte list \<Rightarrow> u32 list \<Rightarrow> u32" where
  "crc32_block_endian1 v [] crc_table = v"
| "crc32_block_endian1 v (b # buf) crc_table =
    crc32_block_endian1 (push_bit 8 v XOR crc_table ! unat (drop_bit 24 v XOR ucast b)) buf crc_table"

fun crc32_block_endian0 :: "u32 \<Rightarrow> byte list \<Rightarrow> u32 list \<Rightarrow> u32" where
  "crc32_block_endian0 v [] crc_table = v"
| "crc32_block_endian0 v (b # buf) crc_table =
    crc32_block_endian0 (crc_table ! unat ((ucast v :: byte) XOR b) XOR drop_bit 8 v) buf crc_table"

definition crc32_block :: "bool \<Rightarrow> u32 \<Rightarrow> byte list \<Rightarrow> u32" where
  "crc32_block endian v buf =
    (if endian then crc32_block_endian1 v buf (crc32_filltable endian)
     else crc32_block_endian0 v buf (crc32_filltable endian))"

subsection \<open>The shift register\<close>

text \<open>One bit of the message is added to the bit that leaves the register.\<close>

definition register_step :: "bool \<Rightarrow> bool \<Rightarrow> u32 \<Rightarrow> u32" where
  "register_step endian b c =
    (let out = (bit c (if endian then 31 else 0) \<noteq> b); c = (if endian then push_bit 1 c else drop_bit 1 c)
     in if out then c XOR polynomial endian else c)"

definition byte_bits :: "bool \<Rightarrow> byte \<Rightarrow> bool list" where
  "byte_bits endian b = map (bit b) (if endian then rev [0..<8] else [0..<8])"

definition register :: "bool \<Rightarrow> byte list \<Rightarrow> u32 \<Rightarrow> u32" where
  "register endian buf = fold (register_step endian) (concat (map (byte_bits endian) buf))"

text \<open>Where a message byte enters the register.\<close>

definition place :: "bool \<Rightarrow> byte \<Rightarrow> u32" where
  "place endian b = (if endian then push_bit 24 (ucast b) else ucast b)"

lemma top_bit: "(c :: u32) AND 0x80000000 = 0 \<longleftrightarrow> \<not> bit c 31"
  by (simp add: bit_iff_and_push_bit_not_eq_0 [of c 31])

lemma low_bit: "(c :: u32) AND 1 = 0 \<longleftrightarrow> \<not> bit c 0"
  by (simp add: bit_iff_and_push_bit_not_eq_0 [of c 0])

lemma table_step_register: "table_step endian c = register_step endian False c"
  by (simp add: table_step_def register_step_def top_bit low_bit Let_def)

text \<open>Both are linear.\<close>

lemma shift_xor: "push_bit n (x XOR y) = push_bit n x XOR push_bit n (y :: u32)"
  "drop_bit n (x XOR y) = drop_bit n x XOR drop_bit n y"
  by (auto intro!: bit_word_eqI simp: bit_push_bit_iff bit_drop_bit_eq bit_xor_iff)

lemma table_step_xor: "table_step e (x XOR y) = table_step e x XOR table_step e y"
  unfolding table_step_register register_step_def Let_def shift_xor bit_xor_iff
  by (auto intro!: bit_word_eqI simp: bit_xor_iff shift_xor)

lemma table_steps_xor: "(table_step e ^^ n) (x XOR y) = (table_step e ^^ n) x XOR (table_step e ^^ n) y"
  by (induction n) (simp_all add: table_step_xor)

definition inlet :: "bool \<Rightarrow> u32" where
  "inlet e = (if e then 0x80000000 else 1)"

lemma bit_inlet [simp]: "bit (inlet e) i \<longleftrightarrow> i = (if e then 31 else 0)"
proof -
  have "(0x80000000 :: u32) = push_bit 31 1" by simp
  then show ?thesis by (auto simp only: inlet_def bit_push_bit_iff bit_1_iff if_True if_False split: if_splits) simp_all
qed

text \<open>The bits of a message as a word that is added to the register before it moves.\<close>

fun word_of_bits :: "bool \<Rightarrow> bool list \<Rightarrow> u32" where
  "word_of_bits e [] = 0"
| "word_of_bits e (b # bs) =
    (if b then inlet e else 0) XOR (if e then drop_bit 1 (word_of_bits e bs) else push_bit 1 (word_of_bits e bs))"

lemma bit_word_of_bits:
  "length bs \<le> 32 \<Longrightarrow> i < 32 \<Longrightarrow>
    bit (word_of_bits e bs) i \<longleftrightarrow> (let k = if e then 31 - i else i in k < length bs \<and> bs ! k)"
proof (induction bs arbitrary: i)
  case (Cons b bs)
  show ?case
  proof (cases e)
    case True
    show ?thesis
    proof (cases "i = 31")
      case True
      then show ?thesis using \<open>e\<close> by (auto simp: bit_xor_iff bit_drop_bit_eq dest: bit_imp_le_length)
    next
      case False
      then have "31 - i = Suc (31 - Suc i)" using Cons.prems by simp
      with False \<open>e\<close> Cons.IH [of "Suc i"] Cons.prems show ?thesis
        by (auto simp: bit_xor_iff bit_drop_bit_eq Let_def)
    qed
  next
    case False
    have "bit (word_of_bits e (b # bs)) i \<longleftrightarrow> (b \<and> i = 0) \<noteq> (1 \<le> i \<and> bit (word_of_bits e bs) (i - 1))"
      using False Cons.prems(2)
      by (cases b) (simp_all only: word_of_bits.simps if_True if_False bit_xor_iff bit_push_bit_iff bit_inlet, simp_all)
    then show ?thesis using Cons.IH [of "i - 1"] Cons.prems False by (cases i) (auto simp: Let_def)
  qed
qed simp

lemma word_of_byte: "word_of_bits e (byte_bits e b) = place e b"
proof (rule bit_word_eqI)
  fix i assume "i < LENGTH(32)"
  then have i: "i < 32" by simp
  have "length (byte_bits e b) = 8" by (simp add: byte_bits_def)
  then have "bit (word_of_bits e (byte_bits e b)) i \<longleftrightarrow> (let k = if e then 31 - i else i in k < 8 \<and> byte_bits e b ! k)"
    using bit_word_of_bits [of "byte_bits e b" i e] i by simp
  also have "\<dots> \<longleftrightarrow> bit (place e b) i"
  proof -
    have small: "bit b j \<Longrightarrow> j < 8" for j using bit_imp_le_length [of b j] by simp
    show ?thesis
    proof (cases e)
      case True
      have "i - 24 < 8" using i by simp
      with True show ?thesis using i small [of "i - 24"] by (cases "24 \<le> i")
        (auto simp: byte_bits_def place_def bit_push_bit_iff bit_ucast_iff rev_nth Let_def rev_map [symmetric])
    next
      case False
      then show ?thesis using i small [of i] by (cases "i < 8") (auto simp: byte_bits_def place_def bit_ucast_iff Let_def)
    qed
  qed
  finally show "bit (word_of_bits e (byte_bits e b)) i = bit (place e b) i" .
qed

lemma register_step_add: "register_step e b c = table_step e (c XOR (if b then inlet e else 0))"
proof -
  have p: "push_bit 1 (inlet True) = 0" "drop_bit 1 (inlet False) = 0" by (simp_all add: inlet_def)
  show ?thesis
    by (cases b; cases e)
      (simp_all only: table_step_register register_step_def Let_def bit_xor_iff shift_xor p bit_inlet if_True if_False
        xor.right_neutral simp_thms)
qed

lemma shift_back:
  "\<not> bit x 0 \<Longrightarrow> push_bit 1 (drop_bit 1 x) = x" "\<not> bit x 31 \<Longrightarrow> drop_bit 1 (push_bit 1 x) = (x :: u32)"
proof -
  show "push_bit 1 (drop_bit 1 x) = x" if "\<not> bit x 0"
  proof (rule bit_word_eqI)
    fix i assume "i < LENGTH(32)"
    with that show "bit (push_bit 1 (drop_bit 1 x)) i = bit x i"
      by (cases i) (simp_all only: bit_push_bit_iff bit_drop_bit_eq comp_def, simp_all)
  qed
  show "drop_bit 1 (push_bit 1 x) = x" if "\<not> bit x 31"
  proof (rule bit_word_eqI)
    fix i assume "i < LENGTH(32)"
    with that show "bit (drop_bit 1 (push_bit 1 x)) i = bit x i"
      by (cases "i = 31") (simp_all only: bit_push_bit_iff bit_drop_bit_eq comp_def, simp_all)
  qed
qed

lemma table_step_word_of_bits:
  assumes "length bs \<le> 31"
  shows "table_step e (if e then drop_bit 1 (word_of_bits e bs) else push_bit 1 (word_of_bits e bs)) = word_of_bits e bs"
proof -
  have "\<not> bit (word_of_bits e bs) (if e then 0 else 31)"
    using bit_word_of_bits [of bs "if e then 0 else 31" e] assms by (simp add: Let_def split: if_splits)
  moreover have "\<not> bit (drop_bit 1 x) 31" "\<not> bit (push_bit 1 x) 0" for x :: u32
    using bit_imp_le_length [of x 32] by (auto simp only: bit_drop_bit_eq bit_push_bit_iff comp_def, simp_all)
  ultimately show ?thesis
    by (cases e) (simp_all only: table_step_register register_step_def Let_def shift_back if_True if_False simp_thms)
qed

lemma register_bits:
  "length bs \<le> 32 \<Longrightarrow> fold (register_step e) bs c = (table_step e ^^ length bs) (c XOR word_of_bits e bs)"
proof (induction bs arbitrary: c)
  case (Cons b bs)
  let ?in = "if b then inlet e else 0 :: u32"
  have "fold (register_step e) (b # bs) c = (table_step e ^^ length bs) (table_step e (c XOR ?in) XOR word_of_bits e bs)"
    using Cons.prems by (simp only: fold_simps register_step_add Cons.IH Suc_leD list.size One_nat_def add_Suc_right add_0_right)
  also have "word_of_bits e bs = table_step e (if e then drop_bit 1 (word_of_bits e bs) else push_bit 1 (word_of_bits e bs))"
    using Cons.prems by (simp only: table_step_word_of_bits list.size)
  also have "table_step e (c XOR ?in) XOR \<dots> = table_step e (c XOR word_of_bits e (b # bs))"
    by (simp only: table_step_xor word_of_bits.simps xor.assoc)
  finally show ?case by (simp only: list.size funpow_Suc_right comp_apply One_nat_def add_Suc_right add_0_right)
qed simp

subsection \<open>The table-driven code computes the shift register\<close>

lemma steps_shift:
  "(\<And>i. i < n \<Longrightarrow> \<not> bit x (if e then 31 - i else i)) \<Longrightarrow> n \<le> 32 \<Longrightarrow>
    (table_step e ^^ n) x = (if e then push_bit n x else drop_bit n x)"
proof (induction n)
  case (Suc n)
  let ?y = "if e then push_bit n x else drop_bit n x"
  have "\<not> bit ?y (if e then 31 else 0)"
    using Suc.prems(1) [of n] Suc.prems(2) by (auto simp: bit_push_bit_iff bit_drop_bit_eq)
  then have "table_step e ?y = (if e then push_bit (Suc n) x else drop_bit (Suc n) x)"
    by (cases e) (simp_all only: table_step_register register_step_def Let_def if_True if_False simp_thms
        push_bit_push_bit drop_bit_drop_bit plus_1_eq_Suc)
  with Suc show ?case by simp
qed simp

lemma filltable_nth:
  assumes "n < 256"
  shows "crc32_filltable e ! n = (table_step e ^^ 8) (place e (of_nat n))"
proof -
  have "unat (of_nat n :: byte) = n" by (rule unat_of_nat_small) (use assms in simp)
  moreover have "(ucast (of_nat n :: byte) :: u32) = of_nat (unat (of_nat n :: byte))" by (simp only: of_nat_unat)
  ultimately have "(ucast (of_nat n :: byte) :: u32) = of_nat n" by (simp only:)
  with assms show ?thesis unfolding crc32_filltable_def place_def by simp
qed

lemma place_xor: "place e (x XOR y) = place e x XOR place e y"
  by (auto intro!: bit_word_eqI simp: place_def bit_push_bit_iff bit_ucast_iff bit_xor_iff)

text \<open>The byte of the register that meets the message.\<close>

definition lead :: "bool \<Rightarrow> u32 \<Rightarrow> byte" where
  "lead e v = (if e then ucast (drop_bit 24 v) else ucast v)"

lemma split_lead: "(table_step e ^^ 8) v = (table_step e ^^ 8) (place e (lead e v)) XOR (if e then push_bit 8 v else drop_bit 8 v)"
proof -
  define r where "r = v XOR place e (lead e v)"
  have r: "bit r i \<longleftrightarrow> bit v i \<and> \<not> (if e then 24 \<le> i else i < 8)" if "i < 32" for i
    using that by (auto simp: r_def bit_xor_iff place_def lead_def bit_push_bit_iff bit_ucast_iff bit_drop_bit_eq)
  then have "(table_step e ^^ 8) r = (if e then push_bit 8 r else drop_bit 8 r)"
    by (intro steps_shift) (auto split: if_splits)
  also have "\<dots> = (if e then push_bit 8 v else drop_bit 8 v)"
  proof (rule bit_word_eqI)
    fix i assume "i < LENGTH(32)"
    then show "bit (if e then push_bit 8 r else drop_bit 8 r) i = bit (if e then push_bit 8 v else drop_bit 8 v) i"
      using r [of "i - 8"] r [of "8 + i"] bit_imp_le_length [of v "8 + i"] bit_imp_le_length [of r "8 + i"]
      by (cases e; cases "8 + i < 32") (auto simp: bit_push_bit_iff bit_drop_bit_eq)
  qed
  finally have "(table_step e ^^ 8) (place e (lead e v) XOR r) =
      (table_step e ^^ 8) (place e (lead e v)) XOR (if e then push_bit 8 v else drop_bit 8 v)"
    by (simp only: table_steps_xor)
  moreover have "place e (lead e v) XOR r = v" by (simp add: r_def xor.left_commute xor.commute)
  ultimately show ?thesis by simp
qed

lemma table_byte:
  "(table_step e ^^ 8) (v XOR place e b) =
    crc32_filltable e ! unat (lead e v XOR b) XOR (if e then push_bit 8 v else drop_bit 8 v)"
proof -
  have "(table_step e ^^ 8) (v XOR place e b) =
      (table_step e ^^ 8) (place e (lead e v XOR b)) XOR (if e then push_bit 8 v else drop_bit 8 v)"
    unfolding table_steps_xor split_lead [of e v] place_xor by (simp only: ac_simps)
  moreover have "place e (of_nat (unat (lead e v XOR b))) = place e (lead e v XOR b)" by simp
  ultimately show ?thesis by (simp add: filltable_nth)
qed

lemma register_byte: "fold (register_step e) (byte_bits e b) v = (table_step e ^^ 8) (v XOR place e b)"
proof -
  have "length (byte_bits e b) = 8" by (simp add: byte_bits_def)
  with register_bits [of "byte_bits e b" e v] show ?thesis by (simp add: word_of_byte)
qed

lemma block_endian1_register: "crc32_block_endian1 v buf (crc32_filltable True) = register True buf v"
proof (induction buf arbitrary: v)
  case (Cons b buf)
  have "drop_bit 24 v XOR ucast b = (ucast (lead True v XOR b) :: u32)"
    by (rule bit_word_eqI) (auto simp: lead_def bit_xor_iff bit_ucast_iff bit_drop_bit_eq dest: bit_imp_le_length)
  then have "unat (drop_bit 24 v XOR ucast b) = unat (lead True v XOR b)" by (simp only: unat_wide)
  then show ?case using Cons.IH by (simp add: register_def register_byte table_byte xor.commute)
qed (simp add: register_def)

lemma block_endian0_register: "crc32_block_endian0 v buf (crc32_filltable False) = register False buf v"
  by (induction buf arbitrary: v) (simp_all add: register_def register_byte table_byte lead_def)

text \<open>C37: With the tables it fills, the byte-wise CRC of either bit order is the bit-serial shift register of the
  CRC-32 polynomial, for every message and every start value.\<close>

theorem crc32_is_register: "crc32_block endian v buf = register endian buf v"
  by (simp add: crc32_block_def block_endian0_register block_endian1_register)

subsection \<open>Burst errors\<close>

text \<open>No state of the register is lost: the polynomial feeds the end that was shifted in.\<close>

lemma xor_cancel: "x XOR z = y XOR z \<Longrightarrow> x = (y :: u32)" "z XOR x = z XOR y \<Longrightarrow> x = (y :: u32)"
  by (drule arg_cong [where f = "\<lambda>u. u XOR z"], simp add: xor.assoc)
    (drule arg_cong [where f = "\<lambda>u. z XOR u"], simp flip: xor.assoc)

lemma xor_eq_0: "x XOR y = 0 \<longleftrightarrow> x = (y :: u32)"
  using xor_cancel(1) [of x y y] by auto

lemma table_step_zero: "table_step e x = 0 \<Longrightarrow> x = 0"
proof -
  assume z: "table_step e x = 0"
  let ?y = "if e then push_bit 1 x else drop_bit 1 x" and ?k = "if e then 0 else 31 :: nat"
  have feed: "bit (polynomial e) ?k" "\<not> bit ?y ?k"
  proof -
    show "bit (polynomial e) ?k" by (cases e) (simp_all add: polynomial_def)
    show "\<not> bit ?y ?k" using bit_imp_le_length [of x 32] by (auto simp only: bit_push_bit_iff bit_drop_bit_eq comp_def split: if_splits) simp_all
  qed
  show "x = 0"
  proof (cases "bit x (if e then 31 else 0)")
    case True
    with z have "?y XOR polynomial e = 0" by (cases e) (simp_all only: table_step_register register_step_def Let_def if_True if_False simp_thms)
    then have "?y = polynomial e" by (simp only: xor_eq_0)
    with feed show ?thesis by simp
  next
    case False
    with z have y: "?y = 0" by (cases e) (simp_all only: table_step_register register_step_def Let_def if_True if_False simp_thms)
    show ?thesis
    proof (cases e)
      case True
      with shift_back(2) [of x] False y show ?thesis by (simp only: if_True simp_thms drop_bit_of_0)
    next
      case f: False
      with shift_back(1) [of x] False y show ?thesis by (simp only: if_False simp_thms push_bit_of_0)
    qed
  qed
qed

lemma table_step_inj: "table_step e x = table_step e y \<Longrightarrow> x = y"
  using table_step_zero [of e "x XOR y"] by (simp add: table_step_xor xor_eq_0)

lemma table_steps_inj: "(table_step e ^^ n) x = (table_step e ^^ n) y \<Longrightarrow> x = y"
  by (induction n) (auto dest: table_step_inj)

lemma register_step_inj: "register_step e b x = register_step e b y \<Longrightarrow> x = y"
  unfolding register_step_add by (drule table_step_inj) (rule xor_cancel)

lemma fold_register_inj: "fold (register_step e) bs x = fold (register_step e) bs y \<Longrightarrow> x = y"
  by (induction bs arbitrary: x y) (auto dest: register_step_inj)

lemma length_byte_bits [simp]: "length (byte_bits e b) = 8"
  by (simp add: byte_bits_def)

lemma length_message_bits: "length (concat (map (byte_bits e) buf)) = 8 * length buf"
  by (induction buf) simp_all

lemma byte_bits_inj: "byte_bits e a = byte_bits e b \<Longrightarrow> a = b"
proof (rule bit_word_eqI)
  fix i assume a: "byte_bits e a = byte_bits e b" and "i < LENGTH(8)"
  then have "i \<in> set (if e then rev [0..<8] else [0..<8])" by simp
  with a show "bit a i = bit b i" unfolding byte_bits_def map_eq_conv by blast
qed

lemma message_bits_inj:
  "length a = length b \<Longrightarrow> concat (map (byte_bits e) a) = concat (map (byte_bits e) b) \<Longrightarrow> a = b"
  by (induction a b rule: list_induct2) (auto dest: byte_bits_inj)

lemma word_of_bits_inj:
  assumes "length as = length bs" "length bs \<le> 32" "word_of_bits e as = word_of_bits e bs"
  shows "as = bs"
proof (rule nth_equalityI [OF assms(1)])
  fix k assume "k < length as"
  then have k: "k < length as" "k < length bs" "k < 32" using assms(1,2) by simp_all
  let ?i = "if e then 31 - k else k"
  have "(if e then 31 - ?i else ?i) = k" "?i < 32" using k(3) by (cases e; simp)+
  with bit_word_of_bits [of as ?i e] bit_word_of_bits [of bs ?i e] assms k show "as ! k = bs ! k" by (simp add: Let_def)
qed

text \<open>C38: The CRC detects every burst error of up to 32 bits: messages that differ only within four adjacent bytes have
  different CRCs, in both bit orders.\<close>

theorem crc32_detects_burst:
  assumes "length a = length b" and "length b \<le> 4" and "a \<noteq> b"
  shows "crc32_block endian v (pre @ a @ post) \<noteq> crc32_block endian v (pre @ b @ post)"
proof
  let ?bits = "\<lambda>buf. concat (map (byte_bits endian) buf)"
  assume "crc32_block endian v (pre @ a @ post) = crc32_block endian v (pre @ b @ post)"
  then have "fold (register_step endian) (?bits a) (register endian pre v) = fold (register_step endian) (?bits b) (register endian pre v)"
    unfolding crc32_block_def by (simp add: block_endian0_register block_endian1_register register_def fold_register_inj split: if_splits)
  moreover have "length (?bits a) \<le> 32" "length (?bits b) \<le> 32" "length (?bits a) = length (?bits b)"
    using assms(1,2) by (simp_all add: length_message_bits)
  ultimately have "register endian pre v XOR word_of_bits endian (?bits a) = register endian pre v XOR word_of_bits endian (?bits b)"
    by (simp add: register_bits) (rule table_steps_inj)
  then have "word_of_bits endian (?bits a) = word_of_bits endian (?bits b)" by (rule xor_cancel)
  from word_of_bits_inj [OF \<open>length (?bits a) = length (?bits b)\<close> \<open>length (?bits b) \<le> 32\<close> this] assms(1,3)
  show False by (metis message_bits_inj)
qed

theorem crc32_detects_burst_witness:
  "crc32_block False 0xffffffff ([1, 2] @ [3, 4] @ [5]) \<noteq> crc32_block False 0xffffffff ([1, 2] @ [4, 3] @ [5])"
  by (rule crc32_detects_burst) simp_all

end
