(* ===== verification/Tls_Fe.thy ===== *)
theory Tls_Fe
  imports Hash_Base
begin

text \<open>
  X25519 of the TLS client, \<^verbatim>\<open>networking/tls_fe.c\<close>: arithmetic modulo the prime 2^255 - 19 on arrays of 32
  bytes with a 32-bit accumulator, and the Montgomery ladder \<^verbatim>\<open>curve25519\<close>.  An array is a list
  of bytes; a function returns the array it writes.  The calls of \<^verbatim>\<open>curve25519\<close> that pass an array both as
  argument and as result are covered, since every such function reads its arguments before it writes.
\<close>

subsection \<open>The code\<close>

definition F25519_SIZE :: nat where "F25519_SIZE = 32"

definition lm_copy :: "byte list \<Rightarrow> byte list" where
  "lm_copy a = take F25519_SIZE a"

text \<open>The loop \<^verbatim>\<open>c += x[i]; x[i] = (byte)c; c >>= 8\<close> with the final carry.\<close>

fun carry_loop :: "byte list \<Rightarrow> u32 \<Rightarrow> byte list \<times> u32" where
  "carry_loop [] c = ([], c)"
| "carry_loop (b # bs) c =
    (let c = c + ucast b; (r, c') = carry_loop bs (drop_bit 8 c) in (ucast c # r, c'))"

definition fe_reduce :: "byte list \<Rightarrow> u32 \<Rightarrow> byte list" where
  "fe_reduce x c = fst (carry_loop (x[31 := ucast (c AND 127)]) (drop_bit 7 c * 19))"

definition fe_normalize :: "byte list \<Rightarrow> byte list" where
  "fe_normalize x =
    (let x = fe_reduce x (ucast (x ! 31));
         (minusp, c) = carry_loop (take (F25519_SIZE - 1) x) 19;
         c = c + (ucast (x ! 31) - 128);
         minusp = minusp @ [ucast c]
     in if c AND 0x8000 = 0 then lm_copy minusp else x)"

text \<open>The loops \<^verbatim>\<open>c >>= 8; c += ...; r[i] = c\<close>: \<open>f i\<close> adds the terms of position \<open>i\<close>.\<close>

fun digit_loop :: "(nat \<Rightarrow> u32 \<Rightarrow> u32) \<Rightarrow> nat list \<Rightarrow> u32 \<Rightarrow> byte list \<times> u32" where
  "digit_loop f [] c = ([], c)"
| "digit_loop f (i # is) c =
    (let c = f i (drop_bit 8 c); (r, c') = digit_loop f is c in (ucast c # r, c'))"

definition lm_add :: "byte list \<Rightarrow> byte list \<Rightarrow> byte list" where
  "lm_add a b =
    (let (r, c) = digit_loop (\<lambda>i c. c + (ucast (a ! i) + ucast (b ! i))) [0..<F25519_SIZE] 0 in fe_reduce r c)"

fun sub_loop :: "(byte \<times> byte) list \<Rightarrow> u32 \<Rightarrow> byte list \<times> u32" where
  "sub_loop [] c = ([], c)"
| "sub_loop ((x, y) # ps) c =
    (let c = c + (65280 + ucast x - ucast y); (r, c') = sub_loop ps (drop_bit 8 c) in (ucast c # r, c'))"

text \<open>Element 31 of \<open>r\<close> is set by \<open>fe_reduce\<close>; what it held before does not matter.\<close>

definition lm_sub :: "byte list \<Rightarrow> byte list \<Rightarrow> byte list" where
  "lm_sub a b =
    (let (r, c) = sub_loop (zip (take (F25519_SIZE - 1) a) (take (F25519_SIZE - 1) b)) 218
     in fe_reduce (r @ [0]) (c + (ucast (a ! 31) - ucast (b ! 31))))"

definition mul_terms :: "byte list \<Rightarrow> byte list \<Rightarrow> nat \<Rightarrow> u32 \<Rightarrow> u32" where
  "mul_terms a b i c =
    (let c = fold (\<lambda>j c. c + ucast (a ! j) * ucast (b ! (i - j))) [0..<Suc i] c
     in fold (\<lambda>j c. c + ucast (a ! j) * ucast (b ! (i + F25519_SIZE - j)) * 38) [Suc i..<F25519_SIZE] c)"

definition fe_mul__distinct :: "byte list \<Rightarrow> byte list \<Rightarrow> byte list" where
  "fe_mul__distinct a b = (let (r, c) = digit_loop (mul_terms a b) [0..<F25519_SIZE] 0 in fe_reduce r c)"

definition fe_mul_c :: "byte list \<Rightarrow> u32 \<Rightarrow> byte list" where
  "fe_mul_c a b = (let (r, c) = digit_loop (\<lambda>i c. c + b * ucast (a ! i)) [0..<F25519_SIZE] 0 in fe_reduce r c)"

text \<open>The two calls \<^verbatim>\<open>fe_mul__distinct(s, r, r); fe_mul__distinct(r, s, x)\<close>.\<close>

definition inv_turn :: "byte list \<Rightarrow> byte list \<Rightarrow> byte list" where
  "inv_turn x r = fe_mul__distinct (fe_mul__distinct r r) x"

definition fe_inv__distinct :: "byte list \<Rightarrow> byte list" where
  "fe_inv__distinct x =
    (let r = (inv_turn x ^^ 249) (lm_copy x);
         s = fe_mul__distinct r r;
         r = fe_mul__distinct s s;
         s = fe_mul__distinct r x;
         r = fe_mul__distinct s s
     in (inv_turn x ^^ 2) r)"

definition xc_diffadd ::
  "byte list \<Rightarrow> byte list \<Rightarrow> byte list \<Rightarrow> byte list \<Rightarrow> byte list \<Rightarrow> byte list \<Rightarrow> byte list \<times> byte list" where
  "xc_diffadd x1 z1 x2 z2 x3 z3 =
    (let a = lm_add x2 z2; b = lm_sub x3 z3; da = fe_mul__distinct a b;
         b = lm_sub x2 z2; a = lm_add x3 z3; cb = fe_mul__distinct a b;
         a = lm_add da cb; b = fe_mul__distinct a a; x5 = fe_mul__distinct z1 b;
         a = lm_sub da cb; b = fe_mul__distinct a a; z5 = fe_mul__distinct x1 b
     in (x5, z5))"

definition xc_double :: "byte list \<Rightarrow> byte list \<Rightarrow> byte list \<times> byte list" where
  "xc_double x1 z1 =
    (let x1sq = fe_mul__distinct x1 x1; z1sq = fe_mul__distinct z1 z1; x1z1 = fe_mul__distinct x1 z1;
         a = lm_sub x1sq z1sq; x3 = fe_mul__distinct a a;
         a = fe_mul_c x1z1 486662; a = lm_add x1sq a; a = lm_add z1sq a;
         x1sq = fe_mul__distinct x1z1 a; z3 = fe_mul_c x1sq 4
     in (x3, z3))"

record points =
  xm1 :: "byte list"
  zm1 :: "byte list"
  xm :: "byte list"
  zm :: "byte list"

definition f25519_const :: "byte \<Rightarrow> byte list" where
  "f25519_const n = n # replicate 31 0"

definition ladder_step :: "byte list \<Rightarrow> byte list \<Rightarrow> nat \<Rightarrow> points \<Rightarrow> points" where
  "ladder_step e q i z =
    (let (xm1, zm1) = xc_diffadd q (f25519_const 1) (xm z) (zm z) (xm1 z) (zm1 z);
         (xm, zm) = xc_double (xm z) (zm z);
         (xms, zms) = xc_diffadd xm1 zm1 xm zm q (f25519_const 1)
     in if drop_bit (i mod 8) (e ! (i div 8)) AND 1 \<noteq> 0 then \<lparr>xm1 = xm, zm1 = zm, xm = xms, zm = zms\<rparr>
        else \<lparr>xm1 = xm1, zm1 = zm1, xm = xm, zm = zm\<rparr>)"

text \<open>A null \<^verbatim>\<open>q\<close> is the base point.\<close>

definition curve25519 :: "byte list \<Rightarrow> byte list option \<Rightarrow> byte list" where
  "curve25519 e q =
    (let q = (case q of None \<Rightarrow> f25519_const 9 | Some q \<Rightarrow> q);
         z = \<lparr>xm1 = f25519_const 1, zm1 = f25519_const 0, xm = lm_copy q, zm = f25519_const 1\<rparr>;
         z = fold (ladder_step e q) (rev [0..<254]) z
     in fe_normalize (fe_mul__distinct (fe_inv__distinct (zm z)) (xm z)))"

text \<open>\<open>random\<close> is what \<^verbatim>\<open>tls_get_random\<close> puts into \<^verbatim>\<open>privkey\<close>.\<close>

definition curve_x25519_compute_pubkey_and_premaster :: "byte list \<Rightarrow> byte list \<Rightarrow> byte list \<times> byte list" where
  "curve_x25519_compute_pubkey_and_premaster random peerkey32 =
    (let privkey = random[0 := random ! 0 AND 0xf8];
         privkey = privkey[31 := (privkey ! 31 AND 0x7f) OR 0x40]
     in (curve25519 privkey None, curve25519 privkey (Some peerkey32)))"

subsection \<open>Values of byte arrays\<close>

abbreviation val :: "byte list \<Rightarrow> nat" where
  "val bs \<equiv> le_val 256 (map unat bs)"

lemma val_bound: "val bs < 256 ^ length bs"
proof -
  have "d < 256" if "d \<in> set (map unat bs)" for d using that by auto
  then have "val bs < 256 ^ length (map unat bs)" by (rule le_val_bound)
  then show ?thesis by simp
qed

declare unat_wide [simp]

lemma unat_low_byte: "unat (ucast (c :: u32) :: byte) = unat c mod 256"
  by (simp add: unsigned_ucast_eq take_bit_eq_mod)

lemma unat_shift: "unat (drop_bit n (c :: u32)) = unat c div 2 ^ n"
  unfolding unat_drop_bit_eq by (simp add: drop_bit_eq_div)

lemma unat_sum: "unat a + unat b < 2 ^ 32 \<Longrightarrow> unat (a + b :: u32) = unat a + unat b"
  by (simp add: unat_word_ariths)

lemma unat_prod: "unat a * unat b < 2 ^ 32 \<Longrightarrow> unat (a * b :: u32) = unat a * unat b"
  by (simp add: unat_word_ariths)

text \<open>One digit is split off the accumulator.\<close>

lemma split_digit: "unat (ucast (c :: u32) :: byte) + 256 * unat (drop_bit 8 c) = unat c"
  by (simp add: unat_low_byte unat_shift)

lemma carry_digit: "a + 256 * d = u \<Longrightarrow> a + 256 * (v + d) = u + 256 * (v :: nat)"
  by simp

lemma carry_loop_val:
  "carry_loop bs c = (r, c') \<Longrightarrow> unat c < 2 ^ 31 \<Longrightarrow>
    length r = length bs \<and> val r + 256 ^ length bs * unat c' = val bs + unat c"
proof (induction bs arbitrary: c r)
  case (Cons b bs)
  let ?c = "c + ucast b"
  have b: "unat b \<le> 255" by (rule unat_byte_le)
  with Cons.prems(2) have c: "unat ?c = unat c + unat b" by (subst unat_sum) simp_all
  obtain r1 where r1: "carry_loop bs (drop_bit 8 ?c) = (r1, c')" "r = ucast ?c # r1"
    using Cons.prems(1) by (auto simp: Let_def split: prod.splits)
  have "unat (drop_bit 8 ?c) < 2 ^ 31" using Cons.prems(2) b c by (simp add: unat_shift)
  from Cons.IH [OF r1(1) this] have IH: "length r1 = length bs" "val r1 + 256 ^ length bs * unat c' = val bs + unat (drop_bit 8 ?c)"
    by simp_all
  have "val r + 256 ^ length (b # bs) * unat c' = unat (ucast ?c :: byte) + 256 * (val r1 + 256 ^ length bs * unat c')"
    by (simp add: r1(2) algebra_simps)
  also have "\<dots> = unat ?c + 256 * val bs" unfolding IH(2) by (rule carry_digit) (rule split_digit)
  finally show ?case using IH(1) c by (simp add: r1(2))
qed simp

definition p25519 :: nat where "p25519 = 2 ^ 255 - 19"

lemma p25519_numeral: "p25519 = 57896044618658097711785492504343953926634992332820282019728792003956564819949"
  by (simp add: p25519_def)

lemma val_update_last: "length x = 32 \<Longrightarrow> val (x[31 := b]) = val (take 31 x) + 256 ^ 31 * unat b"
  by (simp add: upd_conv_take_nth_drop le_val_append)

text \<open>What \<^verbatim>\<open>fe_reduce\<close> returns, exactly.\<close>

lemma fe_reduce_val:
  assumes "length x = 32"
  shows "length (fe_reduce x c) = 32"
    and "val (fe_reduce x c) = val (take 31 x) + 256 ^ 31 * (unat c mod 128) + 19 * (unat c div 128)"
proof -
  have c: "unat c < 2 ^ 32" using unsigned_less [of c] by simp
  have low: "unat (ucast (c AND 127) :: byte) = unat c mod 128"
  proof -
    have "c AND 127 = take_bit 7 c" by (simp add: take_bit_eq_mask mask_eq_exp_minus_1)
    then have "unat (c AND 127) = take_bit 7 (unat c)" by (simp only: unsigned_take_bit_eq)
    then have "unat (c AND 127) = unat c mod 128" by (simp add: take_bit_eq_mod)
    moreover have "unat c mod 128 mod 256 = unat c mod 128" by (rule mod_less) (simp add: less_trans [OF mod_less_divisor])
    ultimately show ?thesis by (simp only: unat_low_byte)
  qed
  have hi: "unat (drop_bit 7 c * 19) = 19 * (unat c div 128)"
    using c by (subst unat_prod) (simp_all add: unat_shift)
  obtain r c' where r: "carry_loop (x[31 := ucast (c AND 127)]) (drop_bit 7 c * 19) = (r, c')" by fastforce
  have "unat (drop_bit 7 c * 19) < 2 ^ 31" using c by (simp add: hi)
  from carry_loop_val [OF r this] assms have
    v: "length r = 32" "val r + 256 ^ 32 * unat c' = val (take 31 x) + 256 ^ 31 * (unat c mod 128) + 19 * (unat c div 128)"
    by (simp_all add: val_update_last low hi)
  have "val (take 31 x) < 256 ^ 31" using val_bound [of "take 31 x"] assms by simp
  moreover have "unat c mod 128 \<le> 127" "unat c div 128 < 2 ^ 25" using c by simp_all
  ultimately have "val r + 256 ^ 32 * unat c' < 256 ^ 32" unfolding v(2) by simp
  then have "unat c' = 0" by (cases "unat c' = 0") simp_all
  with v r show "length (fe_reduce x c) = 32"
    "val (fe_reduce x c) = val (take 31 x) + 256 ^ 31 * (unat c mod 128) + 19 * (unat c div 128)"
    by (simp_all add: fe_reduce_def)
qed

text \<open>Numbers that \<^verbatim>\<open>lm_sub\<close> can subtract, which every operation returns.\<close>

definition reduced :: "byte list \<Rightarrow> bool" where
  "reduced x \<longleftrightarrow> length x = 32 \<and> val x \<le> 2 * p25519"

lemma fe_reduce_cong:
  assumes "length x = 32"
  shows "reduced (fe_reduce x c)" "val (fe_reduce x c) mod p25519 = (val (take 31 x) + 256 ^ 31 * unat c) mod p25519"
proof -
  have c: "unat c < 2 ^ 32" using unsigned_less [of c] by simp
  have b: "val (take 31 x) < 256 ^ 31" using val_bound [of "take 31 x"] assms by simp
  moreover have "unat c mod 128 \<le> 127" "unat c div 128 < 2 ^ 25" using c by simp_all
  ultimately show "reduced (fe_reduce x c)" by (simp add: reduced_def fe_reduce_val [OF assms] p25519_numeral)
  have "256 ^ 31 * unat c = 256 ^ 31 * (unat c mod 128) + 256 ^ 31 * (128 * (unat c div 128))"
    by (metis distrib_left mod_mult_div_eq add.commute)
  also have "\<dots> = 256 ^ 31 * (unat c mod 128) + 19 * (unat c div 128) + p25519 * (unat c div 128)"
    by (simp add: p25519_numeral)
  finally show "val (fe_reduce x c) mod p25519 = (val (take 31 x) + 256 ^ 31 * unat c) mod p25519"
    by (simp add: fe_reduce_val [OF assms] flip: add.assoc)
qed

subsection \<open>Field operations\<close>

lemma le_val_sum: "le_val b (map t [0..<n]) = (\<Sum>i<n. t i * b ^ i)"
  by (induction n) (simp_all add: le_val_append)

lemma val_sum: "length a = 32 \<Longrightarrow> val a = (\<Sum>i<32. unat (a ! i) * 256 ^ i)"
  using le_val_sum [of 256 "\<lambda>i. unat (a ! i)" 32] map_nth [of a] by (metis (no_types, lifting) map_map comp_def map_eq_conv)

text \<open>A loop that adds at most 2^27 at each position does not overflow, and its digits are those of the sum.\<close>

lemma digit_loop_val:
  assumes "\<And>i c. i \<in> set is \<Longrightarrow> unat c \<le> 2 ^ 20 \<Longrightarrow> unat (f i c) = unat c + t i" "\<And>i. i \<in> set is \<Longrightarrow> t i \<le> 2 ^ 27"
    and "unat c \<le> 2 ^ 28" "is \<noteq> []" "digit_loop f is c = (r, c')"
  shows "length r = length is \<and>
    val (butlast r) + 256 ^ (length is - 1) * unat c' = unat c div 256 + le_val 256 (map t is)"
  using assms
proof (induction "is" arbitrary: c r)
  case (Cons i "is")
  let ?c = "f i (drop_bit 8 c)"
  have s: "unat (drop_bit 8 c) = unat c div 256" by (simp add: unat_shift)
  with Cons.prems(3) have "unat (drop_bit 8 c) \<le> 2 ^ 20" by simp
  with Cons.prems(1) have c: "unat ?c = unat c div 256 + t i" by (simp add: s)
  obtain r1 where r1: "digit_loop f is ?c = (r1, c')" "r = ucast ?c # r1"
    using Cons.prems(5) by (auto simp: Let_def split: prod.splits)
  show ?case
  proof (cases "is = []")
    case True
    with r1 c show ?thesis by simp
  next
    case False
    have "unat ?c \<le> 2 ^ 28" using Cons.prems(2) [of i] Cons.prems(3) c by simp
    from Cons.IH [OF Cons.prems(1,2) this False r1(1)] have
      IH: "length r1 = length is" "val (butlast r1) + 256 ^ (length is - 1) * unat c' = unat ?c div 256 + le_val 256 (map t is)"
      by simp_all
    have "r1 \<noteq> []" using IH(1) False by auto
    have "val (butlast r) + 256 ^ (length (i # is) - 1) * unat c' =
        unat (ucast ?c :: byte) + 256 * (val (butlast r1) + 256 ^ (length is - 1) * unat c')"
      using False by (cases "length is") (simp_all add: r1(2) \<open>r1 \<noteq> []\<close> algebra_simps)
    also have "\<dots> = unat ?c + 256 * le_val 256 (map t is)"
      unfolding IH(2) by (simp add: unat_low_byte)
    finally show ?thesis using IH(1) c by (simp add: r1(2))
  qed
qed simp

lemma digit_loop_reduce:
  assumes "\<And>i c. i < 32 \<Longrightarrow> unat c \<le> 2 ^ 20 \<Longrightarrow> unat (f i c) = unat c + t i" "\<And>i. i < 32 \<Longrightarrow> t i \<le> 2 ^ 27"
    and "digit_loop f [0..<32] 0 = (r, c)"
  shows "reduced (fe_reduce r c)" "val (fe_reduce r c) mod p25519 = (\<Sum>i<32. t i * 256 ^ i) mod p25519"
proof -
  have "length r = 32 \<and> val (butlast r) + 256 ^ 31 * unat c = (\<Sum>i<32. t i * 256 ^ i)"
    using digit_loop_val [of "[0..<32]" f t 0 r c] assms unfolding le_val_sum by simp
  moreover from this have "butlast r = take 31 r" by (simp add: butlast_conv_take)
  ultimately show "reduced (fe_reduce r c)" "val (fe_reduce r c) mod p25519 = (\<Sum>i<32. t i * 256 ^ i) mod p25519"
    using fe_reduce_cong [of r c] by simp_all
qed

lemma lm_add_val:
  assumes "length a = 32" "length b = 32"
  shows "reduced (lm_add a b)" "val (lm_add a b) mod p25519 = (val a + val b) mod p25519"
proof -
  let ?f = "\<lambda>i c. c + (ucast (a ! i) + ucast (b ! i)) :: u32" and ?t = "\<lambda>i. unat (a ! i) + unat (b ! i)"
  have le: "?t i \<le> 510" for i using unat_byte_le [of "a ! i"] unat_byte_le [of "b ! i"] by simp
  have step: "unat (?f i c) = unat c + ?t i" if "unat c \<le> 2 ^ 20" for i c
  proof -
    have ab: "unat (ucast (a ! i) + ucast (b ! i) :: u32) = ?t i" using le [of i] by (subst unat_sum) simp_all
    show ?thesis using that le [of i] by (subst unat_sum) (simp_all add: ab)
  qed
  obtain r c where r: "digit_loop ?f [0..<32] 0 = (r, c)" by fastforce
  have "?t i \<le> 2 ^ 27" for i using le [of i] by simp
  from digit_loop_reduce [of ?f ?t, OF step this r] show "reduced (lm_add a b)" "val (lm_add a b) mod p25519 = (val a + val b) mod p25519"
    using r by (simp_all add: lm_add_def F25519_SIZE_def val_sum assms sum.distrib distrib_right)
qed

lemma fe_mul_c_val:
  assumes "length a = 32" "unat b \<le> 500000"
  shows "reduced (fe_mul_c a b)" "val (fe_mul_c a b) mod p25519 = (unat b * val a) mod p25519"
proof -
  let ?f = "\<lambda>i c. c + b * ucast (a ! i) :: u32" and ?t = "\<lambda>i. unat b * unat (a ! i)"
  have le: "?t i \<le> 127500000" for i using mult_le_mono [OF assms(2) unat_byte_le [of "a ! i"]] by simp
  have step: "unat (?f i c) = unat c + ?t i" if "unat c \<le> 2 ^ 20" for i c
  proof -
    have ab: "unat (b * ucast (a ! i)) = ?t i" using le [of i] by (subst unat_prod) simp_all
    show ?thesis using that le [of i] by (subst unat_sum) (simp_all add: ab)
  qed
  obtain r c where r: "digit_loop ?f [0..<32] 0 = (r, c)" by fastforce
  have "?t i \<le> 2 ^ 27" for i using le [of i] by simp
  from digit_loop_reduce [of ?f ?t, OF step this r] show "reduced (fe_mul_c a b)" "val (fe_mul_c a b) mod p25519 = (unat b * val a) mod p25519"
    using r by (simp_all add: fe_mul_c_def F25519_SIZE_def val_sum assms sum_distrib_left mult.assoc)
qed

lemma sum_mod_cong: "(\<And>i. i \<in> A \<Longrightarrow> f i mod m = g i mod m) \<Longrightarrow> sum f A mod m = sum g A mod (m :: nat)"
  by (metis (no_types, lifting) mod_sum_eq sum.cong)

text \<open>The product of polynomials in \<open>X\<close> wraps around at \<open>X ^ n\<close>.\<close>

lemma wrap_sum:
  fixes b :: "nat \<Rightarrow> nat"
  assumes "j < n"
  shows "(\<Sum>k<n. b k * X ^ (k + j)) = (\<Sum>i<n. if j \<le> i then b (i - j) * X ^ i else X ^ n * (b (i + n - j) * X ^ i))"
proof (rule sum.reindex_bij_witness [of _ "\<lambda>i. if j \<le> i then i - j else i + n - j" "\<lambda>k. if k + j < n then k + j else k + j - n"], goal_cases)
  case (5 k)
  show ?case
  proof (cases "k + j < n")
    case False
    then have "k + j = n + (k + j - n)" by simp
    then have "X ^ (k + j) = X ^ n * X ^ (k + j - n)" by (metis power_add)
    with False 5 show ?thesis by auto
  qed simp
qed (use assms in auto)

definition mul_sum :: "byte list \<Rightarrow> byte list \<Rightarrow> nat \<Rightarrow> nat" where
  "mul_sum a b i = (\<Sum>j<32. unat (a ! j) * (if j \<le> i then unat (b ! (i - j)) else 38 * unat (b ! (i + 32 - j))))"

lemma mul_sum_val:
  assumes "length a = 32" "length b = 32"
  shows "(\<Sum>i<32. mul_sum a b i * 256 ^ i) mod p25519 = (val a * val b) mod p25519"
proof -
  let ?a = "\<lambda>j. unat (a ! j)" and ?b = "\<lambda>k. unat (b ! k)"
  let ?w = "\<lambda>c i j. if j \<le> i then ?b (i - j) * 256 ^ i else c * (?b (i + 32 - j) * 256 ^ i)"
  have w: "(256 ^ 32 * y) mod p25519 = (38 * y) mod p25519" for y
  proof -
    have eq: "256 ^ 32 * y = 38 * y + p25519 * (2 * y)" by (simp add: p25519_numeral)
    show ?thesis unfolding eq by (rule mod_mult_self2)
  qed
  have 1: "val a * val b = (\<Sum>j<32. ?a j * (\<Sum>k<32. ?b k * 256 ^ (k + j)))"
    unfolding val_sum [OF assms(1)] val_sum [OF assms(2)] sum_product
    unfolding sum_distrib_left
    by (intro sum.cong refl) (simp add: power_add ac_simps)
  have 2: "(\<Sum>j<32. ?a j * (\<Sum>k<32. ?b k * 256 ^ (k + j))) = (\<Sum>j<32. ?a j * (\<Sum>i<32. ?w (256 ^ 32) i j))"
    by (intro sum.cong refl arg_cong [where f = "(*) (?a _)"] wrap_sum) simp
  have 3: "(\<Sum>j<32. ?a j * (\<Sum>i<32. ?w (256 ^ 32) i j)) mod p25519 = (\<Sum>j<32. ?a j * (\<Sum>i<32. ?w 38 i j)) mod p25519"
  proof (rule sum_mod_cong)
    fix j
    have "(\<Sum>i<32. ?w (256 ^ 32) i j) mod p25519 = (\<Sum>i<32. ?w 38 i j) mod p25519"
    proof (rule sum_mod_cong)
      show "?w (256 ^ 32) i j mod p25519 = ?w 38 i j mod p25519" for i
        by (cases "j \<le> i") (simp_all only: if_True if_False w)
    qed
    then show "(?a j * (\<Sum>i<32. ?w (256 ^ 32) i j)) mod p25519 = (?a j * (\<Sum>i<32. ?w 38 i j)) mod p25519"
      by (rule mod_mult_cong [OF refl])
  qed
  have 4: "(\<Sum>j<32. ?a j * (\<Sum>i<32. ?w 38 i j)) = (\<Sum>i<32. \<Sum>j<32. ?a j * ?w 38 i j)"
    unfolding sum_distrib_left by (rule sum.swap)
  have 5: "(\<Sum>i<32. \<Sum>j<32. ?a j * ?w 38 i j) = (\<Sum>i<32. mul_sum a b i * 256 ^ i)"
    unfolding mul_sum_def sum_distrib_right by (intro sum.cong refl) simp
  show ?thesis unfolding 1 2 3 4 5 ..
qed

lemma fold_add_unat:
  fixes c :: u32
  shows "unat c + (\<Sum>j\<leftarrow>js. unat (g j)) < 4294967296 \<Longrightarrow> unat (fold (\<lambda>j c. c + g j) js c) = unat c + (\<Sum>j\<leftarrow>js. unat (g j))"
proof (induction js arbitrary: c)
  case (Cons j js)
  then have "unat (c + g j) = unat c + unat (g j)" by (intro unat_sum) simp
  with Cons show ?case by (simp add: add.assoc)
qed simp

lemma mul_terms_val:
  assumes "i < 32" "unat c \<le> 2 ^ 20"
  shows "unat (mul_terms a b i c) = unat c + mul_sum a b i" "mul_sum a b i \<le> 2 ^ 27"
proof -
  let ?g = "\<lambda>j. ucast (a ! j) * ucast (b ! (i - j)) :: u32"
  let ?h = "\<lambda>j. ucast (a ! j) * ucast (b ! (i + 32 - j)) * 38 :: u32"
  let ?s = "\<lambda>j. unat (a ! j) * (if j \<le> i then unat (b ! (i - j)) else 38 * unat (b ! (i + 32 - j)))"
  have le: "unat (a ! j) * unat (b ! k) \<le> 65025" for j k using mult_le_mono [OF unat_byte_le unat_byte_le, of "a ! j" "b ! k"] by simp
  have prod: "unat (ucast (a ! j) * ucast (b ! k) :: u32) = unat (a ! j) * unat (b ! k)" for j k
    using le [of j k] by (subst unat_prod) simp_all
  have g: "unat (?g j) = unat (a ! j) * unat (b ! (i - j))" for j by (rule prod)
  have h: "unat (?h j) = unat (a ! j) * (38 * unat (b ! (i + 32 - j)))" for j
    using le [of j "i + 32 - j"] by (subst unat_prod) (simp_all add: prod)
  have s: "?s j \<le> 2470950" for j using le [of j "i - j"] le [of j "i + 32 - j"] by simp
  have "mul_sum a b i \<le> of_nat (card {..<32 :: nat}) * 2470950" unfolding mul_sum_def by (rule sum_bounded_above) (rule s)
  then have total: "mul_sum a b i \<le> 79070400" by simp
  then show "mul_sum a b i \<le> 2 ^ 27" by simp
  have split: "{..<32} = {0..<Suc i} \<union> {Suc i..<32}" using assms(1) by auto
  have "mul_sum a b i = sum ?s {0..<Suc i} + sum ?s {Suc i..<32}"
    unfolding mul_sum_def split by (rule sum.union_disjoint) auto
  also have "sum ?s {0..<Suc i} = (\<Sum>j\<leftarrow>[0..<Suc i]. unat (?g j))"
    unfolding interv_sum_list_conv_sum_set_nat set_upt by (intro sum.cong) (simp_all add: g)
  also have "sum ?s {Suc i..<32} = (\<Sum>j\<leftarrow>[Suc i..<32]. unat (?h j))"
    unfolding interv_sum_list_conv_sum_set_nat set_upt by (intro sum.cong) (simp_all add: h)
  finally have m: "mul_sum a b i = (\<Sum>j\<leftarrow>[0..<Suc i]. unat (?g j)) + (\<Sum>j\<leftarrow>[Suc i..<32]. unat (?h j))" .
  have c: "unat c \<le> 1048576" using assms(2) by simp
  have c1: "unat (fold (\<lambda>j c. c + ?g j) [0..<Suc i] c) = unat c + (\<Sum>j\<leftarrow>[0..<Suc i]. unat (?g j))"
    by (rule fold_add_unat) (use m total c in linarith)
  have "unat (fold (\<lambda>j c. c + ?h j) [Suc i..<32] (fold (\<lambda>j c. c + ?g j) [0..<Suc i] c)) =
      unat (fold (\<lambda>j c. c + ?g j) [0..<Suc i] c) + (\<Sum>j\<leftarrow>[Suc i..<32]. unat (?h j))"
    by (rule fold_add_unat) (use m total c c1 in linarith)
  then show "unat (mul_terms a b i c) = unat c + mul_sum a b i"
    unfolding mul_terms_def Let_def F25519_SIZE_def m c1 by (simp only: add.assoc)
qed

lemma fe_mul_val:
  assumes "length a = 32" "length b = 32"
  shows "reduced (fe_mul__distinct a b)" "val (fe_mul__distinct a b) mod p25519 = (val a * val b) mod p25519"
proof -
  obtain r c where r: "digit_loop (mul_terms a b) [0..<32] 0 = (r, c)" by fastforce
  note d = digit_loop_reduce [of "mul_terms a b" "mul_sum a b", OF mul_terms_val(1) mul_terms_val(2) [of _ 0] r]
  from r show "reduced (fe_mul__distinct a b)" using d(1) by (simp add: fe_mul__distinct_def F25519_SIZE_def)
  from r show "val (fe_mul__distinct a b) mod p25519 = (val a * val b) mod p25519"
    using d(2) by (simp add: fe_mul__distinct_def F25519_SIZE_def mul_sum_val [OF assms])
qed

subsection \<open>Subtraction\<close>

lemma sub_loop_val:
  "sub_loop ps c = (r, c') \<Longrightarrow> unat c \<le> 300 \<Longrightarrow>
    length r = length ps \<and> unat c' \<le> 300 \<and>
    val r + 256 ^ length ps * unat c' + val (map snd ps) + 256 = val (map fst ps) + unat c + 256 ^ Suc (length ps)"
proof (induction ps arbitrary: c r)
  case (Cons p ps)
  obtain x y where p: "p = (x, y)" by fastforce
  let ?d = "65280 + ucast x - ucast y :: u32" and ?c = "c + (65280 + ucast x - ucast y)"
  have x: "unat x \<le> 255" "unat y \<le> 255" by (rule unat_byte_le)+
  have "unat (65280 + ucast x :: u32) = 65280 + unat x" using x by (subst unat_sum) simp_all
  moreover from this x have "unat (ucast y :: u32) \<le> unat (65280 + ucast x :: u32)" by simp
  ultimately have d: "unat ?d = 65280 + unat x - unat y" by (simp add: unat_sub word_le_nat_alt)
  then have c: "unat ?c = unat c + 65280 + unat x - unat y" using Cons.prems(2) x by (subst unat_sum) simp_all
  obtain r1 where r1: "sub_loop ps (drop_bit 8 ?c) = (r1, c')" "r = ucast ?c # r1"
    using Cons.prems(1) p by (auto simp: Let_def split: prod.splits)
  have "unat (drop_bit 8 ?c) \<le> 300" using Cons.prems(2) x c by (simp add: unat_shift)
  from Cons.IH [OF r1(1) this] have IH: "length r1 = length ps" "unat c' \<le> 300"
    "val r1 + 256 ^ length ps * unat c' + val (map snd ps) + 256 = val (map fst ps) + unat (drop_bit 8 ?c) + 256 ^ Suc (length ps)"
    by simp_all
  have "val r + 256 ^ length (p # ps) * unat c' + val (map snd (p # ps)) + 256 * 256 =
      unat (ucast ?c :: byte) + unat y + 256 * (val r1 + 256 ^ length ps * unat c' + val (map snd ps) + 256)"
    by (simp add: r1(2) p algebra_simps)
  also have "\<dots> = unat ?c + unat y + 256 * (val (map fst ps) + 256 ^ Suc (length ps))"
    unfolding IH(3) using split_digit [of ?c] by (simp add: algebra_simps)
  finally show ?case using IH(1,2) c x by (simp add: r1(2) p)
qed simp

lemma val_split: "length x = 32 \<Longrightarrow> val x = val (take 31 x) + 256 ^ 31 * unat (x ! 31)"
  using val_update_last [of x "x ! 31"] by simp

lemma shift_out: "r + k * x + b = t + k * y \<Longrightarrow> y \<le> x \<Longrightarrow> r + k * (x - y) + b = (t :: nat)"
  by (auto simp: le_iff_add distrib_left)

lemma lm_sub_val:
  assumes "length a = 32" "reduced b"
  shows "reduced (lm_sub a b)" "(val (lm_sub a b) + val b) mod p25519 = val a mod p25519"
proof -
  have b: "length b = 32" "val b \<le> 2 * p25519" using assms(2) by (simp_all add: reduced_def)
  obtain r c where r: "sub_loop (zip (take 31 a) (take 31 b)) 218 = (r, c)" by fastforce
  from sub_loop_val [OF r] assms(1) b(1) have v: "length r = 31" "unat c \<le> 300"
    "val r + 256 ^ 31 * unat c + val (take 31 b) + 256 = val (take 31 a) + 218 + 256 ^ 32" by simp_all
  have "val r < 256 ^ 31" using val_bound [of r] v(1) by simp
  then have total: "val r + 256 ^ 31 * (unat c + unat (a ! 31)) + val b = val a + 2 * p25519 + 256 ^ 31 * unat (b ! 31)"
    using v(3) by (simp add: val_split [OF assms(1)] val_split [OF b(1)] p25519_numeral algebra_simps)
  have ge: "unat (b ! 31) \<le> unat c + unat (a ! 31)"
  proof (rule ccontr)
    assume "\<not> ?thesis"
    then have "256 ^ 31 * (unat c + unat (a ! 31) + 1) \<le> 256 ^ 31 * unat (b ! 31)" by (intro mult_le_mono2) simp
    with \<open>val r < 256 ^ 31\<close> total b(2) show False by (simp add: distrib_left)
  qed
  let ?c = "c + (ucast (a ! 31) - ucast (b ! 31))"
  have ca: "unat (c + ucast (a ! 31)) = unat c + unat (a ! 31)"
    using v(2) unat_byte_le [of "a ! 31"] by (subst unat_sum) simp_all
  have "?c = c + ucast (a ! 31) - ucast (b ! 31)" by simp
  then have c: "unat ?c = unat c + unat (a ! 31) - unat (b ! 31)"
    using ge by (simp only: unat_sub word_le_nat_alt ca unat_wide)
  have res: "lm_sub a b = fe_reduce (r @ [0]) ?c" using r by (simp add: lm_sub_def F25519_SIZE_def)
  have len: "length (r @ [0]) = 32" using v(1) by simp
  show "reduced (lm_sub a b)" unfolding res by (rule fe_reduce_cong [OF len])
  have "val r + 256 ^ 31 * unat ?c + val b = val a + 2 * p25519"
    unfolding c by (rule shift_out [OF total ge])
  moreover have e: "val (lm_sub a b) mod p25519 = (val r + 256 ^ 31 * unat ?c) mod p25519"
    unfolding res fe_reduce_cong(2) [OF len] using v(1) by simp
  ultimately show "(val (lm_sub a b) + val b) mod p25519 = val a mod p25519"
    unfolding mod_add_cong [OF e refl] by (simp only: mod_mult_self1)
qed

subsection \<open>The canonical representative\<close>

lemma borrow_bit: "(c :: u32) AND 0x8000 = 0 \<longleftrightarrow> \<not> odd (unat c div 2 ^ 15)"
proof -
  have "c AND 0x8000 = 0 \<longleftrightarrow> \<not> bit c 15" by (simp add: bit_iff_and_push_bit_not_eq_0 [of c 15])
  also have "bit c 15 \<longleftrightarrow> bit (unat c) 15" by (simp add: bit_unsigned_iff)
  also have "\<dots> \<longleftrightarrow> odd (unat c div 2 ^ 15)" by (rule bit_iff_odd)
  finally show ?thesis by simp
qed

lemma mult_sub_add: "n \<le> s \<Longrightarrow> k * (s - n) + k * n = k * (s :: nat)"
  by (simp flip: distrib_left)

lemma fe_normalize_val:
  assumes "length x = 32"
  shows "length (fe_normalize x) = 32" "val (fe_normalize x) = val x mod p25519"
proof -
  define v where "v = fe_reduce x (ucast (x ! 31))"
  have v: "length v = 32" "val v = val (take 31 x) + 256 ^ 31 * (unat (x ! 31) mod 128) + 19 * (unat (x ! 31) div 128)"
    using fe_reduce_val [OF assms] by (simp_all add: v_def)
  have mod: "val v mod p25519 = val x mod p25519"
    using fe_reduce_cong(2) [OF assms, of "ucast (x ! 31)"] by (simp add: v_def val_split [OF assms])
  have "val (take 31 x) < 256 ^ 31" using val_bound [of "take 31 x"] assms by simp
  moreover have "unat (x ! 31) mod 128 \<le> 127" "unat (x ! 31) div 128 \<le> 1" using unat_byte_le [of "x ! 31"] by simp_all
  ultimately have small: "val v < p25519 + 38" by (simp add: v(2) p25519_numeral)
  obtain m c where m: "carry_loop (take 31 v) 19 = (m, c)" by fastforce
  from carry_loop_val [OF this] v(1) have mc: "length m = 31" "val m + 256 ^ 31 * unat c = val (take 31 v) + 19" by simp_all
  have mb: "val m < 256 ^ 31" "val (take 31 v) < 256 ^ 31" using val_bound [of m] val_bound [of "take 31 v"] mc(1) v(1) by simp_all
  have sum: "val m + 256 ^ 31 * (unat c + unat (v ! 31)) = val v + 19" using mc(2) by (simp add: val_split [OF v(1)])
  have c1: "unat c \<le> 1" using mc(2) mb(2) by simp
  have v31: "unat (v ! 31) \<le> 255" by (rule unat_byte_le)
  let ?c = "c + (ucast (v ! 31) - 128)"
  have norm: "fe_normalize x = (if ?c AND 0x8000 = 0 then m @ [ucast ?c] else v)"
    using m mc(1) by (simp add: fe_normalize_def Let_def v_def F25519_SIZE_def lm_copy_def)
  have cv: "unat (c + ucast (v ! 31)) = unat c + unat (v ! 31)" using c1 v31 by (subst unat_sum) simp_all
  have "length (fe_normalize x) = 32 \<and> val (fe_normalize x) = val v mod p25519"
  proof (cases "128 \<le> unat c + unat (v ! 31)")
    case True
    have "(128 :: u32) \<le> c + ucast (v ! 31)" using True cv by (simp add: word_le_nat_alt)
    then have uc: "unat ?c = unat c + unat (v ! 31) - 128" unfolding add_diff_eq by (simp add: unat_sub cv)
    have "unat ?c \<le> 1" using sum small mb(1) uc by (simp add: p25519_numeral)
    then have "?c AND 0x8000 = 0" unfolding borrow_bit by simp
    then have "fe_normalize x = m @ [ucast ?c]" by (simp add: norm)
    moreover have "val (m @ [ucast ?c]) = val m + 256 ^ 31 * unat ?c"
      using \<open>unat ?c \<le> 1\<close> mc(1) by (simp add: le_val_append unat_low_byte)
    moreover have "256 ^ 31 * unat ?c + 256 ^ 31 * 128 = 256 ^ 31 * (unat c + unat (v ! 31))"
      unfolding uc by (rule mult_sub_add [OF True])
    ultimately have "val (fe_normalize x) + p25519 = val v" "length (fe_normalize x) = 32"
      using sum mc(1) by (simp_all add: p25519_numeral)
    moreover from this small have "val (fe_normalize x) < p25519" by (simp add: p25519_numeral)
    ultimately show ?thesis by (metis mod_add_self2 mod_less)
  next
    case False
    have "unat ?c = unat c + unat (v ! 31) + 2 ^ 32 - 128"
      unfolding add_diff_eq unat_sub_if' cv using False by simp
    with False have "2 ^ 15 * 131071 \<le> unat ?c" "unat ?c < 2 ^ 15 * 131072" by simp_all
    then have "unat ?c div 2 ^ 15 = 131071" by (simp add: div_nat_eqI)
    then have "odd (unat ?c div 2 ^ 15)" by simp
    then have "fe_normalize x = v" unfolding norm borrow_bit by simp
    moreover have "256 ^ 31 * (unat c + unat (v ! 31)) \<le> 256 ^ 31 * 127" using False by (intro mult_le_mono2) simp
    then have "val v < p25519" using sum mb(1) by (simp add: p25519_numeral)
    ultimately show ?thesis using v(1) by simp
  qed
  with mod show "length (fe_normalize x) = 32" "val (fe_normalize x) = val x mod p25519" by simp_all
qed

subsection \<open>Arrays as elements of the field\<close>

text \<open>\<open>fp x n\<close>: the array \<open>x\<close> stands for the number \<open>n\<close> modulo 2^255 - 19.\<close>

definition fp :: "byte list \<Rightarrow> int \<Rightarrow> bool" where
  "fp x n \<longleftrightarrow> length x = 32 \<and> int (val x) mod int p25519 = n mod int p25519"

lemma fp_length: "fp x n \<Longrightarrow> length x = 32"
  by (simp add: fp_def)

lemma fp_reduced: "reduced x \<Longrightarrow> val x mod p25519 = m mod p25519 \<Longrightarrow> int m mod int p25519 = n mod int p25519 \<Longrightarrow> fp x n"
  unfolding fp_def reduced_def by (metis of_nat_mod)

lemma fp_val: "length x = 32 \<Longrightarrow> fp x (int (val x))"
  by (simp add: fp_def)

lemma fp_add: "fp a m \<Longrightarrow> fp b n \<Longrightarrow> fp (lm_add a b) (m + n)"
  by (rule fp_reduced [OF lm_add_val]) (auto simp: fp_def intro: mod_add_cong)

lemma fp_mul: "fp a m \<Longrightarrow> fp b n \<Longrightarrow> fp (fe_mul__distinct a b) (m * n)"
  by (rule fp_reduced [OF fe_mul_val]) (auto simp: fp_def intro: mod_mult_cong)

lemma fp_mul_c: "fp a n \<Longrightarrow> unat c \<le> 500000 \<Longrightarrow> fp (fe_mul_c a c) (int (unat c) * n)"
  by (rule fp_reduced [OF fe_mul_c_val]) (auto simp: fp_def intro: mod_mult_cong)

lemma fp_sub:
  assumes "fp a m" "fp b n" "reduced b"
  shows "fp (lm_sub a b) (m - n)"
proof -
  have a: "length a = 32" using assms(1) by (rule fp_length)
  note v = lm_sub_val [OF this assms(3)]
  let ?d = "int (val (lm_sub a b))"
  have "(?d + int (val b)) mod int p25519 = m mod int p25519"
    using arg_cong [OF v(2), of int] assms(1) by (simp add: fp_def of_nat_mod)
  from mod_diff_cong [OF this, of "int (val b)" n] assms(2) have "?d mod int p25519 = (m - n) mod int p25519"
    by (simp add: fp_def)
  with v(1) show ?thesis by (simp add: fp_def reduced_def)
qed

lemma reduced_ops [simp]:
  "fp a m \<Longrightarrow> fp b n \<Longrightarrow> reduced (fe_mul__distinct a b)" "fp a m \<Longrightarrow> unat c \<le> 500000 \<Longrightarrow> reduced (fe_mul_c a c)"
  by (simp_all add: fe_mul_val fe_mul_c_val fp_length)

text \<open>The power \<open>p - 2\<close> by the addition chain.\<close>

lemma fp_square: "fp r (n ^ k) \<Longrightarrow> fp (fe_mul__distinct r r) (n ^ (2 * k))"
  using fp_mul [of r "n ^ k" r "n ^ k"] by (simp add: power_add mult_2)

lemma fp_times: "fp r (n ^ k) \<Longrightarrow> fp x n \<Longrightarrow> fp (fe_mul__distinct r x) (n ^ (k + 1))"
  using fp_mul [of r "n ^ k" x n] by (simp add: mult.commute)

lemma fp_inv_turn: "fp x n \<Longrightarrow> fp r (n ^ k) \<Longrightarrow> fp (inv_turn x r) (n ^ (2 * k + 1))"
  unfolding inv_turn_def by (rule fp_times [OF fp_square])

lemma fp_inv_turns:
  assumes "fp x n"
  shows "fp r (n ^ k) \<Longrightarrow> fp ((inv_turn x ^^ m) r) (n ^ (2 ^ m * (k + 1) - 1))"
proof (induction m)
  case (Suc m)
  let ?k = "2 ^ m * (k + 1) - 1"
  have "fp (inv_turn x ((inv_turn x ^^ m) r)) (n ^ (2 * ?k + 1))"
    by (rule fp_inv_turn [OF assms Suc.IH [OF Suc.prems]])
  moreover have "2 * ?k + 1 = 2 ^ Suc m * (k + 1) - 1"
  proof -
    have "0 < 2 ^ m * (k + 1)" "2 ^ Suc m * (k + 1) = 2 * (2 ^ m * (k + 1))" by simp_all
    then show ?thesis by linarith
  qed
  ultimately show ?case by (simp only: funpow.simps comp_apply)
qed simp

lemma fp_inv:
  assumes "fp x n"
  shows "fp (fe_inv__distinct x) (n ^ (p25519 - 2))"
proof -
  let ?k = "2 ^ 249 * (1 + 1) - 1 :: nat"
  define r where "r = (inv_turn x ^^ 249) (lm_copy x)"
  have "lm_copy x = x" using fp_length [OF assms] by (simp add: lm_copy_def F25519_SIZE_def)
  with fp_inv_turns [OF assms, of x 1 249] assms have r: "fp r (n ^ ?k)" by (simp only: r_def power_one_right)
  note fp_square [OF fp_times [OF fp_square [OF fp_square [OF r]] assms]]
  from fp_inv_turns [OF assms this, of 2]
  have "fp (fe_inv__distinct x) (n ^ (2 ^ 2 * (2 * (2 * (2 * ?k) + 1) + 1) - 1))"
    by (simp only: fe_inv__distinct_def Let_def r_def)
  moreover have "2 ^ 2 * (2 * (2 * (2 * ?k) + 1) + 1) - 1 = p25519 - 2" by (simp add: p25519_numeral)
  ultimately show ?thesis by (simp only:)
qed

subsection \<open>The ladder of RFC 7748\<close>

text \<open>
  The two steps of the ladder on numbers modulo 2^255 - 19, as section 5 of RFC 7748 writes them: a point is
  the pair of its projective coordinates X and Z.
\<close>

definition add_spec :: "int \<times> int \<Rightarrow> int \<times> int \<Rightarrow> int \<times> int \<Rightarrow> int \<times> int" where
  "add_spec p1 p2 p3 = (case (p1, p2, p3) of ((x1, z1), (x2, z2), (x3, z3)) \<Rightarrow>
     let A = x2 + z2; B = x2 - z2; C = x3 + z3; D = x3 - z3; DA = D * A; CB = C * B
     in (z1 * (DA + CB)\<^sup>2 mod int p25519, x1 * (DA - CB)\<^sup>2 mod int p25519))"

definition double_spec :: "int \<times> int \<Rightarrow> int \<times> int" where
  "double_spec p = (case p of (x, z) \<Rightarrow>
     let AA = (x + z)\<^sup>2; BB = (x - z)\<^sup>2; E = AA - BB
     in (AA * BB mod int p25519, E * (AA + 121665 * E) mod int p25519))"

text \<open>Between two bits the points are the multiples m - 1 and m of the point \<open>u\<close>; the bits come from the highest.\<close>

primrec ladder_spec :: "int \<Rightarrow> bool list \<Rightarrow> (int \<times> int) \<times> (int \<times> int) \<Rightarrow> (int \<times> int) \<times> (int \<times> int)" where
  "ladder_spec u [] pq = pq"
| "ladder_spec u (b # bs) pq =
    (let odd_pt = add_spec (u, 1) (snd pq) (fst pq); even_pt = double_spec (snd pq)
     in ladder_spec u bs (if b then (even_pt, add_spec odd_pt even_pt (u, 1)) else (odd_pt, even_pt)))"

definition x25519_spec :: "bool list \<Rightarrow> int \<Rightarrow> int" where
  "x25519_spec bits u =
    (let (x, z) = snd (ladder_spec u bits ((1, 0), (u, 1))) in x * z ^ (p25519 - 2) mod int p25519)"

definition fp_pt :: "byte list \<times> byte list \<Rightarrow> int \<times> int \<Rightarrow> bool" where
  "fp_pt a p \<longleftrightarrow> fp (fst a) (fst p) \<and> fp (snd a) (snd p) \<and> reduced (snd a)"

lemma fp_cong: "fp x n \<Longrightarrow> m = n \<Longrightarrow> fp x (m mod int p25519)"
  by (simp add: fp_def)

lemma xc_diffadd_spec:
  assumes "fp x1 n1" "fp z1 m1" "fp_pt (x2, z2) p2" "fp_pt (x3, z3) p3"
  shows "fp_pt (xc_diffadd x1 z1 x2 z2 x3 z3) (add_spec (n1, m1) p2 p3)"
proof -
  obtain n2 m2 n3 m3 where p: "p2 = (n2, m2)" "p3 = (n3, m3)" by fastforce
  with assms(3,4) have f: "fp x2 n2" "fp z2 m2" "reduced z2" "fp x3 n3" "fp z3 m3" "reduced z3" by (simp_all add: fp_pt_def)
  note da = fp_mul [OF fp_add [OF f(1,2)] fp_sub [OF f(4,5,6)]]
  note cb = fp_mul [OF fp_add [OF f(4,5)] fp_sub [OF f(1,2,3)]]
  note s = fp_add [OF da cb] and d = fp_sub [OF da cb reduced_ops(1) [OF fp_add [OF f(4,5)] fp_sub [OF f(1,2,3)]]]
  note x = fp_mul [OF assms(2) fp_mul [OF s s]] and z = fp_mul [OF assms(1) fp_mul [OF d d]]
  show ?thesis
    unfolding fp_pt_def xc_diffadd_def add_spec_def p Let_def prod.case fst_conv snd_conv
    by (intro conjI fp_cong [OF x] fp_cong [OF z] reduced_ops(1) [OF assms(1) fp_mul [OF d d]])
      (simp_all add: power2_eq_square mult.commute)
qed

text \<open>The code's formulas for doubling, with the coefficient 486662 of the curve, against those of the RFC.\<close>

lemma double_formula:
  fixes n m :: int
  shows "(n + m)\<^sup>2 * (n - m)\<^sup>2 = (n * n - m * m) * (n * n - m * m)"
    and "((n + m)\<^sup>2 - (n - m)\<^sup>2) * ((n + m)\<^sup>2 + 121665 * ((n + m)\<^sup>2 - (n - m)\<^sup>2)) =
      4 * (n * m * (m * m + (n * n + 486662 * (n * m))))"
  by (simp_all add: power2_eq_square algebra_simps)

lemma fp_coefficients:
  assumes "fp a n"
  shows "fp (fe_mul_c a 486662) (486662 * n)" "fp (fe_mul_c a 4) (4 * n)" "reduced (fe_mul_c a 4)"
  using fp_mul_c [OF assms, of 486662] fp_mul_c [OF assms, of 4] reduced_ops(2) [OF assms, of 4] by simp_all

lemma xc_double_spec:
  assumes "fp_pt (x, z) p"
  shows "fp_pt (xc_double x z) (double_spec p)"
proof -
  obtain n m where p: "p = (n, m)" by fastforce
  with assms have f: "fp x n" "fp z m" by (simp_all add: fp_pt_def)
  note xx = fp_mul [OF f(1,1)] and zz = fp_mul [OF f(2,2)] and xz = fp_mul [OF f]
  note d = fp_sub [OF xx zz reduced_ops(1) [OF f(2,2)]]
  note t = fp_coefficients(2,3) [OF fp_mul [OF xz fp_add [OF zz fp_add [OF xx fp_coefficients(1) [OF xz]]]]]
  show ?thesis
    unfolding fp_pt_def xc_double_def double_spec_def p Let_def prod.case fst_conv snd_conv double_formula
    by (intro conjI fp_cong [OF fp_mul [OF d d] refl] fp_cong [OF t(1) refl] t(2))
qed

lemma fp_const: "fp (f25519_const n) (int (unat n))"
proof -
  have "le_val 256 (replicate k 0) = 0" for k by (induction k) simp_all
  then show ?thesis by (simp add: fp_def f25519_const_def)
qed

lemma reduced_const: "reduced (f25519_const n)"
proof -
  have "le_val 256 (replicate k 0) = 0" for k by (induction k) simp_all
  then have "val (f25519_const n) = unat n" by (simp add: f25519_const_def)
  then show ?thesis using unat_byte_le [of n] by (simp add: reduced_def p25519_numeral f25519_const_def)
qed

definition fp_points :: "points \<Rightarrow> (int \<times> int) \<times> (int \<times> int) \<Rightarrow> bool" where
  "fp_points z pq \<longleftrightarrow> fp_pt (xm1 z, zm1 z) (fst pq) \<and> fp_pt (xm z, zm z) (snd pq)"

definition scalar_bit :: "byte list \<Rightarrow> nat \<Rightarrow> bool" where
  "scalar_bit e i \<longleftrightarrow> bit (e ! (i div 8)) (i mod 8)"

lemma ladder_step_spec:
  assumes "fp q u" "fp_points z pq"
  shows "\<exists>pq'. fp_points (ladder_step e q i z) pq' \<and> ladder_spec u (scalar_bit e i # bs) pq = ladder_spec u bs pq'"
proof -
  have p: "fp_pt (xm1 z, zm1 z) (fst pq)" "fp_pt (xm z, zm z) (snd pq)" using assms(2) by (simp_all add: fp_points_def)
  have one: "fp (f25519_const 1) 1" using fp_const [of 1] by simp
  then have base: "fp_pt (q, f25519_const 1) (u, 1)" using assms(1) by (simp add: fp_pt_def reduced_const)
  obtain x1 z1 where 1: "xc_diffadd q (f25519_const 1) (xm z) (zm z) (xm1 z) (zm1 z) = (x1, z1)" by fastforce
  obtain x2 z2 where 2: "xc_double (xm z) (zm z) = (x2, z2)" by fastforce
  obtain x3 z3 where 3: "xc_diffadd x1 z1 x2 z2 q (f25519_const 1) = (x3, z3)" by fastforce
  have s1: "fp_pt (x1, z1) (add_spec (u, 1) (snd pq) (fst pq))" using xc_diffadd_spec [OF assms(1) one p(2,1)] 1 by simp
  have s2: "fp_pt (x2, z2) (double_spec (snd pq))" using xc_double_spec [OF p(2)] 2 by simp
  from s1 have "fp x1 (fst (add_spec (u, 1) (snd pq) (fst pq)))" "fp z1 (snd (add_spec (u, 1) (snd pq) (fst pq)))"
    by (simp_all add: fp_pt_def)
  from xc_diffadd_spec [OF this s2 base] 3
  have s3: "fp_pt (x3, z3) (add_spec (add_spec (u, 1) (snd pq) (fst pq)) (double_spec (snd pq)) (u, 1))" by simp
  have "drop_bit (i mod 8) (e ! (i div 8)) AND 1 \<noteq> 0 \<longleftrightarrow> scalar_bit e i"
    by (simp add: scalar_bit_def bit_iff_odd_drop_bit and_one_eq odd_iff_mod_2_eq_one)
  then have step: "ladder_step e q i z = (if scalar_bit e i then \<lparr>xm1 = x2, zm1 = z2, xm = x3, zm = z3\<rparr>
      else \<lparr>xm1 = x1, zm1 = z1, xm = x2, zm = z2\<rparr>)"
    by (simp add: ladder_step_def Let_def 1 2 3)
  show ?thesis
    using s1 s2 s3 unfolding step by (intro exI conjI) (auto simp: fp_points_def Let_def)
qed

lemma ladder_spec_fold:
  "fp q u \<Longrightarrow> fp_points z pq \<Longrightarrow> fp_points (fold (ladder_step e q) is z) (ladder_spec u (map (scalar_bit e) is) pq)"
proof (induction "is" arbitrary: z pq)
  case (Cons i "is")
  from ladder_step_spec [OF Cons.prems, of e i "map (scalar_bit e) is"] Cons.IH [OF Cons.prems(1)] show ?case
    by (metis fold_simps(2) list.map(2))
qed simp

lemma curve25519_spec:
  assumes "fp q u" "length q = 32"
  shows "length (curve25519 e (Some q)) = 32 \<and>
    int (val (curve25519 e (Some q))) = x25519_spec (map (scalar_bit e) (rev [0..<254])) u"
proof -
  let ?z0 = "\<lparr>xm1 = f25519_const 1, zm1 = f25519_const 0, xm = q, zm = f25519_const 1\<rparr>"
  define z where "z = fold (ladder_step e q) (rev [0..<254]) ?z0"
  obtain pq x y where l: "ladder_spec u (map (scalar_bit e) (rev [0..<254])) ((1, 0), (u, 1)) = (pq, (x, y))"
    by (metis prod.exhaust)
  have "fp_points ?z0 ((1, 0), (u, 1))"
    using fp_const [of 1] fp_const [of 0] assms(1) by (simp add: fp_points_def fp_pt_def reduced_const)
  from ladder_spec_fold [OF assms(1) this, of e "rev [0..<254]"] l have "fp (xm z) x" "fp (zm z) y"
    by (simp_all add: z_def fp_points_def fp_pt_def)
  note r = fp_mul [OF fp_inv [OF this(2)] this(1)]
  have "lm_copy q = q" using assms(2) by (simp add: lm_copy_def F25519_SIZE_def)
  then have c: "curve25519 e (Some q) = fe_normalize (fe_mul__distinct (fe_inv__distinct (zm z)) (xm z))"
    by (simp add: curve25519_def Let_def z_def)
  from fe_normalize_val [OF fp_length [OF r]] r show ?thesis
    unfolding c x25519_spec_def l by (simp add: fp_def of_nat_mod mult.commute)
qed



end
