(* ===== verification/Udhcp_Options.thy ===== *)
theory Udhcp_Options
  imports Hash_Base
begin

text \<open>
  DHCP packets and the options in them, \<^verbatim>\<open>networking/udhcp/common.h\<close> and \<^verbatim>\<open>common.c\<close>.  A pointer into
  the packet is a field with an offset; a read outside the field is \<open>ReadOutside\<close>.  The abstract
  view of an options field is the list of its options (\<open>holds\<close>): adding appends to it and getting
  searches it.
\<close>

subsection \<open>Constants and the packet\<close>

definition DHCP_OPTIONS_BUFSIZE :: nat where "DHCP_OPTIONS_BUFSIZE = 308"
definition DHCP_PADDING :: byte where "DHCP_PADDING = 0x00"
definition DHCP_HOST_NAME :: byte where "DHCP_HOST_NAME = 0x0c"
definition DHCP_REQUESTED_IP :: byte where "DHCP_REQUESTED_IP = 0x32"
definition DHCP_LEASE_TIME :: byte where "DHCP_LEASE_TIME = 0x33"
definition DHCP_OPTION_OVERLOAD :: byte where "DHCP_OPTION_OVERLOAD = 0x34"
definition DHCP_MESSAGE_TYPE :: byte where "DHCP_MESSAGE_TYPE = 0x35"
definition DHCP_SERVER_ID :: byte where "DHCP_SERVER_ID = 0x36"
definition DHCP_END :: byte where "DHCP_END = 0xff"
definition OPT_CODE :: nat where "OPT_CODE = 0"
definition OPT_LEN :: nat where "OPT_LEN = 1"
definition OPT_DATA :: nat where "OPT_DATA = 2"
definition FILE_FIELD :: u32 where "FILE_FIELD = 1"
definition SNAME_FIELD :: u32 where "SNAME_FIELD = 2"

lemmas dhcp_consts = DHCP_OPTIONS_BUFSIZE_def DHCP_PADDING_def DHCP_HOST_NAME_def DHCP_REQUESTED_IP_def
  DHCP_LEASE_TIME_def DHCP_OPTION_OVERLOAD_def DHCP_MESSAGE_TYPE_def DHCP_SERVER_ID_def DHCP_END_def
  OPT_CODE_def OPT_LEN_def OPT_DATA_def FILE_FIELD_def SNAME_FIELD_def

record dhcp_packet =
  op :: byte
  htype :: byte
  hlen :: byte
  hops :: byte
  xid :: u32
  secs :: u16
  flags :: u16
  ciaddr :: u32
  yiaddr :: u32
  siaddr_nip :: u32
  gateway_nip :: u32
  chaddr :: "byte list"
  sname :: "byte list"
  file_field :: "byte list"
  cookie :: u32
  options :: "byte list"

text \<open>The sizes of the arrays; the options field has a configurable slack after the 308 bytes of the standard.\<close>

definition wf_packet :: "dhcp_packet \<Rightarrow> bool" where
  "wf_packet p \<longleftrightarrow> length (chaddr p) = 16 \<and> length (sname p) = 64 \<and> length (file_field p) = 128 \<and>
     DHCP_OPTIONS_BUFSIZE \<le> length (options p)"

datatype field = Options | File | Sname

fun field_bytes :: "dhcp_packet \<Rightarrow> field \<Rightarrow> byte list" where
  "field_bytes p Options = options p"
| "field_bytes p File = file_field p"
| "field_bytes p Sname = sname p"

subsection \<open>Scanning\<close>

record dhcp_scan_state =
  overload :: u32
  rem :: int
  ptrfield :: field
  ptrpos :: nat

definition init_scan_state :: "dhcp_packet \<Rightarrow> dhcp_scan_state" where
  "init_scan_state packet = \<lparr>overload = 0, rem = int (length (options packet)), ptrfield = Options, ptrpos = 0\<rparr>"

datatype scan_result = Found field nat | NoMore | Malformed | ReadOutside

datatype scan_step = Again dhcp_scan_state | Return scan_result dhcp_scan_state

text \<open>\<open>look s i k\<close> is a read of \<^verbatim>\<open>optionptr[i]\<close> followed by the rest \<open>k\<close> of the code.\<close>

definition look :: "dhcp_packet \<Rightarrow> dhcp_scan_state \<Rightarrow> nat \<Rightarrow> (byte \<Rightarrow> scan_step) \<Rightarrow> scan_step" where
  "look packet s i k =
    (let bs = field_bytes packet (ptrfield s)
     in if ptrpos s + i < length bs then k (bs ! (ptrpos s + i)) else Return ReadOutside s)"

definition scan_end :: "dhcp_packet \<Rightarrow> dhcp_scan_state \<Rightarrow> scan_step" where
  "scan_end packet s =
    (if overload s AND (FILE_FIELD * 0x101) = FILE_FIELD then
       Again (s\<lparr>overload := overload s OR FILE_FIELD * 0x101, ptrfield := File, ptrpos := 0, rem := int (length (file_field packet))\<rparr>)
     else if overload s AND (SNAME_FIELD * 0x101) = SNAME_FIELD then
       Again (s\<lparr>overload := overload s OR SNAME_FIELD * 0x101, ptrfield := Sname, ptrpos := 0, rem := int (length (sname packet))\<rparr>)
     else Return NoMore s)"

definition scan_option :: "dhcp_packet \<Rightarrow> dhcp_scan_state \<Rightarrow> byte \<Rightarrow> scan_step" where
  "scan_option packet s code =
    (if rem s \<le> int OPT_LEN then Return Malformed s
     else look packet s OPT_LEN (\<lambda>l.
       if l = 0 then Again (s\<lparr>rem := rem s - 2, ptrpos := ptrpos s + 2\<rparr>)
       else
         let len = unat l + 2; s' = s\<lparr>rem := rem s - int len\<rparr>; nxt = s'\<lparr>ptrpos := ptrpos s + len\<rparr> in
         if rem s' < 0 then Return Malformed s'
         else if code = DHCP_OPTION_OVERLOAD then
           look packet s OPT_DATA (\<lambda>d. Again (nxt\<lparr>overload := overload s OR ucast d\<rparr>))
         else Return (Found (ptrfield s) (ptrpos s)) nxt))"

text \<open>One turn; \<open>bootp\<close> is \<^verbatim>\<open>ENABLE_FEATURE_UDHCPD_BOOTP\<close>.\<close>

definition scan_turn :: "bool \<Rightarrow> dhcp_packet \<Rightarrow> dhcp_scan_state \<Rightarrow> scan_step" where
  "scan_turn bootp packet s =
    (if rem s \<le> 0 then Return (if bootp \<and> rem s = 0 then NoMore else Malformed) s
     else look packet s OPT_CODE (\<lambda>code.
       if code = DHCP_PADDING then Again (s\<lparr>rem := rem s - 1, ptrpos := ptrpos s + 1\<rparr>)
       else if code = DHCP_END then scan_end packet s
       else scan_option packet s code))"

text \<open>
  Whatever is received, a turn looks at a field for the first time or consumes bytes: the number of
  fields not yet looked at and then the bytes remaining decrease.
\<close>

definition unlooked :: "dhcp_scan_state \<Rightarrow> nat" where
  "unlooked s = (if bit (overload s) 8 then 0 else 1) + (if bit (overload s) 9 then 0 else 1)"

definition scan_rel :: "(dhcp_scan_state \<times> dhcp_scan_state) set" where
  "scan_rel = inv_image (less_than <*lex*> less_than) (\<lambda>s. (unlooked s, nat (rem s)))"

lemma wf_scan_rel: "wf scan_rel"
  unfolding scan_rel_def by (intro wf_inv_image wf_lex_prod wf_less_than)

lemma trans_scan_rel: "trans scan_rel"
  unfolding scan_rel_def by (intro trans_inv_image trans_lex_prod trans_less_than)

lemma overload_bits:
  "FILE_FIELD * 0x101 = 0x101" "SNAME_FIELD * 0x101 = 0x202"
  by (simp_all add: dhcp_consts)

lemma unlooked_file:
  assumes "v AND (FILE_FIELD * 0x101) = FILE_FIELD"
  shows "\<not> bit v 8"
proof
  assume "bit v 8"
  then have "bit (v AND (FILE_FIELD * 0x101)) 8" by (simp add: overload_bits bit_and_iff)
  then show False unfolding assms by (simp add: FILE_FIELD_def)
qed

lemma unlooked_sname:
  assumes "v AND (SNAME_FIELD * 0x101) = SNAME_FIELD"
  shows "\<not> bit v 9"
proof
  assume "bit v 9"
  then have "bit (v AND (SNAME_FIELD * 0x101)) 9" by (simp add: overload_bits bit_and_iff)
  then show False unfolding assms by (simp add: SNAME_FIELD_def)
qed

lemma no_high_bits [simp]: "\<not> bit (d :: byte) 8" "\<not> bit (d :: byte) 9"
  by (auto dest: bit_imp_le_length)

lemma unlooked_or_byte [simp]: "unlooked (s\<lparr>overload := v OR ucast (d :: byte)\<rparr>) = unlooked (s\<lparr>overload := v\<rparr>)"
  by (simp add: unlooked_def bit_or_iff bit_ucast_iff)

lemma scan_relI:
  "unlooked s' < unlooked s \<Longrightarrow> (s', s) \<in> scan_rel"
  "unlooked s' = unlooked s \<Longrightarrow> nat (rem s') < nat (rem s) \<Longrightarrow> (s', s) \<in> scan_rel"
  by (simp_all add: scan_rel_def)

lemma unlooked_update [simp]:
  "unlooked (s\<lparr>rem := r\<rparr>) = unlooked s" "unlooked (s\<lparr>ptrpos := n\<rparr>) = unlooked s" "unlooked (s\<lparr>ptrfield := f\<rparr>) = unlooked s"
  by (simp_all add: unlooked_def)

lemma scan_end_decreases: "scan_end packet s = Again s' \<Longrightarrow> (s', s) \<in> scan_rel"
  using unlooked_file [of "overload s"] unlooked_sname [of "overload s"]
  by (auto simp: scan_end_def overload_bits unlooked_def bit_or_iff intro!: scan_relI(1) split: if_splits)

lemma scan_option_decreases: "scan_option packet s code = Again s' \<Longrightarrow> (s', s) \<in> scan_rel"
  by (auto simp: scan_option_def look_def Let_def OPT_LEN_def unlooked_def [of "s\<lparr>overload := _\<rparr>"]
      intro!: scan_relI(2) less_le_trans [OF _ uint_ge_0] split: if_splits)

lemma scan_turn_decreases: "scan_turn bootp packet s = Again s' \<Longrightarrow> (s', s) \<in> scan_rel"
  by (auto simp: scan_turn_def look_def Let_def intro: scan_relI(2) scan_end_decreases scan_option_decreases split: if_splits)

function scan_loop :: "bool \<Rightarrow> dhcp_packet \<Rightarrow> dhcp_scan_state \<Rightarrow> scan_result \<times> dhcp_scan_state" where
  "scan_loop bootp packet s =
    (case scan_turn bootp packet s of Again s' \<Rightarrow> scan_loop bootp packet s' | Return r s' \<Rightarrow> (r, s'))"
  by pat_completeness auto
termination
  by (relation "inv_image scan_rel (\<lambda>(_, _, s). s)") (auto simp: wf_scan_rel scan_turn_decreases)

declare scan_loop.simps [simp del]

definition udhcp_scan_options :: "bool \<Rightarrow> dhcp_packet \<Rightarrow> dhcp_scan_state \<Rightarrow> scan_result \<times> dhcp_scan_state" where
  "udhcp_scan_options bootp packet s = scan_loop bootp packet s"

text \<open>A found option is behind the scan.\<close>

lemma scan_turn_found_decreases: "scan_turn bootp packet s = Return (Found f n) s' \<Longrightarrow> (s', s) \<in> scan_rel"
  by (auto simp: scan_turn_def scan_option_def scan_end_def look_def Let_def OPT_LEN_def
      intro!: scan_relI(2) less_le_trans [OF _ uint_ge_0] split: if_splits)

lemma scan_found_decreases: "scan_loop bootp packet s = (Found f n, s') \<Longrightarrow> (s', s) \<in> scan_rel"
proof (induction bootp packet s rule: scan_loop.induct)
  case (1 bootp packet s)
  then show ?case
    by (auto simp: scan_loop.simps [of bootp packet s] split: scan_step.splits
        intro: scan_turn_found_decreases transD [OF trans_scan_rel] scan_turn_decreases)
qed

subsection \<open>Getting an option\<close>

text \<open>The pointer to the data of the option, or no option.\<close>

datatype got = Got field nat | GotNull | GotOutside

function get_option_loop :: "bool \<Rightarrow> dhcp_packet \<Rightarrow> dhcp_scan_state \<Rightarrow> byte \<Rightarrow> got" where
  "get_option_loop bootp packet s code =
    (case udhcp_scan_options bootp packet s of
       (Found f n, s') \<Rightarrow>
         if field_bytes packet f ! (n + OPT_CODE) = code then Got f (n + OPT_DATA)
         else get_option_loop bootp packet s' code
     | (ReadOutside, _) \<Rightarrow> GotOutside
     | _ \<Rightarrow> GotNull)"
  by pat_completeness auto
termination
  by (relation "inv_image scan_rel (\<lambda>(_, _, s, _). s)")
    (auto simp: wf_scan_rel udhcp_scan_options_def dest: sym scan_found_decreases)

declare get_option_loop.simps [simp del]

definition udhcp_get_option :: "bool \<Rightarrow> dhcp_packet \<Rightarrow> byte \<Rightarrow> got" where
  "udhcp_get_option bootp packet code = get_option_loop bootp packet (init_scan_state packet) code"

definition udhcp_get_option32 :: "bool \<Rightarrow> dhcp_packet \<Rightarrow> byte \<Rightarrow> got" where
  "udhcp_get_option32 bootp packet code =
    (case udhcp_get_option bootp packet code of
       Got f r \<Rightarrow> if field_bytes packet f ! (r - OPT_DATA + OPT_LEN) \<noteq> 4 then GotNull else Got f r
     | r \<Rightarrow> r)"

subsection \<open>Adding an option\<close>

text \<open>\<^verbatim>\<open>udhcp_end_option\<close> has no bounds check: running out of the array is \<open>None\<close>.\<close>

function end_option_loop :: "byte list \<Rightarrow> nat \<Rightarrow> nat option" where
  "end_option_loop optionptr i =
    (if i \<ge> length optionptr then None
     else if optionptr ! i = DHCP_END then Some i
     else if optionptr ! i = DHCP_PADDING then end_option_loop optionptr (i + 1)
     else if i + OPT_LEN \<ge> length optionptr then None
     else end_option_loop optionptr (i + (unat (optionptr ! (i + OPT_LEN)) + OPT_DATA - 1) + 1))"
  by pat_completeness auto
termination by (relation "measure (\<lambda>(bs, i). length bs - i)") (auto simp: OPT_DATA_def)

declare end_option_loop.simps [simp del]

definition udhcp_end_option :: "byte list \<Rightarrow> nat option" where
  "udhcp_end_option optionptr = end_option_loop optionptr 0"

text \<open>\<open>None\<close> is an access outside an array; an option that does not fit is reported and dropped.\<close>

definition udhcp_add_binary_option :: "dhcp_packet \<Rightarrow> byte list \<Rightarrow> dhcp_packet option" where
  "udhcp_add_binary_option packet addopt =
    (let optionptr = options packet; len = OPT_DATA + unat (addopt ! OPT_LEN) in
     case udhcp_end_option optionptr of
       None \<Rightarrow> None
     | Some fin \<Rightarrow>
         if fin + len + 1 \<ge> DHCP_OPTIONS_BUFSIZE then Some packet
         else if length addopt < len \<or> length optionptr \<le> fin + len then None
         else Some (packet\<lparr>options := (blit optionptr fin (take len addopt))[fin + len := DHCP_END]\<rparr>))"

subsection \<open>No read leaves a field\<close>

text \<open>The pointer and the remaining count agree with the field, or the packet was found malformed.\<close>

definition wf_scan :: "dhcp_packet \<Rightarrow> dhcp_scan_state \<Rightarrow> bool" where
  "wf_scan packet s \<longleftrightarrow> rem s < 0 \<or> int (ptrpos s) + rem s = int (length (field_bytes packet (ptrfield s)))"

definition inside :: "dhcp_packet \<Rightarrow> field \<Rightarrow> nat \<Rightarrow> bool" where
  "inside packet f n \<longleftrightarrow> (let bs = field_bytes packet f in
     n + OPT_LEN < length bs \<and> bs ! (n + OPT_LEN) \<noteq> 0 \<and> n + OPT_DATA + unat (bs ! (n + OPT_LEN)) \<le> length bs)"

lemma wf_scan_init [inv_intros]: "wf_scan packet (init_scan_state packet)"
  by (simp add: wf_scan_def init_scan_state_def)

lemma wf_scan_end: "wf_scan packet s \<Longrightarrow>
  case scan_end packet s of Again s' \<Rightarrow> wf_scan packet s' | Return r s' \<Rightarrow> r = NoMore \<and> s' = s"
  by (simp add: scan_end_def wf_scan_def)

lemma wf_scan_option:
  assumes "wf_scan packet s" "0 < rem s"
  shows "case scan_option packet s code of Again s' \<Rightarrow> wf_scan packet s'
    | Return r s' \<Rightarrow> wf_scan packet s' \<and> r \<noteq> ReadOutside \<and>
        (\<forall>f n. r = Found f n \<longrightarrow> inside packet f n \<and> f = ptrfield s \<and> n = ptrpos s)"
proof -
  let ?bs = "field_bytes packet (ptrfield s)"
  let ?l = "?bs ! (ptrpos s + OPT_LEN)"
  from assms have pos: "int (ptrpos s) + rem s = int (length ?bs)" by (simp add: wf_scan_def)
  show ?thesis
  proof (cases "rem s \<le> int OPT_LEN \<or> ?l = 0")
    case True
    with pos assms show ?thesis by (auto simp: scan_option_def look_def Let_def wf_scan_def OPT_LEN_def)
  next
    case False
    with pos have len: "ptrpos s + OPT_LEN < length ?bs" by linarith
    have "inside packet (ptrfield s) (ptrpos s) \<and> ptrpos s + OPT_DATA < length ?bs"
      if "\<not> rem s - int (unat ?l + 2) < 0"
    proof -
      from False have "0 < unat ?l" by (simp add: unat_gt_0)
      with that pos have "ptrpos s + OPT_DATA + unat ?l \<le> length ?bs" "ptrpos s + OPT_DATA < length ?bs"
        unfolding OPT_DATA_def by linarith+
      with False len show ?thesis by (simp add: inside_def Let_def)
    qed
    with False len pos show ?thesis
      by (auto simp: scan_option_def look_def Let_def wf_scan_def)
  qed
qed

lemma wf_scan_turn:
  assumes "wf_scan packet s"
  shows "case scan_turn bootp packet s of Again s' \<Rightarrow> wf_scan packet s'
    | Return r s' \<Rightarrow> wf_scan packet s' \<and> r \<noteq> ReadOutside \<and> (\<forall>f n. r = Found f n \<longrightarrow> inside packet f n)"
proof (cases "rem s \<le> 0")
  case True
  with assms show ?thesis by (simp add: scan_turn_def)
next
  case False
  with assms have "ptrpos s + OPT_CODE < length (field_bytes packet (ptrfield s))"
    by (simp add: wf_scan_def OPT_CODE_def)
  moreover have "wf_scan packet (s\<lparr>rem := rem s - 1, ptrpos := ptrpos s + 1\<rparr>)"
    using assms False by (simp add: wf_scan_def)
  moreover have "case scan_option packet s code of Again s' \<Rightarrow> wf_scan packet s'
    | Return r s' \<Rightarrow> wf_scan packet s' \<and> r \<noteq> ReadOutside \<and> (\<forall>f n. r = Found f n \<longrightarrow> inside packet f n)" for code
    using wf_scan_option [OF assms, of code] False by (auto split: scan_step.splits)
  moreover have "case scan_end packet s of Again s' \<Rightarrow> wf_scan packet s'
    | Return r s' \<Rightarrow> wf_scan packet s' \<and> r \<noteq> ReadOutside \<and> (\<forall>f n. r = Found f n \<longrightarrow> inside packet f n)"
    using wf_scan_end [OF assms] assms by (auto split: scan_step.splits)
  ultimately show ?thesis using False by (simp add: scan_turn_def look_def Let_def)
qed

lemma wf_scan_loop:
  assumes "wf_scan packet s" "scan_loop bootp packet s = (r, s')"
  shows "wf_scan packet s' \<and> r \<noteq> ReadOutside \<and> (\<forall>f n. r = Found f n \<longrightarrow> inside packet f n)"
  using assms
proof (induction bootp packet s rule: scan_loop.induct)
  case (1 bootp packet s)
  then show ?case
    using wf_scan_turn [OF 1(2), of bootp]
    by (subst (asm) (2) scan_loop.simps) (auto split: scan_step.splits)
qed

lemma get_option_loop_inside:
  assumes "wf_scan packet s"
  shows "case get_option_loop bootp packet s code of Got f r \<Rightarrow>
      inside packet f (r - OPT_DATA) \<and> OPT_DATA \<le> r \<and> field_bytes packet f ! (r - OPT_DATA + OPT_CODE) = code
    | GotNull \<Rightarrow> True | GotOutside \<Rightarrow> False"
  using assms
proof (induction bootp packet s code rule: get_option_loop.induct)
  case (1 bootp packet s code)
  obtain r s' where rs: "udhcp_scan_options bootp packet s = (r, s')" by fastforce
  with 1(2) have "wf_scan packet s' \<and> r \<noteq> ReadOutside \<and> (\<forall>f n. r = Found f n \<longrightarrow> inside packet f n)"
    by (intro wf_scan_loop) (simp_all add: udhcp_scan_options_def)
  with 1 rs show ?case
    by (subst get_option_loop.simps) (auto split: scan_result.splits)
qed

text \<open>C20: Getting an option is safe whatever packet was received: the scan ends, reads no byte outside the three
  fields, and an option it returns has the code asked for, is not empty, and lies with all its data
  inside its field.\<close>

theorem udhcp_get_option_safe:
  "case udhcp_get_option bootp packet code of
     Got f r \<Rightarrow> (let bs = field_bytes packet f in
       2 \<le> r \<and> bs ! (r - 2) = code \<and> bs ! (r - 1) \<noteq> 0 \<and> r + unat (bs ! (r - 1)) \<le> length bs)
   | GotNull \<Rightarrow> True
   | GotOutside \<Rightarrow> False"
  using get_option_loop_inside [OF wf_scan_init, of packet code bootp]
  by (auto simp: udhcp_get_option_def inside_def Let_def dhcp_consts Suc_diff_Suc numeral_2_eq_2 split: got.splits)

subsection \<open>The options field as a list of options\<close>

type_synonym dhcp_option = "byte \<times> byte list"

definition enc_option :: "dhcp_option \<Rightarrow> byte list" where
  "enc_option opt = (case opt of (code, data) \<Rightarrow> code # of_nat (length data) # data)"

definition wf_option :: "dhcp_option \<Rightarrow> bool" where
  "wf_option opt \<longleftrightarrow> (case opt of (code, data) \<Rightarrow> code \<notin> {DHCP_PADDING, DHCP_END, DHCP_OPTION_OVERLOAD} \<and>
     data \<noteq> [] \<and> length data \<le> 255)"

text \<open>The buffer holds the options, one after the other, then the end mark.\<close>

definition holds :: "byte list \<Rightarrow> dhcp_option list \<Rightarrow> bool" where
  "holds bs os \<longleftrightarrow> (\<forall>opt\<in>set os. wf_option opt) \<and>
     (\<exists>rest. bs = concat (map enc_option os) @ DHCP_END # rest)"

lemma length_enc_option: "length (enc_option opt) = 2 + length (snd opt)"
  by (simp add: enc_option_def split: prod.splits)

lemma wf_option_byte:
  assumes "wf_option (code, data)"
  shows "unat (of_nat (length data) :: byte) = length data" "(of_nat (length data) :: byte) \<noteq> 0"
    "code \<noteq> DHCP_PADDING" "code \<noteq> DHCP_END" "code \<noteq> DHCP_OPTION_OVERLOAD"
proof -
  from assms have l: "length data < 256" "data \<noteq> []" and c: "code \<notin> {DHCP_PADDING, DHCP_END, DHCP_OPTION_OVERLOAD}"
    by (auto simp: wf_option_def)
  then show u: "unat (of_nat (length data) :: byte) = length data" by (simp add: unat_of_nat_small)
  from l u show "(of_nat (length data) :: byte) \<noteq> 0" by (metis length_0_conv unat_0)
  from c show "code \<noteq> DHCP_PADDING" "code \<noteq> DHCP_END" "code \<noteq> DHCP_OPTION_OVERLOAD" by auto
qed

text \<open>The scan at the option \<open>opt\<close> of a buffer.\<close>

lemma nth_enc [simp]:
  "(pre @ enc_option (code, data) @ rest) ! length pre = code"
  "(pre @ enc_option (code, data) @ rest) ! Suc (length pre) = of_nat (length data)"
  by (simp_all add: enc_option_def nth_append)

lemma scan_turn_option:
  assumes "options packet = pre @ enc_option (code, data) @ rest" "wf_option (code, data)"
    "ptrfield s = Options" "ptrpos s = length pre" "rem s = int (length (enc_option (code, data) @ rest))"
  shows "scan_turn bootp packet s = Return (Found Options (length pre))
    (s\<lparr>rem := int (length rest), ptrpos := length (pre @ enc_option (code, data))\<rparr>)"
  using assms wf_option_byte [OF assms(2)]
  by (simp add: scan_turn_def scan_option_def look_def Let_def OPT_CODE_def OPT_LEN_def length_enc_option)

lemma scan_turn_done:
  assumes "options packet = pre @ DHCP_END # rest" "ptrfield s = Options" "ptrpos s = length pre"
    "rem s = int (Suc (length rest))" "overload s = 0"
  shows "scan_turn bootp packet s = Return NoMore s"
  using assms by (simp add: scan_turn_def scan_end_def look_def Let_def dhcp_consts nth_append)

lemma get_option_loop_holds:
  assumes "options packet = pre @ concat (map enc_option os) @ DHCP_END # rest" "\<forall>opt\<in>set os. wf_option opt"
    "ptrfield s = Options" "ptrpos s = length pre" "rem s = int (length (concat (map enc_option os)) + 1 + length rest)"
    "overload s = 0"
  shows "case get_option_loop bootp packet s code of
      Got f r \<Rightarrow> \<exists>data. map_of os code = Some data \<and> f = Options \<and>
        take (length data) (drop r (options packet)) = data \<and> unat (options packet ! (r - 1)) = length data
    | GotNull \<Rightarrow> map_of os code = None
    | GotOutside \<Rightarrow> False"
  using assms
proof (induction os arbitrary: pre s)
  case Nil
  then have "udhcp_scan_options bootp packet s = (NoMore, s)"
    using scan_turn_done [of packet pre rest s bootp] by (simp add: udhcp_scan_options_def scan_loop.simps)
  then show ?case by (subst get_option_loop.simps) simp
next
  case (Cons opt os)
  obtain c data where opt: "opt = (c, data)" by fastforce
  let ?rest = "concat (map enc_option os) @ DHCP_END # rest"
  let ?s = "s\<lparr>rem := int (length ?rest), ptrpos := length (pre @ enc_option (c, data))\<rparr>"
  from Cons.prems opt have buf: "options packet = pre @ enc_option (c, data) @ ?rest" and wf: "wf_option (c, data)"
    by simp_all
  have "scan_turn bootp packet s = Return (Found Options (length pre)) ?s"
    by (rule scan_turn_option [OF buf wf]) (use Cons.prems opt in \<open>simp_all\<close>)
  then have scan: "udhcp_scan_options bootp packet s = (Found Options (length pre), ?s)"
    by (simp add: udhcp_scan_options_def scan_loop.simps)
  show ?case
  proof (cases "c = code")
    case True
    then show ?thesis
      using wf_option_byte(1) [OF wf] scan opt buf
      by (subst get_option_loop.simps) (simp add: OPT_CODE_def OPT_DATA_def enc_option_def nth_append)
  next
    case False
    have "case get_option_loop bootp packet ?s code of
        Got f r \<Rightarrow> \<exists>data. map_of os code = Some data \<and> f = Options \<and>
          take (length data) (drop r (options packet)) = data \<and> unat (options packet ! (r - 1)) = length data
      | GotNull \<Rightarrow> map_of os code = None
      | GotOutside \<Rightarrow> False"
      by (rule Cons.IH [of "pre @ enc_option (c, data)"]) (use Cons.prems opt in auto)
    moreover have "get_option_loop bootp packet s code = get_option_loop bootp packet ?s code"
      using False scan buf by (subst get_option_loop.simps) (simp add: OPT_CODE_def)
    ultimately show ?thesis using False opt by (simp split: got.splits)
  qed
qed

lemma end_option_holds:
  assumes "bs = pre @ concat (map enc_option os) @ DHCP_END # rest" "\<forall>opt\<in>set os. wf_option opt"
  shows "end_option_loop bs (length pre) = Some (length (pre @ concat (map enc_option os)))"
  using assms
proof (induction os arbitrary: pre)
  case Nil
  then show ?case by (subst end_option_loop.simps) (simp add: nth_append)
next
  case (Cons opt os)
  obtain c data where opt: "opt = (c, data)" by fastforce
  from Cons.prems opt have buf: "bs = pre @ enc_option (c, data) @ concat (map enc_option os) @ DHCP_END # rest"
    and wf: "wf_option (c, data)" by simp_all
  have "end_option_loop bs (length pre) = end_option_loop bs (length (pre @ enc_option (c, data)))"
    using wf_option_byte [OF wf] buf
    by (subst end_option_loop.simps) (simp add: OPT_LEN_def OPT_DATA_def length_enc_option)
  also have "\<dots> = Some (length ((pre @ enc_option (c, data)) @ concat (map enc_option os)))"
    by (rule Cons.IH) (use Cons.prems opt in auto)
  finally show ?case using opt by simp
qed

definition option_data :: "dhcp_packet \<Rightarrow> got \<Rightarrow> byte list option" where
  "option_data packet g =
    (case g of Got f r \<Rightarrow> let bs = field_bytes packet f in Some (take (unat (bs ! (r - 1))) (drop r bs)) | _ \<Rightarrow> None)"

lemma get_option_holds:
  assumes "holds (options packet) os"
  shows "option_data packet (udhcp_get_option bootp packet code) = map_of os code"
proof -
  from assms obtain rest where "options packet = [] @ concat (map enc_option os) @ DHCP_END # rest"
    "\<forall>opt\<in>set os. wf_option opt" by (auto simp: holds_def)
  from get_option_loop_holds [OF this, of "init_scan_state packet" code bootp] this(1) show ?thesis
    by (auto simp: udhcp_get_option_def init_scan_state_def option_data_def Let_def split: got.splits)
qed

lemma get_option32_holds:
  assumes "holds (options packet) os" "map_of os code = Some data" "length data = 4"
  shows "option_data packet (udhcp_get_option32 bootp packet code) = Some data"
proof -
  note get = get_option_holds [OF assms(1), of bootp code]
  with assms(2) obtain f r where g: "udhcp_get_option bootp packet code = Got f r"
    by (auto simp: option_data_def split: got.splits)
  let ?bs = "field_bytes packet f"
  from get_option_loop_inside [OF wf_scan_init, of packet code bootp] g
  have r: "2 \<le> r" "r + unat (?bs ! (r - 1)) \<le> length ?bs"
    by (auto simp: udhcp_get_option_def inside_def Let_def dhcp_consts Suc_diff_Suc numeral_2_eq_2)
  with get g assms(2) have "data = take (unat (?bs ! (r - 1))) (drop r ?bs)" by (simp add: option_data_def Let_def)
  with r(2) assms(3) have "unat (?bs ! (r - 1)) = 4" by simp
  then have "?bs ! (r - 1) = 4" by (simp add: word_unat_eq_iff)
  moreover have "r - OPT_DATA + OPT_LEN = r - 1" using r(1) by (simp add: OPT_DATA_def OPT_LEN_def)
  ultimately show ?thesis using get g assms(2) by (simp add: udhcp_get_option32_def)
qed

definition fits :: "dhcp_option list \<Rightarrow> byte list \<Rightarrow> bool" where
  "fits os addopt \<longleftrightarrow> length (concat (map enc_option os)) + length addopt + 1 < DHCP_OPTIONS_BUFSIZE"

lemma add_option_holds:
  assumes "wf_packet packet" "holds (options packet) os" "wf_option opt"
  shows "\<exists>bs. udhcp_add_binary_option packet (enc_option opt) = Some (packet\<lparr>options := bs\<rparr>) \<and>
    length bs = length (options packet) \<and> holds bs (if fits os (enc_option opt) then os @ [opt] else os)"
proof -
  from assms(2) obtain rest where buf: "options packet = [] @ concat (map enc_option os) @ DHCP_END # rest"
    and wf: "\<forall>opt\<in>set os. wf_option opt" by (auto simp: holds_def)
  let ?n = "length (concat (map enc_option os))" and ?len = "length (enc_option opt)"
  have fin: "udhcp_end_option (options packet) = Some ?n"
    using end_option_holds [OF buf wf] by (simp add: udhcp_end_option_def)
  have len: "OPT_DATA + unat (enc_option opt ! OPT_LEN) = ?len"
    using wf_option_byte(1) [of "fst opt" "snd opt"] assms(3)
    by (cases opt) (simp add: OPT_DATA_def OPT_LEN_def enc_option_def)
  show ?thesis
  proof (cases "fits os (enc_option opt)")
    case False
    with fin len assms(2) show ?thesis
      by (intro exI [of _ "options packet"]) (auto simp: udhcp_add_binary_option_def Let_def fits_def)
  next
    case True
    with assms(1) have room: "?n + ?len + 1 < length (options packet)" by (simp add: fits_def wf_packet_def)
    let ?bs = "(blit (options packet) ?n (enc_option opt))[?n + ?len := DHCP_END]"
    have "udhcp_add_binary_option packet (enc_option opt) = Some (packet\<lparr>options := ?bs\<rparr>)"
      using True fin len room by (simp add: udhcp_add_binary_option_def Let_def fits_def)
    moreover have "length ?bs = length (options packet)" using room by (simp add: blit_def)
    moreover have "blit (options packet) ?n (enc_option opt) =
        concat (map enc_option os) @ enc_option opt @ drop (?len - 1) rest"
      using room by (simp add: blit_def buf drop_Cons' length_enc_option)
    moreover have "drop (?len - 1) rest \<noteq> []" using room by (simp add: buf)
    then obtain x ys where "drop (?len - 1) rest = x # ys" by (cases "drop (?len - 1) rest") auto
    ultimately have "?bs = concat (map enc_option os) @ enc_option opt @ DHCP_END # ys"
      by (simp add: list_update_append)
    with wf assms(3) have "holds ?bs (os @ [opt])" by (auto simp: holds_def)
    with \<open>udhcp_add_binary_option _ _ = _\<close> \<open>length ?bs = _\<close> True show ?thesis by auto
  qed
qed

text \<open>C25: A packet under construction refines a list of options: adding an option appends it when it fits into
  the 308 bytes and changes nothing otherwise, never writes outside the packet, and every lookup
  afterwards finds exactly what the list holds.\<close>

theorem options_refine_list:
  assumes "wf_packet packet" and "holds (options packet) os" and "wf_option opt"
  shows "\<exists>packet'. udhcp_add_binary_option packet (enc_option opt) = Some packet' \<and> wf_packet packet' \<and>
    (let os' = if fits os (enc_option opt) then os @ [opt] else os in
      holds (options packet') os' \<and>
      (\<forall>bootp code. option_data packet' (udhcp_get_option bootp packet' code) = map_of os' code))"
proof -
  from add_option_holds [OF assms] obtain bs where
    add: "udhcp_add_binary_option packet (enc_option opt) = Some (packet\<lparr>options := bs\<rparr>)" "length bs = length (options packet)"
      "holds bs (if fits os (enc_option opt) then os @ [opt] else os)" by blast
  moreover from add(2) assms(1) have "wf_packet (packet\<lparr>options := bs\<rparr>)" by (simp add: wf_packet_def)
  ultimately show ?thesis
    using get_option_holds [of "packet\<lparr>options := bs\<rparr>"] by (simp add: Let_def)
qed

definition empty_packet :: dhcp_packet where
  "empty_packet = \<lparr>op = 0, htype = 0, hlen = 0, hops = 0, xid = 0, secs = 0, flags = 0, ciaddr = 0, yiaddr = 0,
     siaddr_nip = 0, gateway_nip = 0, chaddr = replicate 16 0, sname = replicate 64 0, file_field = replicate 128 0,
     cookie = 0, options = DHCP_END # replicate 387 0\<rparr>"

theorem options_refine_list_witness:
  "\<exists>packet'. udhcp_add_binary_option empty_packet [12, 2, 104, 105] = Some packet' \<and>
    option_data packet' (udhcp_get_option True packet' 12) = Some [104, 105] \<and>
    option_data packet' (udhcp_get_option True packet' 53) = None"
proof -
  have "wf_packet empty_packet" by (simp add: wf_packet_def empty_packet_def dhcp_consts)
  moreover have "holds (options empty_packet) []" by (auto simp: holds_def empty_packet_def)
  moreover have "wf_option (12, [104, 105])" by (simp add: wf_option_def dhcp_consts)
  ultimately have "\<exists>packet'. udhcp_add_binary_option empty_packet (enc_option (12, [104, 105])) = Some packet' \<and> wf_packet packet' \<and>
    (let os' = if fits [] (enc_option (12, [104, 105])) then [] @ [(12, [104, 105])] else [] in
      holds (options packet') os' \<and>
      (\<forall>bootp code. option_data packet' (udhcp_get_option bootp packet' code) = map_of os' code))"
    by (rule options_refine_list)
  moreover have "fits [] (enc_option (12, [104, 105]))" by (simp add: fits_def enc_option_def dhcp_consts)
  ultimately show ?thesis by (auto simp: Let_def enc_option_def)
qed

end
