(* ===== verification/Udhcp_Domain.thy ===== *)
theory Udhcp_Domain
  imports Libbb_Ctype "HOL-Library.Sublist"
begin

text \<open>
  RFC 1035 names in DHCP options, \<^verbatim>\<open>networking/udhcp/domain_codec.c\<close>.  \<^verbatim>\<open>dname_dec\<close> expands a list of
  compressed names received from the network; \<^verbatim>\<open>dname_enc\<close> encodes one name.  A read past the
  received bytes would be the outcome \<open>Overrun\<close>.  The counters are \<^verbatim>\<open>unsigned\<close> in the code and
  natural numbers here: all stay below 2^15 (the buffers are DHCP options, the jumps 14 bits wide).
\<close>

definition NS_MAXDNAME :: nat where "NS_MAXDNAME = 1025"
definition NS_MAXCDNAME :: nat where "NS_MAXCDNAME = 255"
definition NS_MAXLABEL :: nat where "NS_MAXLABEL = 63"
definition NS_MAXDNSRCH :: nat where "NS_MAXDNSRCH = 6"
definition NS_CMPRSFLGS :: byte where "NS_CMPRSFLGS = 0xc0"

subsection \<open>dname_dec\<close>

text \<open>
  \<open>ret\<close> holds the first \<^verbatim>\<open>len\<close> characters; \<open>fin\<close> is the index \<^verbatim>\<open>end - ret\<close> of the last dot written, 0 while
  \<^verbatim>\<open>end == ret\<close>.
\<close>

record dec_state =
  ret :: cstr
  fin :: nat
  crtpos :: nat
  retpos :: nat
  depth :: nat

datatype dec_step = Go dec_state | Error | Overrun

definition dec_body :: "byte list \<Rightarrow> dec_state \<Rightarrow> dec_step" where
  "dec_body cstr s =
    (if crtpos s \<ge> length cstr then Overrun
     else let c = cstr ! crtpos s; clen = length cstr in
     if c AND NS_CMPRSFLGS = NS_CMPRSFLGS then
       (if crtpos s + 2 > clen then Error
        else Go (s\<lparr>retpos := (if retpos s = 0 then crtpos s + 2 else retpos s),
                   depth := depth s + 1,
                   crtpos := (unat c * 256 + unat (cstr ! (crtpos s + 1))) mod 0x4000\<rparr>))
     else if c \<noteq> 0 then
       (if crtpos s + unat c + 1 > clen then Error
        else let label = map byte_char (take (unat c) (drop (crtpos s + 1) cstr))
             in Go (s\<lparr>ret := ret s @ label @ ''.'', fin := length (ret s) + unat c,
                      crtpos := crtpos s + (unat c + 1)\<rparr>))
     else
       let s' = (if retpos s = 0 then s\<lparr>crtpos := crtpos s + 1\<rparr>
                 else s\<lparr>crtpos := retpos s, retpos := 0, depth := 0\<rparr>)
       in Go (if ret s' \<noteq> [] then s'\<lparr>ret := (ret s')[length (ret s') - 1 := CHR '' '']\<rparr> else s'))"

definition dec_check :: "dec_step \<Rightarrow> dec_step" where
  "dec_check r =
    (case r of
       Go s \<Rightarrow> if depth s > NS_MAXDNSRCH \<or> length (ret s) > NS_MAXDNAME * NS_MAXDNSRCH then Error else Go s
     | _ \<Rightarrow> r)"

definition dec_turn :: "byte list \<Rightarrow> dec_state \<Rightarrow> dec_step" where
  "dec_turn cstr s = dec_check (dec_body cstr s)"

subsubsection \<open>The loop ends whatever the jumps\<close>

text \<open>
  The position at top level advances; inside a jump the result grows up to its limit or the
  number of jumps does.
\<close>

definition toplevel :: "dec_state \<Rightarrow> nat" where
  "toplevel s = (if retpos s = 0 then crtpos s else retpos s)"

definition dec_rel :: "byte list \<Rightarrow> (dec_state \<times> dec_state) set" where
  "dec_rel cstr = inv_image (less_than <*lex*> less_than <*lex*> less_than <*lex*> less_than)
     (\<lambda>s. (length cstr - toplevel s, if retpos s = 0 then 0 else 1 :: nat,
           7000 - length (ret s), 7 - depth s))"

lemma dec_turn_decreases:
  assumes "dec_turn cstr s = Go s'" and "crtpos s < length cstr"
  shows "(s', s) \<in> dec_rel cstr"
proof -
  define c where "c = cstr ! crtpos s"
  from assms(1) have body: "dec_body cstr s = Go s'" and lim: "depth s' \<le> 6" "length (ret s') \<le> 6150"
    by (auto simp: dec_turn_def dec_check_def NS_MAXDNSRCH_def NS_MAXDNAME_def split: dec_step.splits if_splits)
  consider "c AND NS_CMPRSFLGS = NS_CMPRSFLGS" | "c AND NS_CMPRSFLGS \<noteq> NS_CMPRSFLGS" "c \<noteq> 0"
    | "c AND NS_CMPRSFLGS \<noteq> NS_CMPRSFLGS" "c = 0" by blast
  then show ?thesis
  proof cases
    case 1
    with body assms(2) have "crtpos s + 2 \<le> length cstr"
      "retpos s' = (if retpos s = 0 then crtpos s + 2 else retpos s)" "depth s' = depth s + 1" "ret s' = ret s"
      by (auto simp: dec_body_def c_def Let_def split: if_splits)
    then show ?thesis using lim by (auto simp: dec_rel_def toplevel_def)
  next
    case 2
    then have "0 < unat c" by (simp add: unat_gt_0)
    from 2 body assms(2) have "crtpos s + unat c + 1 \<le> length cstr" "retpos s' = retpos s"
      "crtpos s' = crtpos s + (unat c + 1)" "length (ret s') = length (ret s) + unat c + 1"
      by (auto simp: dec_body_def c_def Let_def min_def split: if_splits)
    then show ?thesis using lim by (auto simp: dec_rel_def toplevel_def)
  next
    case 3
    with body assms(2) have "retpos s' = 0" "crtpos s' = (if retpos s = 0 then crtpos s + 1 else retpos s)"
      "length (ret s') = length (ret s)"
      by (auto simp: dec_body_def c_def Let_def NS_CMPRSFLGS_def split: if_splits)
    then show ?thesis using assms(2) by (auto simp: dec_rel_def toplevel_def)
  qed
qed

function dname_dec_loop :: "byte list \<Rightarrow> dec_state \<Rightarrow> dec_step" where
  "dname_dec_loop cstr s =
    (if crtpos s < length cstr then
       (case dec_turn cstr s of Go s' \<Rightarrow> dname_dec_loop cstr s' | r \<Rightarrow> r)
     else Go s)"
  by pat_completeness auto
termination
proof (relation "{((c', s'), (c, s)). c' = c \<and> (s', s) \<in> dec_rel c}", goal_cases)
  case 1
  let ?f = "\<lambda>(c :: byte list, s). (length c - toplevel s, if retpos s = 0 then 0 else 1 :: nat,
       7000 - length (ret s), 7 - depth s)"
  have "wf (inv_image (less_than <*lex*> less_than <*lex*> less_than <*lex*> less_than) ?f)"
    by (intro wf_inv_image wf_lex_prod wf_less_than)
  then show ?case by (rule wf_subset) (auto simp: dec_rel_def)
qed (auto simp: dec_turn_decreases)

declare dname_dec_loop.simps [simp del]

datatype decoded = Name cstr | Null | OutOfBounds

definition dname_dec :: "byte list \<Rightarrow> cstr \<Rightarrow> decoded" where
  "dname_dec cstr pre =
    (case dname_dec_loop cstr \<lparr>ret = pre, fin = 0, crtpos = 0, retpos = 0, depth = 0\<rparr> of
       Error \<Rightarrow> Null
     | Overrun \<Rightarrow> OutOfBounds
     | Go s \<Rightarrow> if fin s = 0 then Null else Name (take (fin s) (ret s)))"

subsection \<open>dname_enc\<close>

text \<open>\<open>res\<close> holds the finished labels with their length bytes, \<open>label\<close> the one being copied.\<close>

fun convert_loop :: "byte list \<Rightarrow> byte list \<Rightarrow> cstr \<Rightarrow> byte list option" where
  "convert_loop res label src =
    (let c = deref src; src' = tl src; len = length label in
     if src = [] \<or> c = CHR ''.'' then
       (if len > NS_MAXLABEL \<or> len = 0 then None
        else if src = [] \<or> src' = [] then Some (res @ of_nat len # label @ [0])
        else convert_loop (res @ of_nat len # label) [] src')
     else convert_loop res (label @ [uchar (bb_tolower c)]) src')"

declare convert_loop.simps [simp del]

definition convert_dname :: "cstr \<Rightarrow> byte list option" where
  "convert_dname src =
    (case convert_loop [] [] src of
       None \<Rightarrow> None
     | Some res \<Rightarrow> if length res > NS_MAXCDNAME then None else Some res)"

definition dname_enc :: "cstr \<Rightarrow> byte list option" where
  "dname_enc src = convert_dname src"

subsection \<open>What decoding promises\<close>

lemma dec_body_no_overrun: "crtpos s < length cstr \<Longrightarrow> dec_turn cstr s \<noteq> Overrun"
  by (auto simp: dec_turn_def dec_check_def dec_body_def Let_def split: if_splits dec_step.splits)

lemma dname_dec_loop_bound:
  assumes "length (ret s) \<le> 6150 \<or> crtpos s < length cstr"
  shows "dname_dec_loop cstr s \<noteq> Overrun \<and> (\<forall>s'. dname_dec_loop cstr s = Go s' \<longrightarrow> length (ret s') \<le> 6150)"
  using assms
proof (induction cstr s rule: dname_dec_loop.induct)
  case (1 cstr s)
  show ?case
  proof (cases "crtpos s < length cstr")
    case True
    show ?thesis
    proof (cases "dec_turn cstr s")
      case (Go s')
      then have "length (ret s') \<le> 6150"
        by (auto simp: dec_turn_def dec_check_def NS_MAXDNSRCH_def NS_MAXDNAME_def split: dec_step.splits if_splits)
      with 1 True Go show ?thesis by (subst (1 2) dname_dec_loop.simps) simp
    qed (use True dec_body_no_overrun in \<open>simp_all add: dname_dec_loop.simps [of cstr s]\<close>)
  next
    case False
    with 1 show ?thesis by (simp add: dname_dec_loop.simps [of cstr s])
  qed
qed


lemmas dec_eval = dname_dec_def dname_dec_loop.simps dec_turn_def dec_check_def dec_body_def Let_def
  NS_MAXDNSRCH_def NS_MAXDNAME_def NS_CMPRSFLGS_def


subsection \<open>Decoding what was encoded\<close>

definition enc_labels :: "cstr list \<Rightarrow> byte list" where
  "enc_labels ls = concat (map (\<lambda>l. of_nat (length l) # map uchar l) ls)"

definition dotted :: "cstr list \<Rightarrow> cstr" where
  "dotted ls = concat (map (\<lambda>l. l @ ''.'') ls)"

definition good_label :: "cstr \<Rightarrow> bool" where
  "good_label l \<longleftrightarrow> l \<noteq> [] \<and> length l \<le> NS_MAXLABEL"

lemma enc_labels_simps [simp]:
  "enc_labels [] = []" "enc_labels (l # ls) = of_nat (length l) # map uchar l @ enc_labels ls"
  by (simp_all add: enc_labels_def)

lemma dotted_simps [simp]: "dotted [] = []" "dotted (l # ls) = l @ CHR ''.'' # dotted ls"
  by (simp_all add: dotted_def)

lemma length_enc_labels: "length (enc_labels ls) = length (dotted ls)"
  by (induction ls) auto

definition closed :: "cstr \<Rightarrow> cstr" where
  "closed src = (if src \<noteq> [] \<and> last src = CHR ''.'' then src else src @ ''.'')"

lemma closed_Cons: "src \<noteq> [] \<Longrightarrow> closed (c # src) = c # closed src"
  by (simp add: closed_def)

lemma tolower_dot: "bb_tolower c = CHR ''.'' \<longleftrightarrow> c = CHR ''.''"
  by (simp flip: ord_eq_iff add: ord_tolower isupper_ord)

lemma convert_loop_labels:
  assumes "convert_loop res (map uchar label) src = Some out"
  shows "\<exists>ls. ls \<noteq> [] \<and> out = res @ enc_labels ls @ [0] \<and> (\<forall>l\<in>set ls. good_label l) \<and>
    dotted ls = label @ map bb_tolower (closed src)"
  using assms
proof (induction src arbitrary: res label)
  case Nil
  then show ?case
    by (intro exI [of _ "[label]"])
      (auto simp: convert_loop.simps [of _ _ "[]"] Let_def closed_def good_label_def bb_tolower_def split: if_splits)
next
  case (Cons c src)
  show ?case
  proof (cases "c = CHR ''.''")
    case True
    with Cons.prems have label: "good_label label"
      by (subst (asm) convert_loop.simps) (auto simp: good_label_def Let_def split: if_splits)
    show ?thesis
    proof (cases "src = []")
      case True
      with label \<open>c = _\<close> Cons.prems show ?thesis
        by (intro exI [of _ "[label]"])
          (auto simp: convert_loop.simps [of _ _ "''.''"] closed_def bb_tolower_def Let_def split: if_splits)
    next
      case False
      with label \<open>c = _\<close> Cons.prems
      have "convert_loop (res @ of_nat (length label) # map uchar label) (map uchar []) src = Some out"
        by (subst (asm) convert_loop.simps) (simp add: good_label_def Let_def)
      from Cons.IH [OF this] obtain ls where "out = (res @ of_nat (length label) # map uchar label) @ enc_labels ls @ [0]"
        "\<forall>l\<in>set ls. good_label l" "dotted ls = [] @ map bb_tolower (closed src)" by blast
      with label False \<open>c = _\<close> show ?thesis
        by (intro exI [of _ "label # ls"]) (simp add: closed_Cons bb_tolower_def)
    qed
  next
    case False
    with Cons.prems have *: "convert_loop res (map uchar (label @ [bb_tolower c])) src = Some out"
      by (subst (asm) convert_loop.simps) (simp add: Let_def)
    from Cons.IH [OF *] False show ?thesis
      by (cases src) (auto simp: closed_def bb_tolower_def)
  qed
qed

lemma small_label_byte:
  assumes "good_label l"
  shows "unat (of_nat (length l) :: byte) = length l" "(of_nat (length l) :: byte) AND NS_CMPRSFLGS \<noteq> NS_CMPRSFLGS"
    "(of_nat (length l) :: byte) \<noteq> 0"
proof -
  from assms have l: "length l < 64" "l \<noteq> []" by (auto simp: good_label_def NS_MAXLABEL_def)
  then show u: "unat (of_nat (length l) :: byte) = length l" by (simp add: unat_of_nat_small)
  from l u show "(of_nat (length l) :: byte) \<noteq> 0" by (metis length_0_conv unat_0)
  have "\<not> bit (length l) 7" using l by (simp add: bit_iff_odd)
  then have "\<not> bit (of_nat (length l) :: byte) 7" by (simp only: bit_of_nat_iff simp_thms)
  moreover have "bit (NS_CMPRSFLGS) 7" by (simp add: NS_CMPRSFLGS_def)
  ultimately show "(of_nat (length l) :: byte) AND NS_CMPRSFLGS \<noteq> NS_CMPRSFLGS"
    by (metis bit_and_iff)
qed

lemma dec_turn_label:
  assumes "crtpos s = length p" "good_label l" "depth s \<le> NS_MAXDNSRCH"
    "length (ret s) + length l < NS_MAXDNAME * NS_MAXDNSRCH"
  shows "dec_turn (p @ (of_nat (length l) # map uchar l) @ q) s =
    Go (s\<lparr>ret := ret s @ l @ ''.'', fin := length (ret s) + length l, crtpos := length p + (length l + 1)\<rparr>)"
  using assms small_label_byte [OF assms(2)]
  by (simp add: dec_turn_def dec_check_def dec_body_def nth_append Let_def comp_def)

lemma dec_turn_end:
  assumes "crtpos s = length p" "retpos s = 0" "ret s \<noteq> []" "depth s \<le> NS_MAXDNSRCH" "length (ret s) \<le> NS_MAXDNAME * NS_MAXDNSRCH"
  shows "dec_turn (p @ [0]) s = Go (s\<lparr>crtpos := length p + 1, ret := (ret s)[length (ret s) - 1 := CHR '' '']\<rparr>)"
  using assms by (simp add: dec_turn_def dec_check_def dec_body_def nth_append Let_def NS_CMPRSFLGS_def)

lemma dname_dec_loop_labels:
  assumes "cstr = p @ enc_labels ls @ [0]" "crtpos s = length p" "retpos s = 0" "depth s = 0"
    "\<forall>l\<in>set ls. good_label l" "length (ret s) + length (dotted ls) \<le> NS_MAXDNAME * NS_MAXDNSRCH"
    "ls = [] \<Longrightarrow> ret s \<noteq> [] \<and> fin s = length (ret s) - 1"
  shows "\<exists>s'. dname_dec_loop cstr s = Go s' \<and> fin s' = length (ret s @ dotted ls) - 1 \<and>
    take (fin s') (ret s') = butlast (ret s @ dotted ls)"
  using assms
proof (induction ls arbitrary: p s)
  case Nil
  have "dec_turn cstr s = Go (s\<lparr>crtpos := length p + 1, ret := (ret s)[length (ret s) - 1 := CHR '' '']\<rparr>)"
    using dec_turn_end [of s p] Nil by simp
  with Nil have "dname_dec_loop cstr s = Go (s\<lparr>crtpos := length p + 1, ret := (ret s)[length (ret s) - 1 := CHR '' '']\<rparr>)"
    by (subst dname_dec_loop.simps, simp, subst dname_dec_loop.simps, simp)
  with Nil show ?case by (simp add: butlast_conv_take)
next
  case (Cons l ls)
  let ?s = "s\<lparr>ret := ret s @ l @ ''.'', fin := length (ret s) + length l, crtpos := length p + (length l + 1)\<rparr>"
  from Cons.prems have "dec_turn cstr s = Go ?s"
    using dec_turn_label [of s p l "enc_labels ls @ [0]"] by simp
  with Cons.prems have step: "dname_dec_loop cstr s = dname_dec_loop cstr ?s"
    by (subst dname_dec_loop.simps) simp
  have "\<exists>s'. dname_dec_loop cstr ?s = Go s' \<and> fin s' = length (ret ?s @ dotted ls) - 1 \<and>
    take (fin s') (ret s') = butlast (ret ?s @ dotted ls)"
    by (rule Cons.IH [of "p @ of_nat (length l) # map uchar l"]) (use Cons.prems in auto)
  with step show ?case by simp
qed

text \<open>C32: Encoding and decoding agree: a name that \<^verbatim>\<open>dname_enc\<close> accepts is decoded from the bytes it wrote to
  the same name, in lower case and without the final dot, and the bytes fit the buffer of
  \<^verbatim>\<open>strlen(src) + 2\<close> bytes that was allocated for them.\<close>

theorem dname_roundtrip:
  assumes "wf_cstr src" and "dname_enc src = Some bs"
  shows "dname_dec bs [] = Name (map bb_tolower (if last src = CHR ''.'' then butlast src else src)) \<and>
    length bs \<le> length src + 2"
proof -
  from assms(2) have conv: "convert_loop [] (map uchar []) src = Some bs" and len: "length bs \<le> 255"
    by (auto simp: dname_enc_def convert_dname_def NS_MAXCDNAME_def split: option.splits if_splits)
  from convert_loop_labels [OF conv] obtain ls where
    ls: "ls \<noteq> []" "bs = enc_labels ls @ [0]" "\<forall>l\<in>set ls. good_label l" "dotted ls = map bb_tolower (closed src)"
    by auto
  from ls len length_enc_labels [of ls] have "length (dotted ls) \<le> 6150" by simp
  let ?s = "\<lparr>ret = [], fin = 0, crtpos = 0, retpos = 0, depth = 0\<rparr>"
  from dname_dec_loop_labels [of bs "[]" ls ?s] ls \<open>length (dotted ls) \<le> 6150\<close>
  obtain s' where s': "dname_dec_loop bs ?s = Go s'" "fin s' = length (dotted ls) - 1"
    "take (fin s') (ret s') = butlast (dotted ls)"
    by (auto simp: NS_MAXDNAME_def NS_MAXDNSRCH_def)
  have "src \<noteq> []" using conv by (auto simp: convert_loop.simps [of _ _ "[]"])
  have "length (dotted ls) \<ge> 2" using ls(1,3) by (cases ls) (auto simp: good_label_def neq_Nil_conv)
  with s' have "dname_dec bs [] = Name (butlast (dotted ls))" by (simp add: dname_dec_def)
  moreover have "butlast (dotted ls) = map bb_tolower (if last src = CHR ''.'' then butlast src else src)"
    using ls(4) \<open>src \<noteq> []\<close> by (simp add: closed_def map_butlast)
  moreover have "length bs \<le> length src + 2"
    using ls(2,4) length_enc_labels [of ls] by (simp add: closed_def split: if_splits)
  ultimately show ?thesis by simp
qed

theorem dname_roundtrip_witness:
  "dname_enc ''Host.com.'' = Some [4, 0x68, 0x6f, 0x73, 0x74, 3, 0x63, 0x6f, 0x6d, 0] \<and>
   dname_dec [4, 0x68, 0x6f, 0x73, 0x74, 3, 0x63, 0x6f, 0x6d, 0] [] = Name (map bb_tolower ''Host.com'')"
proof -
  have enc: "dname_enc ''Host.com.'' = Some [4, 0x68, 0x6f, 0x73, 0x74, 3, 0x63, 0x6f, 0x6d, 0]"
    by code_simp
  moreover have "wf_cstr ''Host.com.''" by simp
  ultimately show ?thesis using dname_roundtrip [OF _ enc] by simp
qed

end
