(* ===== verification/Udhcp_Optset.thy ===== *)
theory Udhcp_Optset
  imports Udhcp_Options Udhcp_Domain Libbb_Xfuncs
begin

text \<open>
  The option table and the configured options of \<^verbatim>\<open>networking/udhcp/common.c\<close>.  An \<^verbatim>\<open>option_set\<close> list is
  the list of the \<^verbatim>\<open>data\<close> arrays of its nodes, a pointer to a node its index.  \<^verbatim>\<open>dhcpv6\<close> selects the
  layout of the arrays: code and length of one byte, or of two.
\<close>

subsection \<open>The table of options\<close>

definition OPTION_IP :: byte where "OPTION_IP = 0"
definition OPTION_IP_PAIR :: byte where "OPTION_IP_PAIR = 1"
definition OPTION_STRING :: byte where "OPTION_STRING = 2"
definition OPTION_STRING_HOST :: byte where "OPTION_STRING_HOST = 3"
definition OPTION_U8 :: byte where "OPTION_U8 = 4"
definition OPTION_U16 :: byte where "OPTION_U16 = 5"
definition OPTION_U32 :: byte where "OPTION_U32 = 6"
definition OPTION_S32 :: byte where "OPTION_S32 = 7"
definition OPTION_BIN :: byte where "OPTION_BIN = 8"
definition OPTION_STATIC_ROUTES :: byte where "OPTION_STATIC_ROUTES = 9"
definition OPTION_6RD :: byte where "OPTION_6RD = 10"
definition OPTION_DNS_STRING :: byte where "OPTION_DNS_STRING = 11"
definition OPTION_SIP_SERVERS :: byte where "OPTION_SIP_SERVERS = 12"
definition OPTION_TYPE_MASK :: byte where "OPTION_TYPE_MASK = 0x0f"
definition OPTION_REQ :: byte where "OPTION_REQ = 0x10"
definition OPTION_LIST :: byte where "OPTION_LIST = 0x20"

lemmas option_consts = OPTION_IP_def OPTION_IP_PAIR_def OPTION_STRING_def OPTION_STRING_HOST_def OPTION_U8_def
  OPTION_U16_def OPTION_U32_def OPTION_S32_def OPTION_BIN_def OPTION_STATIC_ROUTES_def OPTION_6RD_def
  OPTION_DNS_STRING_def OPTION_SIP_SERVERS_def OPTION_TYPE_MASK_def OPTION_REQ_def OPTION_LIST_def

record dhcp_optflag =
  oflags :: byte
  ocode :: byte

definition optflag :: "byte \<Rightarrow> byte \<Rightarrow> dhcp_optflag" where
  "optflag f c = \<lparr>oflags = f, ocode = c\<rparr>"

definition dhcp_optflags :: "dhcp_optflag list" where
  "dhcp_optflags =
   [optflag (OPTION_IP OR OPTION_REQ) 0x01,
    optflag OPTION_S32 0x02,
    optflag (OPTION_IP OR OPTION_LIST OR OPTION_REQ) 0x03,
    optflag (OPTION_IP OR OPTION_LIST OR OPTION_REQ) 0x06,
    optflag (OPTION_IP OR OPTION_LIST) 0x09,
    optflag (OPTION_STRING_HOST OR OPTION_REQ) 0x0c,
    optflag OPTION_U16 0x0d,
    optflag (OPTION_STRING_HOST OR OPTION_REQ) 0x0f,
    optflag OPTION_IP 0x10,
    optflag OPTION_STRING 0x11,
    optflag OPTION_U8 0x17,
    optflag OPTION_U16 0x1a,
    optflag (OPTION_IP OR OPTION_REQ) 0x1c,
    optflag (OPTION_IP_PAIR OR OPTION_LIST) 0x21,
    optflag OPTION_STRING_HOST 0x28,
    optflag (OPTION_IP OR OPTION_LIST) 0x29,
    optflag (OPTION_IP OR OPTION_LIST OR OPTION_REQ) 0x2a,
    optflag (OPTION_IP OR OPTION_LIST) 0x2c,
    optflag OPTION_U32 0x33,
    optflag OPTION_IP 0x36,
    optflag OPTION_STRING 0x38,
    optflag OPTION_STRING 0x3c,
    optflag OPTION_STRING_HOST 0x42,
    optflag OPTION_STRING 0x43,
    optflag OPTION_STRING 0x64,
    optflag OPTION_STRING 0x65,
    optflag (OPTION_DNS_STRING OR OPTION_LIST) 0x77,
    optflag OPTION_SIP_SERVERS 0x78,
    optflag (OPTION_STATIC_ROUTES OR OPTION_LIST) 0x79,
    optflag OPTION_U16 0x84,
    optflag OPTION_U8 0x85,
    optflag OPTION_STRING 0xd1,
    optflag OPTION_STRING 0xd2,
    optflag OPTION_U32 0xd3,
    optflag OPTION_6RD 0xd4,
    optflag (OPTION_STATIC_ROUTES OR OPTION_LIST) 0xf9,
    optflag OPTION_STRING 0xfc,
    optflag OPTION_IP 0x32,
    optflag OPTION_U8 0x35,
    optflag OPTION_U16 0x39,
    optflag 0 0]"

text \<open>Indexed by the option type; the entry of \<open>OPTION_BIN\<close> is not initialised and so zero.\<close>

definition dhcp_option_lengths :: "nat list" where
  "dhcp_option_lengths = [4, 8, 1, 1, 1, 2, 4, 4, 0, 5, 12, 1, 1]"

subsection \<open>Adding an option of up to four bytes\<close>

text \<open>\<^verbatim>\<open>option[6]\<close> holds the code, the length and the four bytes of \<^verbatim>\<open>data\<close>, stored little-endian.\<close>

fun add_simple_loop :: "dhcp_packet \<Rightarrow> byte \<Rightarrow> u32 \<Rightarrow> dhcp_optflag list \<Rightarrow> dhcp_packet option" where
  "add_simple_loop packet code data [] = None"
| "add_simple_loop packet code data (dh # dhs) =
    (if ocode dh = 0 then Some packet
     else if ocode dh = code then
       let len = dhcp_option_lengths ! unat (oflags dh AND OPTION_TYPE_MASK)
       in udhcp_add_binary_option packet (code # of_nat len # store_le 4 data)
     else add_simple_loop packet code data dhs)"

definition udhcp_add_simple_option :: "dhcp_packet \<Rightarrow> byte \<Rightarrow> u32 \<Rightarrow> dhcp_packet option" where
  "udhcp_add_simple_option packet code data = add_simple_loop packet code data dhcp_optflags"

subsection \<open>Configured options\<close>

type_synonym option_set = "byte list list"

definition D6_OPT_CODE :: nat where "D6_OPT_CODE = 0"
definition D6_OPT_LEN :: nat where "D6_OPT_LEN = 2"
definition D6_OPT_DATA :: nat where "D6_OPT_DATA = 4"

fun udhcp_find_option :: "option_set \<Rightarrow> byte \<Rightarrow> bool \<Rightarrow> nat option" where
  "udhcp_find_option [] code dhcpv6 = None"
| "udhcp_find_option (d # ds) code dhcpv6 =
    (if dhcpv6 \<and> d ! D6_OPT_CODE \<noteq> 0 then None
     else
       let cur_code = (if dhcpv6 then d ! (D6_OPT_CODE + 1) else d ! OPT_CODE) in
       if cur_code \<ge> code then (if cur_code = code then Some 0 else None)
       else map_option Suc (udhcp_find_option ds code dhcpv6))"

text \<open>The position before which the new node goes.\<close>

fun insert_pos :: "option_set \<Rightarrow> u32 \<Rightarrow> nat" where
  "insert_pos [] code = 0"
| "insert_pos (d # ds) code = (if ucast (d ! OPT_CODE) < code then Suc (insert_pos ds code) else 0)"

definition udhcp_insert_new_option :: "option_set \<Rightarrow> u32 \<Rightarrow> u32 \<Rightarrow> bool \<Rightarrow> option_set \<times> nat" where
  "udhcp_insert_new_option opt_list code len dhcpv6 =
    (let new = (if \<not> dhcpv6 then [ucast code, ucast len] @ replicate (unat len) 0
                else [ucast (drop_bit 8 code), ucast (code AND 0xff), ucast (drop_bit 8 len), ucast (len AND 0xff)]
                  @ replicate (unat len) 0);
         n = insert_pos opt_list code
     in (take n opt_list @ new # drop n opt_list, n))"

text \<open>
  \<open>realloc\<close> keeps what fits; the bytes it adds are indeterminate in the code and zero here.
  \<open>buffer\<close> stands for the \<^verbatim>\<open>length\<close> bytes that are copied.
\<close>

definition realloc :: "byte list \<Rightarrow> nat \<Rightarrow> byte list" where
  "realloc bs n = take n bs @ replicate (n - length bs) 0"

definition append_to_existing :: "byte list \<Rightarrow> byte list \<Rightarrow> byte list" where
  "append_to_existing data buffer =
    (let old_len = unat (data ! OPT_LEN); len = length buffer in
     if old_len + len < 255 then
       (blit (realloc data (OPT_DATA + 1 + old_len + len)) (OPT_DATA + old_len) buffer)[OPT_LEN := of_nat (old_len + len)]
     else data)"

definition attach_bytes :: "option_set \<Rightarrow> dhcp_optflag \<Rightarrow> byte list \<Rightarrow> bool \<Rightarrow> option_set" where
  "attach_bytes opt_list flag buffer dhcpv6 =
    (case udhcp_find_option opt_list (ocode flag) dhcpv6 of
       None \<Rightarrow>
         let (os, n) = udhcp_insert_new_option opt_list (ucast (ocode flag)) (of_nat (length buffer)) dhcpv6
         in os[n := blit (os ! n) (if \<not> dhcpv6 then OPT_DATA else D6_OPT_DATA) buffer]
     | Some n \<Rightarrow>
         if oflags flag AND OPTION_LIST \<noteq> 0 then opt_list[n := append_to_existing (opt_list ! n) buffer]
         else opt_list)"

definition attach_option :: "option_set \<Rightarrow> dhcp_optflag \<Rightarrow> cstr \<Rightarrow> nat \<Rightarrow> bool \<Rightarrow> option_set outcome" where
  "attach_option opt_list flag buffer len dhcpv6 =
    (let type = oflags flag AND OPTION_TYPE_MASK in
     if type = OPTION_BIN then
       (case hex2bin buffer 255 of
          (bs, E0) \<Rightarrow> Inr (attach_bytes opt_list flag bs dhcpv6)
        | _ \<Rightarrow> Inl (DieMsg ''malformed hex string''))
     else if type = OPTION_DNS_STRING then
       (case dname_enc buffer of
          Some bs \<Rightarrow> Inr (attach_bytes opt_list flag bs dhcpv6)
        | None \<Rightarrow> Inr (attach_bytes opt_list flag [] dhcpv6))
     else Inr (attach_bytes opt_list flag (map uchar (take len buffer)) dhcpv6))"

subsection \<open>A set of options is a map from codes to data\<close>

definition opt_code :: "byte list \<Rightarrow> byte" where
  "opt_code d = d ! OPT_CODE"

definition opt_payload :: "byte list \<Rightarrow> byte list" where
  "opt_payload d = take (unat (d ! OPT_LEN)) (drop OPT_DATA d)"

definition wf_optset :: "option_set \<Rightarrow> bool" where
  "wf_optset os \<longleftrightarrow> sorted_wrt (\<lambda>d e. opt_code d < opt_code e) os \<and>
     (\<forall>d\<in>set os. OPT_DATA + unat (d ! OPT_LEN) \<le> length d)"

definition view :: "option_set \<Rightarrow> byte \<Rightarrow> byte list option" where
  "view os = map_of (map (\<lambda>d. (opt_code d, opt_payload d)) os)"

lemma view_simps [simp]:
  "view [] = Map.empty" "view (d # os) = (view os)(opt_code d \<mapsto> opt_payload d)"
  by (simp_all add: view_def)

lemma view_append: "view (xs @ ys) = view ys ++ view xs"
  by (simp add: view_def)

lemma view_None: "view os c = None \<longleftrightarrow> c \<notin> opt_code ` set os"
  by (simp add: view_def map_of_eq_None_iff image_image)

lemma ucast_less [simp]: "(ucast (x :: byte) < (ucast (y :: byte) :: u32)) \<longleftrightarrow> x < y"
  by (simp add: word_less_nat_alt unsigned_ucast_eq take_bit_nat_eq_self less_trans [OF unat_byte_less])

lemma find_option_sorted:
  assumes "sorted_wrt (\<lambda>d e. opt_code d < opt_code e) os"
  shows "case udhcp_find_option os c False of
      None \<Rightarrow> view os c = None
    | Some n \<Rightarrow> n < length os \<and> opt_code (os ! n) = c \<and> view os c = Some (opt_payload (os ! n))"
  using assms
proof (induction os)
  case (Cons d os)
  show ?case
  proof (cases "opt_code d < c")
    case True
    with Cons show ?thesis by (auto simp: opt_code_def Let_def split: option.splits)
  next
    case False
    with Cons.prems have "opt_code d = c \<or> c \<notin> opt_code ` set (d # os)" by auto
    with False show ?thesis by (auto simp: opt_code_def Let_def view_None)
  qed
qed simp

lemma insert_pos_takeWhile: "insert_pos os (ucast c) = length (takeWhile (\<lambda>d. opt_code d < c) os)"
  by (induction os) (auto simp: opt_code_def)

lemma ucast_ucast_byte [simp]: "ucast (ucast (c :: byte) :: u32) = c"
  by (rule bit_word_eqI) (simp add: bit_ucast_iff)

lemma insert_new_v4:
  "fst (udhcp_insert_new_option os (ucast c) len False) =
     takeWhile (\<lambda>d. opt_code d < c) os @ (c # ucast len # replicate (unat len) 0) # dropWhile (\<lambda>d. opt_code d < c) os"
  "snd (udhcp_insert_new_option os (ucast c) len False) = length (takeWhile (\<lambda>d. opt_code d < c) os)"
  by (simp_all add: udhcp_insert_new_option_def Let_def insert_pos_takeWhile takeWhile_eq_take [symmetric] dropWhile_eq_drop [symmetric])

lemma sorted_dropWhile:
  assumes "sorted_wrt (\<lambda>d e. opt_code d < opt_code e) os" "c \<notin> opt_code ` set os"
  shows "\<forall>d\<in>set (dropWhile (\<lambda>d. opt_code d < c) os). c < opt_code d"
  using assms
proof (induction os)
  case (Cons a os)
  then show ?case
    by (cases "opt_code a < c") (auto simp: not_less order.strict_iff_order dest: order.strict_trans1)
qed simp

lemma attach_new:
  assumes "wf_optset os" "view os (ocode flag) = None" "length bs \<le> 255"
  defines "c \<equiv> ocode flag"
  shows "attach_bytes os flag bs False =
    takeWhile (\<lambda>d. opt_code d < c) os @ (c # of_nat (length bs) # bs) # dropWhile (\<lambda>d. opt_code d < c) os"
proof -
  have "udhcp_find_option os c False = None"
    using find_option_sorted [of os c] assms by (auto simp: wf_optset_def split: option.splits)
  moreover have "unat (of_nat (length bs) :: u32) = length bs" using assms(3) by (simp add: unat_of_nat_small)
  moreover have "ucast (of_nat (length bs) :: u32) = (of_nat (length bs) :: byte)"
    by (rule bit_word_eqI) (simp add: bit_ucast_iff bit_of_nat_iff)
  ultimately show ?thesis
    using insert_new_v4 [of os c "of_nat (length bs)"] unfolding attach_bytes_def c_def [symmetric]
    by (simp add: case_prod_unfold blit_def OPT_DATA_def numeral_2_eq_2)
qed

lemma attach_existing:
  assumes "wf_optset os" "n < length os" "opt_code (os ! n) = ocode flag"
  shows "attach_bytes os flag bs False =
    (if oflags flag AND OPTION_LIST \<noteq> 0 then os[n := append_to_existing (os ! n) bs] else os)"
proof -
  have "view os (ocode flag) \<noteq> None" using assms(2,3) unfolding view_None by (metis imageI nth_mem)
  then obtain m where m: "udhcp_find_option os (ocode flag) False = Some m" "m < length os" "opt_code (os ! m) = ocode flag"
    using find_option_sorted [of os "ocode flag"] assms(1) by (auto simp: wf_optset_def split: option.splits)
  have "m < n \<Longrightarrow> opt_code (os ! m) < opt_code (os ! n)" "n < m \<Longrightarrow> opt_code (os ! n) < opt_code (os ! m)"
    using assms(1,2) m(2) by (simp_all add: wf_optset_def sorted_wrt_iff_nth_less)
  with assms(3) m(3) have "m = n" by (cases m n rule: linorder_cases) simp_all
  with m(1) show ?thesis by (simp add: attach_bytes_def)
qed

lemma append_to_existing_payload:
  assumes "OPT_DATA + unat (d ! OPT_LEN) \<le> length d"
  shows "opt_code (append_to_existing d bs) = opt_code d"
    "opt_payload (append_to_existing d bs) =
      (if length (opt_payload d) + length bs < 255 then opt_payload d @ bs else opt_payload d)"
    "OPT_DATA + unat (append_to_existing d bs ! OPT_LEN) \<le> length (append_to_existing d bs)"
proof -
  from assms obtain c l rest where d: "d = c # l # rest" and l: "unat l \<le> length rest"
    by (cases d; cases "tl d") (auto simp: OPT_DATA_def OPT_LEN_def)
  have old: "length (opt_payload d) = unat l" using l d by (simp add: opt_payload_def OPT_DATA_def OPT_LEN_def)
  let ?n = "unat l + length bs"
  have "opt_code (append_to_existing d bs) = opt_code d \<and> opt_payload (append_to_existing d bs) =
      (if length (opt_payload d) + length bs < 255 then opt_payload d @ bs else opt_payload d) \<and>
    OPT_DATA + unat (append_to_existing d bs ! OPT_LEN) \<le> length (append_to_existing d bs)"
  proof (cases "?n < 255")
    case True
    have "take (Suc (Suc (unat l))) (realloc d (3 + ?n)) = c # l # take (unat l) rest"
      using l d by (simp add: realloc_def min_def)
    moreover have "length (realloc d (3 + ?n)) = 3 + ?n" by (simp add: realloc_def)
    then have "length (drop (Suc (Suc ?n)) (realloc d (3 + ?n))) = Suc 0" by simp
    then obtain x where "drop (Suc (Suc ?n)) (realloc d (3 + ?n)) = [x]" unfolding length_Suc_conv by auto
    ultimately have "append_to_existing d bs = c # of_nat ?n # take (unat l) rest @ bs @ [x]"
      using True d by (simp add: append_to_existing_def Let_def OPT_LEN_def OPT_DATA_def blit_def add.assoc)
    moreover have "unat (of_nat ?n :: byte) = ?n" using True by (intro unat_of_nat_small) simp
    ultimately show ?thesis using True l d old by (simp add: opt_code_def opt_payload_def OPT_CODE_def OPT_LEN_def OPT_DATA_def)
  next
    case False
    then have "append_to_existing d bs = d" using d by (simp add: append_to_existing_def Let_def OPT_LEN_def)
    with False old assms show ?thesis by simp
  qed
  then show "opt_code (append_to_existing d bs) = opt_code d"
    "opt_payload (append_to_existing d bs) =
      (if length (opt_payload d) + length bs < 255 then opt_payload d @ bs else opt_payload d)"
    "OPT_DATA + unat (append_to_existing d bs ! OPT_LEN) \<le> length (append_to_existing d bs)" by auto
qed

definition attached :: "(byte \<Rightarrow> byte list option) \<Rightarrow> dhcp_optflag \<Rightarrow> byte list \<Rightarrow> byte \<Rightarrow> byte list option" where
  "attached m flag bs =
    (case m (ocode flag) of
       None \<Rightarrow> m(ocode flag \<mapsto> bs)
     | Some old \<Rightarrow>
         if oflags flag AND OPTION_LIST \<noteq> 0 \<and> length old + length bs < 255 then m(ocode flag \<mapsto> old @ bs) else m)"

lemma view_update:
  assumes "sorted_wrt (\<lambda>d e. opt_code d < opt_code e) os" "n < length os" "opt_code d = opt_code (os ! n)"
  shows "view (os[n := d]) = (view os)(opt_code d \<mapsto> opt_payload d)"
  using assms
proof (induction os arbitrary: n)
  case (Cons e os)
  show ?case
  proof (cases n)
    case 0
    with Cons.prems show ?thesis by (auto simp: fun_eq_iff)
  next
    case (Suc m)
    with Cons.prems have "opt_code e < opt_code d" by (auto dest: nth_mem)
    moreover have "view (os[m := d]) = (view os)(opt_code d \<mapsto> opt_payload d)"
      by (rule Cons.IH) (use Cons.prems Suc in auto)
    ultimately show ?thesis using Suc by (auto simp: fun_eq_iff)
  qed
qed simp

text \<open>C22: The options configured for a server form a map: \<^verbatim>\<open>attach_option\<close> keeps the list sorted by code without
  duplicates and its lengths right; a new code is inserted with its data, data for an option
  that is a list is appended as long as it stays below 255 bytes, anything else leaves the map as
  it is; and \<^verbatim>\<open>udhcp_find_option\<close> finds the code afterwards.\<close>

theorem attach_refines_map:
  assumes "wf_optset os" and "length bs \<le> 255"
  shows "wf_optset (attach_bytes os flag bs False) \<and>
    view (attach_bytes os flag bs False) = attached (view os) flag bs \<and>
    (\<exists>n. udhcp_find_option (attach_bytes os flag bs False) (ocode flag) False = Some n)"
proof -
  let ?c = "ocode flag" and ?os = "attach_bytes os flag bs False"
  from assms(1) have sorted: "sorted_wrt (\<lambda>d e. opt_code d < opt_code e) os" by (simp add: wf_optset_def)
  have "wf_optset ?os \<and> view ?os = attached (view os) flag bs"
  proof (cases "view os ?c")
    case None
    let ?l = "takeWhile (\<lambda>d. opt_code d < ?c) os" and ?r = "dropWhile (\<lambda>d. opt_code d < ?c) os"
    let ?new = "?c # of_nat (length bs) # bs"
    from None have absent: "?c \<notin> opt_code ` set os" by (simp add: view_None)
    have new: "opt_code ?new = ?c" "opt_payload ?new = bs" "OPT_DATA + unat (?new ! OPT_LEN) \<le> length ?new"
      using assms(2) by (simp_all add: opt_code_def opt_payload_def dhcp_consts unat_of_nat_small)
    have "sorted_wrt (\<lambda>d e. opt_code d < opt_code e) (?l @ ?r)" using sorted by simp
    with sorted_dropWhile [OF sorted absent] new(1)
    have "sorted_wrt (\<lambda>d e. opt_code d < opt_code e) (?l @ ?new # ?r)"
      unfolding sorted_wrt_append by (auto dest: set_takeWhileD)
    with new(3) assms(1) have "wf_optset ?os"
      unfolding attach_new [OF assms(1) None assms(2)] by (auto simp: wf_optset_def dest: set_takeWhileD set_dropWhileD)
    moreover have "view ?os = (view os)(?c \<mapsto> bs)"
    proof -
      have "view ?l ?c = None" using absent by (auto simp: view_None dest: set_takeWhileD)
      then have "(view ?r)(?c \<mapsto> bs) ++ view ?l = (view ?r ++ view ?l)(?c \<mapsto> bs)"
        by (auto simp: map_add_def fun_eq_iff split: option.splits)
      then show ?thesis
        unfolding attach_new [OF assms(1) None assms(2)] using new by (simp add: view_append flip: view_append [of ?l ?r])
    qed
    ultimately show ?thesis using None by (simp add: attached_def)
  next
    case (Some old)
    then obtain n where n: "n < length os" "opt_code (os ! n) = ?c" "old = opt_payload (os ! n)"
      using find_option_sorted [OF sorted, of ?c] by (auto split: option.splits)
    let ?d = "append_to_existing (os ! n) bs"
    have "OPT_DATA + unat (os ! n ! OPT_LEN) \<le> length (os ! n)" using assms(1) n(1) by (simp add: wf_optset_def)
    note d = append_to_existing_payload [OF this, of bs]
    have "wf_optset (os[n := ?d])"
      using assms(1) n(1) d(1,3)
      by (auto simp: wf_optset_def sorted_wrt_iff_nth_less nth_list_update dest!: subsetD [OF set_update_subset_insert])
    moreover have "view (os[n := ?d]) = (view os)(?c \<mapsto> opt_payload ?d)"
      using view_update [OF sorted n(1), of ?d] d(1) n(2) by simp
    ultimately show ?thesis
      unfolding attach_existing [OF assms(1) n(1,2)] using assms(1) Some n d(2) by (auto simp: attached_def)
  qed
  moreover have "attached (view os) flag bs ?c \<noteq> None" by (auto simp: attached_def split: option.splits)
  ultimately show ?thesis
    using find_option_sorted [of ?os ?c] by (auto simp: wf_optset_def split: option.splits)
qed

theorem attach_refines_map_witness:
  "view (attach_bytes [] (optflag 0x23 3) [10, 0, 0, 1] False) 3 = Some [10, 0, 0, 1] \<and>
   view (attach_bytes (attach_bytes [] (optflag 0x23 3) [10, 0, 0, 1] False) (optflag 0x23 3) [10, 0, 0, 2] False) 3
     = Some [10, 0, 0, 1, 10, 0, 0, 2]"
proof -
  have "wf_optset []" by (simp add: wf_optset_def)
  from attach_refines_map [OF this, of "[10, 0, 0, 1]" "optflag 0x23 3"]
  have 1: "wf_optset (attach_bytes [] (optflag 0x23 3) [10, 0, 0, 1] False)"
    "view (attach_bytes [] (optflag 0x23 3) [10, 0, 0, 1] False) 3 = Some [10, 0, 0, 1]"
    by (simp_all add: attached_def optflag_def)
  from attach_refines_map [OF 1(1), of "[10, 0, 0, 2]" "optflag 0x23 3"] 1(2)
  show ?thesis by (simp add: attached_def optflag_def OPTION_LIST_def)
qed

lemmas attach_evals = attach_bytes_def udhcp_insert_new_option_def append_to_existing_def realloc_def blit_def Let_def
  D6_OPT_CODE_def D6_OPT_DATA_def OPT_CODE_def OPT_LEN_def OPT_DATA_def OPTION_LIST_def


end
