(* ===== verification/Udhcp_Leases.thy ===== *)
theory Udhcp_Leases
  imports Libbb_Str Udhcp_Optset
begin

text \<open>
  The lease table of the DHCP server, \<^verbatim>\<open>networking/udhcp/dhcpd.c\<close>.  \<^verbatim>\<open>g_leases\<close> is a list of
  \<^verbatim>\<open>max_leases\<close> entries and a \<^verbatim>\<open>struct dyn_lease *\<close> an index into it, so that an entry overwritten
  behind a pointer is seen.  What the server asks of its surroundings is a \<open>world\<close>: the
  \<^verbatim>\<open>n\<close>-th question is answered by the clock (\<^verbatim>\<open>time(NULL)\<close> cut to 32 bits) or by \<^verbatim>\<open>arpping\<close>, which is true
  when nobody answered the probe.
\<close>

subsection \<open>State\<close>

record dyn_lease =
  expires :: u32
  lease_nip :: u32
  lease_mac :: "byte list"
  hostname :: "char list"

definition zero_lease :: dyn_lease where
  "zero_lease = \<lparr>expires = 0, lease_nip = 0, lease_mac = replicate 6 0, hostname = replicate 20 NUL\<rparr>"

record static_lease =
  st_nip :: u32
  st_mac :: "byte list"
  st_opt :: "byte list"

record server_data =
  server_nip :: u32
  srv_options :: option_set
  start_ip :: u32
  end_ip :: u32
  max_lease_sec :: u32
  min_lease_sec :: u32
  decline_time :: u32
  conflict_time :: u32
  offer_time :: u32
  srv_siaddr_nip :: u32
  srv_sname :: "cstr option"
  boot_file :: "cstr option"
  static_leases :: "static_lease list"

record server =
  g_leases :: "dyn_lease list"
  tick :: nat

record world =
  time_of :: "nat \<Rightarrow> u64"
  arpping :: "nat \<Rightarrow> u32 \<Rightarrow> byte list \<Rightarrow> bool"

definition clock :: "world \<Rightarrow> nat \<Rightarrow> u32" where
  "clock w n = ucast (time_of w n)"

definition get_time :: "world \<Rightarrow> server \<Rightarrow> u32 \<times> server" where
  "get_time w s = (clock w (tick s), s\<lparr>tick := tick s + 1\<rparr>)"

subsection \<open>Static leases\<close>

text \<open>\<open>st_opt\<close> is the host name option, and a zero byte when there is none.\<close>

definition add_static_lease :: "static_lease list \<Rightarrow> byte list \<Rightarrow> u32 \<Rightarrow> cstr option \<Rightarrow> static_lease list" where
  "add_static_lease st_leases mac nip opts =
     st_leases @ [\<lparr>st_nip = nip, st_mac = take 6 mac,
       st_opt = (case opts of
           None \<Rightarrow> [0]
         | Some h \<Rightarrow> let name = map uchar (take 120 h) in [DHCP_HOST_NAME, of_nat (length name)] @ name @ [0])\<rparr>]"

fun get_static_nip_by_mac :: "static_lease list \<Rightarrow> byte list \<Rightarrow> u32" where
  "get_static_nip_by_mac [] mac = 0"
| "get_static_nip_by_mac (st_lease # ls) mac =
    (if st_mac st_lease = take 6 mac then st_nip st_lease else get_static_nip_by_mac ls mac)"

fun is_nip_reserved_as_static :: "static_lease list \<Rightarrow> u32 \<Rightarrow> bool" where
  "is_nip_reserved_as_static [] nip = False"
| "is_nip_reserved_as_static (st_lease # ls) nip =
    (if st_nip st_lease = nip then True else is_nip_reserved_as_static ls nip)"

subsection \<open>Dynamic leases\<close>

fun oldest_loop :: "dyn_lease list \<Rightarrow> nat \<Rightarrow> u32 \<Rightarrow> nat option \<Rightarrow> nat option" where
  "oldest_loop [] i oldest_time oldest_lease = oldest_lease"
| "oldest_loop (l # ls) i oldest_time oldest_lease =
    (if expires l = 0 \<or> expires l < oldest_time then oldest_loop ls (i + 1) (expires l) (Some i)
     else oldest_loop ls (i + 1) oldest_time oldest_lease)"

definition oldest_expired_lease :: "world \<Rightarrow> server \<Rightarrow> nat option \<times> server" where
  "oldest_expired_lease w s = (let (t, s) = get_time w s in (oldest_loop (g_leases s) 0 t None, s))"

text \<open>\<open>mac\<close> and \<open>nip\<close> are the arguments \<^verbatim>\<open>chaddr\<close>, \<open>None\<close> when null, and \<^verbatim>\<open>yiaddr\<close>.\<close>

definition clears :: "byte list option \<Rightarrow> u32 \<Rightarrow> dyn_lease \<Rightarrow> bool" where
  "clears mac nip l \<longleftrightarrow>
     (case mac of None \<Rightarrow> False | Some m \<Rightarrow> lease_mac l = take 6 m) \<or> (nip \<noteq> 0 \<and> lease_nip l = nip)"

definition clear_leases :: "byte list option \<Rightarrow> u32 \<Rightarrow> server \<Rightarrow> server" where
  "clear_leases mac nip s =
     s\<lparr>g_leases := map (\<lambda>l. if clears mac nip l then zero_lease else l) (g_leases s)\<rparr>"

definition sanitize_char :: "char \<Rightarrow> char" where
  "sanitize_char c = (if \<not> isalnum c \<and> c \<noteq> CHR ''-'' \<and> c \<noteq> CHR ''_'' then CHR ''.'' else c)"

fun sanitize_loop :: "char list \<Rightarrow> char list" where
  "sanitize_loop [] = []"
| "sanitize_loop (c # p) = (if c = NUL then c # p else sanitize_char c # sanitize_loop p)"

text \<open>\<open>name\<close> is the memory from the pointer on; \<^verbatim>\<open>strncpy\<close> reads it up to a NUL.\<close>

definition store_hostname :: "char list \<Rightarrow> nat \<Rightarrow> char list" where
  "store_hostname name hostname_len =
    (let n = min (hostname_len + 1) 20;
         p = safe_strncpy (replicate 20 NUL) (takeWhile (\<lambda>c. c \<noteq> NUL) name) n;
         p = (if deref p = CHR ''-'' then p[0 := CHR ''.''] else p)
     in sanitize_loop p)"

definition fresh_lease :: "byte list option \<Rightarrow> u32 \<Rightarrow> char list option \<Rightarrow> nat \<Rightarrow> u32 \<Rightarrow> dyn_lease" where
  "fresh_lease mac nip name hostname_len deadline =
    (let l = zero_lease;
         l = (case name of None \<Rightarrow> l | Some h \<Rightarrow> l\<lparr>hostname := store_hostname h hostname_len\<rparr>);
         l = (case mac of None \<Rightarrow> l | Some m \<Rightarrow> l\<lparr>lease_mac := take 6 m\<rparr>)
     in l\<lparr>lease_nip := nip, expires := deadline\<rparr>)"

definition add_lease :: "world \<Rightarrow> byte list option \<Rightarrow> u32 \<Rightarrow> u32 \<Rightarrow> char list option \<Rightarrow> nat \<Rightarrow> server \<Rightarrow> nat option \<times> server" where
  "add_lease w mac nip leasetime name hostname_len s =
    (let s = clear_leases mac nip s; (oldest, s) = oldest_expired_lease w s in
     case oldest of
       None \<Rightarrow> (None, s)
     | Some i \<Rightarrow>
         let (t, s) = get_time w s
         in (Some i, s\<lparr>g_leases := (g_leases s)[i := fresh_lease mac nip name hostname_len (t + leasetime)]\<rparr>))"

lemma fresh_lease_simps [simp]:
  "lease_nip (fresh_lease mac nip name n t) = nip" "expires (fresh_lease mac nip name n t) = t"
  "lease_mac (fresh_lease mac nip name n t) = (case mac of None \<Rightarrow> replicate 6 0 | Some m \<Rightarrow> take 6 m)"
  by (auto simp: fresh_lease_def zero_lease_def Let_def split: option.splits)

definition is_expired_lease :: "world \<Rightarrow> dyn_lease \<Rightarrow> server \<Rightarrow> bool \<times> server" where
  "is_expired_lease w lease s = (let (t, s) = get_time w s in (expires lease < t, s))"

fun find_index :: "('a \<Rightarrow> bool) \<Rightarrow> 'a list \<Rightarrow> nat option" where
  "find_index P [] = None"
| "find_index P (x # xs) = (if P x then Some 0 else map_option Suc (find_index P xs))"

definition find_lease_by_mac :: "byte list \<Rightarrow> server \<Rightarrow> nat option" where
  "find_lease_by_mac mac s = find_index (\<lambda>l. lease_mac l = take 6 mac) (g_leases s)"

definition find_lease_by_nip :: "u32 \<Rightarrow> server \<Rightarrow> nat option" where
  "find_lease_by_nip nip s = find_index (\<lambda>l. lease_nip l = nip) (g_leases s)"

definition nobody_responds_to_arp :: "world \<Rightarrow> server_data \<Rightarrow> u32 \<Rightarrow> byte list \<Rightarrow> server \<Rightarrow> bool \<times> server" where
  "nobody_responds_to_arp w d nip safe_mac s =
    (let r = arpping w (tick s) nip safe_mac; s = s\<lparr>tick := tick s + 1\<rparr> in
     if r then (True, s) else (False, snd (add_lease w None nip (conflict_time d) None 0 s)))"

subsection \<open>Choosing an address\<close>

text \<open>One turn of the loop: an address to return, or the pointer \<^verbatim>\<open>oldest_lease\<close> for the next turn.\<close>

definition find_turn :: "world \<Rightarrow> server_data \<Rightarrow> byte list \<Rightarrow> u32 \<Rightarrow> nat option \<Rightarrow> server \<Rightarrow> u32 option \<times> nat option \<times> server" where
  "find_turn w d safe_mac addr oldest s =
    (let nip = bswap32 addr in
     if nip = server_nip d \<or> is_nip_reserved_as_static (static_leases d) nip then (None, oldest, s)
     else case find_lease_by_nip nip s of
       None \<Rightarrow>
         let (r, s) = nobody_responds_to_arp w d nip safe_mac s
         in (if r then Some nip else None, oldest, s)
     | Some i \<Rightarrow>
         (None,
          (case oldest of
             None \<Rightarrow> Some i
           | Some k \<Rightarrow> if expires (g_leases s ! i) < expires (g_leases s ! k) then Some i else Some k),
          s))"

definition find_last :: "world \<Rightarrow> server_data \<Rightarrow> byte list \<Rightarrow> nat option \<Rightarrow> server \<Rightarrow> u32 \<times> server" where
  "find_last w d safe_mac oldest s =
    (case oldest of
       None \<Rightarrow> (0, s)
     | Some k \<Rightarrow>
         let (expired, s) = is_expired_lease w (g_leases s ! k) s in
         if \<not> expired then (0, s)
         else let (r, s) = nobody_responds_to_arp w d (lease_nip (g_leases s ! k)) safe_mac s
              in if r then (lease_nip (g_leases s ! k), s) else (0, s))"

text \<open>\<^verbatim>\<open>stop\<close> is \<^verbatim>\<open>end_ip + 1\<close>, and \<^verbatim>\<open>addr\<close> runs up to it, modulo 2^32.\<close>

lemma closer:
  fixes a b :: u32
  assumes "b \<noteq> a"
  shows "unat (b - (a + 1)) < unat (b - a)"
proof -
  have n: "b - a \<noteq> 0" using assms by simp
  have "b - (a + 1) = b - a - 1" by simp
  then have "unat (b - (a + 1)) = unat (b - a) - 1" using unat_pred [OF n] by (simp only:)
  moreover have "0 < unat (b - a)" using n by (simp only: unat_gt_0 not_False_eq_True)
  ultimately show ?thesis by linarith
qed

function find_loop :: "world \<Rightarrow> server_data \<Rightarrow> byte list \<Rightarrow> u32 \<Rightarrow> nat option \<Rightarrow> server \<Rightarrow> u32 \<times> server" where
  "find_loop w d safe_mac addr oldest s =
    (case find_turn w d safe_mac addr oldest s of
       (Some nip, _, s') \<Rightarrow> (nip, s')
     | (None, oldest', s') \<Rightarrow>
         if addr + 1 \<noteq> end_ip d + 1 then find_loop w d safe_mac (addr + 1) oldest' s'
         else find_last w d safe_mac oldest' s')"
  by pat_completeness auto
termination
  by (relation "measure (\<lambda>(w, d, m, addr, p, s). unat (end_ip d - addr))") (simp_all add: closer)

declare find_loop.simps [simp del]

definition find_free_or_expired_nip :: "world \<Rightarrow> server_data \<Rightarrow> byte list \<Rightarrow> server \<Rightarrow> u32 \<times> server" where
  "find_free_or_expired_nip w d safe_mac s = find_loop w d safe_mac (start_ip d) None s"

subsection \<open>What an added lease does to the table\<close>

lemma oldest_loop_Some:
  "oldest_loop ls i t p = Some k \<Longrightarrow>
     p = Some k \<or> (i \<le> k \<and> k < i + length ls \<and> (expires (ls ! (k - i)) = 0 \<or> expires (ls ! (k - i)) < t))"
proof (induction ls arbitrary: i t p)
  case (Cons l ls)
  show ?case
  proof (cases "expires l = 0 \<or> expires l < t")
    case True
    then have below: "e < expires l \<Longrightarrow> e < t" for e by (elim disjE) (simp, rule less_trans)
    from True Cons.prems have "oldest_loop ls (i + 1) (expires l) (Some i) = Some k" by simp
    from Cons.IH [OF this] show ?thesis
    proof
      assume "Some i = Some k"
      with True show ?thesis by simp
    next
      assume "i + 1 \<le> k \<and> k < i + 1 + length ls \<and> (expires (ls ! (k - (i + 1))) = 0 \<or> expires (ls ! (k - (i + 1))) < expires l)"
      moreover from this have "k - i = Suc (k - (i + 1))" by linarith
      ultimately show ?thesis by (simp add: nth_Cons) (blast intro: below)
    qed
  next
    case False
    with Cons.prems have "oldest_loop ls (i + 1) t p = Some k" by simp
    from Cons.IH [OF this] show ?thesis
    proof
      assume "i + 1 \<le> k \<and> k < i + 1 + length ls \<and> (expires (ls ! (k - (i + 1))) = 0 \<or> expires (ls ! (k - (i + 1))) < t)"
      moreover from this have "k - i = Suc (k - (i + 1))" by linarith
      ultimately show ?thesis by simp
    qed simp
  qed
qed simp

lemma oldest_loop_None: "oldest_loop ls i t p = None \<Longrightarrow> p = None \<and> (\<forall>l\<in>set ls. expires l \<noteq> 0 \<and> t \<le> expires l)"
proof (induction ls arbitrary: i t p)
  case (Cons l ls)
  have live: "\<not> (expires l = 0 \<or> expires l < t)"
  proof
    assume "expires l = 0 \<or> expires l < t"
    with Cons.prems have "oldest_loop ls (i + 1) (expires l) (Some i) = None" by simp
    from Cons.IH [OF this] show False by simp
  qed
  with Cons.prems have "oldest_loop ls (i + 1) t p = None" by simp
  from Cons.IH [OF this] live show ?case by (simp add: not_less)
qed simp

definition cleared :: "byte list option \<Rightarrow> u32 \<Rightarrow> dyn_lease list \<Rightarrow> dyn_lease list" where
  "cleared mac nip ls = map (\<lambda>l. if clears mac nip l then zero_lease else l) ls"

lemma length_cleared [simp]: "length (cleared mac nip ls) = length ls"
  by (simp add: cleared_def)

lemma nth_cleared: "i < length ls \<Longrightarrow> cleared mac nip ls ! i = (if clears mac nip (ls ! i) then zero_lease else ls ! i)"
  by (simp add: cleared_def)

text \<open>The two outcomes: no room, or the entry \<open>i\<close>, which was free or expired, is replaced.\<close>

lemma add_lease_cases:
  assumes "add_lease w mac nip leasetime name namelen s = (r, s')"
  obtains (full) "r = None" "g_leases s' = cleared mac nip (g_leases s)" "tick s' = tick s + 1"
      "\<forall>l\<in>set (cleared mac nip (g_leases s)). expires l \<noteq> 0 \<and> clock w (tick s) \<le> expires l"
  | (stored) i where "r = Some i" "i < length (g_leases s)" "tick s' = tick s + 2"
      "g_leases s' = (cleared mac nip (g_leases s))[i := fresh_lease mac nip name namelen (clock w (tick s + 1) + leasetime)]"
      "expires (cleared mac nip (g_leases s) ! i) = 0 \<or> expires (cleared mac nip (g_leases s) ! i) < clock w (tick s)"
proof (cases "oldest_loop (cleared mac nip (g_leases s)) 0 (clock w (tick s)) None")
  case None
  with assms oldest_loop_None [OF None] show ?thesis
    by (intro full) (auto simp: add_lease_def oldest_expired_lease_def clear_leases_def cleared_def get_time_def)
next
  case (Some i)
  from oldest_loop_Some [OF Some] have "i < length (g_leases s)"
    "expires (cleared mac nip (g_leases s) ! i) = 0 \<or> expires (cleared mac nip (g_leases s) ! i) < clock w (tick s)"
    by auto
  with assms Some show ?thesis
    by (intro stored)
      (auto simp: add_lease_def oldest_expired_lease_def clear_leases_def cleared_def get_time_def)
qed

subsection \<open>No address is leased twice\<close>

definition unique_nips :: "dyn_lease list \<Rightarrow> bool" where
  "unique_nips ls \<longleftrightarrow> (\<forall>i<length ls. \<forall>j<length ls.
     lease_nip (ls ! i) = lease_nip (ls ! j) \<longrightarrow> lease_nip (ls ! i) \<noteq> 0 \<longrightarrow> i = j)"

lemma unique_nipsD:
  "unique_nips ls \<Longrightarrow> i < length ls \<Longrightarrow> j < length ls \<Longrightarrow> lease_nip (ls ! i) = lease_nip (ls ! j) \<Longrightarrow>
    lease_nip (ls ! i) \<noteq> 0 \<Longrightarrow> i = j"
  by (auto simp: unique_nips_def)

lemma zero_lease_nip [simp]: "lease_nip zero_lease = 0" "expires zero_lease = 0"
  by (simp_all add: zero_lease_def)

lemma nip_cleared:
  "i < length ls \<Longrightarrow> lease_nip (cleared mac nip ls ! i) = (if clears mac nip (ls ! i) then 0 else lease_nip (ls ! i))"
  by (simp add: nth_cleared)

lemma unique_cleared: "unique_nips ls \<Longrightarrow> unique_nips (cleared mac nip ls)"
  unfolding unique_nips_def by (auto simp: nip_cleared split: if_splits)

lemma not_cleared: "i < length ls \<Longrightarrow> nip \<noteq> 0 \<Longrightarrow> lease_nip (cleared mac nip ls ! i) \<noteq> nip"
  by (auto simp: nip_cleared clears_def)

text \<open>The entry of an index after \<open>add_lease\<close>.\<close>

lemma nth_stored:
  "j < length ls \<Longrightarrow> (cleared mac nip ls)[i := l] ! j = (if j = i then l else cleared mac nip ls ! j)"
  by (cases "i < length ls") (auto simp: nth_list_update list_update_beyond)

lemma unique_stored:
  assumes "unique_nips ls" "lease_nip l = nip"
  shows "unique_nips ((cleared mac nip ls)[i := l])"
  unfolding unique_nips_def
proof (intro allI impI, goal_cases)
  case (1 j k)
  then have jk: "j < length ls" "k < length ls" by simp_all
  consider "j = i" "k = i" | "j = i" "k \<noteq> i" | "j \<noteq> i" "k = i" | "j \<noteq> i" "k \<noteq> i" by blast
  then show ?case
  proof cases
    case 4
    with 1 jk unique_cleared [OF assms(1), of mac nip] show ?thesis by (auto simp: nth_stored dest: unique_nipsD)
  qed (use 1 jk assms(2) not_cleared [of j ls nip mac] not_cleared [of k ls nip mac] in \<open>auto simp: nth_stored\<close>)
qed

lemma add_lease_unique [inv_intros]:
  assumes "unique_nips (g_leases s)"
  shows "unique_nips (g_leases (snd (add_lease w mac nip leasetime name namelen s)))"
proof -
  obtain r s' where add: "add_lease w mac nip leasetime name namelen s = (r, s')" by fastforce
  show ?thesis using add assms by (cases rule: add_lease_cases) (simp_all add: add unique_cleared unique_stored)
qed

lemma add_lease_length [simp]: "length (g_leases (snd (add_lease w mac nip leasetime name namelen s))) = length (g_leases s)"
proof -
  obtain r s' where add: "add_lease w mac nip leasetime name namelen s = (r, s')" by fastforce
  show ?thesis using add by (cases rule: add_lease_cases) (simp_all add: add)
qed



subsection \<open>The address that is chosen\<close>

lemma bswap32_involution [simp]: "bswap32 (bswap32 x) = x"
proof -
  have "store_le 4 (load_le (rev (store_le 4 x)) :: u32) = rev (store_le 4 x)" by (rule store_load_le) simp_all
  then show ?thesis by (simp add: bswap32_def load_store_le)
qed

definition assignable :: "server_data \<Rightarrow> u32 \<Rightarrow> bool" where
  "assignable d nip \<longleftrightarrow> start_ip d \<le> bswap32 nip \<and> bswap32 nip \<le> end_ip d \<and> nip \<noteq> server_nip d \<and>
     \<not> is_nip_reserved_as_static (static_leases d) nip"

lemma find_index_Some: "find_index P xs = Some i \<Longrightarrow> i < length xs \<and> P (xs ! i)"
  by (induction xs arbitrary: i) (auto split: if_splits)

lemma find_index_None: "find_index P xs = None \<longleftrightarrow> (\<forall>x\<in>set xs. \<not> P x)"
  by (induction xs) auto

text \<open>What holds at every turn: the table has no duplicates and \<^verbatim>\<open>oldest_lease\<close> points at an assignable address.\<close>

definition find_inv :: "server_data \<Rightarrow> nat option \<Rightarrow> server \<Rightarrow> bool" where
  "find_inv d oldest s \<longleftrightarrow> unique_nips (g_leases s) \<and>
     (\<forall>k. oldest = Some k \<longrightarrow> k < length (g_leases s) \<and> assignable d (lease_nip (g_leases s ! k)))"

lemma conflict_lease:
  assumes "unique_nips (g_leases s)" "\<forall>l\<in>set (g_leases s). lease_nip l \<noteq> nip" "assignable d nip"
    and "k < length (g_leases s)" "assignable d (lease_nip (g_leases s ! k))"
    and "s' = snd (add_lease w None nip t None 0 s)"
  shows "assignable d (lease_nip (g_leases s' ! k))"
proof -
  obtain r where add: "add_lease w None nip t None 0 s = (r, s')" using assms(6) by (metis prod.collapse)
  have "cleared None nip (g_leases s) = g_leases s"
    using assms(2) by (auto simp: cleared_def clears_def intro!: map_idI)
  with add assms show ?thesis by (cases rule: add_lease_cases) (auto simp: nth_list_update)
qed

lemma find_turn_inv:
  assumes "find_turn w d m addr oldest s = (r, oldest', s')" "find_inv d oldest s" "start_ip d \<le> addr" "addr \<le> end_ip d"
  shows "find_inv d oldest' s' \<and> tick s \<le> tick s' \<and>
    (\<forall>nip. r = Some nip \<longrightarrow> assignable d nip \<and> arpping w (tick s) nip m \<and> tick s < tick s' \<and> (\<forall>l\<in>set (g_leases s'). lease_nip l \<noteq> nip))"
proof -
  let ?nip = "bswap32 addr"
  show ?thesis
  proof (cases "?nip = server_nip d \<or> is_nip_reserved_as_static (static_leases d) ?nip")
    case True
    with assms show ?thesis by (auto simp: find_turn_def Let_def)
  next
    case False
    with assms(3,4) have ok: "assignable d ?nip" by (simp add: assignable_def)
    show ?thesis
    proof (cases "find_lease_by_nip ?nip s")
      case None
      then have free: "\<forall>l\<in>set (g_leases s). lease_nip l \<noteq> ?nip" by (simp add: find_lease_by_nip_def find_index_None)
      show ?thesis
      proof (cases "arpping w (tick s) ?nip m")
        case True
        with assms(1) None False have "r = Some ?nip" "oldest' = oldest" "s' = s\<lparr>tick := tick s + 1\<rparr>"
          by (simp_all add: find_turn_def nobody_responds_to_arp_def Let_def)
        with True ok free assms(2) show ?thesis by (simp add: find_inv_def)
      next
        case arp: False
        let ?s = "s\<lparr>tick := tick s + 1\<rparr>"
        from arp assms(1) None False have s': "r = None" "oldest' = oldest" "s' = snd (add_lease w None ?nip (conflict_time d) None 0 ?s)"
          by (simp_all add: find_turn_def nobody_responds_to_arp_def Let_def)
        obtain r' where add: "add_lease w None ?nip (conflict_time d) None 0 ?s = (r', s')" using s'(3) by (metis prod.collapse)
        then have "tick s \<le> tick s'" by (cases rule: add_lease_cases) simp_all
        moreover have "find_inv d oldest s'"
          using assms(2) free ok conflict_lease [of ?s ?nip d _ s' w "conflict_time d"] s'(3) add_lease_unique [of ?s]
          by (auto simp: find_inv_def)
        ultimately show ?thesis using s' by simp
      qed
    next
      case (Some i)
      then have i: "i < length (g_leases s)" "lease_nip (g_leases s ! i) = ?nip"
        by (auto simp: find_lease_by_nip_def dest: find_index_Some)
      from Some False assms(1) have "r = None" "s' = s" "oldest' = Some i \<or> oldest' = oldest"
        by (auto simp: find_turn_def Let_def split: option.splits)
      with i ok assms(2) show ?thesis by (auto simp: find_inv_def)
    qed
  qed
qed

definition chosen_ok :: "world \<Rightarrow> server_data \<Rightarrow> byte list \<Rightarrow> u32 \<times> server \<Rightarrow> bool" where
  "chosen_ok w d m r = (case r of (nip, s') \<Rightarrow> nip = 0 \<or>
     (assignable d nip \<and> (\<exists>t<tick s'. arpping w t nip m) \<and>
      (\<forall>l\<in>set (g_leases s'). lease_nip l = nip \<longrightarrow> (\<exists>t<tick s'. expires l < clock w t))))"

lemma find_last_ok:
  assumes "find_inv d oldest s"
  shows "chosen_ok w d m (find_last w d m oldest s)"
proof (cases oldest)
  case (Some k)
  let ?l = "g_leases s ! k"
  from assms Some have k: "k < length (g_leases s)" "assignable d (lease_nip ?l)" and uniq: "unique_nips (g_leases s)"
    by (auto simp: find_inv_def)
  show ?thesis
  proof (cases "expires ?l < clock w (tick s) \<and> arpping w (tick s + 1) (lease_nip ?l) m")
    case True
    then have r: "find_last w d m oldest s = (lease_nip ?l, s\<lparr>tick := tick s + 2\<rparr>)"
      using Some by (simp add: find_last_def is_expired_lease_def nobody_responds_to_arp_def get_time_def)
    have "l = ?l" if "l \<in> set (g_leases s)" "lease_nip l = lease_nip ?l" "lease_nip ?l \<noteq> 0" for l
      using that uniq k(1) by (metis in_set_conv_nth unique_nipsD)
    then have "lease_nip ?l \<noteq> 0 \<Longrightarrow> l \<in> set (g_leases s) \<Longrightarrow> lease_nip l = lease_nip ?l \<Longrightarrow> expires l < clock w (tick s)" for l
      using True by metis
    then have "lease_nip ?l \<noteq> 0 \<Longrightarrow> l \<in> set (g_leases s) \<Longrightarrow> lease_nip l = lease_nip ?l \<Longrightarrow> \<exists>t<tick s + 2. expires l < clock w t" for l
      by (metis less_add_same_cancel1 zero_less_numeral)
    moreover have "\<exists>t<tick s + 2. arpping w t (lease_nip ?l) m" using True by (intro exI [of _ "tick s + 1"]) simp
    ultimately show ?thesis unfolding r chosen_ok_def using k(2) by auto
  next
    case False
    then have "fst (find_last w d m oldest s) = 0"
      using Some by (auto simp: find_last_def is_expired_lease_def nobody_responds_to_arp_def get_time_def split: prod.splits)
    then show ?thesis by (auto simp: chosen_ok_def split: prod.splits)
  qed
qed (simp add: find_last_def chosen_ok_def)

lemma next_address:
  fixes a b :: u32
  assumes "a < b"
  shows "a + 1 \<le> b" "a \<le> a + 1"
proof -
  have "unat b < 2 ^ LENGTH(32)" by (rule unsigned_less)
  with assms have "unat (a + 1) = unat a + 1" by (simp add: unat_word_ariths word_less_nat_alt)
  with assms show "a + 1 \<le> b" "a \<le> a + 1" by (simp_all add: word_le_nat_alt word_less_nat_alt)
qed

lemma find_loop_ok:
  assumes "find_inv d oldest s" "start_ip d \<le> addr" "addr \<le> end_ip d"
  shows "chosen_ok w d m (find_loop w d m addr oldest s)"
  using assms
proof (induction w d m addr oldest s rule: find_loop.induct)
  case (1 w d m addr oldest s)
  obtain r oldest' s' where turn: "find_turn w d m addr oldest s = (r, oldest', s')" by (metis prod.exhaust)
  note inv = find_turn_inv [OF turn 1(2-4)]
  show ?case
  proof (cases r)
    case (Some nip)
    with turn have "find_loop w d m addr oldest s = (nip, s')" by (simp add: find_loop.simps)
    with inv Some show ?thesis by (auto simp: chosen_ok_def)
  next
    case None
    show ?thesis
    proof (cases "addr = end_ip d")
      case True
      with turn None inv show ?thesis by (subst find_loop.simps) (simp add: find_last_ok)
    next
      case False
      then have "addr < end_ip d" using 1(4) by simp
      note le = next_address [OF this]
      have "chosen_ok w d m (find_loop w d m (addr + 1) oldest' s')"
        by (rule 1(1) [OF turn [symmetric] None refl]) (use False inv le 1(3) in auto)
      with turn None False show ?thesis by (subst find_loop.simps) simp
    qed
  qed
qed

text \<open>C6: An address offered from the pool is free: it lies in the configured range, is neither the server's own
  nor reserved for a static lease, nobody answered the probe for it, and it is in no lease of the
  table or in one that has expired; this holds although a conflict found during the search may overwrite
  the entry remembered as the oldest.\<close>

theorem find_free_or_expired_nip_ok:
  assumes "start_ip d \<le> end_ip d" and "unique_nips (g_leases s)"
    and "find_free_or_expired_nip w d m s = (nip, s')" and "nip \<noteq> 0"
  shows "assignable d nip \<and> (\<exists>t<tick s'. arpping w t nip m) \<and>
    (\<forall>l\<in>set (g_leases s'). lease_nip l = nip \<longrightarrow> (\<exists>t<tick s'. expires l < clock w t))"
proof -
  have "find_inv d None s" using assms(2) by (simp add: find_inv_def)
  from find_loop_ok [OF this order_refl assms(1), of w m] assms(3,4) show ?thesis
    by (simp add: find_free_or_expired_nip_def chosen_ok_def)
qed

definition demo_server :: server_data where
  "demo_server = \<lparr>server_nip = bswap32 0xc0a80001, srv_options = [], start_ip = 0xc0a80014, end_ip = 0xc0a80016,
     max_lease_sec = 864000, min_lease_sec = 60, decline_time = 3600, conflict_time = 3600, offer_time = 60,
     srv_siaddr_nip = 0, srv_sname = None, boot_file = None,
     static_leases = [\<lparr>st_nip = bswap32 0xc0a80014, st_mac = [0, 1, 2, 3, 4, 5], st_opt = [0]\<rparr>]\<rparr>"

definition demo_world :: world where
  "demo_world = \<lparr>time_of = \<lambda>_. 1000, arpping = \<lambda>_ _ _. True\<rparr>"

lemma demo_nips [simp]:
  "bswap32 0xc0a80001 = 0x0100a8c0" "bswap32 0xc0a80014 = 0x1400a8c0" "bswap32 0xc0a80015 = 0x1500a8c0"
  by code_simp+

theorem find_free_or_expired_nip_ok_witness:
  "find_free_or_expired_nip demo_world demo_server [0, 0, 0, 0, 0, 9] \<lparr>g_leases = [zero_lease], tick = 0\<rparr> =
     (0x1500a8c0, \<lparr>g_leases = [zero_lease], tick = 1\<rparr>) \<and> assignable demo_server 0x1500a8c0"
proof -
  let ?s = "\<lparr>g_leases = [zero_lease], tick = 0\<rparr>"
  have "find_turn demo_world demo_server [0, 0, 0, 0, 0, 9] 0xc0a80014 None ?s = (None, None, ?s)"
    by (simp add: find_turn_def demo_server_def)
  moreover have "find_turn demo_world demo_server [0, 0, 0, 0, 0, 9] 0xc0a80015 None ?s =
      (Some 0x1500a8c0, None, \<lparr>g_leases = [zero_lease], tick = 1\<rparr>)"
    by (simp add: find_turn_def demo_server_def demo_world_def nobody_responds_to_arp_def find_lease_by_nip_def)
  moreover have "start_ip demo_server = 0xc0a80014" "end_ip demo_server = 0xc0a80016" by (simp_all add: demo_server_def)
  ultimately have r: "find_free_or_expired_nip demo_world demo_server [0, 0, 0, 0, 0, 9] ?s =
      (0x1500a8c0, \<lparr>g_leases = [zero_lease], tick = 1\<rparr>)"
    unfolding find_free_or_expired_nip_def by (subst find_loop.simps, simp, subst find_loop.simps, simp)
  moreover have "start_ip demo_server \<le> end_ip demo_server" by (simp add: demo_server_def)
  moreover have "unique_nips (g_leases ?s)" by (simp add: unique_nips_def)
  ultimately show ?thesis using find_free_or_expired_nip_ok [OF _ _ r] by simp
qed

end
