(* ===== verification/Udhcpd.thy ===== *)
theory Udhcpd
  imports Udhcp_Leases "HOL-Library.Monad_Syntax"
begin

text \<open>
  The DHCP server, \<^verbatim>\<open>networking/udhcp/dhcpd.c\<close> and \<^verbatim>\<open>udhcp_init_header\<close> of \<^verbatim>\<open>packet.c\<close>: the replies, the lease
  file and the treatment of one received packet in the main loop of \<^verbatim>\<open>udhcpd_main\<close>.  What the server
  sends or writes is a list of outputs.  A handler is \<open>None\<close> when it would access memory outside a packet.
  An option is looked up as the bytes of its data (\<open>option_data\<close>).  \<open>bootp\<close> is
  \<^verbatim>\<open>ENABLE_FEATURE_UDHCPD_BOOTP\<close>.
\<close>

subsection \<open>Packets\<close>

definition BOOTREQUEST :: byte where "BOOTREQUEST = 1"
definition BOOTREPLY :: byte where "BOOTREPLY = 2"
definition BROADCAST_FLAG :: u16 where "BROADCAST_FLAG = 0x8000"
definition RFC1048_MAGIC :: u32 where "RFC1048_MAGIC = 0x63825363"
definition RFC1048_OPTIONS_BUFSIZE :: nat where "RFC1048_OPTIONS_BUFSIZE = 60"
definition MSGTYPE_BOOTP :: byte where "MSGTYPE_BOOTP = 0"
definition DHCPDISCOVER :: byte where "DHCPDISCOVER = 1"
definition DHCPOFFER :: byte where "DHCPOFFER = 2"
definition DHCPREQUEST :: byte where "DHCPREQUEST = 3"
definition DHCPDECLINE :: byte where "DHCPDECLINE = 4"
definition DHCPACK :: byte where "DHCPACK = 5"
definition DHCPNAK :: byte where "DHCPNAK = 6"
definition DHCPRELEASE :: byte where "DHCPRELEASE = 7"
definition DHCPINFORM :: byte where "DHCPINFORM = 8"

lemmas msg_consts = BOOTREQUEST_def BOOTREPLY_def MSGTYPE_BOOTP_def DHCPDISCOVER_def DHCPOFFER_def DHCPREQUEST_def
  DHCPDECLINE_def DHCPACK_def DHCPNAK_def DHCPRELEASE_def DHCPINFORM_def

definition swap16 :: "u16 \<Rightarrow> u16" where
  "swap16 x = push_bit 8 x OR drop_bit 8 x"

text \<open>\<^verbatim>\<open>memset(packet, 0, sizeof(*packet))\<close>, with the default slack of 80 bytes after the options.\<close>

definition zero_packet :: dhcp_packet where
  "zero_packet = \<lparr>op = 0, htype = 0, hlen = 0, hops = 0, xid = 0, secs = 0, flags = 0, ciaddr = 0, yiaddr = 0,
     siaddr_nip = 0, gateway_nip = 0, chaddr = replicate 16 0, sname = replicate 64 0, file_field = replicate 128 0,
     cookie = 0, options = replicate (DHCP_OPTIONS_BUFSIZE + 80) 0\<rparr>"

definition udhcp_init_header :: "bool \<Rightarrow> byte \<Rightarrow> dhcp_packet option" where
  "udhcp_init_header bootp type =
    (let packet = zero_packet\<lparr>
           op := (if bootp \<and> type = MSGTYPE_BOOTP \<or> type \<in> {DHCPOFFER, DHCPACK, DHCPNAK} then BOOTREPLY else BOOTREQUEST),
           htype := 1, hlen := 6, cookie := bswap32 RFC1048_MAGIC,
           options := (options zero_packet)[0 := DHCP_END]\<rparr>
     in if bootp \<and> type = MSGTYPE_BOOTP then Some packet
        else udhcp_add_simple_option packet DHCP_MESSAGE_TYPE (ucast type))"

definition init_packet :: "bool \<Rightarrow> server_data \<Rightarrow> dhcp_packet \<Rightarrow> byte \<Rightarrow> dhcp_packet option" where
  "init_packet bootp d oldpacket type =
    do {
      packet \<leftarrow> udhcp_init_header bootp type;
      let packet = packet\<lparr>xid := xid oldpacket, chaddr := chaddr oldpacket, flags := flags oldpacket,
                          gateway_nip := gateway_nip oldpacket, ciaddr := ciaddr oldpacket\<rparr>;
      if bootp \<and> type = MSGTYPE_BOOTP then Some packet
      else udhcp_add_simple_option packet DHCP_SERVER_ID (server_nip d)
    }"

text \<open>The host name option of the static lease of the address, if any.\<close>

fun client_hostname_opt :: "static_lease list \<Rightarrow> u32 \<Rightarrow> byte list option" where
  "client_hostname_opt [] nip = None"
| "client_hostname_opt (l # ls) nip =
    (if st_nip l = nip then (if st_opt l ! 0 \<noteq> 0 then Some (st_opt l) else None) else client_hostname_opt ls nip)"

fun add_config_opts :: "byte list option \<Rightarrow> option_set \<Rightarrow> dhcp_packet \<Rightarrow> dhcp_packet option" where
  "add_config_opts host [] packet = Some packet"
| "add_config_opts host (data # config_opts) packet =
    do {
      packet \<leftarrow> (if data ! OPT_CODE \<noteq> DHCP_LEASE_TIME \<and> (data ! OPT_CODE \<noteq> DHCP_HOST_NAME \<or> host = None)
                then udhcp_add_binary_option packet data else Some packet);
      add_config_opts host config_opts packet
    }"

definition strncpy_field :: "byte list \<Rightarrow> cstr option \<Rightarrow> byte list" where
  "strncpy_field f src =
    (case src of None \<Rightarrow> f
     | Some t \<Rightarrow> let n = length f - 1 in take n (map uchar t @ replicate n 0) @ drop n f)"

definition add_server_options :: "server_data \<Rightarrow> dhcp_packet \<Rightarrow> dhcp_packet option" where
  "add_server_options d packet =
    do {
      let host = (if yiaddr packet \<noteq> 0 then client_hostname_opt (static_leases d) (yiaddr packet) else None);
      packet \<leftarrow> add_config_opts host (srv_options d) packet;
      packet \<leftarrow> (case host of None \<Rightarrow> Some packet | Some h \<Rightarrow> udhcp_add_binary_option packet h);
      Some (packet\<lparr>siaddr_nip := srv_siaddr_nip d, sname := strncpy_field (sname packet) (srv_sname d),
                   file_field := strncpy_field (file_field packet) (boot_file d)\<rparr>)
    }"

subsection \<open>Outputs\<close>

datatype destination = ToRelay u32 | ToClient u32 "byte list"

text \<open>A packet sent, or the lease file: the time it was written at and its entries.\<close>

datatype srv_output = Reply dhcp_packet destination | LeaseFile u64 "dyn_lease list"

definition send_packet_to_client :: "dhcp_packet \<Rightarrow> bool \<Rightarrow> srv_output" where
  "send_packet_to_client packet force_broadcast =
    (if force_broadcast \<or> flags packet AND swap16 BROADCAST_FLAG \<noteq> 0 \<or> ciaddr packet = 0
     then Reply packet (ToClient 0xffffffff (replicate 6 0xff))
     else Reply packet (ToClient (ciaddr packet) (chaddr packet)))"

definition send_packet_to_relay :: "dhcp_packet \<Rightarrow> srv_output" where
  "send_packet_to_relay packet = Reply packet (ToRelay (gateway_nip packet))"

definition send_packet :: "dhcp_packet \<Rightarrow> bool \<Rightarrow> srv_output" where
  "send_packet packet force_broadcast =
    (if gateway_nip packet \<noteq> 0 then send_packet_to_relay packet else send_packet_to_client packet force_broadcast)"

definition saved_lease :: "u32 \<Rightarrow> dyn_lease \<Rightarrow> dyn_lease" where
  "saved_lease now l = l\<lparr>expires := (let e = expires l - now in bswap32 (if sint e < 0 then 0 else e))\<rparr>"

definition write_leases :: "world \<Rightarrow> server \<Rightarrow> srv_output \<times> server" where
  "write_leases w s =
    (let written_at = time_of w (tick s); now = ucast written_at
     in (LeaseFile written_at (map (saved_lease now) (filter (\<lambda>l. lease_nip l \<noteq> 0) (g_leases s))),
         s\<lparr>tick := tick s + 1\<rparr>))"

fun read_lease_loop :: "world \<Rightarrow> server_data \<Rightarrow> u64 \<Rightarrow> dyn_lease list \<Rightarrow> server \<Rightarrow> server" where
  "read_lease_loop w d time_passed [] s = s"
| "read_lease_loop w d time_passed (lease # ls) s =
    (let y = bswap32 (lease_nip lease) in
     if y \<ge> start_ip d \<and> y \<le> end_ip d then
       let e = bswap32 (expires lease) - ucast time_passed;
           e = (if sint e \<le> 0 then 0 else e)
       in if get_static_nip_by_mac (static_leases d) (lease_mac lease) \<noteq> 0 then read_lease_loop w d time_passed ls s
          else if is_nip_reserved_as_static (static_leases d) (lease_nip lease) then read_lease_loop w d time_passed ls s
          else case add_lease w (Some (lease_mac lease)) (lease_nip lease) e (Some (hostname lease)) 20 s of
            (None, s) \<Rightarrow> s
          | (Some _, s) \<Rightarrow> read_lease_loop w d time_passed ls s
     else read_lease_loop w d time_passed ls s)"

definition read_leases :: "world \<Rightarrow> server_data \<Rightarrow> u64 \<Rightarrow> dyn_lease list \<Rightarrow> server \<Rightarrow> server" where
  "read_leases w d written_at ls s =
    (let time_passed = time_of w (tick s) - written_at; s = s\<lparr>tick := tick s + 1\<rparr>
     in if time_passed > 12 * 60 * 60 then s else read_lease_loop w d time_passed ls s)"

subsection \<open>Replies\<close>

definition get_data :: "bool \<Rightarrow> dhcp_packet \<Rightarrow> byte \<Rightarrow> byte list option" where
  "get_data bootp packet code = option_data packet (udhcp_get_option bootp packet code)"

definition get_data32 :: "bool \<Rightarrow> dhcp_packet \<Rightarrow> byte \<Rightarrow> u32 option" where
  "get_data32 bootp packet code = map_option load_le (option_data packet (udhcp_get_option32 bootp packet code))"

definition select_lease_time :: "bool \<Rightarrow> server_data \<Rightarrow> dhcp_packet \<Rightarrow> u32" where
  "select_lease_time bootp d packet =
    (case get_data32 bootp packet DHCP_LEASE_TIME of
       None \<Rightarrow> max_lease_sec d
     | Some v \<Rightarrow>
         let lease_time_sec = bswap32 v;
             lease_time_sec = (if lease_time_sec > max_lease_sec d then max_lease_sec d else lease_time_sec)
         in if lease_time_sec < min_lease_sec d then min_lease_sec d else lease_time_sec)"

text \<open>The call of \<open>add_lease\<close> with the host name the client sent.\<close>

definition add_client_lease :: "bool \<Rightarrow> world \<Rightarrow> dhcp_packet \<Rightarrow> byte list \<Rightarrow> u32 \<Rightarrow> u32 \<Rightarrow> server \<Rightarrow> nat option \<times> server" where
  "add_client_lease bootp w oldpacket mac nip leasetime s =
    (case get_data bootp oldpacket DHCP_HOST_NAME of
       None \<Rightarrow> add_lease w (Some mac) nip leasetime None 0 s
     | Some h \<Rightarrow> add_lease w (Some mac) nip leasetime (Some (map byte_char h)) (length h) s)"

text \<open>The address to offer to a client without a static lease: that of its lease, or the one it asked for, or a free one.\<close>

definition offered_nip :: "world \<Rightarrow> server_data \<Rightarrow> dhcp_packet \<Rightarrow> nat option \<Rightarrow> u32 \<Rightarrow> server \<Rightarrow> u32 \<times> server" where
  "offered_nip w d oldpacket lease requested_nip s =
    (case lease of
       Some i \<Rightarrow> (lease_nip (g_leases s ! i), s)
     | None \<Rightarrow>
         if requested_nip \<noteq> 0 \<and> bswap32 requested_nip \<ge> start_ip d \<and> bswap32 requested_nip \<le> end_ip d then
           (case find_lease_by_nip requested_nip s of
              None \<Rightarrow> (requested_nip, s)
            | Some j \<Rightarrow>
                let (expired, s) = is_expired_lease w (g_leases s ! j) s
                in if expired then (requested_nip, s) else find_free_or_expired_nip w d (chaddr oldpacket) s)
         else find_free_or_expired_nip w d (chaddr oldpacket) s)"

definition send_offer :: "bool \<Rightarrow> world \<Rightarrow> server_data \<Rightarrow> bool \<Rightarrow> dhcp_packet \<Rightarrow> u32 \<Rightarrow> nat option \<Rightarrow> u32 \<Rightarrow> server
    \<Rightarrow> (server \<times> srv_output list) option" where
  "send_offer bootp w d is_dhcp_client oldpacket static_lease_nip lease requested_nip s =
    do {
      packet \<leftarrow> init_packet bootp d oldpacket (if is_dhcp_client then DHCPOFFER else MSGTYPE_BOOTP);
      let (nip, s) = (if static_lease_nip \<noteq> 0 then (static_lease_nip, s) else offered_nip w d oldpacket lease requested_nip s);
      let (stored, s) = (if static_lease_nip \<noteq> 0 then (True, s)
             else if nip = 0 then (False, s)
             else (let (l, s) = add_client_lease bootp w oldpacket (chaddr packet) nip (offer_time d) s in (l \<noteq> None, s)));
      let packet = packet\<lparr>yiaddr := nip\<rparr>;
      if \<not> stored then Some (s, [])
      else do {
        packet \<leftarrow> (if is_dhcp_client
                  then udhcp_add_simple_option packet DHCP_LEASE_TIME (bswap32 (select_lease_time bootp d oldpacket))
                  else Some packet);
        packet \<leftarrow> add_server_options d packet;
        fin \<leftarrow> udhcp_end_option (options packet);
        if \<not> is_dhcp_client \<and> fin \<ge> RFC1048_OPTIONS_BUFSIZE then Some (s, [])
        else Some (s, [send_packet packet False])
      }
    }"

definition send_NAK :: "bool \<Rightarrow> server_data \<Rightarrow> dhcp_packet \<Rightarrow> server \<Rightarrow> (server \<times> srv_output list) option" where
  "send_NAK bootp d oldpacket s =
    do {
      packet \<leftarrow> init_packet bootp d oldpacket DHCPNAK;
      Some (s, [send_packet packet True])
    }"

definition send_ACK :: "bool \<Rightarrow> world \<Rightarrow> server_data \<Rightarrow> dhcp_packet \<Rightarrow> u32 \<Rightarrow> server \<Rightarrow> (server \<times> srv_output list) option" where
  "send_ACK bootp w d oldpacket nip s =
    do {
      packet \<leftarrow> init_packet bootp d oldpacket DHCPACK;
      let packet = packet\<lparr>yiaddr := nip\<rparr>;
      let lease_time_sec = select_lease_time bootp d oldpacket;
      packet \<leftarrow> udhcp_add_simple_option packet DHCP_LEASE_TIME (bswap32 lease_time_sec);
      packet \<leftarrow> add_server_options d packet;
      let (_, s) = add_client_lease bootp w oldpacket (chaddr packet) (yiaddr packet) lease_time_sec s;
      let (f, s) = write_leases w s;
      Some (s, [send_packet packet False, f])
    }"

definition send_inform :: "bool \<Rightarrow> server_data \<Rightarrow> dhcp_packet \<Rightarrow> server \<Rightarrow> (server \<times> srv_output list) option" where
  "send_inform bootp d oldpacket s =
    do {
      packet \<leftarrow> init_packet bootp d oldpacket DHCPACK;
      packet \<leftarrow> add_server_options d packet;
      Some (s, [send_packet packet False])
    }"

subsection \<open>One packet of the main loop\<close>

text \<open>\<open>lease\<close> of the code: the \<open>fake_lease\<close> of a static lease, or an entry of the table.\<close>

datatype lease_ptr = FakeLease u32 | Entry nat

fun ptr_nip :: "lease_ptr \<Rightarrow> server \<Rightarrow> u32" where
  "ptr_nip (FakeLease nip) s = nip"
| "ptr_nip (Entry i) s = lease_nip (g_leases s ! i)"

fun entry_of :: "lease_ptr option \<Rightarrow> nat option" where
  "entry_of (Some (Entry i)) = Some i"
| "entry_of _ = None"

definition find_client_lease :: "server_data \<Rightarrow> dhcp_packet \<Rightarrow> server \<Rightarrow> lease_ptr option" where
  "find_client_lease d packet s =
    (let static_lease_nip = get_static_nip_by_mac (static_leases d) (chaddr packet) in
     if static_lease_nip \<noteq> 0 then Some (FakeLease static_lease_nip)
     else map_option Entry (find_lease_by_mac (chaddr packet) s))"

text \<open>\<^verbatim>\<open>lease->lease_mac\<close> and \<^verbatim>\<open>lease->expires\<close> are assigned through the pointer.\<close>

definition update_entry :: "lease_ptr \<Rightarrow> (dyn_lease \<Rightarrow> dyn_lease) \<Rightarrow> server \<Rightarrow> server" where
  "update_entry p f s =
    (case p of FakeLease _ \<Rightarrow> s | Entry i \<Rightarrow> s\<lparr>g_leases := (g_leases s)[i := f (g_leases s ! i)]\<rparr>)"

definition do_request :: "bool \<Rightarrow> world \<Rightarrow> server_data \<Rightarrow> dhcp_packet \<Rightarrow> lease_ptr option \<Rightarrow> u32 option \<Rightarrow> u32 option \<Rightarrow> server
    \<Rightarrow> (server \<times> srv_output list) option" where
  "do_request bootp w d packet lease server_id requested s =
    (let requested_nip = (case requested of None \<Rightarrow> ciaddr packet | Some nip \<Rightarrow> nip) in
     if requested = None \<and> requested_nip = 0 then Some (s, [])
     else if lease \<noteq> None \<and> requested_nip = ptr_nip (the lease) s then send_ACK bootp w d packet (ptr_nip (the lease) s) s
     else if server_id \<noteq> None \<or> requested \<noteq> None then send_NAK bootp d packet s
     else Some (s, []))"

definition do_decline :: "world \<Rightarrow> server_data \<Rightarrow> lease_ptr option \<Rightarrow> u32 option \<Rightarrow> u32 option \<Rightarrow> server
    \<Rightarrow> (server \<times> srv_output list) option" where
  "do_decline w d lease server_id requested s =
    (if server_id \<noteq> None \<and> requested \<noteq> None \<and> lease \<noteq> None \<and> the requested = ptr_nip (the lease) s then
       let (t, s) = get_time w s
       in Some (update_entry (the lease) (\<lambda>l. l\<lparr>lease_mac := replicate 6 0, expires := t + decline_time d\<rparr>) s, [])
     else Some (s, []))"

definition do_release :: "world \<Rightarrow> dhcp_packet \<Rightarrow> lease_ptr option \<Rightarrow> u32 option \<Rightarrow> server \<Rightarrow> (server \<times> srv_output list) option" where
  "do_release w packet lease server_id s =
    (if server_id \<noteq> None \<and> lease \<noteq> None \<and> ciaddr packet = ptr_nip (the lease) s then
       let (t, s) = get_time w s in Some (update_entry (the lease) (\<lambda>l. l\<lparr>expires := t\<rparr>) s, [])
     else Some (s, []))"

definition handle_message :: "bool \<Rightarrow> world \<Rightarrow> server_data \<Rightarrow> dhcp_packet \<Rightarrow> byte option \<Rightarrow> u32 option \<Rightarrow> server
    \<Rightarrow> (server \<times> srv_output list) option" where
  "handle_message bootp w d packet msg_type server_id s =
    (let static_lease_nip = get_static_nip_by_mac (static_leases d) (chaddr packet);
         lease = find_client_lease d packet s;
         requested = get_data32 bootp packet DHCP_REQUESTED_IP;
         requested_nip = (case requested of None \<Rightarrow> 0 | Some nip \<Rightarrow> nip) in
     case msg_type of
       None \<Rightarrow>
         if static_lease_nip = 0 then Some (s, [])
         else send_offer bootp w d False packet static_lease_nip (entry_of lease) requested_nip s
     | Some t \<Rightarrow>
         if t = DHCPDISCOVER then send_offer bootp w d True packet static_lease_nip (entry_of lease) requested_nip s
         else if t = DHCPREQUEST then do_request bootp w d packet lease server_id requested s
         else if t = DHCPDECLINE then do_decline w d lease server_id requested s
         else if t = DHCPRELEASE then do_release w packet lease server_id s
         else if t = DHCPINFORM then send_inform bootp d packet s
         else Some (s, []))"

definition handle_packet :: "bool \<Rightarrow> world \<Rightarrow> server_data \<Rightarrow> dhcp_packet \<Rightarrow> server \<Rightarrow> (server \<times> srv_output list) option" where
  "handle_packet bootp w d packet s =
    (if hlen packet \<noteq> 6 then Some (s, [])
     else if op packet \<noteq> BOOTREQUEST then Some (s, [])
     else
       let msg_type = map_option hd (get_data bootp packet DHCP_MESSAGE_TYPE);
           bad = (case msg_type of None \<Rightarrow> \<not> bootp | Some t \<Rightarrow> t < DHCPDISCOVER \<or> t > DHCPINFORM);
           server_id = get_data32 bootp packet DHCP_SERVER_ID
       in if bad then Some (s, [])
          else if server_id \<noteq> None \<and> server_id \<noteq> Some (server_nip d) then Some (s, [])
          else handle_message bootp w d packet msg_type server_id s)"

subsection \<open>Packets under construction\<close>

definition built :: "dhcp_packet \<Rightarrow> dhcp_option list \<Rightarrow> bool" where
  "built p os \<longleftrightarrow> wf_packet p \<and> holds (options p) os"

definition same_header :: "dhcp_packet \<Rightarrow> dhcp_packet \<Rightarrow> bool" where
  "same_header p q \<longleftrightarrow> q = p\<lparr>options := options q\<rparr>"

text \<open>A block of options that only grew.\<close>

definition extends :: "dhcp_packet \<Rightarrow> dhcp_option list \<Rightarrow> dhcp_packet option \<Rightarrow> bool" where
  "extends p os r \<longleftrightarrow> (\<exists>q more. r = Some q \<and> same_header p q \<and> built q (os @ more))"

lemma extendsI: "built p os \<Longrightarrow> extends p os (Some p)"
  unfolding extends_def same_header_def by (rule exI [of _ p], rule exI [of _ "[]"]) simp

lemma extends_bind:
  assumes "extends p os r" "\<And>q more. same_header p q \<Longrightarrow> built q (os @ more) \<Longrightarrow> extends q (os @ more) (f q)"
  shows "extends p os (r \<bind> f)"
proof -
  from assms(1) obtain q more where q: "r = Some q" "same_header p q" "built q (os @ more)" by (auto simp: extends_def)
  from assms(2) [OF q(2,3)] obtain q' more' where "f q = Some q'" "same_header q q'" "built q' ((os @ more) @ more')"
    by (auto simp: extends_def)
  moreover from this(2) q(2) have "same_header p q'" unfolding same_header_def by (metis dhcp_packet.update_convs(16) dhcp_packet.surjective)
  ultimately show ?thesis using q(1) by (auto simp: extends_def)
qed

lemma add_binary_junk:
  assumes "wf_option opt"
  shows "udhcp_add_binary_option p (enc_option opt @ junk) = udhcp_add_binary_option p (enc_option opt)"
proof -
  obtain c data where opt: "opt = (c, data)" by fastforce
  with assms have "unat (of_nat (length data) :: byte) = length data" by (simp add: wf_option_byte)
  then show ?thesis using opt
    by (simp add: udhcp_add_binary_option_def enc_option_def OPT_LEN_def OPT_DATA_def Let_def split: option.splits)
qed

lemma extends_add:
  assumes "built p os" "wf_option opt"
  shows "extends p os (udhcp_add_binary_option p (enc_option opt @ junk))"
proof -
  from assms(1) have "wf_packet p" "holds (options p) os" by (simp_all add: built_def)
  from add_option_holds [OF this assms(2)] obtain bs where
    bs: "udhcp_add_binary_option p (enc_option opt) = Some (p\<lparr>options := bs\<rparr>)" "length bs = length (options p)"
      "holds bs (if fits os (enc_option opt) then os @ [opt] else os)" by blast
  from bs(3) obtain more where "holds bs (os @ more)" by (cases "fits os (enc_option opt)") (auto, metis append_Nil2)
  with bs(1,2) \<open>wf_packet p\<close> show ?thesis
    unfolding add_binary_junk [OF assms(2)] extends_def
    by (intro exI [of _ "p\<lparr>options := bs\<rparr>"] exI [of _ more]) (simp add: same_header_def built_def wf_packet_def)
qed

lemma store_le_numeral [simp]: "store_le (numeral k) x = ucast x # store_le (pred_numeral k) (drop_bit 8 x)"
  by (simp add: numeral_eq_Suc)

text \<open>The three options added with \<^verbatim>\<open>udhcp_add_simple_option\<close>.\<close>

lemma simple_options:
  "udhcp_add_simple_option p DHCP_MESSAGE_TYPE v = udhcp_add_binary_option p (enc_option (DHCP_MESSAGE_TYPE, [ucast v]) @ store_le 3 (drop_bit 8 v))"
  "udhcp_add_simple_option p DHCP_SERVER_ID v = udhcp_add_binary_option p (enc_option (DHCP_SERVER_ID, store_le 4 v) @ [])"
  "udhcp_add_simple_option p DHCP_LEASE_TIME v = udhcp_add_binary_option p (enc_option (DHCP_LEASE_TIME, store_le 4 v) @ [])"
  by (simp_all add: udhcp_add_simple_option_def dhcp_optflags_def optflag_def option_consts dhcp_consts
      dhcp_option_lengths_def enc_option_def)

lemma wf_simple_options [simp]:
  "wf_option (DHCP_MESSAGE_TYPE, [t])" "wf_option (DHCP_SERVER_ID, store_le 4 v)" "wf_option (DHCP_LEASE_TIME, store_le 4 v)"
  by (simp_all add: wf_option_def dhcp_consts)

lemma add_exact:
  assumes "built p os" "wf_option opt" "fits os (enc_option opt)"
  shows "\<exists>bs. udhcp_add_binary_option p (enc_option opt @ junk) = Some (p\<lparr>options := bs\<rparr>) \<and> built (p\<lparr>options := bs\<rparr>) (os @ [opt])"
proof -
  from assms(1) have wf: "wf_packet p" "holds (options p) os" by (simp_all add: built_def)
  from add_option_holds [OF this assms(2)] assms(3) obtain bs where
    "udhcp_add_binary_option p (enc_option opt) = Some (p\<lparr>options := bs\<rparr>)" "length bs = length (options p)" "holds bs (os @ [opt])"
    by auto
  with wf(1) show ?thesis by (auto simp: add_binary_junk [OF assms(2)] built_def wf_packet_def)
qed

definition head_options :: "bool \<Rightarrow> server_data \<Rightarrow> byte \<Rightarrow> dhcp_option list" where
  "head_options bootp d type =
    (if bootp \<and> type = MSGTYPE_BOOTP then [] else [(DHCP_MESSAGE_TYPE, [type]), (DHCP_SERVER_ID, store_le 4 (server_nip d))])"

lemma built_update_header:
  "built p os \<Longrightarrow> length m = 16 \<Longrightarrow>
    built (p\<lparr>xid := x, chaddr := m, flags := f, gateway_nip := g, ciaddr := c\<rparr>) os"
  "built p os \<Longrightarrow> built (p\<lparr>yiaddr := y\<rparr>) os"
  by (simp_all add: built_def wf_packet_def)

lemma init_packet_built:
  assumes "wf_packet oldpacket"
  shows "\<exists>p. init_packet bootp d oldpacket type = Some p \<and> built p (head_options bootp d type) \<and> yiaddr p = 0 \<and>
    chaddr p = chaddr oldpacket \<and> xid p = xid oldpacket \<and> gateway_nip p = gateway_nip oldpacket \<and>
    (type \<in> {DHCPOFFER, DHCPACK, DHCPNAK} \<or> bootp \<and> type = MSGTYPE_BOOTP \<longrightarrow> op p = BOOTREPLY)"
proof -
  let ?old = "\<lambda>p. p\<lparr>xid := xid oldpacket, chaddr := chaddr oldpacket, flags := flags oldpacket,
                          gateway_nip := gateway_nip oldpacket, ciaddr := ciaddr oldpacket\<rparr>"
  define p0 where "p0 = zero_packet\<lparr>
           op := (if bootp \<and> type = MSGTYPE_BOOTP \<or> type \<in> {DHCPOFFER, DHCPACK, DHCPNAK} then BOOTREPLY else BOOTREQUEST),
           htype := 1, hlen := 6, cookie := bswap32 RFC1048_MAGIC, options := (options zero_packet)[0 := DHCP_END]\<rparr>"
  have len: "length (chaddr oldpacket) = 16" using assms by (simp add: wf_packet_def)
  have "options p0 = DHCP_END # replicate 387 0"
    by (simp add: p0_def zero_packet_def DHCP_OPTIONS_BUFSIZE_def replicate_app_Cons_same flip: replicate_Suc) (simp add: numeral_eq_Suc)
  then have built0: "built p0 []"
    by (auto simp: built_def holds_def wf_packet_def p0_def zero_packet_def DHCP_OPTIONS_BUFSIZE_def)
  have p0: "yiaddr p0 = 0" "type \<in> {DHCPOFFER, DHCPACK, DHCPNAK} \<or> bootp \<and> type = MSGTYPE_BOOTP \<longrightarrow> op p0 = BOOTREPLY"
    by (auto simp: p0_def zero_packet_def)
  show ?thesis
  proof (cases "bootp \<and> type = MSGTYPE_BOOTP")
    case True
    then have "init_packet bootp d oldpacket type = Some (?old p0)"
      by (simp add: init_packet_def udhcp_init_header_def p0_def Let_def)
    with built_update_header(1) [OF built0 len] p0 True show ?thesis by (simp add: head_options_def)
  next
    case False
    have "fits [] (enc_option (DHCP_MESSAGE_TYPE, [type]))" by (simp add: fits_def enc_option_def DHCP_OPTIONS_BUFSIZE_def)
    from add_exact [OF built0 wf_simple_options(1) this, of "store_le 3 (drop_bit 8 (ucast type :: u32))"] obtain bs where
      bs: "udhcp_add_simple_option p0 DHCP_MESSAGE_TYPE (ucast type) = Some (p0\<lparr>options := bs\<rparr>)"
        "built (p0\<lparr>options := bs\<rparr>) [(DHCP_MESSAGE_TYPE, [type])]"
      by (auto simp: simple_options)
    note b1 = built_update_header(1) [OF bs(2) len, where x = "xid oldpacket" and f = "flags oldpacket" and g = "gateway_nip oldpacket" and c = "ciaddr oldpacket"]
    have "fits [(DHCP_MESSAGE_TYPE, [type])] (enc_option (DHCP_SERVER_ID, store_le 4 (server_nip d)))"
      by (simp add: fits_def enc_option_def DHCP_OPTIONS_BUFSIZE_def)
    from add_exact [OF b1 wf_simple_options(2) this, of "[]"] obtain bs' where
      "udhcp_add_simple_option (?old (p0\<lparr>options := bs\<rparr>)) DHCP_SERVER_ID (server_nip d) = Some (?old (p0\<lparr>options := bs\<rparr>)\<lparr>options := bs'\<rparr>)"
      "built (?old (p0\<lparr>options := bs\<rparr>)\<lparr>options := bs'\<rparr>) (head_options bootp d type)"
      using False by (auto simp: simple_options head_options_def)
    moreover have "udhcp_init_header bootp type = udhcp_add_simple_option p0 DHCP_MESSAGE_TYPE (ucast type)"
      using False by (auto simp: udhcp_init_header_def p0_def Let_def)
    ultimately show ?thesis using False bs(1) p0 by (auto simp: init_packet_def)
  qed
qed

subsection \<open>The configured options\<close>

definition wf_data :: "byte list \<Rightarrow> bool" where
  "wf_data x \<longleftrightarrow> (\<exists>opt junk. wf_option opt \<and> x = enc_option opt @ junk)"

definition wf_config :: "server_data \<Rightarrow> bool" where
  "wf_config d \<longleftrightarrow> (\<forall>x\<in>set (srv_options d). wf_data x) \<and> (\<forall>l\<in>set (static_leases d). st_opt l ! 0 = 0 \<or> wf_data (st_opt l))"

lemma extends_data: "built p os \<Longrightarrow> wf_data x \<Longrightarrow> extends p os (udhcp_add_binary_option p x)"
  by (auto simp: wf_data_def intro: extends_add)

lemma add_config_extends:
  "built p os \<Longrightarrow> \<forall>x\<in>set xs. wf_data x \<Longrightarrow> extends p os (add_config_opts host xs p)"
proof (induction xs arbitrary: p os)
  case (Cons x xs)
  have "extends p os (if x ! OPT_CODE \<noteq> DHCP_LEASE_TIME \<and> (x ! OPT_CODE \<noteq> DHCP_HOST_NAME \<or> host = None)
      then udhcp_add_binary_option p x else Some p)"
    using Cons.prems by (auto intro: extends_data extendsI)
  then show ?case
    unfolding add_config_opts.simps by (rule extends_bind) (use Cons in auto)
qed (simp add: extendsI)

lemma client_hostname_wf:
  "\<forall>l\<in>set ls. st_opt l ! 0 = 0 \<or> wf_data (st_opt l) \<Longrightarrow> client_hostname_opt ls nip = Some h \<Longrightarrow> wf_data h"
  by (induction ls) (auto split: if_splits)

lemma length_strncpy_field [simp]: "length (strncpy_field f src) = length f"
  by (auto simp: strncpy_field_def Let_def split: option.splits)

definition same_client :: "dhcp_packet \<Rightarrow> dhcp_packet \<Rightarrow> bool" where
  "same_client p q \<longleftrightarrow> op q = op p \<and> xid q = xid p \<and> chaddr q = chaddr p \<and> yiaddr q = yiaddr p \<and> gateway_nip q = gateway_nip p"

lemma same_header_client: "same_header p q \<Longrightarrow> same_client p q"
  unfolding same_header_def same_client_def by (metis dhcp_packet.select_convs dhcp_packet.surjective dhcp_packet.update_convs(16))

lemma add_server_options_built:
  assumes "wf_config d" "built p os"
  shows "\<exists>q more. add_server_options d p = Some q \<and> built q (os @ more) \<and> same_client p q"
proof -
  define host where "host = (if yiaddr p \<noteq> 0 then client_hostname_opt (static_leases d) (yiaddr p) else None)"
  have host: "host = Some h \<Longrightarrow> wf_data h" for h
    using assms(1) client_hostname_wf [of "static_leases d" "yiaddr p" h] by (auto simp: host_def wf_config_def split: if_splits)
  have "extends p os (add_config_opts host (srv_options d) p \<bind> (\<lambda>q. case host of None \<Rightarrow> Some q | Some h \<Rightarrow> udhcp_add_binary_option q h))"
    by (rule extends_bind [OF add_config_extends [OF assms(2)]])
      (use assms(1) host in \<open>auto simp: wf_config_def intro: extendsI extends_data split: option.splits\<close>)
  then obtain q more where q: "(add_config_opts host (srv_options d) p \<bind> (\<lambda>q. case host of None \<Rightarrow> Some q | Some h \<Rightarrow> udhcp_add_binary_option q h)) = Some q"
    "same_header p q" "built q (os @ more)" by (auto simp: extends_def)
  let ?q = "q\<lparr>siaddr_nip := srv_siaddr_nip d, sname := strncpy_field (sname q) (srv_sname d),
                   file_field := strncpy_field (file_field q) (boot_file d)\<rparr>"
  have "add_server_options d p = Some ?q"
    using q(1) unfolding add_server_options_def host_def [symmetric] by (auto simp: bind_eq_Some_conv Let_def)
  moreover have "built ?q (os @ more)" using q(3) by (simp add: built_def wf_packet_def)
  moreover have "same_client p ?q" using same_header_client [OF q(2)] by (simp add: same_client_def)
  ultimately show ?thesis by blast
qed

lemma add_lease_time_built:
  assumes "built p os"
  shows "\<exists>q more. udhcp_add_simple_option p DHCP_LEASE_TIME v = Some q \<and> built q (os @ more) \<and> same_client p q"
  using extends_add [OF assms wf_simple_options(3), of v "[]"]
  by (auto simp: simple_options extends_def dest: same_header_client)

lemma end_option_built: "built p os \<Longrightarrow> \<exists>n. udhcp_end_option (options p) = Some n"
  using end_option_holds [of "options p" "[]" os] by (auto simp: built_def holds_def udhcp_end_option_def)

subsection \<open>What the handlers send\<close>

definition backed :: "server_data \<Rightarrow> dhcp_packet \<Rightarrow> server \<Rightarrow> u32 \<Rightarrow> bool" where
  "backed d packet s nip \<longleftrightarrow>
    (let st = get_static_nip_by_mac (static_leases d) (chaddr packet) in
     if st \<noteq> 0 then nip = st
     else \<exists>l\<in>set (g_leases s). lease_nip l = nip \<and> lease_mac l = take 6 (chaddr packet))"

definition reply_ok :: "bool \<Rightarrow> server_data \<Rightarrow> dhcp_packet \<Rightarrow> server \<Rightarrow> dhcp_packet \<Rightarrow> bool" where
  "reply_ok bootp d packet s p \<longleftrightarrow> op p = BOOTREPLY \<and> xid p = xid packet \<and> chaddr p = chaddr packet \<and>
     (\<exists>type more. built p (head_options bootp d type @ more) \<and> (get_data bootp packet DHCP_MESSAGE_TYPE = None \<or> type \<noteq> MSGTYPE_BOOTP)) \<and>
     (yiaddr p \<noteq> 0 \<longrightarrow> backed d packet s (yiaddr p))"

definition result_ok :: "bool \<Rightarrow> server_data \<Rightarrow> dhcp_packet \<Rightarrow> (server \<times> srv_output list) option \<Rightarrow> bool" where
  "result_ok bootp d packet r \<longleftrightarrow>
    (\<exists>s outs. r = Some (s, outs) \<and> (\<forall>p dest. Reply p dest \<in> set outs \<longrightarrow> reply_ok bootp d packet s p))"

lemma result_ok_silent [simp]: "result_ok bootp d packet (Some (s, []))"
  by (simp add: result_ok_def)

lemma Reply_send_packet: "Reply p dest = send_packet q f \<Longrightarrow> p = q"
  by (auto simp: send_packet_def send_packet_to_client_def send_packet_to_relay_def split: if_splits)

lemma add_client_lease_stored:
  assumes "add_client_lease bootp w oldpacket mac nip t s = (r, s')"
    and "r \<noteq> None \<or> (\<exists>l\<in>set (g_leases s). lease_mac l = take 6 mac)"
  shows "\<exists>l\<in>set (g_leases s'). lease_nip l = nip \<and> lease_mac l = take 6 mac"
proof -
  obtain name n where add: "add_lease w (Some mac) nip t name n s = (r, s')"
    using assms(1) by (auto simp: add_client_lease_def split: option.splits)
  from add show ?thesis
  proof (cases rule: add_lease_cases)
    case full
    with assms(2) obtain l where l: "l \<in> set (g_leases s)" "lease_mac l = take 6 mac" by blast
    then have "zero_lease \<in> set (cleared (Some mac) nip (g_leases s))" by (force simp: cleared_def clears_def)
    with full(4) show ?thesis by (metis zero_lease_nip(2))
  next
    case (stored i)
    then have "g_leases s' ! i = fresh_lease (Some mac) nip name n (clock w (tick s + 1) + t)" "i < length (g_leases s')"
      by simp_all
    then show ?thesis by (metis fresh_lease_simps(1,3) nth_mem option.simps(5))
  qed
qed

lemma send_NAK_ok:
  assumes "wf_packet packet"
  shows "result_ok bootp d packet (send_NAK bootp d packet s)"
proof -
  from init_packet_built [OF assms, of bootp d DHCPNAK] obtain p where
    "init_packet bootp d packet DHCPNAK = Some p" "built p (head_options bootp d DHCPNAK @ [])" "yiaddr p = 0"
    "chaddr p = chaddr packet" "xid p = xid packet" "op p = BOOTREPLY" by auto
  moreover have "DHCPNAK \<noteq> MSGTYPE_BOOTP" by (simp add: msg_consts)
  ultimately have "reply_ok bootp d packet s p" unfolding reply_ok_def by blast
  with \<open>init_packet _ _ _ _ = _\<close> show ?thesis by (auto simp: send_NAK_def result_ok_def dest: Reply_send_packet)
qed

text \<open>The part common to offers, acknowledgements and answers to INFORM.\<close>

definition answer :: "bool \<Rightarrow> server_data \<Rightarrow> dhcp_packet \<Rightarrow> byte \<Rightarrow> u32 \<Rightarrow> dhcp_packet \<Rightarrow> bool" where
  "answer bootp d packet type y q \<longleftrightarrow> op q = BOOTREPLY \<and> xid q = xid packet \<and> chaddr q = chaddr packet \<and> yiaddr q = y \<and>
     (\<exists>more. built q (head_options bootp d type @ more))"

lemma answer_reply_ok:
  "answer bootp d packet type y q \<Longrightarrow> get_data bootp packet DHCP_MESSAGE_TYPE = None \<or> type \<noteq> MSGTYPE_BOOTP \<Longrightarrow>
     (y \<noteq> 0 \<Longrightarrow> backed d packet s y) \<Longrightarrow> reply_ok bootp d packet s q"
  unfolding answer_def reply_ok_def by blast

lemma dhcp_types [simp]: "DHCPOFFER \<noteq> MSGTYPE_BOOTP" "DHCPACK \<noteq> MSGTYPE_BOOTP"
  by (simp_all add: msg_consts)

lemma answer_built:
  assumes "wf_config d" "wf_packet packet" "type \<in> {DHCPOFFER, DHCPACK} \<or> bootp \<and> type = MSGTYPE_BOOTP"
  obtains p where "init_packet bootp d packet type = Some p" "chaddr p = chaddr packet" "p\<lparr>yiaddr := 0\<rparr> = p"
    "\<And>y v. \<exists>q. (udhcp_add_simple_option (p\<lparr>yiaddr := y\<rparr>) DHCP_LEASE_TIME v \<bind> add_server_options d) = Some q \<and>
      answer bootp d packet type y q"
    "\<And>y. \<exists>q. add_server_options d (p\<lparr>yiaddr := y\<rparr>) = Some q \<and> answer bootp d packet type y q"
proof -
  from init_packet_built [OF assms(2), of bootp d type] assms(3) obtain p where
    p: "init_packet bootp d packet type = Some p" "built p (head_options bootp d type)" "yiaddr p = 0"
    "chaddr p = chaddr packet" "xid p = xid packet" "op p = BOOTREPLY" by auto
  show ?thesis
  proof
    show "\<exists>q. (udhcp_add_simple_option (p\<lparr>yiaddr := y\<rparr>) DHCP_LEASE_TIME v \<bind> add_server_options d) = Some q \<and>
      answer bootp d packet type y q" for y v
    proof -
      from add_lease_time_built [OF built_update_header(2) [OF p(2)], of y v] obtain q more where
        q: "udhcp_add_simple_option (p\<lparr>yiaddr := y\<rparr>) DHCP_LEASE_TIME v = Some q" "built q (head_options bootp d type @ more)"
          "same_client (p\<lparr>yiaddr := y\<rparr>) q" by blast
      from add_server_options_built [OF assms(1) q(2)] q(1,3) p show ?thesis by (auto simp: same_client_def answer_def)
    qed
    show "\<exists>q. add_server_options d (p\<lparr>yiaddr := y\<rparr>) = Some q \<and> answer bootp d packet type y q" for y
      using add_server_options_built [OF assms(1) built_update_header(2) [OF p(2)], of y] p
      by (auto simp: same_client_def answer_def)
    show "p\<lparr>yiaddr := 0\<rparr> = p" using p(3) by simp
  qed (rule p)+
qed

lemma send_inform_ok:
  assumes "wf_config d" "wf_packet packet"
  shows "result_ok bootp d packet (send_inform bootp d packet s)"
proof -
  have "DHCPACK \<in> {DHCPOFFER, DHCPACK} \<or> bootp \<and> DHCPACK = MSGTYPE_BOOTP" by simp
  from answer_built [OF assms this] obtain p q where p: "init_packet bootp d packet DHCPACK = Some p"
    "add_server_options d p = Some q" "answer bootp d packet DHCPACK 0 q" by metis
  have "reply_ok bootp d packet s q" by (rule answer_reply_ok [OF p(3)]) simp_all
  with p show ?thesis by (auto simp: send_inform_def result_ok_def dest!: Reply_send_packet)
qed

lemma send_ACK_ok:
  assumes "wf_config d" "wf_packet packet"
    and "let st = get_static_nip_by_mac (static_leases d) (chaddr packet) in
      if st \<noteq> 0 then nip = st else \<exists>l\<in>set (g_leases s). lease_mac l = take 6 (chaddr packet)"
  shows "result_ok bootp d packet (send_ACK bootp w d packet nip s)"
proof -
  have "DHCPACK \<in> {DHCPOFFER, DHCPACK} \<or> bootp \<and> DHCPACK = MSGTYPE_BOOTP" by simp
  from answer_built [OF assms(1,2) this] obtain p q where
    p: "init_packet bootp d packet DHCPACK = Some p"
      "(udhcp_add_simple_option (p\<lparr>yiaddr := nip\<rparr>) DHCP_LEASE_TIME (bswap32 (select_lease_time bootp d packet)) \<bind> add_server_options d) = Some q"
      "answer bootp d packet DHCPACK nip q" by metis
  obtain r s1 where add: "add_client_lease bootp w packet (chaddr packet) nip (select_lease_time bootp d packet) s = (r, s1)"
    by fastforce
  have "backed d packet s1 nip"
    using assms(3) add_client_lease_stored [OF add] by (auto simp: backed_def Let_def split: if_splits)
  then have "reply_ok bootp d packet (snd (write_leases w s1)) q"
    by (intro answer_reply_ok [OF p(3)]) (auto simp: backed_def write_leases_def Let_def)
  moreover have "send_ACK bootp w d packet nip s =
      Some (snd (write_leases w s1), [send_packet q False, fst (write_leases w s1)])"
    using p add by (auto simp: send_ACK_def answer_def bind_eq_Some_conv Let_def case_prod_unfold)
  moreover have "Reply x dest \<noteq> fst (write_leases w s1)" for x dest by (simp add: write_leases_def Let_def)
  ultimately show ?thesis by (auto simp: result_ok_def dest!: Reply_send_packet)
qed

lemma send_offer_ok:
  assumes "wf_config d" "wf_packet packet" "is_dhcp_client \<or> bootp \<and> get_data bootp packet DHCP_MESSAGE_TYPE = None"
    and "static = get_static_nip_by_mac (static_leases d) (chaddr packet)"
  shows "result_ok bootp d packet (send_offer bootp w d is_dhcp_client packet static lease requested s)"
proof -
  let ?type = "if is_dhcp_client then DHCPOFFER else MSGTYPE_BOOTP"
  have "?type \<in> {DHCPOFFER, DHCPACK} \<or> bootp \<and> ?type = MSGTYPE_BOOTP" using assms(3) by auto
  from answer_built [OF assms(1,2) this] obtain p where
    p: "init_packet bootp d packet ?type = Some p" "chaddr p = chaddr packet"
      "\<And>y v. \<exists>q. (udhcp_add_simple_option (p\<lparr>yiaddr := y\<rparr>) DHCP_LEASE_TIME v \<bind> add_server_options d) = Some q \<and>
        answer bootp d packet ?type y q"
      "\<And>y. \<exists>q. add_server_options d (p\<lparr>yiaddr := y\<rparr>) = Some q \<and> answer bootp d packet ?type y q" by metis
  obtain nip s1 where off: "(if static \<noteq> 0 then (static, s) else offered_nip w d packet lease requested s) = (nip, s1)" by fastforce
  obtain stored s2 where st: "(if static \<noteq> 0 then (True, s1) else if nip = 0 then (False, s1)
      else (let (l, s) = add_client_lease bootp w packet (chaddr p) nip (offer_time d) s1 in (l \<noteq> None, s))) = (stored, s2)" by fastforce
  show ?thesis
  proof (cases stored)
    case False
    then show ?thesis using p(1) off st by (simp add: send_offer_def)
  next
    case True
    obtain q where q: "((if is_dhcp_client then udhcp_add_simple_option (p\<lparr>yiaddr := nip\<rparr>) DHCP_LEASE_TIME (bswap32 (select_lease_time bootp d packet))
        else Some (p\<lparr>yiaddr := nip\<rparr>)) \<bind> add_server_options d) = Some q" "answer bootp d packet ?type nip q"
      using p(3) [of nip "bswap32 (select_lease_time bootp d packet)"] p(4) [of nip] by (cases is_dhcp_client) auto
    obtain fin where fin: "udhcp_end_option (options q) = Some fin" using q(2) end_option_built by (auto simp: answer_def)
    have "backed d packet s2 nip"
    proof (cases "static = 0")
      case static: True
      then obtain l where "add_client_lease bootp w packet (chaddr packet) nip (offer_time d) s1 = (l, s2)" "l \<noteq> None"
        using st True p(2) by (auto split: if_splits prod.splits)
      with add_client_lease_stored static assms(4) show ?thesis by (auto simp: backed_def)
    next
      case False
      with off assms(4) show ?thesis by (simp add: backed_def)
    qed
    then have "reply_ok bootp d packet s2 q" using assms(3) by (intro answer_reply_ok [OF q(2)]) auto
    moreover have "send_offer bootp w d is_dhcp_client packet static lease requested s =
        Some (s2, if \<not> is_dhcp_client \<and> fin \<ge> RFC1048_OPTIONS_BUFSIZE then [] else [send_packet q False])"
      using p(1) off st True q(1) fin unfolding send_offer_def by (auto simp: bind_eq_Some_conv)
    ultimately show ?thesis by (auto simp: result_ok_def dest!: Reply_send_packet)
  qed
qed

lemma find_client_lease_cases:
  assumes "find_client_lease d packet s = Some ptr"
  shows "let st = get_static_nip_by_mac (static_leases d) (chaddr packet) in
    if st \<noteq> 0 then ptr_nip ptr s = st else \<exists>l\<in>set (g_leases s). lease_mac l = take 6 (chaddr packet)"
  using assms
  by (auto simp: find_client_lease_def find_lease_by_mac_def Let_def split: if_splits dest!: find_index_Some)

lemma handle_message_ok:
  assumes "wf_config d" "wf_packet packet" "msg_type \<noteq> None \<or> bootp \<and> get_data bootp packet DHCP_MESSAGE_TYPE = None"
  shows "result_ok bootp d packet (handle_message bootp w d packet msg_type server_id s)"
proof -
  note offer = send_offer_ok [OF assms(1,2) _ refl]
  have "result_ok bootp d packet (do_request bootp w d packet (find_client_lease d packet s) server_id requested s)" for requested
  proof (cases "find_client_lease d packet s")
    case (Some ptr)
    from send_ACK_ok [OF assms(1,2) find_client_lease_cases [OF this]] show ?thesis
      using Some send_NAK_ok [OF assms(2)] by (simp add: do_request_def Let_def)
  qed (use send_NAK_ok [OF assms(2)] in \<open>simp add: do_request_def Let_def\<close>)
  moreover have "result_ok bootp d packet (do_decline w d lease server_id requested s)" for lease requested
    by (simp add: do_decline_def get_time_def)
  moreover have "result_ok bootp d packet (do_release w packet lease server_id s)" for lease
    by (simp add: do_release_def get_time_def)
  ultimately show ?thesis
    using offer send_inform_ok [OF assms(1,2)] assms(3) unfolding handle_message_def Let_def
    by (auto split: option.splits)
qed

lemma handle_packet_ok:
  assumes "wf_config d" "wf_packet packet"
  shows "result_ok bootp d packet (handle_packet bootp w d packet s)"
  using handle_message_ok [OF assms, of "map_option hd (get_data bootp packet DHCP_MESSAGE_TYPE)" bootp]
  by (auto simp: handle_packet_def Let_def split: option.splits)

text \<open>C1: Whatever packet arrives, the server stays inside the buffers of the reply it builds; the reply answers the
  client that asked and, unless the client speaks BOOTP only, carries the identity of this server;
  and an address it gives is the one reserved for the client, or is recorded for the client in
  the lease table.\<close>

theorem reply_backed:
  assumes "wf_config d" and "wf_packet packet"
  shows "\<exists>s' outs. handle_packet bootp w d packet s = Some (s', outs) \<and>
    (\<forall>p dest. Reply p dest \<in> set outs \<longrightarrow>
      op p = BOOTREPLY \<and> xid p = xid packet \<and> chaddr p = chaddr packet \<and> wf_packet p \<and>
      (get_data bootp packet DHCP_MESSAGE_TYPE \<noteq> None \<longrightarrow> get_data bootp p DHCP_SERVER_ID = Some (store_le 4 (server_nip d))) \<and>
      (yiaddr p \<noteq> 0 \<longrightarrow> backed d packet s' (yiaddr p)))"
proof -
  have id: "get_data bootp p DHCP_SERVER_ID = Some (store_le 4 (server_nip d))"
    if "built p (head_options bootp d type @ more)" "type \<noteq> MSGTYPE_BOOTP" for p type more
    using that get_option_holds [of p "head_options bootp d type @ more" bootp DHCP_SERVER_ID]
    by (simp add: built_def get_data_def head_options_def dhcp_consts)
  have "wf_packet p" if "built p os" for p os using that by (simp add: built_def)
  note wf = this
  from handle_packet_ok [OF assms, of bootp w s] obtain s' outs where
    h: "handle_packet bootp w d packet s = Some (s', outs)" "\<And>p dest. Reply p dest \<in> set outs \<Longrightarrow> reply_ok bootp d packet s' p"
    by (auto simp: result_ok_def)
  show ?thesis
  proof (intro exI conjI allI impI)
    fix p dest
    assume "Reply p dest \<in> set outs"
    note ok = h(2) [OF this, unfolded reply_ok_def]
    then show "op p = BOOTREPLY" "xid p = xid packet" "chaddr p = chaddr packet" "wf_packet p" using wf by blast+
    from ok show "yiaddr p \<noteq> 0 \<Longrightarrow> backed d packet s' (yiaddr p)" by blast
    from ok id show "get_data bootp packet DHCP_MESSAGE_TYPE \<noteq> None \<Longrightarrow> get_data bootp p DHCP_SERVER_ID = Some (store_le 4 (server_nip d))"
      by metis
  qed (rule h)
qed

definition discover_packet :: "u32 \<Rightarrow> dhcp_packet" where
  "discover_packet nip = zero_packet\<lparr>op := BOOTREQUEST, hlen := 6, xid := 7, chaddr := [0, 9, 9, 9, 9, 9] @ replicate 10 0,
     options := enc_option (DHCP_MESSAGE_TYPE, [DHCPDISCOVER]) @ enc_option (DHCP_REQUESTED_IP, store_le 4 nip) @ DHCP_END # replicate 378 0\<rparr>"

lemma discover_packet_wf: "wf_packet (discover_packet nip)"
  by (simp add: discover_packet_def wf_packet_def zero_packet_def DHCP_OPTIONS_BUFSIZE_def)

lemma discover_packet_holds:
  "holds (options (discover_packet nip)) [(DHCP_MESSAGE_TYPE, [DHCPDISCOVER]), (DHCP_REQUESTED_IP, store_le 4 nip)]"
  by (auto simp: discover_packet_def holds_def wf_option_def dhcp_consts)

lemma demo_config_wf: "wf_config demo_server"
  by (simp add: wf_config_def demo_server_def)

theorem reply_backed_witness:
  "get_data True (discover_packet 0) DHCP_MESSAGE_TYPE = Some [DHCPDISCOVER] \<and>
   (\<exists>s' outs. handle_packet True demo_world demo_server (discover_packet 0) \<lparr>g_leases = [zero_lease], tick = 0\<rparr> = Some (s', outs))"
proof -
  have "get_data True (discover_packet 0) DHCP_MESSAGE_TYPE = Some [DHCPDISCOVER]"
    using get_option_holds [OF discover_packet_holds [of 0], of True DHCP_MESSAGE_TYPE] by (simp add: get_data_def)
  with reply_backed [OF demo_config_wf discover_packet_wf [of 0], of True demo_world "\<lparr>g_leases = [zero_lease], tick = 0\<rparr>"]
  show ?thesis by blast
qed

subsection \<open>The lease table over time\<close>

lemma nobody_responds_unique [inv_intros]:
  "unique_nips (g_leases s) \<Longrightarrow> unique_nips (g_leases (snd (nobody_responds_to_arp w d nip m s)))"
  by (simp add: nobody_responds_to_arp_def Let_def add_lease_unique)

lemma find_turn_unique:
  "unique_nips (g_leases s) \<Longrightarrow> find_turn w d m addr oldest s = (r, oldest', s') \<Longrightarrow> unique_nips (g_leases s')"
  using nobody_responds_unique [of s w d "bswap32 addr" m]
  by (auto simp: find_turn_def Let_def case_prod_unfold split: if_splits option.splits)

lemma find_loop_unique:
  "unique_nips (g_leases s) \<Longrightarrow> unique_nips (g_leases (snd (find_loop w d m addr oldest s)))"
proof (induction w d m addr oldest s rule: find_loop.induct)
  case (1 w d m addr oldest s)
  obtain r oldest' s' where turn: "find_turn w d m addr oldest s = (r, oldest', s')" by (metis prod.exhaust)
  with 1(2) have u: "unique_nips (g_leases s')" by (rule find_turn_unique)
  then have "unique_nips (g_leases (snd (find_last w d m oldest' s')))"
    by (auto simp: find_last_def is_expired_lease_def get_time_def case_prod_unfold Let_def intro: nobody_responds_unique split: option.splits)
  with 1(1) [OF turn [symmetric]] u turn show ?case
    by (subst find_loop.simps) (auto split: option.splits)
qed

lemma offered_nip_unique:
  "unique_nips (g_leases s) \<Longrightarrow> unique_nips (g_leases (snd (offered_nip w d p lease requested s)))"
  by (auto simp: offered_nip_def find_free_or_expired_nip_def find_loop_unique is_expired_lease_def get_time_def
      case_prod_unfold Let_def split: option.splits)

lemma add_client_lease_unique:
  "unique_nips (g_leases s) \<Longrightarrow> unique_nips (g_leases (snd (add_client_lease bootp w p mac nip t s)))"
  by (auto simp: add_client_lease_def add_lease_unique split: option.splits)

lemma unique_update:
  assumes "unique_nips ls" "\<And>l. lease_nip (f l) = lease_nip l"
  shows "unique_nips (ls[i := f (ls ! i)])"
proof -
  have "lease_nip (ls[i := f (ls ! i)] ! j) = lease_nip (ls ! j)" if "j < length ls" for j
    using that assms(2) by (cases "j = i") simp_all
  with assms(1) show ?thesis by (simp add: unique_nips_def)
qed

lemma update_entry_unique:
  "unique_nips (g_leases s) \<Longrightarrow> (\<And>l. lease_nip (f l) = lease_nip l) \<Longrightarrow> unique_nips (g_leases (update_entry p f s))"
  by (simp add: update_entry_def unique_update split: lease_ptr.splits)

lemma send_offer_unique:
  assumes "unique_nips (g_leases s)" "send_offer bootp w d c packet static lease requested s = Some (s', outs)"
  shows "unique_nips (g_leases s')"
proof -
  obtain nip s1 where off: "(if static \<noteq> 0 then (static, s) else offered_nip w d packet lease requested s) = (nip, s1)" by fastforce
  then have "unique_nips (g_leases s1)"
    using assms(1) offered_nip_unique [OF assms(1), of w d packet lease requested] by (auto split: if_splits)
  then have "unique_nips (g_leases (snd (add_client_lease bootp w packet mac nip (offer_time d) s1)))" for mac
    by (rule add_client_lease_unique)
  with \<open>unique_nips (g_leases s1)\<close> assms(2) off show ?thesis
    by (auto simp: send_offer_def bind_eq_Some_conv Let_def case_prod_unfold split: if_splits)
qed

lemma handle_packet_unique [inv_intros]:
  assumes "unique_nips (g_leases s)" "handle_packet bootp w d packet s = Some (s', outs)"
  shows "unique_nips (g_leases s')"
proof -
  have ack: "unique_nips (g_leases s')" if "send_ACK bootp w d packet nip s = Some (s', outs)" for nip
    using that assms(1)
    by (auto simp: send_ACK_def bind_eq_Some_conv Let_def case_prod_unfold write_leases_def intro: add_client_lease_unique)
  have nak: "unique_nips (g_leases s')" if "send_NAK bootp d packet s = Some (s', outs) \<or> send_inform bootp d packet s = Some (s', outs)"
    using that assms(1) by (auto simp: send_NAK_def send_inform_def bind_eq_Some_conv)
  have decline: "unique_nips (g_leases s')" if "do_decline w d lease sid req s = Some (s', outs)" for lease sid req
    using that assms(1) by (auto simp: do_decline_def get_time_def intro!: update_entry_unique split: if_splits)
  have release: "unique_nips (g_leases s')" if "do_release w packet lease sid s = Some (s', outs)" for lease sid
    using that assms(1) by (auto simp: do_release_def get_time_def intro!: update_entry_unique split: if_splits)
  have "unique_nips (g_leases s')" if "handle_message bootp w d packet t sid s = Some (s', outs)" for t sid
    using that assms(1) ack nak decline release
    by (auto simp: handle_message_def do_request_def Let_def dest: send_offer_unique split: if_splits option.splits)
  with assms show ?thesis by (auto simp: handle_packet_def Let_def split: if_splits option.splits)
qed

lemma read_lease_loop_unique:
  "unique_nips (g_leases s) \<Longrightarrow> unique_nips (g_leases (read_lease_loop w d t ls s))"
proof (induction ls arbitrary: s)
  case (Cons l ls)
  then have "unique_nips (g_leases (snd (add_lease w mac nip e h n s)))" for mac nip e h n by (intro add_lease_unique)
  with Cons show ?case by (auto simp: Let_def split: prod.splits option.splits) (metis snd_conv)+
qed simp

lemma unique_initial: "unique_nips (replicate n zero_lease)"
  by (simp add: unique_nips_def)

text \<open>
  The states of the server: the table allocated at the start, with the lease file loaded into it or
  not, then any sequence of received packets and of lease files written (on a signal or a timeout).
\<close>

inductive reachable :: "bool \<Rightarrow> world \<Rightarrow> server_data \<Rightarrow> nat \<Rightarrow> server \<Rightarrow> bool"
  for bootp w d max_leases where
  no_file: "reachable bootp w d max_leases \<lparr>g_leases = replicate max_leases zero_lease, tick = 0\<rparr>"
| load: "reachable bootp w d max_leases (read_leases w d written_at ls \<lparr>g_leases = replicate max_leases zero_lease, tick = 0\<rparr>)"
| packet: "reachable bootp w d max_leases s \<Longrightarrow> handle_packet bootp w d p s = Some (s', outs) \<Longrightarrow> reachable bootp w d max_leases s'"
| save: "reachable bootp w d max_leases s \<Longrightarrow> reachable bootp w d max_leases (snd (write_leases w s))"

lemma reachable_unique: "reachable bootp w d n s \<Longrightarrow> unique_nips (g_leases s)"
proof (induction rule: reachable.induct)
  case (load written_at ls)
  show ?case by (simp add: read_leases_def Let_def read_lease_loop_unique unique_initial)
qed (auto simp: unique_initial write_leases_def Let_def intro: handle_packet_unique)

text \<open>C3: In every state the server can reach, whatever lease file it loaded and whatever packets it received, no
  address is in two entries of the lease table.\<close>

theorem no_address_twice:
  assumes "reachable bootp w d n s" and "i < length (g_leases s)" and "j < length (g_leases s)" and "i \<noteq> j"
    and "lease_nip (g_leases s ! i) \<noteq> 0"
  shows "lease_nip (g_leases s ! i) \<noteq> lease_nip (g_leases s ! j)"
  using reachable_unique [OF assms(1)] assms(2-5) by (auto dest: unique_nipsD)

definition demo_file :: "dyn_lease list" where
  "demo_file = [\<lparr>expires = bswap32 600, lease_nip = 0x1500a8c0, lease_mac = [0, 0, 0, 0, 0, 1], hostname = []\<rparr>,
     \<lparr>expires = bswap32 600, lease_nip = 0x1600a8c0, lease_mac = [0, 0, 0, 0, 0, 2], hostname = []\<rparr>]"

theorem no_address_twice_witness:
  "map lease_nip (g_leases (read_leases demo_world demo_server 1000 demo_file \<lparr>g_leases = replicate 2 zero_lease, tick = 0\<rparr>)) =
     [0x1600a8c0, 0x1500a8c0] \<and> (0x1600a8c0 :: u32) \<noteq> 0x1500a8c0"
proof -
  let ?s = "read_leases demo_world demo_server 1000 demo_file \<lparr>g_leases = replicate 2 zero_lease, tick = 0\<rparr>"
  have m: "map lease_nip (g_leases ?s) = [0x1600a8c0, 0x1500a8c0]" by code_simp
  then have len: "length (g_leases ?s) = 2" by (metis length_map length_Cons list.size(3) numeral_2_eq_2)
  have nth: "lease_nip (g_leases ?s ! 0) = 0x1600a8c0" "lease_nip (g_leases ?s ! 1) = 0x1500a8c0"
    using arg_cong [OF m, of "\<lambda>xs. xs ! 0"] arg_cong [OF m, of "\<lambda>xs. xs ! 1"] len by simp_all
  have "reachable True demo_world demo_server 2 ?s" by (rule reachable.load)
  from no_address_twice [OF this, of 0 1] nth len m show ?thesis by simp
qed

subsection \<open>One lease per MAC from the file\<close>

definition unique_macs :: "dyn_lease list \<Rightarrow> bool" where
  "unique_macs ls \<longleftrightarrow> (\<forall>i<length ls. \<forall>j<length ls. lease_mac (ls ! i) = lease_mac (ls ! j) \<longrightarrow>
     lease_nip (ls ! i) \<noteq> 0 \<longrightarrow> lease_nip (ls ! j) \<noteq> 0 \<longrightarrow> i = j)"

lemma add_lease_unique_macs:
  assumes "unique_macs (g_leases s)" "add_lease w (Some mac) nip e h n s = (r, s')"
  shows "unique_macs (g_leases s')"
proof -
  let ?ls = "cleared (Some mac) nip (g_leases s)"
  have same: "lease_nip (?ls ! i) \<noteq> 0 \<Longrightarrow> ?ls ! i = g_leases s ! i \<and> lease_mac (g_leases s ! i) \<noteq> take 6 mac"
    if "i < length (g_leases s)" for i using that by (auto simp: nth_cleared clears_def split: if_splits)
  have cl: "unique_macs ?ls"
    using assms(1) unfolding unique_macs_def by (metis length_cleared same)
  show ?thesis using assms(2)
  proof (cases rule: add_lease_cases)
    case full
    with cl show ?thesis by simp
  next
    case (stored i)
    show ?thesis unfolding unique_macs_def
    proof (intro allI impI, goal_cases)
      case (1 j k)
      then have jk: "j < length (g_leases s)" "k < length (g_leases s)" by (simp_all add: stored)
      consider "j = i" "k = i" | "j = i" "k \<noteq> i" | "j \<noteq> i" "k = i" | "j \<noteq> i" "k \<noteq> i" by blast
      then show ?case
      proof cases
        case 4
        with 1 jk cl show ?thesis by (simp add: stored nth_stored unique_macs_def)
      qed (use 1 jk same [of j] same [of k] in \<open>auto simp: stored nth_stored\<close>)
    qed
  qed
qed

lemma read_lease_loop_unique_macs:
  "unique_macs (g_leases s) \<Longrightarrow> unique_macs (g_leases (read_lease_loop w d t ls s))"
  by (induction ls arbitrary: s) (auto simp: Let_def split: prod.splits option.splits dest: add_lease_unique_macs)

text \<open>C35: Loading the lease file restores at most one address per MAC.  For clients that is intended; but the
  addresses that were declined or found in use are saved with the MAC 0, so of all of them only the last one
  is still blocked after a restart.\<close>

theorem read_leases_one_per_mac:
  "unique_macs (g_leases (read_leases w d written_at ls \<lparr>g_leases = replicate n zero_lease, tick = t\<rparr>))"
proof -
  have "unique_macs (replicate n zero_lease)" by (simp add: unique_macs_def)
  then show ?thesis by (simp add: read_leases_def Let_def read_lease_loop_unique_macs)
qed


end
