(* ===== verification/Udhcpd_Exchange.thy ===== *)
theory Udhcpd_Exchange
  imports Udhcpd
begin

text \<open>
  A whole exchange with the server: a client is offered an address, other clients talk to the server in
  between, and the client then asks for the address.  \<open>undisturbed\<close> is the guarantee every operation of
  the server gives to the holder of a lease; it is composed along the operations of \<^verbatim>\<open>dhcpd.c\<close>.
\<close>

subsection \<open>The entry of a client\<close>

text \<open>The entry \<open>i\<close> is the only one of the MAC \<open>m\<close>.\<close>

definition owns :: "byte list \<Rightarrow> nat \<Rightarrow> server \<Rightarrow> bool" where
  "owns m i s \<longleftrightarrow> i < length (g_leases s) \<and> lease_mac (g_leases s ! i) = m \<and>
     (\<forall>j<length (g_leases s). lease_mac (g_leases s ! j) = m \<longrightarrow> j = i)"

text \<open>The lease of the entry is in use and was so at every reading of the clock before \<open>t\<close>.\<close>

definition live :: "world \<Rightarrow> nat \<Rightarrow> nat \<Rightarrow> server \<Rightarrow> bool" where
  "live w t i s \<longleftrightarrow> lease_nip (g_leases s ! i) \<noteq> 0 \<and> expires (g_leases s ! i) \<noteq> 0 \<and>
     (\<forall>u<t. clock w u \<le> expires (g_leases s ! i))"

definition keeps :: "byte list \<Rightarrow> nat \<Rightarrow> server \<Rightarrow> server \<Rightarrow> bool" where
  "keeps m i s s' \<longleftrightarrow> owns m i s' \<and> unique_nips (g_leases s') \<and> g_leases s' ! i = g_leases s ! i"

definition undisturbed :: "world \<Rightarrow> byte list \<Rightarrow> nat \<Rightarrow> server \<Rightarrow> server \<Rightarrow> bool" where
  "undisturbed w m i s s' \<longleftrightarrow> tick s \<le> tick s' \<and>
     (owns m i s \<and> unique_nips (g_leases s) \<and> live w (tick s') i s \<longrightarrow> keeps m i s s')"

lemma live_earlier: "live w t i s \<Longrightarrow> u \<le> t \<Longrightarrow> live w u i s"
  by (auto simp: live_def)

lemma undisturbed_refl [simp]: "undisturbed w m i s s"
  by (simp add: undisturbed_def keeps_def)

lemma undisturbed_tick [simp]: "tick s \<le> t \<Longrightarrow> undisturbed w m i s (s\<lparr>tick := t\<rparr>)"
  by (simp add: undisturbed_def keeps_def owns_def)

text \<open>Later steps may rely on what holds of the state they start in.\<close>

lemma undisturbed_trans:
  assumes "undisturbed w m i s s1"
    and "tick s1 \<le> tick s2"
    and "owns m i s1 \<Longrightarrow> unique_nips (g_leases s1) \<Longrightarrow> live w (tick s2) i s1 \<Longrightarrow> undisturbed w m i s1 s2"
  shows "undisturbed w m i s s2"
  unfolding undisturbed_def
proof (intro conjI impI)
  show "tick s \<le> tick s2" using assms(1,2) by (simp add: undisturbed_def)
  assume a: "owns m i s \<and> unique_nips (g_leases s) \<and> live w (tick s2) i s"
  then have "live w (tick s1) i s" using assms(2) live_earlier by blast
  with a assms(1) have k: "keeps m i s s1" by (simp add: undisturbed_def)
  with a have "live w (tick s2) i s1" by (simp add: live_def keeps_def)
  with k assms(3) have "keeps m i s1 s2" by (simp add: keeps_def undisturbed_def)
  with k show "keeps m i s s2" by (simp add: keeps_def)
qed

lemma undisturbed_later: "undisturbed w m i s s' \<Longrightarrow> tick s \<le> tick s'"
  by (simp add: undisturbed_def)

lemma undisturbed_comp: "undisturbed w m i s s1 \<Longrightarrow> undisturbed w m i s1 s2 \<Longrightarrow> undisturbed w m i s s2"
  using undisturbed_trans undisturbed_later by blast

lemma undisturbed_after_tick:
  "undisturbed w m i (s\<lparr>tick := tick s + n\<rparr>) s' \<Longrightarrow> undisturbed w m i s s'"
  using undisturbed_comp undisturbed_tick le_add1 by blast

lemma undisturbedI:
  "tick s \<le> tick s' \<Longrightarrow> (owns m i s \<Longrightarrow> unique_nips (g_leases s) \<Longrightarrow> live w (tick s') i s \<Longrightarrow> keeps m i s s') \<Longrightarrow>
    undisturbed w m i s s'"
  by (simp add: undisturbed_def)

subsection \<open>What the lease table does for others\<close>

text \<open>Adding a lease for somebody else, of an address that is not the holder's or whose lease has run out.\<close>

lemma add_lease_undisturbed:
  assumes "mac \<noteq> None \<Longrightarrow> take 6 (the mac) \<noteq> m" and "m \<noteq> replicate 6 0"
    and "owns m i s \<Longrightarrow> unique_nips (g_leases s) \<Longrightarrow> lease_nip (g_leases s ! i) = nip \<Longrightarrow> nip \<noteq> 0 \<Longrightarrow>
      \<exists>u<tick s. expires (g_leases s ! i) < clock w u"
  shows "undisturbed w m i s (snd (add_lease w mac nip leasetime name n s))"
proof -
  obtain r s' where add: "add_lease w mac nip leasetime name n s = (r, s')" by fastforce
  have zero: "lease_mac zero_lease = replicate 6 0" by (simp add: zero_lease_def)
  have tick: "tick s < tick s'" using add by (cases rule: add_lease_cases) simp_all
  have "keeps m i s s'" if o: "owns m i s" "unique_nips (g_leases s)" and live: "live w (tick s') i s"
  proof -
    have i: "i < length (g_leases s)" "lease_mac (g_leases s ! i) = m" using o(1) by (simp_all add: owns_def)
    have "lease_nip (g_leases s ! i) \<noteq> nip"
    proof
      assume "lease_nip (g_leases s ! i) = nip"
      moreover from this live have "nip \<noteq> 0" by (simp add: live_def)
      ultimately obtain u where "u < tick s" "expires (g_leases s ! i) < clock w u" using assms(3) [OF o] by blast
      with live tick show False by (meson live_def less_trans not_le)
    qed
    then have kept: "\<not> clears mac nip (g_leases s ! i)"
      using assms(1) i by (auto simp: clears_def split: option.splits)
    then have cl: "cleared mac nip (g_leases s) ! i = g_leases s ! i" using i by (simp add: nth_cleared)
    have only: "lease_mac (g_leases s ! j) = m \<Longrightarrow> j = i" if "j < length (g_leases s)" for j
      using that o(1) unfolding owns_def by blast
    have mac: "lease_mac (cleared mac nip (g_leases s) ! j) = m \<Longrightarrow> j = i" if "j < length (g_leases s)" for j
      using only [OF that] assms(2) zero that by (cases "clears mac nip (g_leases s ! j)") (simp_all add: nth_cleared)
    have fresh: "lease_mac (fresh_lease mac nip name n t) \<noteq> m" for t
      using assms(1,2) by (cases mac) simp_all
    have "unique_nips (g_leases s')" using add_lease_unique [OF o(2), of w mac nip leasetime name n] add by simp
    moreover have "g_leases s' ! i = g_leases s ! i \<and> length (g_leases s') = length (g_leases s) \<and>
        (\<forall>j<length (g_leases s). lease_mac (g_leases s' ! j) = m \<longrightarrow> j = i)"
      using add
    proof (cases rule: add_lease_cases)
      case full
      with cl mac show ?thesis by simp
    next
      case (stored k)
      have "k \<noteq> i"
      proof
        assume "k = i"
        with stored(5) cl have "expires (g_leases s ! i) = 0 \<or> expires (g_leases s ! i) < clock w (tick s)" by simp
        with live tick show False by (auto simp: live_def not_le [symmetric])
      qed
      then have "g_leases s' ! i = g_leases s ! i" using stored(4) cl i(1) by (simp add: nth_stored)
      moreover have "length (g_leases s') = length (g_leases s)" using stored(4) by simp
      moreover have "j = i" if j: "j < length (g_leases s)" "lease_mac (g_leases s' ! j) = m" for j
      proof (rule mac [OF j(1)])
        have "j \<noteq> k" using j fresh unfolding stored(4) nth_stored [OF j(1)] by metis
        with j show "lease_mac (cleared mac nip (g_leases s) ! j) = m" unfolding stored(4) nth_stored [OF j(1)] by simp
      qed
      ultimately show ?thesis by blast
    qed
    ultimately show ?thesis using i unfolding keeps_def owns_def by metis
  qed
  with tick show ?thesis by (simp add: add undisturbedI)
qed

text \<open>The excuse of an operation that takes over the address \<open>nip\<close>: the lease of the holder of it has run out.\<close>

definition run_out :: "world \<Rightarrow> byte list \<Rightarrow> nat \<Rightarrow> u32 \<Rightarrow> server \<Rightarrow> bool" where
  "run_out w m i nip s \<longleftrightarrow> (owns m i s \<longrightarrow> unique_nips (g_leases s) \<longrightarrow> lease_nip (g_leases s ! i) = nip \<longrightarrow> nip \<noteq> 0 \<longrightarrow>
     (\<exists>u<tick s. expires (g_leases s ! i) < clock w u))"

lemma owns_tick [simp]: "owns m i (s\<lparr>tick := t\<rparr>) = owns m i s"
  by (simp add: owns_def)

lemma run_out_tick: "run_out w m i nip s \<Longrightarrow> tick s \<le> t \<Longrightarrow> run_out w m i nip (s\<lparr>tick := t\<rparr>)"
  unfolding run_out_def by (auto intro: less_le_trans)

lemma run_out_free: "\<forall>l\<in>set (g_leases s). lease_nip l \<noteq> nip \<Longrightarrow> run_out w m i nip s"
  by (auto simp: run_out_def owns_def)

text \<open>An address of another entry is not the holder's.\<close>

lemma run_out_other:
  assumes "k < length (g_leases s)" and "owns m i s \<Longrightarrow> k = i \<Longrightarrow> \<exists>u<tick s. expires (g_leases s ! i) < clock w u"
  shows "run_out w m i (lease_nip (g_leases s ! k)) s"
  unfolding run_out_def
proof (intro impI)
  assume a: "owns m i s" "unique_nips (g_leases s)" "lease_nip (g_leases s ! i) = lease_nip (g_leases s ! k)"
    "lease_nip (g_leases s ! k) \<noteq> 0"
  have "k = i" by (rule unique_nipsD [OF a(2) assms(1)]) (use a in \<open>simp_all add: owns_def\<close>)
  then show "\<exists>u<tick s. expires (g_leases s ! i) < clock w u" by (rule assms(2) [OF a(1)])
qed

lemma add_lease_run_out:
  assumes "mac \<noteq> None \<Longrightarrow> take 6 (the mac) \<noteq> m" and "m \<noteq> replicate 6 0" and "run_out w m i nip s"
  shows "undisturbed w m i s (snd (add_lease w mac nip leasetime name n s))"
  using assms by (intro add_lease_undisturbed) (simp_all add: run_out_def)

lemma nobody_responds_undisturbed:
  assumes "m \<noteq> replicate 6 0" "run_out w m i nip s"
  shows "undisturbed w m i s (snd (nobody_responds_to_arp w d nip sm s))"
proof -
  let ?s = "s\<lparr>tick := tick s + 1\<rparr>"
  have "undisturbed w m i ?s (snd (add_lease w None nip (conflict_time d) None 0 ?s))"
    by (rule add_lease_run_out) (use assms run_out_tick [of w m i nip s "tick s + 1"] in simp_all)
  then have "undisturbed w m i s (snd (add_lease w None nip (conflict_time d) None 0 ?s))" by (rule undisturbed_after_tick)
  then show ?thesis by (simp add: nobody_responds_to_arp_def Let_def)
qed

lemma find_lease_by_nip_None: "find_lease_by_nip nip s = None \<Longrightarrow> \<forall>l\<in>set (g_leases s). lease_nip l \<noteq> nip"
  by (simp add: find_lease_by_nip_def find_index_None)

lemma find_lease_by_nip_Some:
  "find_lease_by_nip nip s = Some j \<Longrightarrow> j < length (g_leases s) \<and> lease_nip (g_leases s ! j) = nip"
  by (auto simp: find_lease_by_nip_def dest: find_index_Some)

lemma find_turn_undisturbed:
  assumes "m \<noteq> replicate 6 0" "find_turn w d sm addr oldest s = (r, oldest', s')"
  shows "undisturbed w m i s s'"
proof (cases "find_lease_by_nip (bswap32 addr) s")
  case None
  from nobody_responds_undisturbed [OF assms(1) run_out_free [OF find_lease_by_nip_None [OF this]], of w i d sm]
  have "undisturbed w m i s (snd (nobody_responds_to_arp w d (bswap32 addr) sm s))" .
  with None assms(2) show ?thesis by (auto simp: find_turn_def Let_def case_prod_unfold split: if_splits)
next
  case (Some j)
  with assms(2) show ?thesis by (auto simp: find_turn_def Let_def split: if_splits)
qed

lemma find_turn_length:
  "find_turn w d sm addr oldest s = (r, oldest', s') \<Longrightarrow> length (g_leases s') = length (g_leases s)"
  by (auto simp: find_turn_def nobody_responds_to_arp_def Let_def case_prod_unfold split: if_splits option.splits)

lemma find_turn_oldest:
  assumes "find_turn w d sm addr oldest s = (r, oldest', s')" "\<And>k. oldest = Some k \<Longrightarrow> k < length (g_leases s)"
    and "oldest' = Some k"
  shows "k < length (g_leases s')"
  using assms find_lease_by_nip_Some [of "bswap32 addr" s] unfolding find_turn_length [OF assms(1)]
  by (auto simp: find_turn_def Let_def case_prod_unfold split: if_splits option.splits)

lemma find_last_undisturbed:
  assumes "m \<noteq> replicate 6 0" "\<And>k. oldest = Some k \<Longrightarrow> k < length (g_leases s)"
  shows "undisturbed w m i s (snd (find_last w d sm oldest s))"
proof (cases oldest)
  case (Some k)
  let ?s = "s\<lparr>tick := tick s + 1\<rparr>"
  let ?s' = "snd (nobody_responds_to_arp w d (lease_nip (g_leases s ! k)) sm ?s)"
  have "undisturbed w m i s ?s'" if "expires (g_leases s ! k) < clock w (tick s)"
  proof -
    have "run_out w m i (lease_nip (g_leases ?s ! k)) ?s" by (rule run_out_other) (use that assms(2) Some in auto)
    from nobody_responds_undisturbed [OF assms(1) this] have "undisturbed w m i ?s ?s'" by simp
    then show ?thesis by (rule undisturbed_after_tick)
  qed
  with Some show ?thesis by (simp add: find_last_def is_expired_lease_def get_time_def case_prod_unfold Let_def)
qed (simp add: find_last_def)

lemma find_loop_undisturbed:
  assumes "m \<noteq> replicate 6 0" "\<And>k. oldest = Some k \<Longrightarrow> k < length (g_leases s)"
  shows "undisturbed w m i s (snd (find_loop w d sm addr oldest s))"
  using assms(2)
proof (induction w d sm addr oldest s rule: find_loop.induct)
  case (1 w d sm addr oldest s)
  obtain r oldest' s' where turn: "find_turn w d sm addr oldest s = (r, oldest', s')" by (metis prod.exhaust)
  note oldest' = find_turn_oldest [OF turn 1(2)]
  note rest = undisturbed_comp [OF find_turn_undisturbed [OF assms(1) turn]]
  show ?case
  proof (cases r)
    case None
    show ?thesis
    proof (cases "addr + 1 \<noteq> end_ip d + 1")
      case True
      with rest [OF 1(1) [OF turn [symmetric] None refl True oldest']] turn None show ?thesis
        by (subst find_loop.simps) simp
    next
      case False
      with rest [OF find_last_undisturbed [OF assms(1) oldest']] turn None show ?thesis by (subst find_loop.simps) simp
    qed
  next
    case (Some nip)
    with turn find_turn_undisturbed [OF assms(1) turn] show ?thesis by (subst find_loop.simps) simp
  qed
qed

subsection \<open>What the handlers do for others\<close>

lemma run_out_other_mac:
  assumes "k < length (g_leases s)" "lease_mac (g_leases s ! k) \<noteq> m"
  shows "run_out w m i (lease_nip (g_leases s ! k)) s"
proof (rule run_out_other [OF assms(1)])
  assume "owns m i s" "k = i"
  with assms(2) show "\<exists>u<tick s. expires (g_leases s ! i) < clock w u" by (simp add: owns_def)
qed

lemma offered_nip_run_out:
  assumes "start_ip d \<le> end_ip d" "unique_nips (g_leases s)"
    and "\<And>k. lease = Some k \<Longrightarrow> k < length (g_leases s) \<and> lease_mac (g_leases s ! k) \<noteq> m"
    and "offered_nip w d packet lease requested s = (nip, s')"
  shows "run_out w m i nip s'"
proof -
  have free: "run_out w m i nip s'" if "find_free_or_expired_nip w d (chaddr packet) s1 = (nip, s')" "g_leases s1 = g_leases s" for s1
  proof -
    have "find_inv d None s1" using assms(2) that(2) by (simp add: find_inv_def)
    from find_loop_ok [OF this order_refl assms(1), of w "chaddr packet"] that(1)
    have "chosen_ok w d (chaddr packet) (nip, s')" by (simp add: find_free_or_expired_nip_def)
    then show ?thesis by (auto simp: chosen_ok_def run_out_def owns_def)
  qed
  show ?thesis
  proof (cases lease)
    case (Some k)
    with assms(3,4) show ?thesis by (auto simp: offered_nip_def intro: run_out_other_mac)
  next
    case None
    show ?thesis
    proof (cases "requested \<noteq> 0 \<and> bswap32 requested \<ge> start_ip d \<and> bswap32 requested \<le> end_ip d")
      case False
      with None assms(4) free [of s] show ?thesis unfolding offered_nip_def by auto
    next
      case True
      show ?thesis
      proof (cases "find_lease_by_nip requested s")
        case nobody: None
        with None True assms(4) show ?thesis by (auto simp: offered_nip_def intro!: run_out_free dest: find_lease_by_nip_None)
      next
        case (Some j)
        let ?s = "s\<lparr>tick := tick s + 1\<rparr>"
        note j = find_lease_by_nip_Some [OF Some]
        show ?thesis
        proof (cases "expires (g_leases s ! j) < clock w (tick s)")
          case expired: True
          with None True Some assms(4) have "nip = lease_nip (g_leases ?s ! j)" "s' = ?s"
            using j by (auto simp add: offered_nip_def is_expired_lease_def get_time_def)
          moreover have "run_out w m i (lease_nip (g_leases ?s ! j)) ?s"
            by (rule run_out_other) (use j expired in auto)
          ultimately show ?thesis by simp
        next
          case False
          with None True Some assms(4) have "find_free_or_expired_nip w d (chaddr packet) ?s = (nip, s')"
            by (simp add: offered_nip_def is_expired_lease_def get_time_def)
          then show ?thesis by (rule free) simp
        qed
      qed
    qed
  qed
qed

lemma offered_nip_undisturbed:
  assumes "m \<noteq> replicate 6 0"
  shows "undisturbed w m i s (snd (offered_nip w d packet lease requested s))"
proof -
  have u: "undisturbed w m i s (snd (find_free_or_expired_nip w d (chaddr packet) s))" for s
    using find_loop_undisturbed [OF assms, of None s] by (simp add: find_free_or_expired_nip_def)
  then have "undisturbed w m i s (snd (find_free_or_expired_nip w d (chaddr packet) (s\<lparr>tick := tick s + 1\<rparr>)))"
    by (rule undisturbed_after_tick)
  with u [of s] show ?thesis
    by (auto simp: offered_nip_def is_expired_lease_def get_time_def case_prod_unfold Let_def split: option.splits)
qed

lemma add_client_lease_undisturbed:
  assumes "take 6 mac \<noteq> m" "m \<noteq> replicate 6 0" "run_out w m i nip s"
  shows "undisturbed w m i s (snd (add_client_lease bootp w packet mac nip t s))"
  using assms by (auto simp: add_client_lease_def intro: add_lease_run_out split: option.splits)

lemma send_offer_undisturbed:
  assumes "start_ip d \<le> end_ip d" "unique_nips (g_leases s)" "m \<noteq> replicate 6 0" "take 6 (chaddr packet) \<noteq> m" "wf_packet packet"
    and "\<And>k. lease = Some k \<Longrightarrow> k < length (g_leases s) \<and> lease_mac (g_leases s ! k) \<noteq> m"
    and "send_offer bootp w d c packet static lease requested s = Some (s', outs)"
  shows "undisturbed w m i s s'"
proof (cases "static = 0")
  case False
  with assms(7) have "s' = s" by (auto simp: send_offer_def bind_eq_Some_conv Let_def split: if_splits)
  then show ?thesis by simp
next
  case True
  obtain nip s1 where off: "offered_nip w d packet lease requested s = (nip, s1)" by fastforce
  have u: "undisturbed w m i s s1" using offered_nip_undisturbed [OF assms(3), of w i s d packet lease requested] off by simp
  have "run_out w m i nip s1" by (rule offered_nip_run_out [OF assms(1,2,6) off])
  then have "undisturbed w m i s1 (snd (add_client_lease bootp w packet (chaddr packet) nip t s1))" for t
    by (intro add_client_lease_undisturbed assms(3,4))
  with u undisturbed_comp have v: "undisturbed w m i s (snd (add_client_lease bootp w packet (chaddr packet) nip t s1))" for t
    by blast
  from init_packet_built [OF assms(5), of bootp d "if c then DHCPOFFER else MSGTYPE_BOOTP"] obtain p where
    p: "init_packet bootp d packet (if c then DHCPOFFER else MSGTYPE_BOOTP) = Some p" "chaddr p = chaddr packet" by blast
  from assms(7) True off p have "s' = s1 \<or> s' = snd (add_client_lease bootp w packet (chaddr packet) nip (offer_time d) s1)"
    by (auto simp: send_offer_def bind_eq_Some_conv Let_def case_prod_unfold split: if_splits)
  with u v show ?thesis by blast
qed

lemma write_leases_undisturbed: "undisturbed w m i s (snd (write_leases w s))"
  by (simp add: write_leases_def Let_def)

lemma send_ACK_undisturbed:
  assumes "m \<noteq> replicate 6 0" "take 6 (chaddr packet) \<noteq> m" "wf_config d" "wf_packet packet" "run_out w m i nip s"
    and "send_ACK bootp w d packet nip s = Some (s', outs)"
  shows "undisturbed w m i s s'"
proof -
  let ?t = "select_lease_time bootp d packet"
  have "DHCPACK \<in> {DHCPOFFER, DHCPACK} \<or> bootp \<and> DHCPACK = MSGTYPE_BOOTP" by simp
  from answer_built [OF assms(3,4) this] obtain p q where
    p: "init_packet bootp d packet DHCPACK = Some p"
      "(udhcp_add_simple_option (p\<lparr>yiaddr := nip\<rparr>) DHCP_LEASE_TIME (bswap32 ?t) \<bind> add_server_options d) = Some q"
      "answer bootp d packet DHCPACK nip q" by metis
  then have "s' = snd (write_leases w (snd (add_client_lease bootp w packet (chaddr packet) nip ?t s)))"
    using assms(6) by (auto simp: send_ACK_def answer_def bind_eq_Some_conv Let_def case_prod_unfold)
  with undisturbed_comp [OF add_client_lease_undisturbed [OF assms(2,1,5)] write_leases_undisturbed] show ?thesis by simp
qed

lemma static_nip_reserved:
  "get_static_nip_by_mac ls mac \<noteq> 0 \<Longrightarrow> is_nip_reserved_as_static ls (get_static_nip_by_mac ls mac)"
  by (induction ls) auto

lemma update_entry_undisturbed:
  assumes "\<And>k. p = Entry k \<Longrightarrow> k < length (g_leases s) \<and> lease_mac (g_leases s ! k) \<noteq> m"
    and "\<And>l. lease_mac (f l) = lease_mac l \<or> lease_mac (f l) \<noteq> m" "\<And>l. lease_nip (f l) = lease_nip l"
  shows "undisturbed w m i s (update_entry p f s)"
proof (cases p)
  case (Entry k)
  note k = assms(1) [OF Entry]
  let ?ls = "(g_leases s)[k := f (g_leases s ! k)]"
  have "keeps m i s (s\<lparr>g_leases := ?ls\<rparr>)" if o: "owns m i s" "unique_nips (g_leases s)"
  proof -
    have "k \<noteq> i" using k o(1) by (auto simp: owns_def)
    moreover have "j = i" if "j < length (g_leases s)" "lease_mac (?ls ! j) = m" for j
    proof -
      have "lease_mac (g_leases s ! j) = m" using that k assms(2) [of "g_leases s ! k"] by (cases "j = k") auto
      with that o(1) show ?thesis unfolding owns_def by blast
    qed
    moreover have "unique_nips ?ls" by (rule unique_update [OF o(2) assms(3)])
    ultimately show ?thesis using o(1) unfolding keeps_def owns_def by simp
  qed
  with Entry show ?thesis by (simp add: update_entry_def undisturbed_def)
qed (simp add: update_entry_def)

text \<open>The lease the server looks up for another client is not the holder's.\<close>

lemma find_client_lease_other:
  assumes "find_client_lease d packet s = Some (Entry k)" "take 6 (chaddr packet) \<noteq> m"
  shows "k < length (g_leases s) \<and> lease_mac (g_leases s ! k) \<noteq> m"
  using assms by (auto simp: find_client_lease_def find_lease_by_mac_def Let_def split: if_splits dest!: find_index_Some)

lemma find_client_lease_run_out:
  assumes "find_client_lease d packet s = Some ptr" "take 6 (chaddr packet) \<noteq> m"
    and "\<not> is_nip_reserved_as_static (static_leases d) (lease_nip (g_leases s ! i))"
  shows "run_out w m i (ptr_nip ptr s) s"
proof (cases ptr)
  case (Entry k)
  with find_client_lease_other [of d packet s k m] assms(1,2) show ?thesis by (simp add: run_out_other_mac)
next
  case (FakeLease nip)
  with assms(1) have "nip = get_static_nip_by_mac (static_leases d) (chaddr packet)" "nip \<noteq> 0"
    by (auto simp: find_client_lease_def Let_def split: if_splits)
  with static_nip_reserved have "is_nip_reserved_as_static (static_leases d) nip" by metis
  with FakeLease assms(3) show ?thesis by (auto simp: run_out_def)
qed

lemma handle_packet_undisturbed:
  assumes "wf_config d" "start_ip d \<le> end_ip d" "unique_nips (g_leases s)" "m \<noteq> replicate 6 0"
    and "take 6 (chaddr packet) \<noteq> m" "wf_packet packet"
    and "\<not> is_nip_reserved_as_static (static_leases d) (lease_nip (g_leases s ! i))"
    and "handle_packet bootp w d packet s = Some (s', outs)"
  shows "undisturbed w m i s s'"
proof -
  let ?lease = "find_client_lease d packet s"
  have entry: "k < length (g_leases s) \<and> lease_mac (g_leases s ! k) \<noteq> m" if "?lease = Some (Entry k)" for k
    by (rule find_client_lease_other [OF that assms(5)])
  have offer: "undisturbed w m i s s'"
    if "send_offer bootp w d c packet static (entry_of ?lease) requested s = Some (s', outs)" for c static requested
    by (rule send_offer_undisturbed [OF assms(2-6) _ that]) (use entry entry_of.elims in \<open>metis option.distinct(1) option.inject\<close>)
  have request: "undisturbed w m i s s'" if "do_request bootp w d packet ?lease server_id requested s = Some (s', outs)"
    for server_id requested
  proof (cases "?lease \<noteq> None \<and> (case requested of None \<Rightarrow> ciaddr packet | Some nip \<Rightarrow> nip) = ptr_nip (the ?lease) s")
    case True
    then obtain ptr where ptr: "?lease = Some ptr" by auto
    from send_ACK_undisturbed [OF assms(4,5,1,6) find_client_lease_run_out [OF ptr assms(5,7)]] True ptr that show ?thesis
      by (auto simp: do_request_def Let_def split: if_splits)
  next
    case False
    with that have "s' = s" by (auto simp: do_request_def send_NAK_def Let_def bind_eq_Some_conv split: if_splits)
    then show ?thesis by simp
  qed
  have upd: "undisturbed w m i s (update_entry ptr f (s\<lparr>tick := tick s + 1\<rparr>))"
    if "?lease = Some ptr" "\<And>l. lease_mac (f l) = lease_mac l \<or> lease_mac (f l) \<noteq> m" "\<And>l. lease_nip (f l) = lease_nip l" for ptr f
    by (rule undisturbed_after_tick [where n = 1], rule update_entry_undisturbed) (use that entry in simp_all)
  have decline: "undisturbed w m i s s'" if "do_decline w d ?lease server_id requested s = Some (s', outs)" for server_id requested
    using that upd [unfolded Suc_eq_plus1 [symmetric]] assms(4) by (auto simp: do_decline_def get_time_def split: if_splits)
  have release: "undisturbed w m i s s'" if "do_release w packet ?lease server_id s = Some (s', outs)" for server_id
    using that upd [unfolded Suc_eq_plus1 [symmetric]] by (auto simp: do_release_def get_time_def split: if_splits)
  have inform: "undisturbed w m i s s'" if "send_inform bootp d packet s = Some (s', outs)"
    using that by (auto simp: send_inform_def bind_eq_Some_conv)
  have "undisturbed w m i s s'" if "handle_message bootp w d packet t server_id s = Some (s', outs)" for t server_id
    using that offer request decline release inform
    by (auto simp: handle_message_def Let_def split: if_splits option.splits)
  with assms(8) show ?thesis by (auto simp: handle_packet_def Let_def split: if_splits option.splits)
qed

subsection \<open>Offer and acknowledgement\<close>

text \<open>Packets of other clients and lease files written, up to the time \<open>T\<close>.\<close>

inductive others :: "bool \<Rightarrow> world \<Rightarrow> server_data \<Rightarrow> byte list \<Rightarrow> nat \<Rightarrow> server \<Rightarrow> server \<Rightarrow> bool"
  for bootp w d m T s where
  nothing: "others bootp w d m T s s"
| packet: "others bootp w d m T s s1 \<Longrightarrow> wf_packet p \<Longrightarrow> take 6 (chaddr p) \<noteq> m \<Longrightarrow>
    handle_packet bootp w d p s1 = Some (s2, outs) \<Longrightarrow> tick s2 \<le> T \<Longrightarrow> others bootp w d m T s s2"
| save: "others bootp w d m T s s1 \<Longrightarrow> tick (snd (write_leases w s1)) \<le> T \<Longrightarrow> others bootp w d m T s (snd (write_leases w s1))"

lemma undisturbed_keeps:
  assumes "undisturbed w m i s1 s2" "tick s2 \<le> T" "live w T i s" "keeps m i s s1"
  shows "keeps m i s s2"
proof -
  have "live w (tick s2) i s1" using live_earlier [OF assms(3,2)] assms(4) by (simp add: live_def keeps_def)
  with assms(1,4) show ?thesis by (simp add: undisturbed_def keeps_def)
qed

lemma others_keeps:
  assumes "others bootp w d m T s s2" "wf_config d" "start_ip d \<le> end_ip d" "m \<noteq> replicate 6 0"
    and "owns m i s" "unique_nips (g_leases s)" "live w T i s"
    and "\<not> is_nip_reserved_as_static (static_leases d) (lease_nip (g_leases s ! i))"
  shows "keeps m i s s2"
  using assms(1)
proof (induction)
  case nothing
  show ?case using assms(5,6) by (simp add: keeps_def)
next
  case (packet s1 p s2 outs)
  then have "undisturbed w m i s1 s2"
    by (intro handle_packet_undisturbed [OF assms(2,3) _ assms(4) packet.hyps(3,2) _ packet.hyps(4)])
      (use assms(8) in \<open>simp_all add: keeps_def\<close>)
  then show ?case by (rule undisturbed_keeps [OF _ packet.hyps(5) assms(7) packet.IH])
next
  case (save s1)
  show ?case by (rule undisturbed_keeps [OF write_leases_undisturbed save.hyps(2) assms(7) save.IH])
qed

lemma add_client_lease_owns:
  assumes "add_client_lease bootp w packet mac nip t s = (Some i, s')" "take 6 mac \<noteq> replicate 6 0"
  shows "owns (take 6 mac) i s' \<and> lease_nip (g_leases s' ! i) = nip"
proof -
  obtain name n where add: "add_lease w (Some mac) nip t name n s = (Some i, s')"
    using assms(1) by (auto simp: add_client_lease_def split: option.splits)
  have zero: "lease_mac zero_lease = replicate 6 0" by (simp add: zero_lease_def)
  from add show ?thesis
  proof (cases rule: add_lease_cases)
    case (stored k)
    let ?l = "fresh_lease (Some mac) nip name n (clock w (tick s + 1) + t)"
    have i: "i < length (g_leases s')" "g_leases s' ! i = ?l" using stored by simp_all
    have "j = i" if j: "j < length (g_leases s)" "lease_mac (g_leases s' ! j) = take 6 mac" for j
    proof (rule ccontr)
      assume "j \<noteq> i"
      with j stored have "lease_mac (cleared (Some mac) nip (g_leases s) ! j) = take 6 mac" by (simp add: nth_stored)
      with j(1) assms(2) zero show False by (auto simp: nth_cleared clears_def split: if_splits)
    qed
    moreover have "length (g_leases s') = length (g_leases s)" using stored by simp
    moreover have "lease_mac (g_leases s' ! i) = take 6 mac" "lease_nip (g_leases s' ! i) = nip" unfolding i(2) by simp_all
    ultimately show ?thesis using i(1) unfolding owns_def by metis
  qed simp
qed

lemma offer_owns:
  assumes "wf_config d" "wf_packet packet" "take 6 (chaddr packet) \<noteq> replicate 6 0"
    and "send_offer bootp w d True packet 0 lease requested s = Some (s', outs)" "Reply p dest \<in> set outs"
  shows "\<exists>i. owns (take 6 (chaddr packet)) i s' \<and> lease_nip (g_leases s' ! i) = yiaddr p \<and> yiaddr p \<noteq> 0"
proof -
  have "DHCPOFFER \<in> {DHCPOFFER, DHCPACK} \<or> bootp \<and> DHCPOFFER = MSGTYPE_BOOTP" by simp
  from answer_built [OF assms(1,2) this] obtain p0 where
    p0: "init_packet bootp d packet DHCPOFFER = Some p0" "chaddr p0 = chaddr packet"
      "\<And>y v. \<exists>q. (udhcp_add_simple_option (p0\<lparr>yiaddr := y\<rparr>) DHCP_LEASE_TIME v \<bind> add_server_options d) = Some q \<and>
        answer bootp d packet DHCPOFFER y q" by metis
  obtain nip s1 where off: "offered_nip w d packet lease requested s = (nip, s1)" by fastforce
  obtain l s2 where add: "add_client_lease bootp w packet (chaddr packet) nip (offer_time d) s1 = (l, s2)" by fastforce
  from p0(3) [of nip "bswap32 (select_lease_time bootp d packet)"] obtain q where
    q: "(udhcp_add_simple_option (p0\<lparr>yiaddr := nip\<rparr>) DHCP_LEASE_TIME (bswap32 (select_lease_time bootp d packet)) \<bind> add_server_options d) = Some q"
      "yiaddr q = nip" by (auto simp: answer_def)
  from assms(4,5) p0(1,2) off add q(1) obtain i where "l = Some i" "s' = s2" "Reply p dest = send_packet q False" "nip \<noteq> 0"
    by (auto simp: send_offer_def bind_eq_Some_conv Let_def split: if_splits)
  with add_client_lease_owns [of bootp w packet "chaddr packet" nip "offer_time d" s1 i s2] add assms(3) q(2)
  show ?thesis by (metis Reply_send_packet)
qed

lemma find_index_only:
  "i < length xs \<Longrightarrow> P (xs ! i) \<Longrightarrow> (\<And>j. j < length xs \<Longrightarrow> P (xs ! j) \<Longrightarrow> j = i) \<Longrightarrow> find_index P xs = Some i"
proof (cases "find_index P xs")
  case None
  then show "i < length xs \<Longrightarrow> P (xs ! i) \<Longrightarrow> find_index P xs = Some i" by (simp add: find_index_None)
next
  case (Some j)
  assume "\<And>j. j < length xs \<Longrightarrow> P (xs ! j) \<Longrightarrow> j = i"
  with find_index_Some [OF Some] Some show "find_index P xs = Some i" by blast
qed

lemma owns_find: "owns (take 6 mac) i s \<Longrightarrow> find_lease_by_mac mac s = Some i"
  unfolding owns_def find_lease_by_mac_def by (intro find_index_only) blast+

lemma send_ACK_reply:
  assumes "wf_config d" "wf_packet packet"
  shows "\<exists>s' outs q dest. send_ACK bootp w d packet nip s = Some (s', outs) \<and> Reply q dest \<in> set outs \<and> yiaddr q = nip \<and>
    get_data bootp q DHCP_MESSAGE_TYPE = Some [DHCPACK]"
proof -
  have "DHCPACK \<in> {DHCPOFFER, DHCPACK} \<or> bootp \<and> DHCPACK = MSGTYPE_BOOTP" by simp
  from answer_built [OF assms(1,2) this] obtain p q where
    p: "init_packet bootp d packet DHCPACK = Some p"
      "(udhcp_add_simple_option (p\<lparr>yiaddr := nip\<rparr>) DHCP_LEASE_TIME (bswap32 (select_lease_time bootp d packet)) \<bind> add_server_options d) = Some q"
      "answer bootp d packet DHCPACK nip q" by metis
  from p(3) obtain more where "built q (head_options bootp d DHCPACK @ more)" by (auto simp: answer_def)
  then have "get_data bootp q DHCP_MESSAGE_TYPE = Some [DHCPACK]"
    using get_option_holds [of q "head_options bootp d DHCPACK @ more" bootp DHCP_MESSAGE_TYPE]
    by (simp add: built_def get_data_def head_options_def)
  moreover have "\<exists>dest. send_packet q False = Reply q dest"
    by (simp add: send_packet_def send_packet_to_client_def send_packet_to_relay_def)
  moreover have "\<exists>s' f. send_ACK bootp w d packet nip s = Some (s', [send_packet q False, f])" "yiaddr q = nip"
    using p by (auto simp: send_ACK_def answer_def bind_eq_Some_conv Let_def case_prod_unfold)
  ultimately show ?thesis by (metis list.set_intros(1))
qed

text \<open>A packet of type \<open>t\<close> that is addressed to this server or to any.\<close>

definition asks :: "bool \<Rightarrow> server_data \<Rightarrow> dhcp_packet \<Rightarrow> byte \<Rightarrow> bool" where
  "asks bootp d packet t \<longleftrightarrow> wf_packet packet \<and> hlen packet = 6 \<and> op packet = BOOTREQUEST \<and>
     get_data bootp packet DHCP_MESSAGE_TYPE = Some [t] \<and> get_data32 bootp packet DHCP_SERVER_ID \<in> {None, Some (server_nip d)}"

text \<open>C2: An address that was offered is confirmed: when a client without static lease was offered an address that is not
  reserved for somebody else, then, whatever other clients send meanwhile, its request for that address is acknowledged
  as long as the offer has not run out.\<close>

theorem offer_honoured:
  assumes "wf_config d" and "start_ip d \<le> end_ip d" and "reachable bootp w d n s"
    and "asks bootp d discover DHCPDISCOVER" and "asks bootp d request DHCPREQUEST" and "chaddr request = chaddr discover"
    and "take 6 (chaddr discover) \<noteq> replicate 6 0" and "get_static_nip_by_mac (static_leases d) (chaddr discover) = 0"
    and "handle_packet bootp w d discover s = Some (s1, outs)" and "Reply p dest \<in> set outs"
    and "\<not> is_nip_reserved_as_static (static_leases d) (yiaddr p)"
    and "others bootp w d (take 6 (chaddr discover)) T s1 s2"
    and "\<forall>l\<in>set (g_leases s1). lease_mac l = take 6 (chaddr discover) \<longrightarrow> expires l \<noteq> 0 \<and> (\<forall>t<T. clock w t \<le> expires l)"
    and "get_data32 bootp request DHCP_REQUESTED_IP = Some (yiaddr p)"
  shows "\<exists>s3 outs' q dest'. handle_packet bootp w d request s2 = Some (s3, outs') \<and> Reply q dest' \<in> set outs' \<and>
    yiaddr q = yiaddr p \<and> get_data bootp q DHCP_MESSAGE_TYPE = Some [DHCPACK]"
proof -
  let ?m = "take 6 (chaddr discover)"
  have uniq: "unique_nips (g_leases s1)"
    by (rule handle_packet_unique [OF reachable_unique [OF assms(3)] assms(9)])
  from assms(4,8,9) obtain lease requested where
    "send_offer bootp w d True discover 0 lease requested s = Some (s1, outs)"
    by (auto simp: handle_packet_def handle_message_def asks_def msg_consts Let_def)
  from offer_owns [OF assms(1) _ assms(7) this assms(10)] assms(4) obtain i where
    i: "owns ?m i s1" "lease_nip (g_leases s1 ! i) = yiaddr p" "yiaddr p \<noteq> 0" by (auto simp: asks_def)
  then have "live w T i s1" using assms(13) by (auto simp: live_def owns_def)
  from others_keeps [OF assms(12,1,2,7) i(1) uniq this] assms(11) i(2) have k: "keeps ?m i s1 s2" by simp
  then have f: "find_client_lease d request s2 = Some (Entry i)" "ptr_nip (Entry i) s2 = yiaddr p"
    using owns_find [of "chaddr request" i s2] assms(6,8) i(2) by (simp_all add: find_client_lease_def keeps_def)
  have "handle_packet bootp w d request s2 = send_ACK bootp w d request (yiaddr p) s2"
    using assms(5,14) f i(3) by (auto simp: handle_packet_def handle_message_def do_request_def asks_def msg_consts Let_def)
  with send_ACK_reply [OF assms(1)] assms(5) show ?thesis by (auto simp: asks_def)
qed

definition request_packet :: "u32 \<Rightarrow> dhcp_packet" where
  "request_packet nip = zero_packet\<lparr>op := BOOTREQUEST, hlen := 6, xid := 8, chaddr := [0, 9, 9, 9, 9, 9] @ replicate 10 0,
     options := enc_option (DHCP_MESSAGE_TYPE, [DHCPREQUEST]) @ enc_option (DHCP_REQUESTED_IP, store_le 4 nip) @ DHCP_END # replicate 378 0\<rparr>"

lemma asks_demo:
  "asks True demo_server (discover_packet 0) DHCPDISCOVER" "asks True demo_server (request_packet 0x1500a8c0) DHCPREQUEST"
  by code_simp+

definition demo_start :: server where
  "demo_start = \<lparr>g_leases = replicate 2 zero_lease, tick = 0\<rparr>"

lemma demo_offer:
  "map_option (\<lambda>(s, outs). (map (\<lambda>l. (lease_mac l, expires l)) (g_leases s),
      map (\<lambda>x. case x of Reply p _ \<Rightarrow> yiaddr p | _ \<Rightarrow> 0) outs))
     (handle_packet True demo_world demo_server (discover_packet 0) demo_start) =
   Some ([([0, 0, 0, 0, 0, 0], 0), ([0, 9, 9, 9, 9, 9], 1060)], [0x1500a8c0])"
  by code_simp

lemma demo_request: "get_data32 True (request_packet 0x1500a8c0) DHCP_REQUESTED_IP = Some 0x1500a8c0"
  by code_simp

theorem offer_honoured_witness:
  "\<exists>s1 outs s3 outs' q dest'. handle_packet True demo_world demo_server (discover_packet 0) demo_start = Some (s1, outs) \<and>
     handle_packet True demo_world demo_server (request_packet 0x1500a8c0) s1 = Some (s3, outs') \<and> Reply q dest' \<in> set outs' \<and>
     yiaddr q = 0x1500a8c0 \<and> get_data True q DHCP_MESSAGE_TYPE = Some [DHCPACK]"
proof -
  from demo_offer obtain s1 outs where
    h: "handle_packet True demo_world demo_server (discover_packet 0) demo_start = Some (s1, outs)"
      "map (\<lambda>l. (lease_mac l, expires l)) (g_leases s1) = [([0, 0, 0, 0, 0, 0], 0), ([0, 9, 9, 9, 9, 9], 1060)]"
      "map (\<lambda>x. case x of Reply p _ \<Rightarrow> yiaddr p | _ \<Rightarrow> 0) outs = [0x1500a8c0]" by auto
  from h(3) obtain p dest where p: "Reply p dest \<in> set outs" "yiaddr p = 0x1500a8c0"
    by (auto split: srv_output.splits)
  have "expires l = 1060" if "l \<in> set (g_leases s1)" "lease_mac l = [0, 9, 9, 9, 9, 9]" for l
    using imageI [OF that(1), of "\<lambda>l. (lease_mac l, expires l)"] that(2) unfolding set_map [symmetric] h(2) by simp
  then have live: "\<forall>l\<in>set (g_leases s1). lease_mac l = take 6 (chaddr (discover_packet 0)) \<longrightarrow>
      expires l \<noteq> 0 \<and> (\<forall>t<tick s1. clock demo_world t \<le> expires l)"
    by (auto simp: discover_packet_def clock_def demo_world_def)
  have r: "reachable True demo_world demo_server 2 demo_start" unfolding demo_start_def by (rule reachable.no_file)
  have ip: "start_ip demo_server \<le> end_ip demo_server" "\<not> is_nip_reserved_as_static (static_leases demo_server) (yiaddr p)"
    "get_static_nip_by_mac (static_leases demo_server) (chaddr (discover_packet 0)) = 0"
    using p(2) by (simp_all add: demo_server_def discover_packet_def)
  have mac: "chaddr (request_packet 0x1500a8c0) = chaddr (discover_packet 0)" "take 6 (chaddr (discover_packet 0)) \<noteq> replicate 6 0"
    by code_simp+
  from offer_honoured [OF demo_config_wf ip(1) r asks_demo mac ip(3) h(1) p(1) ip(2) others.nothing live] demo_request p(2) h(1)
  show ?thesis by auto
qed

end
