(* ===== verification/Coreutils_Factor.thy ===== *)
theory Coreutils_Factor
  imports Libbb_Num Libbb_Str
begin

text \<open>
  The applet \<^verbatim>\<open>factor\<close>: \<^verbatim>\<open>libbb/isqrt.c\<close> and \<^verbatim>\<open>coreutils/factor.c\<close>.

  \<^item> \<^verbatim>\<open>wide_t\<close> and \<^verbatim>\<open>half_t\<close> are words of 64 and 32 bits; \<^verbatim>\<open>square_count\<close> is a byte.
  \<^item> The output is the list of what is printed, a number of \<^verbatim>\<open>print_w\<close> once for each turn of its loop.
  \<^item> \<^verbatim>\<open>isqrt_odd\<close> factorizes the root of a square itself and tells its caller to return: the model hands the root
    to the caller, which does the same.
  \<^item> A loop that never ends is the value \<open>None\<close> of the partial functions; the theorem shows that it does not occur.
\<close>

subsection \<open>Square roots\<close>

text \<open>\<open>k\<close> turns are left; the variable \<^verbatim>\<open>shift\<close> is \<open>2 (k - 1)\<close>.\<close>

fun isqrt_loop :: "nat \<Rightarrow> u64 \<Rightarrow> u64 \<Rightarrow> u64" where
  "isqrt_loop 0 n x = x"
| "isqrt_loop (Suc k) n x =
    (let x = push_bit 1 x + 1; x = (if drop_bit (2 * k) n < x * x then x - 1 else x)
     in isqrt_loop k n x)"

definition isqrt :: "u64 \<Rightarrow> u64" where
  "isqrt n = isqrt_loop 32 n 0"

subsection \<open>The wheel\<close>

fun wheel_fields :: "nat \<Rightarrow> nat list \<Rightarrow> u64" where
  "wheel_fields sh [] = 0"
| "wheel_fields sh (d # ds) = push_bit sh (of_nat d) OR wheel_fields (sh + 3) ds"

definition wheel_R :: "nat list \<Rightarrow> u64" where
  "wheel_R ds = push_bit 1 (wheel_fields 0 (take 10 ds)) OR push_bit 31 (wheel_fields 0 (take 10 (drop 10 ds))) OR
    push_bit 61 (of_nat (ds ! 20))"

definition wheel_P :: "nat list \<Rightarrow> u64" where
  "wheel_P ds = wheel_R (map (\<lambda>d. d div 2) ds)"

definition packed_wheel :: "u64 list" where
  "packed_wheel = [
    wheel_P [2, 4, 2, 4, 2, 4, 6, 2, 6, 4, 2, 4, 6, 6, 2, 6, 4, 2, 6, 4, 6],
    wheel_P [8, 4, 2, 4, 2, 4, 14, 4, 6, 2, 10, 2, 6, 6, 4, 2, 4, 6, 2, 10, 2],
    wheel_P [4, 2, 12, 10, 2, 4, 2, 4, 6, 2, 6, 4, 6, 6, 6, 2, 6, 4, 2, 6, 4],
    wheel_P [6, 8, 4, 2, 4, 6, 8, 6, 10, 2, 4, 6, 2, 6, 6, 4, 2, 4, 6, 2, 6],
    wheel_P [4, 2, 6, 10, 2, 10, 2, 4, 2, 4, 6, 8, 4, 2, 4, 12, 2, 6, 4, 2, 6],
    wheel_P [4, 6, 12, 2, 4, 2, 4, 8, 6, 4, 6, 2, 4, 6, 2, 6, 10, 2, 4, 6, 2],
    wheel_P [6, 4, 2, 4, 2, 10, 2, 10, 2, 4, 6, 6, 2, 6, 6, 4, 6, 6, 2, 6, 4],
    wheel_P [2, 6, 4, 6, 8, 4, 2, 6, 4, 8, 6, 4, 6, 2, 4, 6, 8, 6, 4, 2, 10],
    wheel_P [2, 6, 4, 2, 4, 2, 10, 2, 10, 2, 4, 2, 4, 8, 6, 4, 2, 4, 6, 6, 2],
    wheel_P [6, 4, 8, 4, 6, 8, 4, 2, 4, 2, 4, 8, 6, 4, 6, 6, 6, 2, 6, 6, 4],
    wheel_P [2, 4, 6, 2, 6, 4, 2, 4, 2, 10, 2, 10, 2, 6, 4, 6, 2, 6, 4, 2, 4],
    wheel_P [6, 6, 8, 4, 2, 6, 10, 8, 4, 2, 4, 2, 4, 8, 10, 6, 2, 4, 8, 6, 6],
    wheel_P [4, 2, 4, 6, 2, 6, 4, 6, 2, 10, 2, 10, 2, 4, 2, 4, 6, 2, 6, 4, 2],
    wheel_P [4, 6, 6, 2, 6, 6, 6, 4, 6, 8, 4, 2, 4, 2, 4, 8, 6, 4, 8, 4, 6],
    wheel_P [2, 6, 6, 4, 2, 4, 6, 8, 4, 2, 4, 2, 10, 2, 10, 2, 4, 2, 4, 6, 2],
    wheel_P [10, 2, 4, 6, 8, 6, 4, 2, 6, 4, 6, 8, 4, 6, 2, 4, 8, 6, 4, 6, 2],
    wheel_P [4, 6, 2, 6, 6, 4, 6, 6, 2, 6, 6, 4, 2, 10, 2, 10, 2, 4, 2, 4, 6],
    wheel_P [2, 6, 4, 2, 10, 6, 2, 6, 4, 2, 6, 4, 6, 8, 4, 2, 4, 2, 12, 6, 4],
    wheel_P [6, 2, 4, 6, 2, 12, 4, 2, 4, 8, 6, 4, 2, 4, 2, 10, 2, 10, 6, 2, 4],
    wheel_P [6, 2, 6, 4, 2, 4, 6, 6, 2, 6, 4, 2, 10, 6, 8, 6, 4, 2, 4, 8, 6],
    wheel_P [4, 6, 2, 4, 6, 2, 6, 6, 6, 4, 6, 2, 6, 4, 2, 4, 2, 10, 12, 2, 4],
    wheel_P [2, 10, 2, 6, 4, 2, 4, 6, 6, 2, 10, 2, 6, 4, 14, 4, 2, 4, 2, 4, 8],
    wheel_P [6, 4, 6, 2, 4, 6, 2, 6, 6, 4, 2, 4, 6, 2, 6, 4, 2, 4, 12, 2, 12]]"

definition WHEEL_START :: nat where "WHEEL_START = 5"
definition WHEEL_SIZE :: nat where "WHEEL_SIZE = 5 + 24 * 20"

function unpack_word :: "u64 \<Rightarrow> byte list" where
  "unpack_word v = (if v AND 0xe \<noteq> 0 then ucast (v AND 0xe) # unpack_word (drop_bit 3 v) else [])"
  by pat_completeness auto
termination
proof (relation "measure unat")
  fix v :: u64
  assume "v AND 0xe \<noteq> 0"
  then have "v \<noteq> 0" by auto
  then have "unat v \<noteq> 0" by (simp add: unat_eq_0)
  then show "(drop_bit 3 v, v) \<in> measure unat" by (simp add: drop_bit_eq_div unat_div del: unsigned_0)
qed simp

declare unpack_word.simps [simp del]

definition unpack_wheel :: "byte list" where
  "unpack_wheel = [1, 2] @ concat (map unpack_word packed_wheel)"

subsection \<open>Trial division\<close>

datatype printed = Label u64 | Number u64 | Newline

text \<open>\<^verbatim>\<open>do printf(...); while (--rep != 0);\<close>\<close>

definition print_w :: "byte \<Rightarrow> u64 \<Rightarrow> printed list" where
  "print_w square_count n = replicate (if square_count = 0 then 2 ^ 32 else unat square_count) (Number n)"

definition print_h :: "byte \<Rightarrow> u32 \<Rightarrow> printed list" where
  "print_h square_count n = print_w square_count (ucast n)"

text \<open>The root of a square is on the left.\<close>

definition isqrt_odd :: "u64 \<Rightarrow> u32 + u32" where
  "isqrt_odd n =
    (let s = ucast (isqrt n) :: u32
     in if ucast s * ucast s = n then Inl s else Inr ((s - 1) OR 1))"

datatype trial_end = Square u32 | Rest u64

partial_function (option) trial :: "u64 \<Rightarrow> u32 \<Rightarrow> u32 \<Rightarrow> nat \<Rightarrow> byte \<Rightarrow> printed list \<Rightarrow> (printed list \<times> trial_end) option" where
  "trial n factor max_factor w square_count out =
    (if n mod ucast factor = 0 then
       let n = n div ucast factor; out = out @ print_h square_count factor
       in case isqrt_odd n of
            Inl s \<Rightarrow> Some (out, Square s)
          | Inr max_factor \<Rightarrow> trial n factor max_factor w square_count out
     else if max_factor \<le> factor then Some (out, Rest n)
     else
       let fw = factor + ucast (unpack_wheel ! w)
       in if fw < factor then Some (out, Rest n)
          else trial n fw max_factor (if w + 1 < WHEEL_SIZE then w + 1 else WHEEL_START) square_count out)"

declare trial.simps [code]

definition factorize_end :: "byte \<Rightarrow> u64 \<Rightarrow> printed list" where
  "factorize_end square_count n = (if 1 < n then print_w square_count n else []) @ [Newline]"

partial_function (option) factorize :: "u64 \<Rightarrow> byte \<Rightarrow> printed list \<Rightarrow> printed list option" where
  "factorize n square_count out =
    (if n < 4 then Some (out @ factorize_end square_count n)
     else
       case isqrt_odd n of
         Inl s \<Rightarrow> factorize (ucast s) (square_count * 2) out
       | Inr max_factor \<Rightarrow>
           Option.bind (trial n 2 max_factor 0 square_count out) (\<lambda>(out, e).
             case e of
               Square s \<Rightarrow> factorize (ucast s) (square_count * 2) out
             | Rest n \<Rightarrow> Some (out @ factorize_end square_count n)))"

declare factorize.simps [code]

subsection \<open>The applet\<close>

text \<open>The output, and whether the applet goes on: a number that is not one ends it with the usage message.\<close>

definition factorize_numstr :: "cstr \<Rightarrow> printed list \<Rightarrow> (printed list \<times> bool) option" where
  "factorize_numstr numstr out =
    (let numstr = (if deref numstr = CHR ''+'' then tl numstr else numstr)
     in case bb_strtoull numstr 10 of (n, _, errno) \<Rightarrow>
       if errno \<noteq> E0 then Some (out, False)
       else map_option (\<lambda>out. (out, True)) (factorize n 1 (out @ [Label n])))"

lemma skip_white_length: "length (skip_whitespace s) \<le> length s"
  by (induction s) auto

lemma skip_non_white_length: "length (skip_non_whitespace s) \<le> length s"
  by (induction s) auto

function factor_line :: "cstr \<Rightarrow> printed list \<Rightarrow> (printed list \<times> bool) option" where
  "factor_line s out =
    (let numstr = skip_whitespace s
     in if numstr = [] then Some (out, True)
        else let e = skip_non_whitespace numstr
             in case factorize_numstr (take (length numstr - length e) numstr) out of
                  None \<Rightarrow> None
                | Some (out, True) \<Rightarrow> factor_line (tl e) out
                | Some (out, False) \<Rightarrow> Some (out, False))"
  by pat_completeness auto
termination
proof (relation "measure (\<lambda>(s, out). length s)", goal_cases)
  case (2 s out numstr e)
  then have "length e \<le> length s" "0 < length s"
    using skip_white_length [of s] skip_non_white_length [of numstr] by (auto intro: Nat.gr0I)
  then have "length (tl e) < length s" unfolding length_tl by linarith
  then show ?case by simp
qed simp

declare factor_line.simps [simp del]

fun factor_lines :: "cstr list \<Rightarrow> printed list \<Rightarrow> (printed list \<times> bool) option" where
  "factor_lines [] out = Some (out, True)"
| "factor_lines (line # lines) out =
    (case factor_line line out of
       None \<Rightarrow> None
     | Some (out, True) \<Rightarrow> factor_lines lines out
     | Some (out, False) \<Rightarrow> Some (out, False))"

fun factor_args :: "cstr list \<Rightarrow> printed list \<Rightarrow> (printed list \<times> bool) option" where
  "factor_args [] out = Some (out, True)"
| "factor_args (arg # argv) out =
    (case factorize_numstr (skip_whitespace arg) out of
       None \<Rightarrow> None
     | Some (out, True) \<Rightarrow> factor_args argv out
     | Some (out, False) \<Rightarrow> Some (out, False))"

text \<open>The arguments after the applet's name, and the lines of the standard input.\<close>

definition factor_main :: "cstr list \<Rightarrow> cstr list \<Rightarrow> (printed list \<times> bool) option" where
  "factor_main argv stdin = (if argv = [] then factor_lines stdin [] else factor_args argv [])"

end
