(* ===== verification/Coreutils_Factor_Wheel.thy ===== *)
theory Coreutils_Factor_Wheel
  imports Coreutils_Factor
begin

text \<open>
  The wheel of \<^verbatim>\<open>factor\<close>: what the packed table unpacks to, and that its increments skip only multiples of 2, 3, 5, 7
  or 11.
\<close>

subsection \<open>Packing and unpacking\<close>

lemma or_shift:
  assumes "a < 2 ^ k"
  shows "(of_nat a :: u64) OR push_bit k w = of_nat a + push_bit k w"
proof (rule disjunctive_add [symmetric])
  fix n
  have "take_bit k a = a" using assms by (simp add: take_bit_nat_eq_self)
  then have "n < k" if "bit a n" using that bit_take_bit_iff [of k a n] by simp
  then show "\<not> bit (of_nat a :: u64) n \<or> \<not> bit (push_bit k w) n" by (auto simp: bit_of_nat_iff bit_push_bit_iff)
qed

lemma wheel_fields_val: "\<forall>d \<in> set ds. d < 8 \<Longrightarrow> wheel_fields sh ds = push_bit sh (of_nat (le_val 8 ds))"
proof (induction ds arbitrary: sh)
  case (Cons d ds)
  have "wheel_fields sh (d # ds) = push_bit sh ((of_nat d :: u64) OR push_bit 3 (of_nat (le_val 8 ds)))"
    using Cons by (simp add: push_bit_or add.commute)
  also have "(of_nat d :: u64) OR push_bit 3 (of_nat (le_val 8 ds)) = of_nat d + push_bit 3 (of_nat (le_val 8 ds))"
    using Cons.prems by (intro or_shift) simp
  finally show ?case by (simp add: push_bit_eq_mult ac_simps)
qed simp

lemma wheel_R_val:
  assumes l: "length ds = 21" and d: "\<forall>d \<in> set ds. d < 8"
  shows "wheel_R ds = of_nat (2 * le_val 8 ds)"
proof -
  define A B where "A = le_val 8 (take 10 ds)" and "B = le_val 8 (take 10 (drop 10 ds))"
  have small: "le_val 8 es < 8 ^ length es" if "set es \<subseteq> set ds" for es using that d by (intro le_val_bound) auto
  have A: "A < 2 ^ 30" and B: "B < 2 ^ 30"
    using small [of "take 10 ds"] small [of "take 10 (drop 10 ds)"] l set_take_subset [of 10 ds] set_take_subset [of 10 "drop 10 ds"] set_drop_subset [of 10 ds]
    by (auto simp: A_def B_def)
  have "drop 10 ds = take 10 (drop 10 ds) @ drop 20 ds" using append_take_drop_id [of 10 "drop 10 ds"] by simp
  moreover have "drop 20 ds = [ds ! 20]" using Cons_nth_drop_Suc [of 20 ds] l by simp
  ultimately have "ds = take 10 ds @ take 10 (drop 10 ds) @ [ds ! 20]" using append_take_drop_id [of 10 ds] by simp
  then have "le_val 8 ds = le_val 8 (take 10 ds @ take 10 (drop 10 ds) @ [ds ! 20])" by simp
  also have "\<dots> = A + 2 ^ 30 * (B + 2 ^ 30 * ds ! 20)" using l by (simp add: le_val_append A_def B_def)
  finally have v: "le_val 8 ds = A + 2 ^ 30 * (B + 2 ^ 30 * ds ! 20)" .
  have f: "wheel_fields 0 (take 10 ds) = of_nat A" "wheel_fields 0 (take 10 (drop 10 ds)) = of_nat B"
    using wheel_fields_val [of "take 10 ds" 0] wheel_fields_val [of "take 10 (drop 10 ds)" 0] d
    by (auto simp: A_def B_def dest!: in_set_takeD in_set_dropD)
  have "wheel_R ds = push_bit 1 ((of_nat A :: u64) OR push_bit 30 ((of_nat B :: u64) OR push_bit 30 (of_nat (ds ! 20))))"
    by (simp add: wheel_R_def f push_bit_or)
  then show ?thesis unfolding or_shift [OF B] or_shift [OF A] v by (simp add: push_bit_eq_mult algebra_simps)
qed

text \<open>The bits that an earlier field has left below are masked off.\<close>

lemma low_field: "b < 2 \<Longrightarrow> e < 8 \<Longrightarrow> (b + 2 * e + 16 * r) AND 14 = 2 * (e::nat)"
proof -
  assume b: "b < 2" and e: "e < 8"
  have "(b + 2 * e + 16 * r) AND 14 = take_bit 4 (b + 2 * e + 16 * r) AND 14"
  proof -
    have "(14 :: nat) = mask 4 AND 14" by (simp add: mask_eq_exp_minus_1)
    then show ?thesis by (metis and.assoc take_bit_eq_mask)
  qed
  also have "take_bit 4 (b + 2 * e + 16 * r) = b + 2 * e" using b e by (simp add: take_bit_eq_mod)
  also have "(b + 2 * e) AND 14 = 2 * e"
  proof -
    have "\<forall>b \<in> {0, 1}. \<forall>e \<in> {0, 1, 2, 3, 4, 5, 6, 7}. (b + 2 * e) AND 14 = 2 * (e :: nat)" by code_simp
    moreover have "b \<in> {0, 1}" "e \<in> {0, 1, 2, 3, 4, 5, 6, 7}" using b e by auto
    ultimately show ?thesis by blast
  qed
  finally show ?thesis .
qed

lemma unpack_val:
  assumes "\<forall>e \<in> set es. 0 < e \<and> e < 8" "b < 2" "b + 2 * le_val 8 es < 2 ^ 64"
  shows "unpack_word (of_nat (b + 2 * le_val 8 es)) = map (\<lambda>e. of_nat (2 * e)) es"
  using assms
proof (induction es arbitrary: b)
  case Nil
  then have "b = 0 \<or> b = 1" by auto
  then show ?case by (subst unpack_word.simps) auto
next
  case (Cons e es)
  have e: "0 < e" "e < 8" using Cons.prems(1) by simp_all
  define r where "r = le_val 8 es"
  have m: "b + 2 * le_val 8 (e # es) = b + 2 * e + 16 * r" by (simp add: r_def)
  have m64: "b + 2 * e + 16 * r < 2 ^ 64" using Cons.prems(3) m by simp
  have "(of_nat (b + 2 * e + 16 * r) :: u64) AND 0xe = of_nat ((b + 2 * e + 16 * r) AND 14)" by (simp add: of_nat_and_eq)
  then have a: "(of_nat (b + 2 * e + 16 * r) :: u64) AND 0xe = of_nat (2 * e)" unfolding low_field [OF Cons.prems(2) e(2)] .
  have u: "unat (of_nat (2 * e) :: u64) = 2 * e" using e by (intro unat_of_nat_small) simp
  then have nz: "(of_nat (2 * e) :: u64) \<noteq> 0" using e(1) by (metis mult_eq_0_iff neq0_conv unsigned_0 zero_neq_numeral)
  have "(b + 2 * e) div 8 < 2" using Cons.prems(2) e(2) by simp
  moreover have d: "(b + 2 * e + 16 * r) div 8 = (b + 2 * e) div 8 + 2 * r" by simp
  moreover have "(b + 2 * e) div 8 + 2 * r < 2 ^ 64" using m64 d by (metis div_le_dividend le_less_trans)
  ultimately have IH: "unpack_word (of_nat ((b + 2 * e + 16 * r) div 8)) = map (\<lambda>e. of_nat (2 * e)) es"
    using Cons.IH [of "(b + 2 * e) div 8"] Cons.prems(1) by (simp add: r_def)
  have "drop_bit 3 (of_nat (b + 2 * e + 16 * r) :: u64) = of_nat ((b + 2 * e + 16 * r) div 8)"
  proof -
    have "unat (drop_bit 3 (of_nat (b + 2 * e + 16 * r) :: u64)) = (b + 2 * e + 16 * r) div 8"
      using unat_of_nat_small [of "b + 2 * e + 16 * r", where 'a = 64] m64 by (simp add: drop_bit_eq_div unat_div)
    then have "(of_nat (unat (drop_bit 3 (of_nat (b + 2 * e + 16 * r) :: u64))) :: u64) = of_nat ((b + 2 * e + 16 * r) div 8)"
      by (rule arg_cong)
    then show ?thesis by simp
  qed
  moreover have "(ucast (of_nat (2 * e) :: u64) :: byte) = of_nat (2 * e)"
  proof -
    have "(of_nat (unat (of_nat (2 * e) :: u64)) :: byte) = ucast (of_nat (2 * e) :: u64)" by (rule of_nat_unat)
    then show ?thesis unfolding u by simp
  qed
  ultimately show ?case unfolding m by (subst unpack_word.simps) (simp only: a nz IH if_True list.map not_False_eq_True simp_thms)
qed

lemma unpack_row:
  assumes "length ds = 21" "\<forall>d \<in> set ds. d \<in> {2, 4, 6, 8, 10, 12, 14}"
  shows "unpack_word (wheel_P ds) = map of_nat ds"
proof -
  define es where "es = map (\<lambda>d. d div 2) ds"
  have es: "\<forall>e \<in> set es. 0 < e \<and> e < 8" "length es = 21" using assms by (auto simp: es_def)
  then have "le_val 8 es < 8 ^ 21" using le_val_bound [of es 8] by auto
  then have "0 + 2 * le_val 8 es < 2 ^ 64" by simp
  from unpack_val [OF es(1) _ this] have "unpack_word (wheel_P ds) = map (\<lambda>e. of_nat (2 * e)) es"
    using wheel_R_val [of es] es by (simp add: wheel_P_def es_def)
  also have "\<dots> = map of_nat ds" using assms(2) by (auto simp: es_def)
  finally show ?thesis .
qed

text \<open>The table.\<close>

definition turn :: "nat list" where
  "turn = [4, 2, 4, 6, 2, 6, 4, 2, 4, 6, 6, 2, 6, 4, 2, 6, 4, 6, 8, 4, 2, 4, 2, 4, 14, 4, 6, 2, 10, 2, 6, 6, 4, 2, 4,
    6, 2, 10, 2, 4, 2, 12, 10, 2, 4, 2, 4, 6, 2, 6, 4, 6, 6, 6, 2, 6, 4, 2, 6, 4, 6, 8, 4, 2, 4, 6, 8, 6, 10,
    2, 4, 6, 2, 6, 6, 4, 2, 4, 6, 2, 6, 4, 2, 6, 10, 2, 10, 2, 4, 2, 4, 6, 8, 4, 2, 4, 12, 2, 6, 4, 2, 6, 4,
    6, 12, 2, 4, 2, 4, 8, 6, 4, 6, 2, 4, 6, 2, 6, 10, 2, 4, 6, 2, 6, 4, 2, 4, 2, 10, 2, 10, 2, 4, 6, 6, 2, 6,
    6, 4, 6, 6, 2, 6, 4, 2, 6, 4, 6, 8, 4, 2, 6, 4, 8, 6, 4, 6, 2, 4, 6, 8, 6, 4, 2, 10, 2, 6, 4, 2, 4, 2, 10,
    2, 10, 2, 4, 2, 4, 8, 6, 4, 2, 4, 6, 6, 2, 6, 4, 8, 4, 6, 8, 4, 2, 4, 2, 4, 8, 6, 4, 6, 6, 6, 2, 6, 6, 4,
    2, 4, 6, 2, 6, 4, 2, 4, 2, 10, 2, 10, 2, 6, 4, 6, 2, 6, 4, 2, 4, 6, 6, 8, 4, 2, 6, 10, 8, 4, 2, 4, 2, 4,
    8, 10, 6, 2, 4, 8, 6, 6, 4, 2, 4, 6, 2, 6, 4, 6, 2, 10, 2, 10, 2, 4, 2, 4, 6, 2, 6, 4, 2, 4, 6, 6, 2, 6,
    6, 6, 4, 6, 8, 4, 2, 4, 2, 4, 8, 6, 4, 8, 4, 6, 2, 6, 6, 4, 2, 4, 6, 8, 4, 2, 4, 2, 10, 2, 10, 2, 4, 2, 4,
    6, 2, 10, 2, 4, 6, 8, 6, 4, 2, 6, 4, 6, 8, 4, 6, 2, 4, 8, 6, 4, 6, 2, 4, 6, 2, 6, 6, 4, 6, 6, 2, 6, 6, 4,
    2, 10, 2, 10, 2, 4, 2, 4, 6, 2, 6, 4, 2, 10, 6, 2, 6, 4, 2, 6, 4, 6, 8, 4, 2, 4, 2, 12, 6, 4, 6, 2, 4, 6,
    2, 12, 4, 2, 4, 8, 6, 4, 2, 4, 2, 10, 2, 10, 6, 2, 4, 6, 2, 6, 4, 2, 4, 6, 6, 2, 6, 4, 2, 10, 6, 8, 6, 4,
    2, 4, 8, 6, 4, 6, 2, 4, 6, 2, 6, 6, 6, 4, 6, 2, 6, 4, 2, 4, 2, 10, 12, 2, 4, 2, 10, 2, 6, 4, 2, 4, 6, 6,
    2, 10, 2, 6, 4, 14, 4, 2, 4, 2, 4, 8, 6, 4, 6, 2, 4, 6, 2, 6, 6, 4, 2, 4, 6, 2, 6, 4, 2, 4, 12, 2, 12]"

definition wheel :: "nat list" where
  "wheel = [1, 2, 2, 4, 2] @ turn"

lemma wheel_tab: "unpack_wheel = map of_nat wheel"
  unfolding unpack_wheel_def packed_wheel_def list.map wheel_def turn_def by (subst unpack_row, simp, simp)+ simp

lemma wheel_length: "length wheel = WHEEL_SIZE"
  by (simp add: wheel_def turn_def WHEEL_SIZE_def)

subsection \<open>The increments\<close>

definition small_factor :: "int \<Rightarrow> bool" where
  "small_factor n \<longleftrightarrow> n mod 2 = 0 \<or> n mod 3 = 0 \<or> n mod 5 = 0 \<or> n mod 7 = 0 \<or> n mod 11 = 0"

function between :: "int \<Rightarrow> int \<Rightarrow> bool" where
  "between a b = (if a < b then small_factor a \<and> between (a + 1) b else True)"
  by pat_completeness auto
termination by (relation "measure (\<lambda>(a, b). nat (b - a))") auto

declare between.simps [simp del]

lemma small_factor_period: "small_factor (2310 * q + x) = small_factor x"
proof -
  have p: "(2310 * q + x) mod k = x mod k" if "2310 = k * j" for k j
    using that by (simp only: mult.assoc mod_mult_self4)
  have "(2310 * q + x) mod 2 = x mod 2" "(2310 * q + x) mod 3 = x mod 3" "(2310 * q + x) mod 5 = x mod 5"
    "(2310 * q + x) mod 7 = x mod 7" "(2310 * q + x) mod 11 = x mod 11"
    by (rule p [of 2 1155] p [of 3 770] p [of 5 462] p [of 7 330] p [of 11 210], simp)+
  then show ?thesis unfolding small_factor_def by (simp only:)
qed

text \<open>From \<open>r\<close> on, the increments step over numbers with a small factor only, and a turn of the wheel is 2310.\<close>

fun gaps :: "int \<Rightarrow> int list \<Rightarrow> bool" where
  "gaps r [] \<longleftrightarrow> r = 2323"
| "gaps r (g # gs) \<longleftrightarrow> 0 < g \<and> between (r + 1) (r + g) \<and> gaps (r + g) gs"

lemma turn_gaps: "gaps 13 (map int turn)"
  unfolding turn_def list.map of_nat_numeral by code_simp

lemma wheel_gaps: "gaps 13 (drop 5 (map int wheel))"
proof -
  have "drop 5 (map int wheel) = map int (drop 5 wheel)" by (simp only: drop_map)
  also have "\<dots> = map int turn" by (simp add: wheel_def)
  finally show ?thesis by (simp only: turn_gaps)
qed

lemma between_factor: "between a b \<Longrightarrow> a \<le> m \<Longrightarrow> m < b \<Longrightarrow> small_factor m"
proof (induction a b rule: between.induct)
  case (1 a b)
  have "small_factor a \<and> between (a + 1) b" using 1(2-4) by (subst (asm) between.simps) (simp split: if_splits)
  then show ?case using 1(1) 1(3,4) by (cases "a = m") auto
qed

lemma gaps_le: "gaps r gs \<Longrightarrow> gs \<noteq> [] \<Longrightarrow> r < 2323"
proof (induction r gs rule: gaps.induct)
  case (2 r g gs)
  then show ?case by (cases gs) auto
qed simp

definition is_prime :: "nat \<Rightarrow> bool" where
  "is_prime n \<longleftrightarrow> 2 \<le> n \<and> (\<forall>d. d dvd n \<longrightarrow> d = 1 \<or> d = n)"

lemma small_factor_composite:
  assumes "small_factor (int m)" "11 < m"
  shows "\<not> is_prime m"
proof
  assume p: "is_prime m"
  from assms(1) have "2 dvd m \<or> 3 dvd m \<or> 5 dvd m \<or> 7 dvd m \<or> 11 dvd m" unfolding small_factor_def by presburger
  then obtain d where d: "d dvd m" "d \<in> {2, 3, 5, 7, 11}" by blast
  with p have "d = 1 \<or> d = m" unfolding is_prime_def by blast
  with d(2) assms(2) show False by auto
qed

text \<open>The state of the wheel: \<open>at_wheel f w\<close> when the divisor is \<open>f\<close> and the next increment that of index \<open>w\<close>.\<close>

definition at_wheel :: "nat \<Rightarrow> nat \<Rightarrow> bool" where
  "at_wheel f w \<longleftrightarrow> w < WHEEL_SIZE \<and>
    (if w < 5 then f = [2, 3, 5, 7, 11] ! w
     else 13 \<le> f \<and> gaps (13 + (int f - 13) mod 2310) (drop w (map int wheel)))"

definition wheel_next :: "nat \<Rightarrow> nat" where
  "wheel_next w = (if w + 1 < WHEEL_SIZE then w + 1 else WHEEL_START)"

lemma at_wheel_start: "at_wheel 2 0"
  by (simp add: at_wheel_def WHEEL_SIZE_def)

lemma at_wheel_turn:
  assumes f: "13 \<le> f" and w: "5 \<le> w" "w < WHEEL_SIZE" and g: "gaps (13 + (int f - 13) mod 2310) (drop w (map int wheel))"
  shows "0 < wheel ! w \<and> at_wheel (f + wheel ! w) (wheel_next w) \<and> (\<forall>m. f < m \<and> m < f + wheel ! w \<longrightarrow> \<not> is_prime m)"
proof -
  define r where "r = 13 + (int f - 13) mod 2310"
  define q where "q = (int f - 13) div 2310"
  have fq: "int f = 2310 * q + r" unfolding r_def q_def by presburger
  have r13: "13 \<le> r" by (simp add: r_def)
  have "drop w (map int wheel) = int (wheel ! w) # drop (w + 1) (map int wheel)"
    using w wheel_length Cons_nth_drop_Suc [of w "map int wheel"] by simp
  with g have pos: "0 < wheel ! w" and btw: "between (r + 1) (r + int (wheel ! w))"
    and rest: "gaps (r + int (wheel ! w)) (drop (w + 1) (map int wheel))" by (simp_all add: r_def)
  have "\<not> is_prime m" if m: "f < m" "m < f + wheel ! w" for m
  proof (rule small_factor_composite)
    have "small_factor (r + (int m - int f))" using m by (intro between_factor [OF btw]) linarith+
    moreover have "int m = 2310 * q + (r + (int m - int f))" using fq by simp
    ultimately show "small_factor (int m)" using small_factor_period [of q "r + (int m - int f)"] by metis
    show "11 < m" using f m by simp
  qed
  moreover have "at_wheel (f + wheel ! w) (wheel_next w)"
  proof (cases "w + 1 < WHEEL_SIZE")
    case True
    then have "drop (w + 1) (map int wheel) \<noteq> []" by (simp add: wheel_length)
    then have "r + int (wheel ! w) < 2323" by (rule gaps_le [OF rest])
    moreover have "int (f + wheel ! w) - 13 = (r + int (wheel ! w) - 13) + 2310 * q" using fq by simp
    then have "(int (f + wheel ! w) - 13) mod 2310 = (r + int (wheel ! w) - 13) mod 2310" by (simp only: mod_mult_self2)
    ultimately have "(int (f + wheel ! w) - 13) mod 2310 = r + int (wheel ! w) - 13" using r13 by simp
    then show ?thesis using True w f rest by (simp add: at_wheel_def wheel_next_def)
  next
    case False
    then have "drop (w + 1) (map int wheel) = []" by (simp add: wheel_length)
    then have "r + int (wheel ! w) = 2323" using rest by simp
    then have "int (f + wheel ! w) - 13 = 2310 * (q + 1)" using fq by simp
    then show ?thesis using False f wheel_gaps by (simp add: at_wheel_def wheel_next_def WHEEL_START_def WHEEL_SIZE_def)
  qed
  ultimately show ?thesis using pos by blast
qed

lemma small_composites: "\<not> is_prime 4" "\<not> is_prime 6" "\<not> is_prime 8" "\<not> is_prime 9" "\<not> is_prime 10" "\<not> is_prime 12"
proof -
  have "\<not> is_prime (a * b)" if "1 < a" "1 < b" for a b :: nat
    using that by (auto simp: is_prime_def intro!: exI [of _ a])
  from this [of 2 2] this [of 2 3] this [of 2 4] this [of 3 3] this [of 2 5] this [of 2 6]
  show "\<not> is_prime 4" "\<not> is_prime 6" "\<not> is_prime 8" "\<not> is_prime 9" "\<not> is_prime 10" "\<not> is_prime 12" by simp_all
qed

lemma at_wheel_step:
  assumes "at_wheel f w"
  shows "0 < wheel ! w \<and> at_wheel (f + wheel ! w) (wheel_next w) \<and> (\<forall>m. f < m \<and> m < f + wheel ! w \<longrightarrow> \<not> is_prime m)"
proof (cases "w < 5")
  case True
  then have w: "w = 0 \<or> w = 1 \<or> w = 2 \<or> w = 3 \<or> w = 4" by auto
  have m: "m = 4 \<or> m = 6 \<or> m = 8 \<or> m = 9 \<or> m = 10 \<or> m = 12" if "f < m" "m < f + wheel ! w" for m
    using w that assms True by (auto simp: at_wheel_def wheel_def)
  have "0 < wheel ! w \<and> at_wheel (f + wheel ! w) (wheel_next w)"
    using w assms True wheel_gaps by (auto simp: at_wheel_def wheel_next_def wheel_def WHEEL_SIZE_def)
  with m small_composites show ?thesis by metis
next
  case False
  with assms show ?thesis by (intro at_wheel_turn) (auto simp: at_wheel_def)
qed

lemma wheel_byte: "w < WHEEL_SIZE \<Longrightarrow> unpack_wheel ! w = of_nat (wheel ! w) \<and> wheel ! w < 16"
proof -
  assume w: "w < WHEEL_SIZE"
  have "\<forall>g \<in> set wheel. g < 16" by (simp add: wheel_def turn_def)
  then show ?thesis using w by (simp add: wheel_tab wheel_length)
qed

end
