(* ===== verification/Coreutils_Factor_Correct.thy ===== *)
theory Coreutils_Factor_Correct
  imports Coreutils_Factor_Wheel
begin

text \<open>
  What \<^verbatim>\<open>factor\<close> prints: \<^verbatim>\<open>isqrt\<close> is the integer square root, and \<^verbatim>\<open>factorize\<close> returns and has printed the prime
  factors in ascending order.
\<close>

subsection \<open>Square roots\<close>

lemma u64_bound: "unat (n :: u64) < 2 ^ 64"
  using unsigned_less [of n] by simp

lemma u32_bound: "unat (n :: u32) < 2 ^ 32"
  using unsigned_less [of n] by simp

lemma isqrt_loop_root:
  "unat x ^ 2 \<le> unat n div 4 ^ k \<Longrightarrow> unat n div 4 ^ k < (unat x + 1) ^ 2 \<Longrightarrow>
    unat (isqrt_loop k n x) ^ 2 \<le> unat n \<and> unat n < (unat (isqrt_loop k n x) + 1) ^ 2"
proof (induction k arbitrary: x)
  case (Suc k)
  define m where "m = unat n div 4 ^ k"
  define y where "y = push_bit 1 x + 1"
  have m4: "unat n div 4 ^ Suc k = m div 4" by (simp add: m_def flip: div_mult2_eq) (simp add: mult.commute)
  have d: "unat (drop_bit (2 * k) n) = m" 
    using take_bit_nat_eq_self [OF u64_bound, of n] by (subst unsigned_drop_bit_eq) (simp add: drop_bit_eq_div m_def power_mult)
  have "m \<le> unat n" by (simp add: m_def)
  then have m64: "m < 2 ^ 64" using u64_bound [of n] by simp
  have "unat x ^ 2 < (2 ^ 31) ^ 2" using Suc.prems(1) m64 unfolding m4 by (auto simp: less_mult_imp_div_less)
  then have x: "unat x < 2 ^ 31" by (rule power_less_imp_less_base) simp
  have y: "unat y = 2 * unat x + 1"
    using x by (simp add: y_def push_bit_eq_mult unat_word_ariths)
  have y32: "unat y < 2 ^ 32" using x y by simp
  then have yy: "unat (y * y) = unat y ^ 2"
    using mult_strict_mono' [OF y32 y32] by (simp add: unat_word_ariths power2_eq_square)
  have step: "isqrt_loop (Suc k) n x = isqrt_loop k n (if m < unat y ^ 2 then y - 1 else y)"
    
    unfolding isqrt_loop.simps Let_def y_def [symmetric] word_less_nat_alt d yy by (rule refl)
  show ?case
  proof (cases "m < unat y ^ 2")
    case True
    have "unat (y - 1) = 2 * unat x" using y by (simp add: y_def push_bit_eq_mult unat_word_ariths)
    moreover have "(2 * unat x) ^ 2 \<le> m" using Suc.prems(1) unfolding m4 by (simp add: power_mult_distrib)
    ultimately show ?thesis unfolding step if_P [OF True] using True y by (intro Suc.IH) (simp_all add: m_def [symmetric])
  next
    case False
    have "m < 4 * (unat x + 1) ^ 2" using Suc.prems(2) unfolding m4 by simp
    also have "\<dots> = (unat y + 1) ^ 2" unfolding y by (simp add: power2_eq_square algebra_simps)
    finally show ?thesis unfolding step if_not_P [OF False] using False by (intro Suc.IH) (simp_all add: m_def [symmetric])
  qed
qed simp

lemma isqrt_root: "unat (isqrt n) ^ 2 \<le> unat n" "unat n < (unat (isqrt n) + 1) ^ 2"
proof -
  have "unat n div 4 ^ 32 = 0" using u64_bound [of n] by simp
  then show "unat (isqrt n) ^ 2 \<le> unat n" "unat n < (unat (isqrt n) + 1) ^ 2"
    using isqrt_loop_root [of 0 n 32] by (simp_all add: isqrt_def)
qed

lemma isqrt_small: "unat (isqrt n) < 2 ^ 32"
proof -
  have "unat (isqrt n) ^ 2 < (2 ^ 32) ^ 2" using isqrt_root(1) [of n] u64_bound [of n] by simp
  then show ?thesis by (rule power_less_imp_less_base) simp
qed

lemma unat_square:
  fixes s :: u32
  shows "unat (ucast s * ucast s :: u64) = unat s ^ 2"
proof -
  have "unat s < 2 ^ 64" using u32_bound [of s] by simp
  then have "unat (ucast s :: u64) = unat s" by (simp add: unsigned_ucast_eq take_bit_nat_eq_self)
  then show ?thesis
    using mult_strict_mono' [OF u32_bound u32_bound, of s s] by (simp add: unat_word_ariths power2_eq_square)
qed

lemma unat_isqrt_half: "unat (ucast (isqrt n) :: u32) = unat (isqrt n)"
  using isqrt_small [of n] by (simp add: unsigned_ucast_eq take_bit_nat_eq_self)

lemma isqrt_odd_square: "isqrt_odd n = Inl s \<Longrightarrow> unat n = unat s ^ 2"
  by (auto simp: isqrt_odd_def Let_def unat_square [symmetric] split: if_splits)

text \<open>The limit of the divisors: an odd number whose square is at most \<open>n\<close> does not exceed it.\<close>

lemma isqrt_odd_limit:
  assumes "isqrt_odd n = Inr m" "odd p" "p ^ 2 \<le> unat n"
  shows "p \<le> unat m"
proof -
  define s :: u32 where "s = ucast (isqrt n)"
  have s: "unat s = unat (isqrt n)" by (simp add: s_def unat_isqrt_half)
  have m: "m = (s - 1) OR 1" using assms(1) by (auto simp: isqrt_odd_def Let_def s_def split: if_splits)
  have "p ^ 2 < (unat s + 1) ^ 2" using assms(3) isqrt_root(2) [of n] s by simp
  then have ps: "p \<le> unat s" using power_less_imp_less_base by fastforce
  then have "0 < unat s" using \<open>odd p\<close> odd_pos by fastforce
  then have s1: "unat (s - 1) = unat s - 1" by (simp add: unat_minus_one unat_gt_0)
  have "unat m = unat (s - 1) OR 1" unfolding m by (simp add: unsigned_or_eq)
  also have "\<dots> = (if even (unat s) then unat s - 1 else unat s)"
    unfolding s1 or_one_eq using \<open>0 < unat s\<close> by auto
  finally show ?thesis using ps \<open>odd p\<close> by (cases "p = unat s") auto
qed

lemma isqrt_odd_nonsquare: "isqrt_odd n = Inr m \<Longrightarrow> unat n \<noteq> k ^ 2"
proof
  assume m: "isqrt_odd n = Inr m" and k: "unat n = k ^ 2"
  have "k ^ 2 < (unat (isqrt n) + 1) ^ 2" "unat (isqrt n) ^ 2 \<le> k ^ 2" using isqrt_root [of n] k by simp_all
  then have "k < unat (isqrt n) + 1" "unat (isqrt n) \<le> k" by (simp_all add: power_less_imp_less_base)
  then have "unat (ucast (isqrt n) :: u32) = k" by (simp add: unat_isqrt_half)
  then have "unat (ucast (ucast (isqrt n) :: u32) * ucast (ucast (isqrt n) :: u32) :: u64) = unat n"
    by (simp only: unat_square k)
  then have "ucast (ucast (isqrt n) :: u32) * ucast (ucast (isqrt n) :: u32) = n" by (simp only: word_unat_eq_iff)
  then show False using m by (simp add: isqrt_odd_def Let_def)
qed

subsection \<open>Prime numbers\<close>

lemma prime_divisor: "2 \<le> n \<Longrightarrow> \<exists>p. is_prime p \<and> p dvd n"
proof (induction n rule: less_induct)
  case (less n)
  show ?case
  proof (cases "is_prime n")
    case False
    with less.prems obtain d where d: "d dvd n" "d \<noteq> 1" "d \<noteq> n" by (auto simp: is_prime_def)
    with less.prems have "d < n" "d \<noteq> 0" using dvd_imp_le [of d n] by auto
    with d less.IH [of d] show ?thesis using dvd_trans [of _ d n] by fastforce
  qed auto
qed

text \<open>No prime below \<open>f\<close> divides \<open>n\<close>.\<close>

definition sifted :: "nat \<Rightarrow> nat \<Rightarrow> bool" where
  "sifted f n \<longleftrightarrow> (\<forall>p. is_prime p \<and> p dvd n \<longrightarrow> f \<le> p)"

lemma sifted_prime: "sifted f n \<Longrightarrow> f dvd n \<Longrightarrow> 2 \<le> f \<Longrightarrow> is_prime f"
proof -
  assume s: "sifted f n" and f: "f dvd n" "2 \<le> f"
  obtain p where p: "is_prime p" "p dvd f" using prime_divisor [OF f(2)] by blast
  then have "f \<le> p" using s f(1) dvd_trans [of p f n] by (auto simp: sifted_def)
  moreover have "p \<le> f" using p(2) f(2) by (intro dvd_imp_le) auto
  ultimately show ?thesis using p(1) by simp
qed

lemma sifted_dvd: "sifted f n \<Longrightarrow> m dvd n \<Longrightarrow> sifted f m"
  unfolding sifted_def by (blast intro: dvd_trans)

lemma sifted_step:
  assumes "sifted f n" "\<not> f dvd n" "\<forall>m. f < m \<and> m < f + g \<longrightarrow> \<not> is_prime m"
  shows "sifted (f + g) n"
  unfolding sifted_def
proof (intro allI impI)
  fix p
  assume p: "is_prime p \<and> p dvd n"
  then have "f \<le> p" "f \<noteq> p" using assms(1,2) by (auto simp: sifted_def)
  then show "f + g \<le> p" using p assms(3) by (meson le_neq_implies_less not_less)
qed

lemma sifted_rest:
  assumes n: "2 \<le> n" and nonsq: "\<And>k. n \<noteq> k ^ 2" and lim: "\<And>p. is_prime p \<Longrightarrow> p dvd n \<Longrightarrow> n < p ^ 2"
  shows "is_prime n"
proof (rule ccontr)
  assume "\<not> is_prime n"
  with n obtain d where d: "d dvd n" "d \<noteq> 1" "d \<noteq> n" by (auto simp: is_prime_def)
  then obtain e where e: "n = d * e" by (auto elim: dvdE)
  have "\<exists>a b. n = a * b \<and> 2 \<le> a \<and> a \<le> b"
  proof (cases "d \<le> e")
    case True
    then show ?thesis using e d n by (intro exI [of _ d] exI [of _ e]) (auto simp: numeral_2_eq_2 Suc_le_eq intro: Suc_lessI)
  next
    case False
    then show ?thesis using e d n by (intro exI [of _ e] exI [of _ d]) (cases e, auto simp: numeral_2_eq_2 Suc_le_eq intro: Suc_lessI)
  qed
  then obtain a b where ab: "n = a * b" "2 \<le> a" "a \<le> b" by blast
  obtain p where p: "is_prime p" "p dvd a" using prime_divisor [OF ab(2)] by blast
  have "p \<le> a" using p(2) ab(2) by (intro dvd_imp_le) auto
  then have "p ^ 2 \<le> n" unfolding ab(1) power2_eq_square using ab(3) by (intro mult_le_mono) auto
  moreover have "n < p ^ 2" using p ab(1) by (intro lim) auto
  ultimately show False by simp
qed

end
