(* ===== verification/Coreutils_Factor_Trial.thy ===== *)
theory Coreutils_Factor_Trial
  imports Coreutils_Factor_Correct
begin

text \<open>
  \<^verbatim>\<open>factor\<close>: the trial division ends, and what \<^verbatim>\<open>factorize\<close> prints are the prime factors.
\<close>

subsection \<open>One number\<close>

definition print_factors :: "byte \<Rightarrow> nat list \<Rightarrow> printed list" where
  "print_factors sc ps = concat (map (\<lambda>p. print_w sc (of_nat p)) ps)"

lemma print_factors_simps [simp]:
  "print_factors sc [] = []"
  "print_factors sc (p # ps) = print_w sc (of_nat p) @ print_factors sc ps"
  "print_factors sc (ps @ qs) = print_factors sc ps @ print_factors sc qs"
  by (simp_all add: print_factors_def)

lemma unat_half: "unat (ucast (f :: u32) :: u64) = unat f"
  using u32_bound [of f] take_bit_nat_eq_self [of "unat f" 64] by (simp add: unsigned_ucast_eq)

lemma print_h_factor: "print_h sc f = print_w sc (of_nat (unat f))"
proof -
  have "(ucast f :: u64) = of_nat (unat (ucast f :: u64))" by simp
  then show ?thesis by (simp only: print_h_def unat_half)
qed

lemma divides_word: "(n :: u64) mod ucast (f :: u32) = 0 \<longleftrightarrow> unat f dvd unat n"
proof -
  have "n mod ucast f = 0 \<longleftrightarrow> unat (n mod ucast f) = 0" by (simp add: unat_eq_0)
  then show ?thesis by (simp only: unat_mod unat_half dvd_eq_mod_eq_0)
qed

lemma at_wheel_bound: "at_wheel f w \<Longrightarrow> 2 \<le> f \<and> w < WHEEL_SIZE"
proof -
  assume a: "at_wheel f w"
  have "w = 0 \<or> w = 1 \<or> w = 2 \<or> w = 3 \<or> w = 4" if "w < 5" using that by auto
  with a show ?thesis by (auto simp: at_wheel_def split: if_splits)
qed

text \<open>What the division from \<open>f\<close> on has found: \<open>ps\<close>, and a rest whose prime factors are not below them.\<close>

definition rest_of :: "nat list \<Rightarrow> nat \<Rightarrow> bool" where
  "rest_of ps r \<longleftrightarrow> (\<forall>q p. is_prime q \<and> q dvd r \<and> p \<in> set ps \<longrightarrow> p \<le> q)"

definition trial_done :: "nat \<Rightarrow> nat \<Rightarrow> nat list \<Rightarrow> trial_end \<Rightarrow> bool" where
  "trial_done f n ps e \<longleftrightarrow> sorted ps \<and> (\<forall>p \<in> set ps. is_prime p \<and> f \<le> p) \<and>
    (case e of
       Square s \<Rightarrow> n = prod_list ps * unat s ^ 2 \<and> rest_of ps (unat s)
     | Rest r \<Rightarrow> n = prod_list ps * unat r \<and> rest_of ps (unat r) \<and> is_prime (unat r))"

lemma trial_done_factor:
  assumes "trial_done f m ps e" "sifted f n" "n = f * m" "is_prime f"
  shows "trial_done f n (f # ps) e"
proof -
  have "rest_of (f # ps) r" if "rest_of ps r" "r dvd n" for r
    using that assms(2) dvd_trans [of _ r n] by (auto simp: rest_of_def sifted_def)
  then show ?thesis using assms(1,3,4) by (cases e) (auto simp: trial_done_def power2_eq_square)
qed

lemma trial_done_step: "trial_done (f + g) n ps e \<Longrightarrow> trial_done f n ps e"
  by (auto simp: trial_done_def)

lemma limit_prime:
  assumes m: "isqrt_odd n = Inr m" and f: "2 \<le> f" "sifted f (unat n)" "\<not> f dvd unat n" and n: "2 \<le> unat n"
    and lim: "\<And>p. is_prime p \<Longrightarrow> f < p \<Longrightarrow> p dvd unat n \<Longrightarrow> p \<le> unat m \<Longrightarrow> p ^ 2 \<le> unat n \<Longrightarrow> False"
  shows "is_prime (unat n)"
proof (rule sifted_rest [OF n isqrt_odd_nonsquare [OF m]])
  fix p
  assume p: "is_prime p" "p dvd unat n"
  then have "f \<le> p" "f \<noteq> p" using f(2,3) by (auto simp: sifted_def)
  then have fp: "f < p" by simp
  then have "odd p" using p(1) f(1) by (auto simp: is_prime_def)
  then show "unat n < p ^ 2" using isqrt_odd_limit [OF m] lim [OF p(1) fp p(2)] by (meson not_less)
qed

lemma trial_done_rest: "is_prime (unat r) \<Longrightarrow> trial_done f (unat r) [] (Rest r)"
  by (simp add: trial_done_def rest_of_def)

lemma nonsquare_two: "isqrt_odd n = Inr m \<Longrightarrow> 2 \<le> unat n"
proof -
  assume m: "isqrt_odd n = Inr m"
  have "unat n \<noteq> 0" "unat n \<noteq> 1" using isqrt_odd_nonsquare [OF m, of 0] isqrt_odd_nonsquare [OF m, of 1] by simp_all
  then show ?thesis by linarith
qed

text \<open>One turn of the wheel, with the sum in 32 bits.\<close>

lemma factor_step:
  fixes f :: u32
  assumes "w < WHEEL_SIZE"
  defines "fw \<equiv> f + ucast (unpack_wheel ! w)"
  shows "fw < f \<longleftrightarrow> 2 ^ 32 \<le> unat f + wheel ! w" "\<not> fw < f \<Longrightarrow> unat fw = unat f + wheel ! w"
proof -
  have g: "wheel ! w < 16" "unpack_wheel ! w = of_nat (wheel ! w)" using wheel_byte [OF assms(1)] by auto
  then have "unat (unpack_wheel ! w) = wheel ! w" by (simp add: unat_of_nat_small)
  then have "(ucast (unpack_wheel ! w) :: u32) = of_nat (wheel ! w)" by (metis of_nat_unat)
  moreover have "unat (of_nat (wheel ! w) :: u32) = wheel ! w" using g(1) by (intro unat_of_nat_small) simp
  ultimately have u: "unat fw = (unat f + wheel ! w) mod 2 ^ 32" unfolding fw_def by (simp add: unat_word_ariths)
  have "(unat f + wheel ! w) mod 2 ^ 32 = (if 2 ^ 32 \<le> unat f + wheel ! w then unat f + wheel ! w - 2 ^ 32 else unat f + wheel ! w)"
    using g(1) u32_bound [of f] by (simp add: mod_if)
  then show "fw < f \<longleftrightarrow> 2 ^ 32 \<le> unat f + wheel ! w" "\<not> fw < f \<Longrightarrow> unat fw = unat f + wheel ! w"
    using u g(1) u32_bound [of f] unfolding word_less_nat_alt by (auto split: if_splits)
qed

lemma trial_result:
  assumes "at_wheel (unat f) w" "sifted (unat f) (unat n)" "isqrt_odd n = Inr m"
  shows "\<exists>ps e. trial n f m w sc out = Some (out @ print_factors sc ps, e) \<and> trial_done (unat f) (unat n) ps e"
  using assms
proof (induction "unat n + (2 ^ 32 - unat f)" arbitrary: n f m w out rule: less_induct)
  case less
  note f = at_wheel_bound [OF less.prems(1)]
  note n = nonsquare_two [OF less.prems(3)]
  note turn = at_wheel_step [OF less.prems(1)]
  note eq = trial.simps [of n f m w sc out]
  consider (divides) "unat f dvd unat n" | (stop) "\<not> unat f dvd unat n" "m \<le> f"
    | (wrap) "\<not> unat f dvd unat n" "\<not> m \<le> f" "f + ucast (unpack_wheel ! w) < f"
    | (go) "\<not> unat f dvd unat n" "\<not> m \<le> f" "\<not> f + ucast (unpack_wheel ! w) < f" by blast
  then show ?case
  proof cases
    case divides
    define q where "q = n div ucast f"
    have q: "unat q = unat n div unat f" by (simp add: q_def unat_div unat_half)
    then have nq: "unat n = unat f * unat q" using divides by simp
    have p: "is_prime (unat f)" using sifted_prime [OF less.prems(2) divides] f by simp
    have sq: "sifted (unat f) (unat q)" using sifted_dvd [OF less.prems(2)] nq by simp
    show ?thesis
    proof (cases "isqrt_odd q")
      case (Inl s)
      then have "trial n f m w sc out = Some (out @ print_factors sc [unat f], Square s)"
        using divides eq by (simp add: divides_word q_def [symmetric] print_h_factor)
      moreover have "trial_done (unat f) (unat q) [] (Square s)"
        using isqrt_odd_square [OF Inl] by (simp add: trial_done_def rest_of_def)
      ultimately show ?thesis using trial_done_factor [OF _ less.prems(2) nq p] by blast
    next
      case (Inr m')
      then have t: "trial n f m w sc out = trial q f m' w sc (out @ print_w sc (of_nat (unat f)))"
        using divides eq by (simp add: divides_word q_def [symmetric] print_h_factor)
      have "unat q < unat n" using q n f by simp
      then obtain ps e where "trial q f m' w sc (out @ print_w sc (of_nat (unat f))) =
          Some ((out @ print_w sc (of_nat (unat f))) @ print_factors sc ps, e)" "trial_done (unat f) (unat q) ps e"
        using less.hyps [OF _ less.prems(1) sq Inr] by (meson add_less_mono1)
      then show ?thesis using t trial_done_factor [OF _ less.prems(2) nq p, of ps e]
        by (intro exI [of _ "unat f # ps"] exI [of _ e]) simp
    qed
  next
    case stop
    then have "trial n f m w sc out = Some (out @ print_factors sc [], Rest n)" using eq by (simp add: divides_word)
    moreover have "is_prime (unat n)"
      using f n stop by (intro limit_prime [OF less.prems(3) _ less.prems(2)]) (auto simp: word_le_nat_alt)
    ultimately show ?thesis using trial_done_rest by blast
  next
    case wrap
    then have "trial n f m w sc out = Some (out @ print_factors sc [], Rest n)" using eq by (simp add: divides_word)
    moreover have "is_prime (unat n)"
    proof (rule limit_prime [OF less.prems(3) _ less.prems(2) wrap(1) n])
      fix p
      assume p: "is_prime p" "unat f < p" "p \<le> unat m"
      then have "unat f + wheel ! w \<le> p" using turn by (meson not_less)
      then show False using p(3) u32_bound [of m] factor_step(1) [of w f] f wrap(3) by simp
    qed (use f in simp)
    ultimately show ?thesis using trial_done_rest by blast
  next
    case go
    define fw where "fw = f + ucast (unpack_wheel ! w)"
    have fw: "unat fw = unat f + wheel ! w" using factor_step(2) [of w f] f go(3) by (simp add: fw_def)
    have t: "trial n f m w sc out = trial n fw m (wheel_next w) sc out"
      using eq go by (simp add: divides_word Let_def wheel_next_def fw_def)
    have "2 ^ 32 - unat fw < 2 ^ 32 - unat f" using fw turn [THEN conjunct1] u32_bound [of fw] by linarith
    then have "unat n + (2 ^ 32 - unat fw) < unat n + (2 ^ 32 - unat f)" by simp
    moreover have "at_wheel (unat fw) (wheel_next w)" "sifted (unat fw) (unat n)"
      using turn sifted_step [OF less.prems(2) go(1)] unfolding fw by auto
    ultimately obtain ps e where "trial n fw m (wheel_next w) sc out = Some (out @ print_factors sc ps, e)"
        "trial_done (unat fw) (unat n) ps e"
      using less.hyps less.prems(3) by meson
    then show ?thesis using t trial_done_step unfolding fw by metis
  qed
qed

subsection \<open>The whole number\<close>

text \<open>A square root's factors are printed twice as often: \<open>square_count\<close> stays a byte, as \<open>n ^ square_count\<close> is at
  most the number of the beginning.\<close>

definition twice :: "nat list \<Rightarrow> nat list" where
  "twice ps = concat (map (\<lambda>p. [p, p]) ps)"

lemma twice_set [simp]: "set (twice ps) = set ps"
  by (auto simp: twice_def)

lemma twice_sorted: "sorted ps \<Longrightarrow> sorted (twice ps)"
  by (induction ps) (auto simp: twice_def)

lemma twice_prod: "prod_list (twice ps) = prod_list ps ^ 2"
  by (induction ps) (simp_all add: twice_def power2_eq_square)

lemma print_w_count: "sc \<noteq> 0 \<Longrightarrow> print_w sc n = replicate (unat sc) (Number n)"
  by (simp add: print_w_def)

lemma print_factors_twice:
  assumes "sc \<noteq> 0" "unat sc < 128"
  shows "print_factors (sc * 2) ps = print_factors sc (twice ps)"
proof -
  have u: "unat (sc * 2) = 2 * unat sc" using assms(2) by (simp add: unat_word_ariths)
  then have "sc * 2 \<noteq> 0" using assms(1) by (metis mult_eq_0_iff unat_eq_0 zero_neq_numeral)
  then have "print_w (sc * 2) n = print_w sc n @ print_w sc n" for n
    using assms(1) by (simp add: print_w_count u mult_2 replicate_add)
  then show ?thesis by (induction ps) (simp_all add: twice_def)
qed

definition prime_factors :: "nat \<Rightarrow> nat list \<Rightarrow> bool" where
  "prime_factors n ps \<longleftrightarrow> sorted ps \<and> (\<forall>p \<in> set ps. is_prime p) \<and> prod_list ps = n"

lemma factor_dvd: "p \<in> set ps \<Longrightarrow> (p :: nat) dvd prod_list ps"
  by (induction ps) auto

lemma prime_factors_square:
  assumes "sorted qs" "\<forall>q \<in> set qs. is_prime q" "rest_of qs s" "prime_factors s ps"
  shows "prime_factors (prod_list qs * s ^ 2) (qs @ twice ps)"
proof -
  have "p dvd s" if "p \<in> set ps" for p using that assms(4) by (auto simp: prime_factors_def dest: factor_dvd)
  then have "\<forall>q \<in> set qs. \<forall>p \<in> set ps. q \<le> p" using assms(3,4) by (auto simp: rest_of_def prime_factors_def)
  then show ?thesis using assms(1,2,4) by (auto simp: prime_factors_def sorted_append twice_sorted twice_prod)
qed

lemma square_count_bound:
  fixes n k :: nat
  assumes "4 \<le> n" "n ^ k < 2 ^ 64"
  shows "k < 32"
proof (rule ccontr)
  assume "\<not> k < 32"
  then have "(4 :: nat) ^ 32 \<le> 4 ^ k" by (intro power_increasing) auto
  also have "\<dots> \<le> n ^ k" using assms(1) by (intro power_mono) auto
  finally show False using assms(2) by simp
qed

lemma square_count_root:
  assumes "unat n = c * s ^ 2" "0 < c" "4 \<le> unat n" "unat n ^ unat sc < 2 ^ 64" "sc \<noteq> (0 :: byte)"
  shows "s < unat n" "s ^ unat (sc * 2) < 2 ^ 64" "sc * 2 \<noteq> 0" "unat sc < 128"
proof -
  have k: "unat sc < 32" using square_count_bound [OF assms(3,4)] .
  then show "unat sc < 128" by simp
  have u: "unat (sc * 2) = 2 * unat sc" using k by (simp add: unat_word_ariths)
  then show "sc * 2 \<noteq> 0" using assms(5) by (metis mult_eq_0_iff unat_eq_0 zero_neq_numeral)
  have sq: "s ^ 2 \<le> unat n" using assms(1,2) by simp
  show "s < unat n"
  proof (rule ccontr)
    assume "\<not> s < unat n"
    then have s4: "4 \<le> s" using assms(3) by simp
    then have "4 * s \<le> s * s" by (rule mult_right_mono) simp
    then show False using s4 sq \<open>\<not> s < unat n\<close> unfolding power2_eq_square by linarith
  qed
  have "s ^ unat (sc * 2) = (s ^ 2) ^ unat sc" by (simp add: u power_mult)
  also have "\<dots> \<le> unat n ^ unat sc" using sq by (intro power_mono) auto
  finally show "s ^ unat (sc * 2) < 2 ^ 64" using assms(4) by simp
qed

lemma small_primes: "is_prime 2" "is_prime 3"
proof -
  have "d = 1 \<or> d = 2" if "d dvd 2" for d :: nat using dvd_imp_le [OF that] that by (cases d) auto
  then show "is_prime 2" by (simp add: is_prime_def)
  have "d = 1 \<or> d = 3" if "d dvd 3" for d :: nat
  proof -
    have "d \<le> 3" using dvd_imp_le [OF that] by simp
    then have "d = 0 \<or> d = 1 \<or> d = 2 \<or> d = 3" by linarith
    then show ?thesis using that by auto
  qed
  then show "is_prime 3" by (simp add: is_prime_def)
qed

lemma factorize_small:
  assumes "n < 4" "n \<noteq> 0"
  shows "\<exists>ps. factorize n sc out = Some (out @ print_factors sc ps @ [Newline]) \<and> prime_factors (unat n) ps"
proof -
  have "unat n < 4" "unat n \<noteq> 0" using assms by (simp_all add: word_less_nat_alt unat_eq_0)
  then have "unat n = 1 \<or> unat n = 2 \<or> unat n = 3" by linarith
  then have u: "unat n = 1 \<or> unat n = unat (2 :: u64) \<or> unat n = unat (3 :: u64)" by simp
  then have n: "n = 1 \<or> n = 2 \<or> n = 3" by (metis word_unat_eq_iff unat_1)
  have eq: "factorize n sc out = Some (out @ factorize_end sc n)" using assms(1) factorize.simps [of n sc out] by simp
  show ?thesis
  proof (cases "n = 1")
    case True
    then show ?thesis unfolding eq by (intro exI [of _ "[]"]) (simp add: prime_factors_def factorize_end_def)
  next
    case False
    then have "1 < n" "is_prime (unat n)" using n small_primes by auto
    then show ?thesis unfolding eq by (intro exI [of _ "[unat n]"]) (simp add: prime_factors_def factorize_end_def)
  qed
qed

lemma factorize_result:
  assumes "n \<noteq> 0" "sc \<noteq> 0" "unat n ^ unat sc < 2 ^ 64"
  shows "\<exists>ps. factorize n sc out = Some (out @ print_factors sc ps @ [Newline]) \<and> prime_factors (unat n) ps"
  using assms
proof (induction "unat n" arbitrary: n sc out rule: less_induct)
  case less
  show ?case
  proof (cases "n < 4")
    case True
    then show ?thesis by (rule factorize_small [OF _ less.prems(1)])
  next
    case False
    then have n4: "4 \<le> unat n" by (simp add: word_less_nat_alt)
    note eq = factorize.simps [of n sc out]
    have square: "\<exists>ps. factorize (ucast s) (sc * 2) (out @ print_factors sc qs) = Some (out @ print_factors sc ps @ [Newline])
        \<and> prime_factors (unat n) ps"
      if s: "unat n = prod_list qs * unat s ^ 2" "rest_of qs (unat s)" and qs: "sorted qs" "\<forall>q \<in> set qs. is_prime q"
      for s :: u32 and qs
    proof -
      have pos: "0 < prod_list qs" "unat s \<noteq> 0" using s(1) n4 by (auto intro: Nat.gr0I)
      note root = square_count_root [OF s(1) pos(1) n4 less.prems(3,2)]
      have "ucast s \<noteq> (0 :: u64)" using pos(2) unat_half [of s] by (metis unsigned_0)
      then obtain ps where ps: "factorize (ucast s) (sc * 2) (out @ print_factors sc qs) =
          Some ((out @ print_factors sc qs) @ print_factors (sc * 2) ps @ [Newline])" "prime_factors (unat s) ps"
        using less.hyps [of "ucast s :: u64" "sc * 2"] root unfolding unat_half by blast
      have "prime_factors (unat n) (qs @ twice ps)" unfolding s(1) using prime_factors_square [OF qs s(2) ps(2)] .
      then show ?thesis using ps(1) print_factors_twice [OF less.prems(2) root(4)]
        by (intro exI [of _ "qs @ twice ps"]) simp
    qed
    show ?thesis
    proof (cases "isqrt_odd n")
      case (Inl s)
      have "factorize n sc out = factorize (ucast s) (sc * 2) (out @ print_factors sc [])" using False eq Inl by simp
      moreover have "unat n = prod_list [] * unat s ^ 2" "rest_of [] (unat s)"
        using isqrt_odd_square [OF Inl] by (simp_all add: rest_of_def)
      ultimately show ?thesis using square [of "[]" s] by simp
    next
      case (Inr m)
      have "at_wheel (unat (2 :: u32)) 0" "sifted (unat (2 :: u32)) (unat n)"
        using at_wheel_start by (auto simp: sifted_def is_prime_def)
      from trial_result [OF this Inr] obtain qs e where t: "trial n 2 m 0 sc out = Some (out @ print_factors sc qs, e)"
        and d: "trial_done (unat (2 :: u32)) (unat n) qs e" by blast
      show ?thesis
      proof (cases e)
        case (Square s)
        have "factorize n sc out = factorize (ucast s) (sc * 2) (out @ print_factors sc qs)"
          using False eq Inr t Square by simp
        then show ?thesis using square [of qs s] d Square by (simp add: trial_done_def)
      next
        case (Rest r)
        have r: "is_prime (unat r)" "rest_of qs (unat r)" using d Rest by (simp_all add: trial_done_def)
        then have "1 < r" by (simp add: is_prime_def word_less_nat_alt)
        then have "factorize n sc out = Some (out @ print_factors sc (qs @ [unat r]) @ [Newline])"
          using False eq Inr t Rest by (simp add: factorize_end_def)
        moreover have "prime_factors (unat n) (qs @ [unat r])"
          using d Rest r by (auto simp: trial_done_def prime_factors_def rest_of_def sorted_append)
        ultimately show ?thesis by blast
      qed
    qed
  qed
qed

subsection \<open>The applet\<close>

text \<open>The number 0 is printed with no factor.\<close>

definition factors :: "nat \<Rightarrow> nat list \<Rightarrow> bool" where
  "factors n ps \<longleftrightarrow> (if n = 0 then ps = [] else prime_factors n ps)"

definition factor_line_of :: "nat \<Rightarrow> nat list \<Rightarrow> printed list" where
  "factor_line_of n ps = Label (of_nat n) # map (\<lambda>p. Number (of_nat p)) ps @ [Newline]"

lemma factorize_once: "\<exists>ps. factorize n 1 out = Some (out @ map (\<lambda>p. Number (of_nat p)) ps @ [Newline]) \<and> factors (unat n) ps"
proof (cases "n = 0")
  case True
  then show ?thesis using factorize.simps [of 0 1 out]
    by (intro exI [of _ "[]"]) (simp add: factorize_end_def factors_def)
next
  case False
  have p: "print_factors 1 ps = map (\<lambda>p. Number (of_nat p)) ps" for ps
    by (induction ps) (simp_all add: print_w_def)
  have "unat n ^ unat (1 :: byte) < 2 ^ 64" using u64_bound [of n] by simp
  from factorize_result [OF False _ this, of out] show ?thesis using False by (simp add: p factors_def unat_eq_0)
qed

text \<open>An argument that names the number \<open>n\<close>: blanks, perhaps a plus sign, and decimal digits.\<close>

definition names_number :: "cstr \<Rightarrow> nat \<Rightarrow> bool" where
  "names_number arg n \<longleftrightarrow> (\<exists>ds. (skip_whitespace arg = ds \<or> skip_whitespace arg = CHR ''+'' # ds) \<and>
    ds \<noteq> [] \<and> list_all isdigit ds \<and> dec_val 0 ds = n \<and> n < 2 ^ 64)"

lemma strtoull_digits:
  assumes "ds \<noteq> []" "list_all isdigit ds" "dec_val 0 ds < 2 ^ 64"
  shows "bb_strtoull ds 10 = (of_nat (dec_val 0 ds), [], E0)"
proof -
  have d: "isdigit (deref ds)" using assms(1,2) by (cases ds) auto
  then have "isalnum (deref ds)" by (simp add: isalnum_iff)
  then show ?thesis using d assms(3)
    by (simp add: bb_strtoull_def strtoull_def strto_scan_dec handle_errors_def
        all_digits_scan [OF assms(2), THEN conjunct1] all_digits_scan [OF assms(2), THEN conjunct2])
qed

lemma factorize_numstr_names:
  assumes "names_number arg n"
  shows "\<exists>ps. factorize_numstr (skip_whitespace arg) out = Some (out @ factor_line_of n ps, True) \<and> factors n ps"
proof -
  obtain ds where ds: "skip_whitespace arg = ds \<or> skip_whitespace arg = CHR ''+'' # ds"
    "ds \<noteq> []" "list_all isdigit ds" "dec_val 0 ds = n" "n < 2 ^ 64" using assms unfolding names_number_def by blast
  then have "deref ds \<noteq> CHR ''+''" by (cases ds) (auto simp: ctype_simps)
  then have "factorize_numstr (skip_whitespace arg) out =
      map_option (\<lambda>out. (out, True)) (factorize (of_nat n) 1 (out @ [Label (of_nat n)]))"
    using ds(1) strtoull_digits [OF ds(2,3)] ds(4,5) by (auto simp: factorize_numstr_def)
  moreover have "unat (of_nat n :: u64) = n" using ds(5) by (intro unat_of_nat_small) simp
  ultimately show ?thesis using factorize_once [of "of_nat n" "out @ [Label (of_nat n)]"] by (auto simp: factor_line_of_def)
qed

lemma factor_args_names:
  "list_all2 names_number argv ns \<Longrightarrow> \<exists>pss. factor_args argv out = Some (out @ concat (map2 factor_line_of ns pss), True) \<and>
    list_all2 factors ns pss"
proof (induction argv ns arbitrary: out rule: list_all2_induct)
  case (Cons arg argv n ns)
  obtain ps where ps: "factorize_numstr (skip_whitespace arg) out = Some (out @ factor_line_of n ps, True)" "factors n ps"
    using factorize_numstr_names [OF Cons(1)] by blast
  with Cons.IH [of "out @ factor_line_of n ps"] obtain pss where
    "factor_args argv (out @ factor_line_of n ps) = Some ((out @ factor_line_of n ps) @ concat (map2 factor_line_of ns pss), True)"
    "list_all2 factors ns pss" by blast
  with ps show ?case by (intro exI [of _ "ps # pss"]) simp
qed simp

text \<open>C9: The applet \<^verbatim>\<open>factor\<close> always returns, for every list of 64-bit numbers on its command line, and what it has
  printed is the factorization of each: a line with the number and its prime factors in ascending order, each as often as
  it divides. This covers the increments of the packed wheel, the 32-bit divisor that would wrap, the limit from the
  integer square root, the squares that are factorized through their root, and the counter that is a byte.\<close>

theorem factor_main_correct:
  assumes "argv \<noteq> []" "list_all2 names_number argv ns"
  shows "\<exists>pss. factor_main argv stdin = Some (concat (map2 factor_line_of ns pss), True) \<and> length pss = length ns \<and>
    (\<forall>i < length ns. if ns ! i = 0 then pss ! i = []
      else sorted (pss ! i) \<and> (\<forall>p \<in> set (pss ! i). is_prime p) \<and> prod_list (pss ! i) = ns ! i)"
proof -
  obtain pss where f: "factor_args argv [] = Some ([] @ concat (map2 factor_line_of ns pss), True)" "list_all2 factors ns pss"
    using factor_args_names [OF assms(2)] by blast
  have "if ns ! i = 0 then pss ! i = [] else sorted (pss ! i) \<and> (\<forall>p \<in> set (pss ! i). is_prime p) \<and> prod_list (pss ! i) = ns ! i"
    if "i < length ns" for i
    using list_all2_nthD [OF f(2) that] unfolding factors_def prime_factors_def by (simp split: if_splits)
  then show ?thesis using f(1) list_all2_lengthD [OF f(2)] assms(1) unfolding factor_main_def by auto
qed

lemma factor_main_correct_witness:
  "\<exists>pss. factor_main [''18446744073709551557'', '' +60''] [] =
    Some (concat (map2 factor_line_of [18446744073709551557, 60] pss), True) \<and> length pss = 2 \<and>
    prod_list (pss ! 1) = 60 \<and> (\<forall>p \<in> set (pss ! 0). is_prime p)"
proof -
  have p: "names_number ''18446744073709551557'' 18446744073709551557"
    unfolding names_number_def by (intro exI [of _ "''18446744073709551557''"]) (simp add: ctype_simps)
  have "names_number '' +60'' 60"
    unfolding names_number_def by (intro exI [of _ "''60''"]) (simp add: ctype_simps)
  define ns :: "nat list" where "ns = [18446744073709551557, 60]"
  have a: "list_all2 names_number [''18446744073709551557'', '' +60''] ns" using \<open>names_number '' +60'' 60\<close> p by (simp add: ns_def)
  obtain pss where f: "factor_main [''18446744073709551557'', '' +60''] [] = Some (concat (map2 factor_line_of ns pss), True)"
    "length pss = length ns" and i: "\<forall>i < length ns. if ns ! i = 0 then pss ! i = []
      else sorted (pss ! i) \<and> (\<forall>p \<in> set (pss ! i). is_prime p) \<and> prod_list (pss ! i) = ns ! i"
    using factor_main_correct [OF list.distinct(2) a, of "[]"] by blast
  have "prod_list (pss ! 1) = 60" using i [rule_format, of 1] by (simp add: ns_def)
  moreover have "\<forall>p \<in> set (pss ! 0). is_prime p" using i [rule_format, of 0] by (simp add: ns_def)
  moreover have "length pss = 2" using f(2) by (simp add: ns_def)
  ultimately show ?thesis using f(1) unfolding ns_def by blast
qed

end
