(* ===== verification/Archival_Unlzma.thy ===== *)
theory Archival_Unlzma
  imports Bb_Prelude
begin

text \<open>
  The LZMA decoder, \<^verbatim>\<open>archival/libarchive/decompress_unlzma.c\<close>, without FEATURE_LZMA_FAST.

  \<^item> What \<^verbatim>\<open>full_read\<close> returns for the header, and what the calls of \<^verbatim>\<open>safe_read\<close> after it return, are arguments; an
    empty list of bytes is an end of file or an error. \<^verbatim>\<open>rc_ptr\<close> are the bytes between \<^verbatim>\<open>ptr\<close> and \<^verbatim>\<open>buffer_end\<close>.
  \<^item> A pointer into the array \<^verbatim>\<open>p\<close> of probabilities is its index; the array and the dictionary are functions with their
    size beside them, and an access outside is a way to stop. The dictionary's bytes before the first write are an argument.
  \<^item> \<^verbatim>\<open>transformer_write\<close> is a function that tells, from what has been written and what is to be written, whether it succeeds.
  \<^item> Each \<^verbatim>\<open>int\<close> that is an index, a length or a symbol is an \<open>int\<close>: all are below 2^31. \<^verbatim>\<open>buffer_pos\<close> is at most the
    32-bit size of the dictionary.
\<close>

datatype lzma_stop =
    BadHeader
  | UnexpectedEof
  | Corrupted
  | ProbOutside int
  | ReadOutside nat
  | WriteOutside nat

fun and_then :: "'e + 'a \<Rightarrow> ('a \<Rightarrow> 'e + 'b) \<Rightarrow> 'e + 'b" where
  "and_then (Inl e) f = Inl e"
| "and_then (Inr x) f = f x"

subsection \<open>The range decoder\<close>

record coder =
  rc_ptr :: "byte list"
  rc_file :: "byte list list"
  rc_code :: u32
  rc_range :: u32
  probs :: "int \<Rightarrow> u16"
  num_probs :: int

definition rc_read :: "coder \<Rightarrow> lzma_stop + coder" where
  "rc_read rc =
    (case rc_file rc of
       [] \<Rightarrow> Inl UnexpectedEof
     | buf # bufs \<Rightarrow> if buf = [] then Inl UnexpectedEof else Inr (rc\<lparr>rc_ptr := buf, rc_file := bufs\<rparr>))"

definition rc_do_normalize :: "coder \<Rightarrow> lzma_stop + coder" where
  "rc_do_normalize rc =
    and_then (if rc_ptr rc = [] then rc_read rc else Inr rc) (\<lambda>rc.
      Inr (rc\<lparr>rc_range := push_bit 8 (rc_range rc), rc_code := push_bit 8 (rc_code rc) OR ucast (hd (rc_ptr rc)),
        rc_ptr := tl (rc_ptr rc)\<rparr>))"

definition rc_normalize :: "coder \<Rightarrow> lzma_stop + coder" where
  "rc_normalize rc = (if rc_range rc < 0x1000000 then rc_do_normalize rc else Inr rc)"

fun init_loop :: "nat \<Rightarrow> coder \<Rightarrow> lzma_stop + coder" where
  "init_loop 0 rc = Inr rc"
| "init_loop (Suc i) rc = and_then (rc_do_normalize rc) (init_loop i)"

definition rc_init :: "byte list list \<Rightarrow> (int \<Rightarrow> u16) \<Rightarrow> int \<Rightarrow> lzma_stop + coder" where
  "rc_init file p n =
    and_then (init_loop 5 \<lparr>rc_ptr = [], rc_file = file, rc_code = 0, rc_range = 0, probs = p, num_probs = n\<rparr>) (\<lambda>rc.
      Inr (rc\<lparr>rc_range := 0xffffffff\<rparr>))"

definition rc_is_bit_1 :: "int \<Rightarrow> coder \<Rightarrow> lzma_stop + bool \<times> coder" where
  "rc_is_bit_1 p rc =
    and_then (rc_normalize rc) (\<lambda>rc.
      if p < 0 \<or> num_probs rc \<le> p then Inl (ProbOutside p)
      else
        let v = probs rc p; bound = ucast v * drop_bit 11 (rc_range rc)
        in if rc_code rc < bound then
             Inr (False, rc\<lparr>rc_range := bound, probs := (probs rc)(p := word_of_int (uint v + (2048 - uint v) div 32))\<rparr>)
           else
             Inr (True, rc\<lparr>rc_range := rc_range rc - bound, rc_code := rc_code rc - bound,
               probs := (probs rc)(p := word_of_int (uint v - uint v div 32))\<rparr>))"

definition rc_get_bit :: "int \<Rightarrow> int \<Rightarrow> coder \<Rightarrow> lzma_stop + bool \<times> int \<times> coder" where
  "rc_get_bit p symbol rc =
    and_then (rc_is_bit_1 p rc) (\<lambda>(ret, rc). Inr (ret, symbol * 2 + of_bool ret, rc))"

definition rc_direct_bit :: "coder \<Rightarrow> lzma_stop + bool \<times> coder" where
  "rc_direct_bit rc =
    and_then (rc_normalize rc) (\<lambda>rc.
      let range = drop_bit 1 (rc_range rc); rc = rc\<lparr>rc_range := range\<rparr>
      in if range \<le> rc_code rc then Inr (True, rc\<lparr>rc_code := rc_code rc - range\<rparr>) else Inr (False, rc))"

fun tree_loop :: "nat \<Rightarrow> int \<Rightarrow> int \<Rightarrow> coder \<Rightarrow> lzma_stop + int \<times> coder" where
  "tree_loop 0 p symbol rc = Inr (symbol, rc)"
| "tree_loop (Suc i) p symbol rc = and_then (rc_get_bit (p + symbol) symbol rc) (\<lambda>(_, symbol, rc). tree_loop i p symbol rc)"

definition rc_bit_tree_decode :: "int \<Rightarrow> nat \<Rightarrow> coder \<Rightarrow> lzma_stop + int \<times> coder" where
  "rc_bit_tree_decode p num_levels rc =
    and_then (tree_loop num_levels p 1 rc) (\<lambda>(symbol, rc). Inr (symbol - 2 ^ num_levels, rc))"

subsection \<open>The layout of the probabilities\<close>

definition LZMA_BASE_SIZE :: int where "LZMA_BASE_SIZE = 1846"
definition LZMA_LIT_SIZE :: int where "LZMA_LIT_SIZE = 768"
definition LZMA_LEN_CHOICE :: int where "LZMA_LEN_CHOICE = 0"
definition LZMA_LEN_CHOICE_2 :: int where "LZMA_LEN_CHOICE_2 = LZMA_LEN_CHOICE + 1"
definition LZMA_LEN_LOW :: int where "LZMA_LEN_LOW = LZMA_LEN_CHOICE_2 + 1"
definition LZMA_LEN_MID :: int where "LZMA_LEN_MID = LZMA_LEN_LOW + 2 ^ (4 + 3)"
definition LZMA_LEN_HIGH :: int where "LZMA_LEN_HIGH = LZMA_LEN_MID + 2 ^ (4 + 3)"
definition LZMA_NUM_LEN_PROBS :: int where "LZMA_NUM_LEN_PROBS = LZMA_LEN_HIGH + 2 ^ 8"
definition LZMA_IS_MATCH :: int where "LZMA_IS_MATCH = 0"
definition LZMA_IS_REP :: int where "LZMA_IS_REP = LZMA_IS_MATCH + 12 * 16"
definition LZMA_IS_REP_G0 :: int where "LZMA_IS_REP_G0 = LZMA_IS_REP + 12"
definition LZMA_IS_REP_G1 :: int where "LZMA_IS_REP_G1 = LZMA_IS_REP_G0 + 12"
definition LZMA_IS_REP_G2 :: int where "LZMA_IS_REP_G2 = LZMA_IS_REP_G1 + 12"
definition LZMA_IS_REP_0_LONG :: int where "LZMA_IS_REP_0_LONG = LZMA_IS_REP_G2 + 12"
definition LZMA_POS_SLOT :: int where "LZMA_POS_SLOT = LZMA_IS_REP_0_LONG + 12 * 16"
definition LZMA_SPEC_POS :: int where "LZMA_SPEC_POS = LZMA_POS_SLOT + 4 * 64"
definition LZMA_ALIGN :: int where "LZMA_ALIGN = LZMA_SPEC_POS + 128 - 14"
definition LZMA_LEN_CODER :: int where "LZMA_LEN_CODER = LZMA_ALIGN + 16"
definition LZMA_REP_LEN_CODER :: int where "LZMA_REP_LEN_CODER = LZMA_LEN_CODER + LZMA_NUM_LEN_PROBS"
definition LZMA_LITERAL :: int where "LZMA_LITERAL = LZMA_REP_LEN_CODER + LZMA_NUM_LEN_PROBS"

lemmas layout = LZMA_BASE_SIZE_def LZMA_LIT_SIZE_def LZMA_LEN_CHOICE_def LZMA_LEN_CHOICE_2_def LZMA_LEN_LOW_def
  LZMA_LEN_MID_def LZMA_LEN_HIGH_def LZMA_NUM_LEN_PROBS_def LZMA_IS_MATCH_def LZMA_IS_REP_def LZMA_IS_REP_G0_def
  LZMA_IS_REP_G1_def LZMA_IS_REP_G2_def LZMA_IS_REP_0_LONG_def LZMA_POS_SLOT_def LZMA_SPEC_POS_def LZMA_ALIGN_def
  LZMA_LEN_CODER_def LZMA_REP_LEN_CODER_def LZMA_LITERAL_def

subsection \<open>What one turn decodes\<close>

record header =
  lc :: nat
  pos_state_mask :: u32
  literal_pos_mask :: u32
  dict_size :: u32
  dst_size :: u64
  buffer_size :: u32

record decoder =
  rc :: coder
  previous_byte :: byte
  state :: int
  rep0 :: u32
  rep1 :: u32
  rep2 :: u32
  rep3 :: u32

definition next_state :: "int list" where
  "next_state = [0, 0, 0, 0, 1, 2, 3, 4, 5, 6, 4, 5]"

text \<open>The two loops of a literal: \<open>mi\<close> doubles from 1 to at least 256, in eight turns.\<close>

fun matched_loop :: "nat \<Rightarrow> int \<Rightarrow> int \<Rightarrow> int \<Rightarrow> coder \<Rightarrow> lzma_stop + int \<times> coder" where
  "matched_loop 0 prob match_byte mi r = Inr (mi, r)"
| "matched_loop (Suc k) prob match_byte mi r =
    (let match_byte = push_bit 1 match_byte; bit = match_byte AND 0x100
     in and_then (rc_get_bit (prob + 0x100 + bit + mi) mi r) (\<lambda>(ret, mi, r).
          let bit = bit XOR push_bit 8 (of_bool ret)
          in if bit \<noteq> 0 then Inr (mi, r)
             else if mi < 0x100 then matched_loop k prob match_byte mi r
             else Inr (mi, r)))"

fun literal_loop :: "nat \<Rightarrow> int \<Rightarrow> int \<Rightarrow> coder \<Rightarrow> lzma_stop + int \<times> coder" where
  "literal_loop 0 prob mi r = Inr (mi, r)"
| "literal_loop (Suc k) prob mi r =
    (if mi < 0x100 then and_then (rc_get_bit (prob + mi) mi r) (\<lambda>(_, mi, r). literal_loop k prob mi r)
     else Inr (mi, r))"

text \<open>\<open>pos\<close> is \<^verbatim>\<open>buffer_pos + global_pos\<close>, \<open>mb\<close> the reading of \<^verbatim>\<open>match_byte\<close>.\<close>

definition literal_prob :: "header \<Rightarrow> u64 \<Rightarrow> byte \<Rightarrow> int" where
  "literal_prob h pos prev =
    LZMA_LITERAL + LZMA_LIT_SIZE * (uint (push_bit (lc h) (pos AND ucast (literal_pos_mask h))) + drop_bit (8 - lc h) (uint prev))"

definition decode_literal :: "header \<Rightarrow> u64 \<Rightarrow> lzma_stop + byte \<Rightarrow> decoder \<Rightarrow> lzma_stop + decoder" where
  "decode_literal h pos mb d =
    (let prob = literal_prob h pos (previous_byte d)
     in and_then (if 7 \<le> state d then and_then mb (\<lambda>b. matched_loop 8 prob (uint b) 1 (rc d)) else Inr (1, rc d)) (\<lambda>(mi, rc).
        and_then (literal_loop 8 prob mi rc) (\<lambda>(mi, rc).
          Inr (d\<lparr>rc := rc, state := next_state ! nat (state d), previous_byte := word_of_int mi\<rparr>))))"

text \<open>The kind of a match, and the array of its length; none for one byte from the last distance.\<close>

definition older_distance :: "decoder \<Rightarrow> lzma_stop + decoder" where
  "older_distance d =
    and_then (rc_is_bit_1 (LZMA_IS_REP_G1 + state d) (rc d)) (\<lambda>(g1, r).
      and_then (if g1 then rc_is_bit_1 (LZMA_IS_REP_G2 + state d) r else Inr (False, r)) (\<lambda>(g2, r).
        let distance = (if g2 then rep3 d else if g1 then rep2 d else rep1 d);
            d = (if g2 then d\<lparr>rep3 := rep2 d\<rparr> else d);
            d = (if g1 then d\<lparr>rep2 := rep1 d\<rparr> else d)
        in Inr (d\<lparr>rc := r, rep1 := rep0 d, rep0 := distance\<rparr>)))"

definition decode_rep :: "int \<Rightarrow> decoder \<Rightarrow> lzma_stop + int option \<times> decoder" where
  "decode_rep pos_state d =
    and_then (rc_is_bit_1 (LZMA_IS_REP_G0 + state d) (rc d)) (\<lambda>(g0, r).
      and_then
        (if \<not> g0 then rc_is_bit_1 (LZMA_IS_REP_0_LONG + push_bit 4 (state d) + pos_state) r else Inr (True, r))
        (\<lambda>(long, r).
          if \<not> long then Inr (None, d\<lparr>rc := r, state := (if state d < 7 then 9 else 11)\<rparr>)
          else and_then (if g0 then older_distance (d\<lparr>rc := r\<rparr>) else Inr (d\<lparr>rc := r\<rparr>)) (\<lambda>d.
            Inr (Some LZMA_REP_LEN_CODER, d\<lparr>state := (if state d < 7 then 8 else 11)\<rparr>))))"

definition decode_kind :: "int \<Rightarrow> decoder \<Rightarrow> lzma_stop + int option \<times> decoder" where
  "decode_kind pos_state d =
    and_then (rc_is_bit_1 (LZMA_IS_REP + state d) (rc d)) (\<lambda>(rep, r).
      if \<not> rep then
        Inr (Some LZMA_LEN_CODER, d\<lparr>rc := r, rep3 := rep2 d, rep2 := rep1 d, rep1 := rep0 d, state := (if state d < 7 then 0 else 3)\<rparr>)
      else decode_rep pos_state (d\<lparr>rc := r\<rparr>))"

definition decode_len :: "int \<Rightarrow> int \<Rightarrow> coder \<Rightarrow> lzma_stop + int \<times> coder" where
  "decode_len prob2 pos_state r =
    and_then (rc_is_bit_1 (prob2 + LZMA_LEN_CHOICE) r) (\<lambda>(choice, r).
      if \<not> choice then rc_bit_tree_decode (prob2 + LZMA_LEN_LOW + push_bit 3 pos_state) 3 r
      else and_then (rc_is_bit_1 (prob2 + LZMA_LEN_CHOICE_2) r) (\<lambda>(choice_2, r).
        let (prob_len, num_bits, offset) =
          (if \<not> choice_2 then (prob2 + LZMA_LEN_MID + push_bit 3 pos_state, 3, 8) else (prob2 + LZMA_LEN_HIGH, 8, 8 + 8))
        in and_then (rc_bit_tree_decode prob_len num_bits r) (\<lambda>(len, r). Inr (len + offset, r))))"

fun direct_loop :: "nat \<Rightarrow> u32 \<Rightarrow> coder \<Rightarrow> lzma_stop + u32 \<times> coder" where
  "direct_loop 0 rep r = Inr (rep, r)"
| "direct_loop (Suc k) rep r =
    and_then (rc_direct_bit r) (\<lambda>(bit, r). direct_loop k (push_bit 1 rep OR of_bool bit) r)"

fun reverse_loop :: "nat \<Rightarrow> int \<Rightarrow> int \<Rightarrow> u32 \<Rightarrow> u32 \<Rightarrow> coder \<Rightarrow> lzma_stop + u32 \<times> coder" where
  "reverse_loop 0 prob3 mi2 i2 rep r = Inr (rep, r)"
| "reverse_loop (Suc k) prob3 mi2 i2 rep r =
    and_then (rc_get_bit (prob3 + mi2) mi2 r) (\<lambda>(bit, mi2, r).
      reverse_loop k prob3 mi2 (push_bit 1 i2) (if bit then rep OR i2 else rep) r)"

definition decode_distance :: "int \<Rightarrow> coder \<Rightarrow> lzma_stop + u32 \<times> coder" where
  "decode_distance len r =
    and_then (rc_bit_tree_decode (LZMA_POS_SLOT + push_bit 6 (if len < 4 then len else 4 - 1)) 6 r) (\<lambda>(pos_slot, r).
      and_then
        (if pos_slot < 4 then Inr (word_of_int pos_slot, r)
         else
           let num_bits2 = nat (drop_bit 1 pos_slot - 1); rep0 = word_of_int (2 OR (pos_slot AND 1))
           in if pos_slot < 14 then
                let rep0 = push_bit num_bits2 rep0
                in reverse_loop num_bits2 (LZMA_SPEC_POS + uint rep0 - pos_slot - 1) 1 1 rep0 r
              else and_then (direct_loop (num_bits2 - 4) rep0 r) (\<lambda>(rep0, r).
                reverse_loop 4 LZMA_ALIGN 1 1 (push_bit 4 rep0) r))
        (\<lambda>(rep0, r). Inr (rep0 + 1, r)))"

datatype lzma_op = Literal | Copy nat | EndMarker

text \<open>The length, and a distance unless it is one of the last.\<close>

definition decode_copy :: "int \<Rightarrow> int \<Rightarrow> decoder \<Rightarrow> lzma_stop + lzma_op \<times> decoder" where
  "decode_copy prob2 pos_state d =
    and_then (decode_len prob2 pos_state (rc d)) (\<lambda>(len, r).
      if 4 \<le> state d then Inr (Copy (nat (len + 2)), d\<lparr>rc := r\<rparr>)
      else and_then (decode_distance len r) (\<lambda>(dist, r).
        let d = d\<lparr>rc := r, state := state d + 7, rep0 := dist\<rparr>
        in if sint dist \<le> 0 then (if dist = 0 then Inr (EndMarker, d) else Inl Corrupted)
           else Inr (Copy (nat (len + 2)), d)))"

definition decode_match :: "int \<Rightarrow> decoder \<Rightarrow> lzma_stop + lzma_op \<times> decoder" where
  "decode_match pos_state d =
    and_then (decode_kind pos_state d) (\<lambda>(kind, d).
      case kind of None \<Rightarrow> Inr (Copy 1, d) | Some prob2 \<Rightarrow> decode_copy prob2 pos_state d)"

text \<open>One turn up to the bytes it puts into the dictionary.\<close>

definition next_op :: "header \<Rightarrow> u64 \<Rightarrow> lzma_stop + byte \<Rightarrow> decoder \<Rightarrow> lzma_stop + lzma_op \<times> decoder" where
  "next_op h pos mb d =
    (let pos_state = uint (pos AND ucast (pos_state_mask h))
     in and_then (rc_is_bit_1 (LZMA_IS_MATCH + push_bit 4 (state d) + pos_state) (rc d)) (\<lambda>(match, r).
       if \<not> match then and_then (decode_literal h pos mb (d\<lparr>rc := r\<rparr>)) (\<lambda>d. Inr (Literal, d))
       else decode_match pos_state (d\<lparr>rc := r\<rparr>)))"

subsection \<open>The dictionary\<close>

record lzma =
  dec :: decoder
  buffer :: "nat \<Rightarrow> byte"
  buffer_pos :: nat
  global_pos :: u64
  written :: "byte list"
  total_written :: u64

definition buffer_at :: "header \<Rightarrow> u32 \<Rightarrow> lzma \<Rightarrow> lzma_stop + byte" where
  "buffer_at h pos s = (if pos < buffer_size h then Inr (buffer s (unat pos)) else Inl (ReadOutside (unat pos)))"

definition match_byte :: "header \<Rightarrow> lzma \<Rightarrow> lzma_stop + byte" where
  "match_byte h s =
    (let pos = of_nat (buffer_pos s) - rep0 (dec s)
     in if sint pos < 0 then
          let pos = pos + dict_size h in if sint pos < 0 then Inl Corrupted else buffer_at h pos s
        else buffer_at h pos s)"

text \<open>The label \<^verbatim>\<open>one_byte2\<close>.\<close>

definition one_byte2 :: "header \<Rightarrow> (byte list \<Rightarrow> byte list \<Rightarrow> bool) \<Rightarrow> lzma \<Rightarrow> lzma_stop + lzma" where
  "one_byte2 h transformer_write s =
    (if unat (buffer_size h) \<le> buffer_pos s then Inl (WriteOutside (buffer_pos s))
     else
       let s = s\<lparr>buffer := (buffer s)(buffer_pos s := previous_byte (dec s)), buffer_pos := buffer_pos s + 1\<rparr>
       in if buffer_pos s = unat (dict_size h) then
            let s = s\<lparr>buffer_pos := 0, global_pos := global_pos s + ucast (dict_size h)\<rparr>;
                bytes = map (buffer s) [0..<unat (dict_size h)]
            in if transformer_write (written s) bytes then
                 Inr (s\<lparr>written := written s @ bytes, total_written := total_written s + ucast (dict_size h)\<rparr>)
               else Inl Corrupted
          else Inr s)"

text \<open>The label \<^verbatim>\<open>string\<close>; the length is at least 1.\<close>

fun string_loop :: "nat \<Rightarrow> header \<Rightarrow> (byte list \<Rightarrow> byte list \<Rightarrow> bool) \<Rightarrow> lzma \<Rightarrow> lzma_stop + lzma" where
  "string_loop 0 h transformer_write s = Inr s"
| "string_loop (Suc len) h transformer_write s =
    (let pos = of_nat (buffer_pos s) - rep0 (dec s)
     in and_then
          (if sint pos < 0 then
             let pos = pos + dict_size h in if buffer_size h \<le> pos then Inl Corrupted else buffer_at h pos s
           else buffer_at h pos s)
          (\<lambda>b. and_then (one_byte2 h transformer_write (s\<lparr>dec := dec s\<lparr>previous_byte := b\<rparr>\<rparr>)) (\<lambda>s.
             if len \<noteq> 0 \<and> of_nat (buffer_pos s) < dst_size h then string_loop len h transformer_write s else Inr s)))"

text \<open>One turn of the main loop, and whether it goes on.\<close>

definition unlzma_turn :: "header \<Rightarrow> (byte list \<Rightarrow> byte list \<Rightarrow> bool) \<Rightarrow> lzma \<Rightarrow> lzma_stop + lzma \<times> bool" where
  "unlzma_turn h transformer_write s =
    and_then (next_op h (of_nat (buffer_pos s) + global_pos s) (match_byte h s) (dec s)) (\<lambda>(op, d).
      let s = s\<lparr>dec := d\<rparr>
      in case op of
           Literal \<Rightarrow> and_then (one_byte2 h transformer_write s) (\<lambda>s. Inr (s, True))
         | Copy len \<Rightarrow> and_then (string_loop len h transformer_write s) (\<lambda>s. Inr (s, True))
         | EndMarker \<Rightarrow> Inr (s, False))"

partial_function (option) unlzma_loop ::
  "header \<Rightarrow> (byte list \<Rightarrow> byte list \<Rightarrow> bool) \<Rightarrow> lzma \<Rightarrow> (lzma_stop + lzma) option" where
  "unlzma_loop h transformer_write s =
    (if global_pos s + of_nat (buffer_pos s) < dst_size h then
       case unlzma_turn h transformer_write s of
         Inl e \<Rightarrow> Some (Inl e)
       | Inr (s, continue) \<Rightarrow> if continue then unlzma_loop h transformer_write s else Some (Inr s)
     else Some (Inr s))"

declare unlzma_loop.simps [code]

subsection \<open>The whole stream\<close>

definition load_le :: "byte list \<Rightarrow> nat" where
  "load_le bs = le_val 256 (map unat bs)"

definition read_header :: "byte list \<Rightarrow> lzma_stop + header" where
  "read_header bs =
    (if length bs \<noteq> 13 \<or> 9 * 5 * 5 \<le> bs ! 0 then Inl BadHeader
     else
       let i = unat (bs ! 0) div 9;
           dict = of_nat (load_le (take 4 (drop 1 bs))); dict = (if dict = 0 then dict + 1 else dict);
           dst = of_nat (load_le (take 8 (drop 5 bs)))
       in Inr \<lparr>lc = unat (bs ! 0) mod 9, pos_state_mask = push_bit (i div 5) 1 - 1, literal_pos_mask = push_bit (i mod 5) 1 - 1,
            dict_size = dict, dst_size = dst, buffer_size = ucast (min dst (ucast dict))\<rparr>)"

text \<open>The number of probabilities: \<^verbatim>\<open>lp\<close> is the length of its mask.\<close>

definition probs_size :: "header \<Rightarrow> int" where
  "probs_size h = LZMA_BASE_SIZE + LZMA_LIT_SIZE * push_bit (lc h) (uint (literal_pos_mask h + 1))"

definition unlzma_start :: "(nat \<Rightarrow> byte) \<Rightarrow> coder \<Rightarrow> lzma" where
  "unlzma_start junk r =
    \<lparr>dec = \<lparr>rc = r, previous_byte = 0, state = 0, rep0 = 1, rep1 = 1, rep2 = 1, rep3 = 1\<rparr>,
     buffer = junk, buffer_pos = 0, global_pos = 0, written = [], total_written = 0\<rparr>"

definition unlzma_end :: "(byte list \<Rightarrow> byte list \<Rightarrow> bool) \<Rightarrow> lzma \<Rightarrow> lzma_stop + byte list \<times> u64" where
  "unlzma_end transformer_write s =
    (let bytes = map (buffer s) [0..<buffer_pos s]
     in if transformer_write (written s) bytes then Inr (written s @ bytes, total_written s + of_nat (buffer_pos s))
        else Inl Corrupted)"

text \<open>What is written and the result.\<close>

definition unpack_lzma_stream ::
  "(byte list \<Rightarrow> byte list \<Rightarrow> bool) \<Rightarrow> (nat \<Rightarrow> byte) \<Rightarrow> byte list \<Rightarrow> byte list list \<Rightarrow> (lzma_stop + byte list \<times> u64) option" where
  "unpack_lzma_stream transformer_write junk bs file =
    (case read_header bs of
       Inl e \<Rightarrow> Some (Inl e)
     | Inr h \<Rightarrow>
         (case rc_init file (\<lambda>_. 1024) (probs_size h) of
            Inl e \<Rightarrow> Some (Inl e)
          | Inr r \<Rightarrow>
              map_option (\<lambda>res. and_then res (unlzma_end transformer_write))
                (unlzma_loop h transformer_write (unlzma_start junk r))))"

end
