(* ===== verification/Archival_Unlzma_Coder.thy ===== *)
theory Archival_Unlzma_Coder
  imports Archival_Unlzma
begin

text \<open>
  The range decoder of \<^verbatim>\<open>unlzma\<close>: the probabilities stay away from 0 and 1, so that every bit shrinks the range or
  consumes input, and the decoders of literals, lengths and distances stay inside the array.
\<close>

subsection \<open>Postconditions\<close>

text \<open>The computation ends with a result that has the property, or stops in a harmless way or in one of the given ones.\<close>

definition yields :: "lzma_stop set \<Rightarrow> lzma_stop + 'a \<Rightarrow> ('a \<Rightarrow> bool) \<Rightarrow> bool" where
  "yields X m Q = (case m of Inl e \<Rightarrow> e \<in> {UnexpectedEof, Corrupted} \<union> X | Inr x \<Rightarrow> Q x)"

lemma yields_Inr [simp]: "yields X (Inr x) Q = Q x"
  by (simp add: yields_def)

lemma yields_eof [simp]: "yields X (Inl UnexpectedEof) Q" "yields X (Inl Corrupted) Q"
  by (simp_all add: yields_def)

lemma yields_bind: "yields X m P \<Longrightarrow> (\<And>x. P x \<Longrightarrow> yields X (f x) Q) \<Longrightarrow> yields X (and_then m f) Q"
  by (cases m) (auto simp: yields_def)

lemma yields_weaken: "yields X m P \<Longrightarrow> (\<And>x. P x \<Longrightarrow> Q x) \<Longrightarrow> yields X m Q"
  by (cases m) (auto simp: yields_def)

lemma yields_mono: "yields {} m P \<Longrightarrow> yields X m P"
  by (cases m) (auto simp: yields_def)

subsection \<open>Progress\<close>

definition bytes_left :: "coder \<Rightarrow> nat" where
  "bytes_left r = length (rc_ptr r) + length (concat (rc_file r))"

definition left :: "coder \<Rightarrow> nat" where
  "left r = bytes_left r * 2 ^ 32 + unat (rc_range r)"

definition good :: "coder \<Rightarrow> bool" where
  "good r \<longleftrightarrow> (\<forall>p. 31 \<le> uint (probs r p) \<and> uint (probs r p) \<le> 2017) \<and> 2 ^ 16 \<le> unat (rc_range r)"

definition steps :: "coder \<Rightarrow> coder \<Rightarrow> bool" where
  "steps r r' \<longleftrightarrow> good r' \<and> left r' < left r \<and> num_probs r' = num_probs r"

definition keeps :: "coder \<Rightarrow> coder \<Rightarrow> bool" where
  "keeps r r' \<longleftrightarrow> good r' \<and> left r' \<le> left r \<and> num_probs r' = num_probs r"

lemma steps_keeps: "steps r r' \<Longrightarrow> keeps r r'"
  by (simp add: steps_def keeps_def)

lemma keeps_refl: "good r \<Longrightarrow> keeps r r"
  by (simp add: keeps_def)

lemma keeps_trans [trans]: "keeps r r' \<Longrightarrow> keeps r' r'' \<Longrightarrow> keeps r r''"
  by (simp add: keeps_def)

lemma steps_trans [trans]: "steps r r' \<Longrightarrow> keeps r' r'' \<Longrightarrow> steps r r''"
  by (simp add: keeps_def steps_def)

lemma u32_range: "unat (x :: u32) < 2 ^ 32"
  using unsigned_less [of x] by simp

lemma left_byte:
  assumes "bytes_left r = Suc (bytes_left r')"
  shows "left r' < left r"
  using u32_range [of "rc_range r'"] by (simp add: left_def assms)

lemma rc_do_normalize_yields:
  "yields X (rc_do_normalize r) (\<lambda>r'. bytes_left r = Suc (bytes_left r') \<and> rc_range r' = push_bit 8 (rc_range r) \<and>
    probs r' = probs r \<and> num_probs r' = num_probs r)"
proof -
  have "yields X (if rc_ptr r = [] then rc_read r else Inr r) (\<lambda>r'. rc_ptr r' \<noteq> [] \<and> bytes_left r' = bytes_left r \<and>
      rc_range r' = rc_range r \<and> probs r' = probs r \<and> num_probs r' = num_probs r)"
    by (auto simp: rc_read_def bytes_left_def split: list.splits)
  then show ?thesis unfolding rc_do_normalize_def
  proof (rule yields_bind)
    fix r'
    assume "rc_ptr r' \<noteq> [] \<and> bytes_left r' = bytes_left r \<and> rc_range r' = rc_range r \<and> probs r' = probs r \<and> num_probs r' = num_probs r"
    then show "yields X (Inr (r'\<lparr>rc_range := push_bit 8 (rc_range r'), rc_code := push_bit 8 (rc_code r') OR ucast (hd (rc_ptr r')),
        rc_ptr := tl (rc_ptr r')\<rparr>)) (\<lambda>r'. bytes_left r = Suc (bytes_left r') \<and> rc_range r' = push_bit 8 (rc_range r) \<and>
        probs r' = probs r \<and> num_probs r' = num_probs r)"
      by (cases "rc_ptr r'") (auto simp: bytes_left_def)
  qed
qed

lemma rc_normalize_yields:
  assumes "good r"
  shows "yields X (rc_normalize r) (\<lambda>r'. keeps r r' \<and> 2 ^ 24 \<le> unat (rc_range r') \<and> probs r' = probs r)"
proof (cases "rc_range r < 0x1000000")
  case True
  have "yields X (rc_do_normalize r) (\<lambda>r'. keeps r r' \<and> 2 ^ 24 \<le> unat (rc_range r') \<and> probs r' = probs r)"
  proof (rule yields_weaken [OF rc_do_normalize_yields], elim conjE)
    fix r'
    assume r': "bytes_left r = Suc (bytes_left r')" "rc_range r' = push_bit 8 (rc_range r)" "probs r' = probs r" "num_probs r' = num_probs r"
    have "unat (rc_range r) < 2 ^ 24" using True by (simp add: word_less_nat_alt)
    then have "unat (rc_range r') = 2 ^ 8 * unat (rc_range r)" unfolding r'(2) push_bit_eq_mult by (simp add: unat_word_ariths)
    then show "keeps r r' \<and> 2 ^ 24 \<le> unat (rc_range r') \<and> probs r' = probs r"
      using assms left_byte [OF r'(1)] r'(3,4) by (simp add: good_def keeps_def)
  qed
  then show ?thesis using True by (simp add: rc_normalize_def)
next
  case False
  then show ?thesis using keeps_refl [OF assms] by (simp add: rc_normalize_def word_less_nat_alt)
qed

text \<open>A probability within its bounds splits the range into two parts of at least 31/2048 of it.\<close>

lemma prob_up: "31 \<le> v \<Longrightarrow> v \<le> 2017 \<Longrightarrow> 31 \<le> v + (2048 - v) div 32 \<and> v + (2048 - v) div 32 \<le> (2017 :: int)"
proof -
  assume v: "31 \<le> v" "v \<le> 2017"
  define q where "q = (2048 - v) div 32"
  have "32 * q \<le> 2048 - v" "0 \<le> q" using v by (simp_all add: q_def)
  then show ?thesis using v unfolding q_def [symmetric] by linarith
qed

lemma prob_down: "31 \<le> v \<Longrightarrow> v \<le> 2017 \<Longrightarrow> 31 \<le> v - v div 32 \<and> v - v div 32 \<le> (2017 :: int)"
proof -
  assume v: "31 \<le> v" "v \<le> 2017"
  define q where "q = v div 32"
  have "32 * q \<le> v" "0 \<le> q" using v by (simp_all add: q_def)
  then show ?thesis using v unfolding q_def [symmetric] by linarith
qed

lemma bound_value:
  assumes "31 \<le> uint (v :: u16)" "uint v \<le> 2017" "2 ^ 24 \<le> unat (R :: u32)"
  defines "b \<equiv> unat (ucast v * drop_bit 11 R)"
  shows "2 ^ 16 \<le> b" "b + 2 ^ 16 \<le> unat R"
proof -
  define d where "d = unat R div 2 ^ 11"
  have dr: "unat (drop_bit 11 R) = d" using u32_range [of R] by (simp add: d_def drop_bit_eq_div unat_div)
  have v: "31 \<le> unat v" "unat v \<le> 2017" using assms(1,2) unfolding uint_nat by linarith+
  have vu: "unat (ucast v :: u32) = unat v" using v(2) by (simp add: unsigned_ucast_eq take_bit_nat_eq_self)
  have d: "8192 \<le> d" "2048 * d \<le> unat R" using assms(3) by (simp_all add: d_def less_eq_div_iff_mult_less_eq)
  have le: "unat v * d \<le> 2017 * d" using v(2) by simp
  have "2017 * d \<le> unat R" using d(2) by simp
  then have "unat v * d < 2 ^ 32" using le u32_range [of R] by (meson le_less_trans order_trans)
  then have b: "b = unat v * d" unfolding b_def by (simp add: unat_word_ariths dr vu)
  have "31 * 8192 \<le> unat v * d" using v(1) d(1) by (intro mult_le_mono)
  then show "2 ^ 16 \<le> b" unfolding b by simp
  have "unat v * d + 65536 \<le> unat R" using le d by linarith
  then show "b + 2 ^ 16 \<le> unat R" unfolding b by simp
qed

lemma rc_is_bit_1_steps:
  assumes r: "good r" and p: "0 \<le> p" "p < num_probs r"
  shows "yields X (rc_is_bit_1 p r) (\<lambda>(b, r'). steps r r')"
  unfolding rc_is_bit_1_def
proof (rule yields_bind [OF rc_normalize_yields [OF r]], elim conjE)
  fix s
  assume s: "keeps r s" "2 ^ 24 \<le> unat (rc_range s)" "probs s = probs r"
  define v where "v = probs s p"
  define b where "b = ucast v * drop_bit 11 (rc_range s)"
  have v: "31 \<le> uint v" "uint v \<le> 2017" using r s(3) by (simp_all add: v_def good_def)
  have u: "uint (word_of_int x :: u16) = x" if "31 \<le> x \<and> x \<le> 2017" for x
    using that by (simp add: uint_word_of_int)
  note b = bound_value [OF v s(2), folded b_def]
  have b': "unat b < unat (rc_range s)" using b(2) by simp
  have sub: "unat (rc_range s - b) = unat (rc_range s) - unat b"
    using b by (intro unat_sub) (simp add: word_le_nat_alt)
  have g: "good (s\<lparr>rc_range := x, rc_code := c, probs := (probs s)(p := word_of_int y)\<rparr>)"
    if "2 ^ 16 \<le> unat x" "31 \<le> y \<and> y \<le> 2017" for x c y
    using that r s(3) by (simp add: good_def u)
  have l: "left (s\<lparr>rc_range := x, rc_code := c, probs := q\<rparr>) < left s" if "unat x < unat (rc_range s)" for x c q
    using that by (simp add: left_def bytes_left_def)
  have st: "steps r (s\<lparr>rc_range := x, rc_code := c, probs := (probs s)(p := word_of_int y)\<rparr>)"
    if "2 ^ 16 \<le> unat x" "unat x < unat (rc_range s)" "31 \<le> y \<and> y \<le> 2017" for x c y
    using g [OF that(1,3)] less_le_trans [OF l [OF that(2)]] s(1) unfolding steps_def keeps_def by simp
  have "s\<lparr>rc_range := b, probs := q\<rparr> = s\<lparr>rc_range := b, rc_code := rc_code s, probs := q\<rparr>" for q by simp
  then have "steps r (s\<lparr>rc_range := b, probs := (probs s)(p := word_of_int (uint v + (2048 - uint v) div 32))\<rparr>)"
    
    by (rule ssubst) (rule st [OF b(1) b' prob_up [OF v]])
  moreover have "steps r (s\<lparr>rc_range := rc_range s - b, rc_code := rc_code s - b, probs := (probs s)(p := word_of_int (uint v - uint v div 32))\<rparr>)"
    using b prob_down [OF v] by (intro st) (simp_all add: sub)
  moreover have "num_probs s = num_probs r" using s(1) by (simp add: keeps_def)
  ultimately show "yields X (if p < 0 \<or> num_probs s \<le> p then Inl (ProbOutside p)
      else let v = probs s p; bound = ucast v * drop_bit 11 (rc_range s)
        in if rc_code s < bound then
             Inr (False, s\<lparr>rc_range := bound, probs := (probs s)(p := word_of_int (uint v + (2048 - uint v) div 32))\<rparr>)
           else
             Inr (True, s\<lparr>rc_range := rc_range s - bound, rc_code := rc_code s - bound,
               probs := (probs s)(p := word_of_int (uint v - uint v div 32))\<rparr>)) (\<lambda>(b, r'). steps r r')"
    using p unfolding v_def [symmetric] Let_def b_def [symmetric] by simp
qed

lemma rc_get_bit_steps:
  assumes "good r" "0 \<le> p" "p < num_probs r"
  shows "yields X (rc_get_bit p symbol r) (\<lambda>(b, symbol', r'). steps r r' \<and> symbol' = symbol * 2 + of_bool b)"
  unfolding rc_get_bit_def by (rule yields_bind [OF rc_is_bit_1_steps [OF assms]]) auto

lemma rc_direct_bit_keeps:
  assumes "good r"
  shows "yields X (rc_direct_bit r) (\<lambda>(b, r'). keeps r r')"
  unfolding rc_direct_bit_def
proof (rule yields_bind [OF rc_normalize_yields [OF assms]], elim conjE)
  fix s
  assume s: "keeps r s" "2 ^ 24 \<le> unat (rc_range s)" "probs s = probs r"
  have "unat (drop_bit 1 (rc_range s)) = unat (rc_range s) div 2" by (simp add: drop_bit_eq_div unat_div)
  then have h: "2 ^ 16 \<le> unat (drop_bit 1 (rc_range s))" "unat (drop_bit 1 (rc_range s)) \<le> unat (rc_range s)" using s(2) by simp_all
  have "keeps r (s\<lparr>rc_range := drop_bit 1 (rc_range s), rc_code := c\<rparr>)" for c
    using s(1,3) assms h by (simp add: keeps_def good_def left_def bytes_left_def)
  moreover from this [of "rc_code s"] have "keeps r (s\<lparr>rc_range := drop_bit 1 (rc_range s)\<rparr>)" by simp
  ultimately show "yields X (let range = drop_bit 1 (rc_range s); rc = s\<lparr>rc_range := range\<rparr>
      in if range \<le> rc_code rc then Inr (True, rc\<lparr>rc_code := rc_code rc - range\<rparr>) else Inr (False, rc)) (\<lambda>(b, r'). keeps r r')"
    by (simp add: Let_def)
qed

lemma tree_loop_keeps:
  assumes "good r" "0 \<le> p" "0 \<le> symbol" "2 * p + 2 ^ i * (symbol + 1) \<le> 2 * num_probs r"
  shows "yields X (tree_loop i p symbol r) (\<lambda>(symbol', r'). keeps r r' \<and> 2 ^ i * symbol \<le> symbol' \<and> symbol' < 2 ^ i * (symbol + 1))"
  using assms
proof (induction i arbitrary: symbol r)
  case 0
  then show ?case by (simp add: keeps_refl)
next
  case (Suc i)
  have "2 * (symbol + 1) \<le> 2 ^ Suc i * (symbol + 1)" using Suc.prems(3) by (intro mult_right_mono) simp_all
  with Suc.prems(4) have "2 * p + 2 * (symbol + 1) \<le> 2 * num_probs r" by (meson add_left_mono order_trans)
  then have p: "0 \<le> p + symbol" "p + symbol < num_probs r" using Suc.prems(2,3) by auto
  show ?case unfolding tree_loop.simps
  proof (rule yields_bind [OF rc_get_bit_steps [OF Suc.prems(1) p]], clarify)
    fix b sym r'
    assume st: "steps r r'"
    then have k: "keeps r r'" by (rule steps_keeps)
    have c: "symbol * 2 + of_bool b + 1 \<le> 2 * (symbol + 1)" "0 \<le> symbol * 2 + of_bool b" using Suc.prems(3) by (cases b; simp)+
    have "2 ^ i * (symbol * 2 + of_bool b + 1) \<le> 2 ^ i * (2 * (symbol + 1))" using c by (intro mult_left_mono) auto
    also have "\<dots> = 2 ^ Suc i * (symbol + 1)" by simp
    finally have "2 * p + 2 ^ i * (symbol * 2 + of_bool b + 1) \<le> 2 * num_probs r'"
      using Suc.prems(4) st unfolding steps_def by linarith
    with Suc.IH [of r' "symbol * 2 + of_bool b"] st c Suc.prems(2)
    have "yields X (tree_loop i p (symbol * 2 + of_bool b) r') (\<lambda>(symbol', r''). keeps r' r'' \<and>
        2 ^ i * (symbol * 2 + of_bool b) \<le> symbol' \<and> symbol' < 2 ^ i * (symbol * 2 + of_bool b + 1))"
      by (simp add: steps_def)
    then show "yields X (tree_loop i p (symbol * 2 + of_bool b) r') (\<lambda>(symbol', r''). keeps r r'' \<and>
        2 ^ Suc i * symbol \<le> symbol' \<and> symbol' < 2 ^ Suc i * (symbol + 1))"
      by (rule yields_weaken) (cases b; auto simp: algebra_simps intro: keeps_trans [OF k])
  qed
qed

lemma rc_bit_tree_decode_keeps:
  assumes "good r" "0 \<le> p" "p + 2 ^ n \<le> num_probs r"
  shows "yields X (rc_bit_tree_decode p n r) (\<lambda>(symbol, r'). keeps r r' \<and> 0 \<le> symbol \<and> symbol < 2 ^ n)"
  unfolding rc_bit_tree_decode_def
  using assms by (intro yields_bind [OF tree_loop_keeps [of r p 1 n]]) auto

end
