(* ===== verification/Archival_Unlzma_Ops.thy ===== *)
theory Archival_Unlzma_Ops
  imports Archival_Unlzma_Coder
begin

text \<open>
  One turn of \<^verbatim>\<open>unlzma\<close> up to the dictionary: literals, lengths and distances are decoded inside the array of
  probabilities, and leave a state and distances from which the next turn can start.
\<close>

subsection \<open>Literals\<close>

lemma word_mask_bound: "uint (x AND ucast (m :: u32) :: u64) \<le> uint m"
proof -
  have "uint (x AND ucast m :: u64) = uint x AND uint (ucast m :: u64)" by (rule uint_and)
  also have "\<dots> \<le> uint (ucast m :: u64)" by (intro AND_upper2) simp
  also have "uint (ucast m :: u64) = uint m" using uint_lt2p [of m] by (simp add: unsigned_ucast_eq take_bit_int_eq_self)
  finally show ?thesis .
qed

lemma byte_shift: "uint (b :: byte) div 2 ^ (8 - k) < 2 ^ k" if "k \<le> 8"
proof -
  have "uint b < 2 ^ 8" using uint_lt2p [of b] by simp
  also have "(2 :: int) ^ 8 = 2 ^ k * 2 ^ (8 - k)" using that by (simp flip: power_add)
  finally have lt: "uint b < 2 ^ k * 2 ^ (8 - k)" .
  have "uint b div 2 ^ (8 - k) * 2 ^ (8 - k) \<le> uint b"
    using div_mult_mod_eq [of "uint b" "2 ^ (8 - k)"] pos_mod_sign [OF zero_less_power [OF zero_less_numeral], of "uint b" num.One "8 - k"]
    by (metis add_le_same_cancel1 le_add_same_cancel1 pos_mod_sign zero_less_numeral zero_less_power)
  with lt have "uint b div 2 ^ (8 - k) * 2 ^ (8 - k) < 2 ^ k * 2 ^ (8 - k)" by (rule order.strict_trans1 [rotated])
  then show ?thesis by (rule mult_right_less_imp_less) simp
qed

definition wf_header :: "header \<Rightarrow> bool" where
  "wf_header h \<longleftrightarrow> lc h \<le> 8 \<and> uint (literal_pos_mask h) < 16 \<and> uint (pos_state_mask h) < 16 \<and> dict_size h \<noteq> 0 \<and>
    unat (buffer_size h) = min (unat (dst_size h)) (unat (dict_size h))"

lemma literal_prob_bound:
  assumes "wf_header h"
  shows "0 \<le> literal_prob h pos prev" "literal_prob h pos prev + 768 \<le> probs_size h"
proof -
  define m where "m = uint (literal_pos_mask h)"
  have m: "m < 16" "lc h \<le> 8" using assms by (simp_all add: wf_header_def m_def)
  have x: "uint (pos AND ucast (literal_pos_mask h)) \<le> m" using word_mask_bound by (simp add: m_def)
  have L: "LZMA_LITERAL = 1846" "LZMA_LIT_SIZE = 768" by (simp_all add: layout)
  have c: "(2 :: int) ^ lc h \<le> 2 ^ 8" using m(2) by (intro power_increasing) auto
  have "uint (pos AND ucast (literal_pos_mask h)) * 2 ^ lc h \<le> 15 * 2 ^ 8" using x m(1) c by (intro mult_mono) auto
  then have p: "uint (push_bit (lc h) (pos AND ucast (literal_pos_mask h))) = uint (pos AND ucast (literal_pos_mask h)) * 2 ^ lc h"
    unfolding unsigned_push_bit_eq unfolding push_bit_eq_mult [where 'a = int] by (intro take_bit_int_eq_self) simp_all
  have "uint (literal_pos_mask h + 1) = m + 1" using m(1) by (simp add: m_def uint_plus_if')
  then have n: "probs_size h = 1846 + 768 * ((m + 1) * 2 ^ lc h)" by (simp add: probs_size_def layout push_bit_eq_mult)
  have "uint (pos AND ucast (literal_pos_mask h)) * 2 ^ lc h \<le> m * 2 ^ lc h" using x by (intro mult_right_mono) auto
  moreover have "uint prev div 2 ^ (8 - lc h) < 2 ^ lc h" using byte_shift [OF m(2)] .
  moreover have "(m + 1) * 2 ^ lc h = m * 2 ^ lc h + 2 ^ lc h" by (simp add: algebra_simps)
  ultimately have "uint (pos AND ucast (literal_pos_mask h)) * 2 ^ lc h + uint prev div 2 ^ (8 - lc h) + 1 \<le> (m + 1) * 2 ^ lc h"
    by linarith
  then show "literal_prob h pos prev + 768 \<le> probs_size h"
    unfolding literal_prob_def p n L drop_bit_eq_div by simp
  show "0 \<le> literal_prob h pos prev" unfolding literal_prob_def p L drop_bit_eq_div
    by (intro add_nonneg_nonneg mult_nonneg_nonneg) (simp_all add: pos_imp_zdiv_nonneg_iff)
qed

lemma probs_size_base: "wf_header h \<Longrightarrow> 2614 \<le> probs_size h"
proof -
  assume h: "wf_header h"
  define m where "m = uint (literal_pos_mask h)"
  have "uint (literal_pos_mask h + 1) = m + 1" using h by (simp add: m_def wf_header_def uint_plus_if')
  then have n: "probs_size h = 1846 + 768 * ((m + 1) * 2 ^ lc h)" by (simp add: probs_size_def layout push_bit_eq_mult)
  have "1 * 1 \<le> (m + 1) * 2 ^ lc h" by (intro mult_mono) (auto simp: m_def)
  then show ?thesis unfolding n by simp
qed

lemma matched_loop_keeps:
  assumes "good r" "0 \<le> prob" "prob + 768 \<le> num_probs r" "0 \<le> mb0" "0 \<le> mi" "mi < 256"
  shows "yields X (matched_loop k prob mb0 mi r) (\<lambda>(mi, r'). keeps r r' \<and> 0 \<le> mi \<and> mi < 512)"
  using assms
proof (induction k arbitrary: mb0 mi r)
  case 0
  then show ?case by (simp add: keeps_refl)
next
  case (Suc k)
  define mb where "mb = push_bit 1 mb0"
  have mb: "0 \<le> mb" using Suc.prems(4) by (simp add: mb_def)
  have b: "0 \<le> mb AND 0x100" "mb AND 0x100 \<le> 0x100" using AND_upper2 [of "0x100" mb] by simp_all
  have p: "0 \<le> prob + 0x100 + (mb AND 0x100) + mi" "prob + 0x100 + (mb AND 0x100) + mi < num_probs r"
    using b Suc.prems by linarith+
  show ?case unfolding matched_loop.simps Let_def mb_def [symmetric]
  proof (rule yields_bind [OF rc_get_bit_steps [OF Suc.prems(1) p]], clarify)
    fix ret mi' r'
    assume st: "steps r r'"
    then have k: "keeps r r'" "good r'" "num_probs r' = num_probs r" by (simp_all add: steps_def keeps_def)
    have mi': "0 \<le> mi * 2 + of_bool ret" "mi * 2 + of_bool ret < 512" using Suc.prems(5,6) by auto
    have "yields X (matched_loop k prob mb (mi * 2 + of_bool ret) r') (\<lambda>(mi, r''). keeps r r'' \<and> 0 \<le> mi \<and> mi < 512)"
      if "mi * 2 + of_bool ret < 0x100"
      by (rule yields_weaken [OF Suc.IH]) (use Suc.prems k mb mi' that in \<open>auto intro: keeps_trans [OF k(1)]\<close>)
    then show "yields X (if (mb AND 0x100) XOR push_bit 8 (of_bool ret) \<noteq> 0 then Inr (mi * 2 + of_bool ret, r')
        else if mi * 2 + of_bool ret < 0x100 then matched_loop k prob mb (mi * 2 + of_bool ret) r'
        else Inr (mi * 2 + of_bool ret, r')) (\<lambda>(mi, r''). keeps r r'' \<and> 0 \<le> mi \<and> mi < 512)"
      using k(1) mi' by simp
  qed
qed

lemma literal_loop_keeps:
  assumes "good r" "0 \<le> prob" "prob + 768 \<le> num_probs r" "0 \<le> mi" "mi < 512"
  shows "yields X (literal_loop k prob mi r) (\<lambda>(mi, r'). keeps r r' \<and> 0 \<le> mi \<and> mi < 512)"
  using assms
proof (induction k arbitrary: mi r)
  case 0
  then show ?case by (simp add: keeps_refl)
next
  case (Suc k)
  show ?case
  proof (cases "mi < 0x100")
    case True
    then have p: "0 \<le> prob + mi" "prob + mi < num_probs r" using Suc.prems by linarith+
    have "yields X (and_then (rc_get_bit (prob + mi) mi r) (\<lambda>(_, mi, r). literal_loop k prob mi r))
      (\<lambda>(mi, r'). keeps r r' \<and> 0 \<le> mi \<and> mi < 512)"
    proof (rule yields_bind [OF rc_get_bit_steps [OF Suc.prems(1) p]], clarify)
      fix ret mi' r'
      assume "steps r r'"
      then have k: "keeps r r'" "good r'" "num_probs r' = num_probs r" by (simp_all add: steps_def keeps_def)
      have mi': "0 \<le> mi * 2 + of_bool ret" "mi * 2 + of_bool ret < 512" using Suc.prems(4) True by auto
      show "yields X (literal_loop k prob (mi * 2 + of_bool ret) r') (\<lambda>(mi, r''). keeps r r'' \<and> 0 \<le> mi \<and> mi < 512)"
        by (rule yields_weaken [OF Suc.IH]) (use Suc.prems k mi' in \<open>auto intro: keeps_trans [OF k(1)]\<close>)
    qed
    then show ?thesis using True by simp
  qed (use Suc.prems in \<open>simp add: keeps_refl\<close>)
qed

text \<open>Eight turns are enough: \<open>mi\<close> doubles.\<close>

lemma literal_loop_enough: "256 \<le> 2 ^ k * mi \<Longrightarrow> literal_loop (k + j) prob mi r = literal_loop k prob mi r"
proof (induction k arbitrary: mi r)
  case 0
  then show ?case by (cases j) auto
next
  case (Suc k)
  have "and_then (rc_get_bit (prob + mi) mi r) (\<lambda>(_, mi, r). literal_loop (k + j) prob mi r) =
      and_then (rc_get_bit (prob + mi) mi r) (\<lambda>(_, mi, r). literal_loop k prob mi r)"
  proof (cases "rc_get_bit (prob + mi) mi r")
    case (Inr x)
    then obtain b mi' r' where x: "x = (b, mi', r')" "mi' = mi * 2 + of_bool b"
      by (cases x; cases "rc_is_bit_1 (prob + mi) r") (auto simp: rc_get_bit_def)
    have "2 ^ k * (mi * 2) \<le> 2 ^ k * mi'" using x(2) by (intro mult_left_mono) auto
    then have "256 \<le> 2 ^ k * mi'" using Suc.prems unfolding power_Suc by linarith
    from Suc.IH [OF this] show ?thesis using Inr x(1) by simp
  qed simp
  then show ?case by simp
qed

lemma matched_loop_enough: "256 \<le> 2 ^ k * mi \<Longrightarrow> 0 < k \<Longrightarrow> matched_loop (k + j) prob mb mi r = matched_loop k prob mb mi r"
proof (induction k arbitrary: mb mi r)
  case (Suc k)
  define mb' where "mb' = push_bit 1 mb"
  have "and_then (rc_get_bit p mi r) (\<lambda>(ret, mi, r). if f ret \<noteq> 0 then Inr (mi, r)
        else if mi < 0x100 then matched_loop (k + j) prob mb' mi r else Inr (mi, r)) =
      and_then (rc_get_bit p mi r) (\<lambda>(ret, mi, r). if f ret \<noteq> 0 then Inr (mi, r)
        else if mi < 0x100 then matched_loop k prob mb' mi r else Inr (mi, r))" for p and f :: "bool \<Rightarrow> int"
  proof (cases "rc_get_bit p mi r")
    case (Inr x)
    then obtain b mi' r' where x: "x = (b, mi', r')" "mi' = mi * 2 + of_bool b"
      by (cases x; cases "rc_is_bit_1 p r") (auto simp: rc_get_bit_def)
    have "2 ^ k * (mi * 2) \<le> 2 ^ k * mi'" using x(2) by (intro mult_left_mono) auto
    then have e: "256 \<le> 2 ^ k * mi'" using Suc.prems unfolding power_Suc by linarith
    then have "mi' < 256 \<Longrightarrow> 0 < k" by (cases k) auto
    with Suc.IH [OF e] show ?thesis using Inr x(1) by simp
  qed simp
  from this [of "prob + 0x100 + (mb' AND 0x100) + mi" "\<lambda>ret. (mb' AND 0x100) XOR push_bit 8 (of_bool ret)"]
  show ?case unfolding add_Suc matched_loop.simps Let_def mb'_def [symmetric] .
qed simp

lemma next_state_range: "0 \<le> s \<Longrightarrow> s < 12 \<Longrightarrow> 0 \<le> next_state ! nat s \<and> next_state ! nat s < 7"
proof -
  assume "0 \<le> s" "s < 12"
  then have "next_state ! nat s \<in> set next_state" by (intro nth_mem) (simp add: next_state_def)
  then show ?thesis by (auto simp: next_state_def)
qed

subsection \<open>The decoder between two turns\<close>

definition dist_ok :: "u32 \<Rightarrow> bool" where
  "dist_ok d \<longleftrightarrow> 0 < sint d"

definition wf_dec :: "header \<Rightarrow> decoder \<Rightarrow> bool" where
  "wf_dec h d \<longleftrightarrow> good (rc d) \<and> num_probs (rc d) = probs_size h \<and> 0 \<le> state d \<and> state d < 12 \<and>
    dist_ok (rep0 d) \<and> dist_ok (rep1 d) \<and> dist_ok (rep2 d) \<and> dist_ok (rep3 d)"

lemma decode_literal_yields:
  assumes h: "wf_header h" and d: "wf_dec h d" and mb: "7 \<le> state d \<Longrightarrow> yields X mb (\<lambda>_. True)"
  shows "yields X (decode_literal h pos mb d) (\<lambda>d'. keeps (rc d) (rc d') \<and> wf_dec h d' \<and> state d' < 7 \<and> rep0 d' = rep0 d)"
proof -
  define prob where "prob = literal_prob h pos (previous_byte d)"
  have g: "good (rc d)" "num_probs (rc d) = probs_size h" using d by (simp_all add: wf_dec_def)
  note p = literal_prob_bound [OF h, of pos "previous_byte d", folded prob_def]
  have "yields X (if 7 \<le> state d then and_then mb (\<lambda>b. matched_loop 8 prob (uint b) 1 (rc d)) else Inr (1, rc d))
      (\<lambda>(mi, r). keeps (rc d) r \<and> 0 \<le> mi \<and> mi < 512)"
  proof (cases "7 \<le> state d")
    case True
    have "yields X (and_then mb (\<lambda>b. matched_loop 8 prob (uint b) 1 (rc d))) (\<lambda>(mi, r). keeps (rc d) r \<and> 0 \<le> mi \<and> mi < 512)"
      by (rule yields_bind [OF mb [OF True]], rule matched_loop_keeps) (use g p in auto)
    then show ?thesis using True by simp
  qed (use g in \<open>simp add: keeps_refl\<close>)
  then show ?thesis unfolding decode_literal_def Let_def prob_def [symmetric]
  proof (rule yields_bind, clarify)
    fix mi :: int and r
    assume r: "keeps (rc d) r" and mi: "0 \<le> mi" "mi < 512"
    have "yields X (literal_loop 8 prob mi r) (\<lambda>(mi, r'). keeps r r' \<and> 0 \<le> mi \<and> mi < 512)"
      by (rule literal_loop_keeps) (use r p mi g in \<open>auto simp: keeps_def\<close>)
    then show "yields X (and_then (literal_loop 8 prob mi r) (\<lambda>(mi, rc).
          Inr (d\<lparr>rc := rc, state := next_state ! nat (state d), previous_byte := word_of_int mi\<rparr>)))
        (\<lambda>d'. keeps (rc d) (rc d') \<and> wf_dec h d' \<and> state d' < 7 \<and> rep0 d' = rep0 d)"
      using r d next_state_range [of "state d"] by (elim yields_bind) (auto simp: wf_dec_def keeps_def)
  qed
qed

text \<open>A flag of the decoder is one of the first 1846 probabilities.\<close>

lemma flag_yields:
  assumes "wf_header h" "wf_dec h d" "0 \<le> p" "p < 1846"
  shows "yields X (rc_is_bit_1 p (rc d)) (\<lambda>(b, r). steps (rc d) r \<and> wf_dec h (d\<lparr>rc := r\<rparr>))"
proof -
  have "good (rc d)" "p < num_probs (rc d)" using assms probs_size_base [OF assms(1)] by (auto simp: wf_dec_def)
  then show ?thesis
    by (intro yields_weaken [OF rc_is_bit_1_steps [OF _ assms(3)]]) (use assms(2) in \<open>auto simp: wf_dec_def steps_def\<close>)
qed

lemma flag_index:
  assumes "wf_dec h d" "0 \<le> pos_state" "pos_state < 16"
  shows "0 \<le> LZMA_IS_REP + state d" "LZMA_IS_REP + state d < 1846" "0 \<le> LZMA_IS_REP_G0 + state d" "LZMA_IS_REP_G0 + state d < 1846"
    "0 \<le> LZMA_IS_REP_G1 + state d" "LZMA_IS_REP_G1 + state d < 1846" "0 \<le> LZMA_IS_REP_G2 + state d" "LZMA_IS_REP_G2 + state d < 1846"
    "0 \<le> LZMA_IS_REP_0_LONG + push_bit 4 (state d) + pos_state" "LZMA_IS_REP_0_LONG + push_bit 4 (state d) + pos_state < 1846"
    "0 \<le> LZMA_IS_MATCH + push_bit 4 (state d) + pos_state" "LZMA_IS_MATCH + push_bit 4 (state d) + pos_state < 1846"
  using assms by (simp_all add: wf_dec_def layout push_bit_eq_mult)

lemma older_distance_yields:
  assumes h: "wf_header h" and d: "wf_dec h d"
  shows "yields X (older_distance d) (\<lambda>d'. keeps (rc d) (rc d') \<and> wf_dec h d')"
  unfolding older_distance_def
proof (rule yields_bind [OF flag_yields [OF h d flag_index(5,6) [OF d order_refl zero_less_numeral]]], clarify)
  fix g1 r
  assume r: "steps (rc d) r" "wf_dec h (d\<lparr>rc := r\<rparr>)"
  have "yields X (if g1 then rc_is_bit_1 (LZMA_IS_REP_G2 + state d) r else Inr (False, r)) (\<lambda>(b, r'). steps (rc d) r')"
    using yields_weaken [OF flag_yields [OF h r(2) flag_index(7,8) [OF r(2) order_refl zero_less_numeral]], of "\<lambda>(b, r'). steps (rc d) r'"] r(1)
    by (auto intro: steps_trans [OF _ steps_keeps])
  then show "yields X (and_then (if g1 then rc_is_bit_1 (LZMA_IS_REP_G2 + state d) r else Inr (False, r)) (\<lambda>(g2, r).
        let distance = (if g2 then rep3 d else if g1 then rep2 d else rep1 d);
            d = (if g2 then d\<lparr>rep3 := rep2 d\<rparr> else d);
            d = (if g1 then d\<lparr>rep2 := rep1 d\<rparr> else d)
        in Inr (d\<lparr>rc := r, rep1 := rep0 d, rep0 := distance\<rparr>))) (\<lambda>d'. keeps (rc d) (rc d') \<and> wf_dec h d')"
    by (rule yields_bind) (use d in \<open>auto simp: Let_def wf_dec_def steps_def keeps_def\<close>)
qed

definition kind_ok :: "header \<Rightarrow> int option \<Rightarrow> decoder \<Rightarrow> bool" where
  "kind_ok h kind d \<longleftrightarrow> wf_dec h d \<and>
    (case kind of None \<Rightarrow> 7 \<le> state d | Some p \<Rightarrow> (p = LZMA_LEN_CODER \<or> p = LZMA_REP_LEN_CODER) \<and> (state d < 4 \<or> 7 \<le> state d))"

lemma decode_rep_yields:
  assumes h: "wf_header h" and d: "wf_dec h d" and ps: "0 \<le> pos_state" "pos_state < 16"
  shows "yields X (decode_rep pos_state d) (\<lambda>(kind, d'). keeps (rc d) (rc d') \<and> kind_ok h kind d')"
  unfolding decode_rep_def
proof (rule yields_bind [OF flag_yields [OF h d flag_index(3,4) [OF d ps]]], clarify)
  fix g0 r
  assume r: "steps (rc d) r" "wf_dec h (d\<lparr>rc := r\<rparr>)"
  have "yields X (if \<not> g0 then rc_is_bit_1 (LZMA_IS_REP_0_LONG + push_bit 4 (state d) + pos_state) r else Inr (True, r))
      (\<lambda>(b, r'). keeps (rc d) r' \<and> wf_dec h (d\<lparr>rc := r'\<rparr>))"
    using yields_weaken [OF flag_yields [OF h r(2) flag_index(9,10) [OF r(2) ps]], of "\<lambda>(b, r'). keeps (rc d) r' \<and> wf_dec h (d\<lparr>rc := r'\<rparr>)"] r
    by (auto intro: keeps_trans [OF steps_keeps steps_keeps] steps_keeps)
  then show "yields X (and_then (if \<not> g0 then rc_is_bit_1 (LZMA_IS_REP_0_LONG + push_bit 4 (state d) + pos_state) r else Inr (True, r))
        (\<lambda>(long, r).
          if \<not> long then Inr (None, d\<lparr>rc := r, state := (if state d < 7 then 9 else 11)\<rparr>)
          else and_then (if g0 then older_distance (d\<lparr>rc := r\<rparr>) else Inr (d\<lparr>rc := r\<rparr>)) (\<lambda>d.
            Inr (Some LZMA_REP_LEN_CODER, d\<lparr>state := (if state d < 7 then 8 else 11)\<rparr>))))
      (\<lambda>(kind, d'). keeps (rc d) (rc d') \<and> kind_ok h kind d')"
  proof (rule yields_bind, clarify)
    fix long r
    assume r: "keeps (rc d) r" "wf_dec h (d\<lparr>rc := r\<rparr>)"
    have "yields X (if g0 then older_distance (d\<lparr>rc := r\<rparr>) else Inr (d\<lparr>rc := r\<rparr>)) (\<lambda>d'. keeps (rc d) (rc d') \<and> wf_dec h d')"
      using yields_weaken [OF older_distance_yields [OF h r(2)], of "\<lambda>d'. keeps (rc d) (rc d') \<and> wf_dec h d'"] r
      by (auto intro: keeps_trans)
    then have "yields X (and_then (if g0 then older_distance (d\<lparr>rc := r\<rparr>) else Inr (d\<lparr>rc := r\<rparr>)) (\<lambda>d.
        Inr (Some LZMA_REP_LEN_CODER, d\<lparr>state := (if state d < 7 then 8 else 11)\<rparr>))) (\<lambda>(kind, d'). keeps (rc d) (rc d') \<and> kind_ok h kind d')"
      by (rule yields_bind) (auto simp: kind_ok_def wf_dec_def)
    then show "yields X (if \<not> long then Inr (None, d\<lparr>rc := r, state := (if state d < 7 then 9 else 11)\<rparr>)
          else and_then (if g0 then older_distance (d\<lparr>rc := r\<rparr>) else Inr (d\<lparr>rc := r\<rparr>)) (\<lambda>d.
            Inr (Some LZMA_REP_LEN_CODER, d\<lparr>state := (if state d < 7 then 8 else 11)\<rparr>)))
        (\<lambda>(kind, d'). keeps (rc d) (rc d') \<and> kind_ok h kind d')"
      using r by (auto simp: kind_ok_def wf_dec_def)
  qed
qed

lemma decode_kind_yields:
  assumes h: "wf_header h" and d: "wf_dec h d" and ps: "0 \<le> pos_state" "pos_state < 16"
  shows "yields X (decode_kind pos_state d) (\<lambda>(kind, d'). keeps (rc d) (rc d') \<and> kind_ok h kind d')"
  unfolding decode_kind_def
proof (rule yields_bind [OF flag_yields [OF h d flag_index(1,2) [OF d ps]]], clarify)
  fix rep r
  assume r: "steps (rc d) r" "wf_dec h (d\<lparr>rc := r\<rparr>)"
  have "yields X (decode_rep pos_state (d\<lparr>rc := r\<rparr>)) (\<lambda>(kind, d'). keeps (rc d) (rc d') \<and> kind_ok h kind d')"
    by (rule yields_weaken [OF decode_rep_yields [OF h r(2) ps]]) (auto intro: keeps_trans [OF steps_keeps [OF r(1)]])
  then show "yields X (if \<not> rep then
        Inr (Some LZMA_LEN_CODER, d\<lparr>rc := r, rep3 := rep2 d, rep2 := rep1 d, rep1 := rep0 d, state := (if state d < 7 then 0 else 3)\<rparr>)
      else decode_rep pos_state (d\<lparr>rc := r\<rparr>)) (\<lambda>(kind, d'). keeps (rc d) (rc d') \<and> kind_ok h kind d')"
    using r by (auto simp: kind_ok_def wf_dec_def steps_def keeps_def)
qed

subsection \<open>Lengths and distances\<close>

lemma tree_yields:
  assumes h: "wf_header h" and r: "good r" "num_probs r = probs_size h" and p: "0 \<le> p" "p + 2 ^ n \<le> 1846"
  shows "yields X (rc_bit_tree_decode p n r) (\<lambda>(symbol, r'). keeps r r' \<and> 0 \<le> symbol \<and> symbol < 2 ^ n)"
  using p r probs_size_base [OF h] by (intro rc_bit_tree_decode_keeps) auto

lemma decode_len_yields:
  assumes h: "wf_header h" and r: "good r" "num_probs r = probs_size h"
    and p: "p = LZMA_LEN_CODER \<or> p = LZMA_REP_LEN_CODER" and ps: "0 \<le> pos_state" "pos_state < 16"
  shows "yields X (decode_len p pos_state r) (\<lambda>(len, r'). keeps r r' \<and> 0 \<le> len \<and> len < 272)"
proof -
  define Q where "Q = (\<lambda>(len :: int, r'). keeps r r' \<and> 0 \<le> len \<and> len < 272)"
  have bit: "yields X (rc_is_bit_1 q s) (\<lambda>(b, s'). keeps r s')" if "keeps r s" "0 \<le> q" "q < 1846" for q s
  proof -
    have s: "good s" "q < num_probs s" using that r probs_size_base [OF h] by (simp_all add: keeps_def)
    show ?thesis by (rule yields_weaken [OF rc_is_bit_1_steps [OF s(1) that(2) s(2)]])
      (auto intro: keeps_trans [OF that(1) steps_keeps])
  qed
  have tree: "yields X (rc_bit_tree_decode q n s) (\<lambda>(symbol, s'). keeps r s' \<and> 0 \<le> symbol \<and> symbol < 2 ^ n)"
    if "keeps r s" "0 \<le> q" "q + 2 ^ n \<le> 1846" for q n s
  proof -
    have s: "good s" "num_probs s = probs_size h" using that(1) r by (simp_all add: keeps_def)
    show ?thesis by (rule yields_weaken [OF tree_yields [OF h s that(2,3)]]) (auto intro: keeps_trans [OF that(1)])
  qed
  have idx: "0 \<le> p + LZMA_LEN_CHOICE" "p + LZMA_LEN_CHOICE < 1846" "0 \<le> p + LZMA_LEN_CHOICE_2" "p + LZMA_LEN_CHOICE_2 < 1846"
    "0 \<le> p + LZMA_LEN_LOW + push_bit 3 pos_state" "p + LZMA_LEN_LOW + push_bit 3 pos_state + 2 ^ 3 \<le> 1846"
    "0 \<le> p + LZMA_LEN_MID + push_bit 3 pos_state" "p + LZMA_LEN_MID + push_bit 3 pos_state + 2 ^ 3 \<le> 1846"
    "0 \<le> p + LZMA_LEN_HIGH" "p + LZMA_LEN_HIGH + 2 ^ 8 \<le> 1846"
    using p ps by (auto simp: layout push_bit_eq_mult)
  have "yields X (decode_len p pos_state r) Q" unfolding decode_len_def
  proof (rule yields_bind [OF bit [OF keeps_refl [OF r(1)] idx(1,2)]], clarify)
    fix choice s
    assume s: "keeps r s"
    have "yields X (and_then (rc_is_bit_1 (p + LZMA_LEN_CHOICE_2) s) (\<lambda>(choice_2, r).
        let (prob_len, num_bits, offset) =
          (if \<not> choice_2 then (p + LZMA_LEN_MID + push_bit 3 pos_state, 3, 8) else (p + LZMA_LEN_HIGH, 8, 8 + 8))
        in and_then (rc_bit_tree_decode prob_len num_bits r) (\<lambda>(len, r). Inr (len + offset, r)))) Q"
    proof (rule yields_bind [OF bit [OF s idx(3,4)]], clarify)
      fix choice_2 s
      assume s: "keeps r s"
      show "yields X (let (prob_len, num_bits, offset) =
          (if \<not> choice_2 then (p + LZMA_LEN_MID + push_bit 3 pos_state, 3, 8) else (p + LZMA_LEN_HIGH, 8, 8 + 8))
        in and_then (rc_bit_tree_decode prob_len num_bits s) (\<lambda>(len, r). Inr (len + offset, r))) Q"
        using yields_bind [OF tree [OF s idx(7,8)], of "\<lambda>(len, r). Inr (len + 8, r)" Q]
          yields_bind [OF tree [OF s idx(9,10)], of "\<lambda>(len, r). Inr (len + (8 + 8), r)" Q] by (auto simp: Q_def)
    qed
    moreover have "yields X (rc_bit_tree_decode (p + LZMA_LEN_LOW + push_bit 3 pos_state) 3 s) Q"
      by (rule yields_weaken [OF tree [OF s idx(5,6)]]) (auto simp: Q_def)
    ultimately show "yields X (if \<not> choice then rc_bit_tree_decode (p + LZMA_LEN_LOW + push_bit 3 pos_state) 3 s
      else and_then (rc_is_bit_1 (p + LZMA_LEN_CHOICE_2) s) (\<lambda>(choice_2, r).
        let (prob_len, num_bits, offset) =
          (if \<not> choice_2 then (p + LZMA_LEN_MID + push_bit 3 pos_state, 3, 8) else (p + LZMA_LEN_HIGH, 8, 8 + 8))
        in and_then (rc_bit_tree_decode prob_len num_bits r) (\<lambda>(len, r). Inr (len + offset, r)))) Q" by simp
  qed
  then show ?thesis by (simp only: Q_def)
qed

lemma direct_loop_keeps: "good r \<Longrightarrow> yields X (direct_loop k d r) (\<lambda>(d', r'). keeps r r')"
proof (induction k arbitrary: d r)
  case 0
  then show ?case by (simp add: keeps_refl)
next
  case (Suc k)
  have "yields X (direct_loop k d' r') (\<lambda>(d', r''). keeps r r'')" if "keeps r r'" for d' r'
    by (rule yields_weaken [OF Suc.IH]) (use that in \<open>auto simp: keeps_def\<close>)
  then show ?case unfolding direct_loop.simps by (intro yields_bind [OF rc_direct_bit_keeps [OF Suc.prems]]) auto
qed

lemma reverse_loop_keeps:
  assumes "good r" "0 \<le> p + mi2" "0 \<le> mi2" "2 * p + 2 ^ k * (mi2 + 1) \<le> 2 * num_probs r"
  shows "yields X (reverse_loop k p mi2 i2 d r) (\<lambda>(d', r'). keeps r r')"
  using assms
proof (induction k arbitrary: mi2 i2 d r)
  case 0
  then show ?case by (simp add: keeps_refl)
next
  case (Suc k)
  have "2 * (mi2 + 1) \<le> 2 ^ Suc k * (mi2 + 1)" using Suc.prems(3) by (intro mult_right_mono) simp_all
  with Suc.prems(4) have "2 * p + 2 * (mi2 + 1) \<le> 2 * num_probs r" by (meson add_left_mono order_trans)
  then have p: "p + mi2 < num_probs r" by simp
  show ?case unfolding reverse_loop.simps
  proof (rule yields_bind [OF rc_get_bit_steps [OF Suc.prems(1,2) p]], clarify)
    fix b r'
    assume st: "steps r r'"
    have c: "mi2 * 2 + of_bool b + 1 \<le> 2 * (mi2 + 1)" "mi2 \<le> mi2 * 2 + of_bool b" using Suc.prems(3) by (cases b; simp)+
    have "2 ^ k * (mi2 * 2 + of_bool b + 1) \<le> 2 ^ k * (2 * (mi2 + 1))" using c by (intro mult_left_mono) auto
    also have "\<dots> = 2 ^ Suc k * (mi2 + 1)" by simp
    finally have "2 * p + 2 ^ k * (mi2 * 2 + of_bool b + 1) \<le> 2 * num_probs r'"
      using Suc.prems(4) st unfolding steps_def by linarith
    then show "yields X (reverse_loop k p (mi2 * 2 + of_bool b) (push_bit 1 i2) (if b then d OR i2 else d) r') (\<lambda>(d', r''). keeps r r'')"
      using Suc.prems(2,3) c st
      by (intro yields_weaken [OF Suc.IH]) (auto simp: steps_def intro: keeps_trans [OF steps_keeps [OF st]])
  qed
qed

text \<open>The distances of the slots 4 to 13 share an array of 114 probabilities.\<close>

lemma slot_index:
  fixes slot :: int
  assumes "4 \<le> slot" "slot < 14"
  defines "n \<equiv> nat (drop_bit 1 slot - 1)"
  defines "p \<equiv> LZMA_SPEC_POS + uint (push_bit n (word_of_int (2 OR (slot AND 1)) :: u32)) - slot - 1"
  shows "LZMA_SPEC_POS \<le> p + 1" "p + 2 ^ n \<le> LZMA_ALIGN"
proof -
  have "slot = 4 \<or> slot = 5 \<or> slot = 6 \<or> slot = 7 \<or> slot = 8 \<or> slot = 9 \<or> slot = 10 \<or> slot = 11 \<or> slot = 12 \<or> slot = 13"
    using assms(1,2) by presburger
  then show "LZMA_SPEC_POS \<le> p + 1" "p + 2 ^ n \<le> LZMA_ALIGN"
    unfolding p_def n_def by (elim disjE; simp add: layout)+
qed

lemma reverse_yields:
  assumes "wf_header h" "good r" "num_probs r = probs_size h" "0 \<le> p + 1" "p + 2 ^ k \<le> 1846"
  shows "yields X (reverse_loop k p 1 i2 d r) (\<lambda>(d', r'). keeps r r')"
  using assms probs_size_base [OF assms(1)] by (intro reverse_loop_keeps) auto

lemma decode_distance_yields:
  assumes h: "wf_header h" and r: "good r" "num_probs r = probs_size h" and len: "0 \<le> len"
  shows "yields X (decode_distance len r) (\<lambda>(d, r'). keeps r r')"
  unfolding decode_distance_def
proof (rule yields_bind [OF tree_yields [OF h r]])
  show "0 \<le> LZMA_POS_SLOT + push_bit 6 (if len < 4 then len else 4 - 1)"
    "LZMA_POS_SLOT + push_bit 6 (if len < 4 then len else 4 - 1) + 2 ^ 6 \<le> 1846"
    using len by (simp_all add: layout push_bit_eq_mult)
  fix x :: "int \<times> coder"
  assume "case x of (slot, r') \<Rightarrow> keeps r r' \<and> 0 \<le> slot \<and> slot < 2 ^ 6"
  then obtain slot s where x: "x = (slot, s)" and s: "keeps r s" and slot: "0 \<le> slot" "slot < 2 ^ 6" by (cases x) auto
  define n where "n = nat (drop_bit 1 slot - 1)"
  define d :: u32 where "d = word_of_int (2 OR (slot AND 1))"
  have g: "good s" "num_probs s = probs_size h" using s r by (simp_all add: keeps_def)
  have near: "yields X (reverse_loop n (LZMA_SPEC_POS + uint (push_bit n d) - slot - 1) 1 1 (push_bit n d) s) (\<lambda>(d, r'). keeps r r')"
    if "4 \<le> slot" "slot < 14"
  proof -
    have i: "0 \<le> LZMA_SPEC_POS + uint (push_bit n d) - slot - 1 + 1" "LZMA_SPEC_POS + uint (push_bit n d) - slot - 1 + 2 ^ n \<le> 1846"
      using slot_index [OF that] unfolding n_def [symmetric] d_def [symmetric] by (simp_all add: layout)
    show ?thesis by (rule yields_weaken [OF reverse_yields [OF h g i]]) (auto intro: keeps_trans [OF s])
  qed
  have far: "yields X (and_then (direct_loop (n - 4) d s) (\<lambda>(rep0, r). reverse_loop 4 LZMA_ALIGN 1 1 (push_bit 4 rep0) r)) (\<lambda>(d, r'). keeps r r')"
  proof (rule yields_bind [OF direct_loop_keeps [OF g(1)]], clarify)
    fix d' s'
    assume s': "keeps s s'"
    have g': "good s'" "num_probs s' = probs_size h" using s' g by (simp_all add: keeps_def)
    show "yields X (reverse_loop 4 LZMA_ALIGN 1 1 (push_bit 4 d') s') (\<lambda>(d, r'). keeps r r')"
      by (rule yields_weaken [OF reverse_yields [OF h g']])
        (auto simp: layout intro: keeps_trans [OF keeps_trans [OF s s']])
  qed
  have "yields X (if slot < 4 then Inr (word_of_int slot, s)
      else if slot < 14 then reverse_loop n (LZMA_SPEC_POS + uint (push_bit n d) - slot - 1) 1 1 (push_bit n d) s
        else and_then (direct_loop (n - 4) d s) (\<lambda>(rep0, r). reverse_loop 4 LZMA_ALIGN 1 1 (push_bit 4 rep0) r)) (\<lambda>(d, r'). keeps r r')"
    using near far s by auto
  then show "yields X (case x of (slot, s) \<Rightarrow> and_then (if slot < 4 then Inr (word_of_int slot, s)
        else let num_bits2 = nat (drop_bit 1 slot - 1); rep0 = word_of_int (2 OR (slot AND 1))
           in if slot < 14 then let rep0 = push_bit num_bits2 rep0
                in reverse_loop num_bits2 (LZMA_SPEC_POS + uint rep0 - slot - 1) 1 1 rep0 s
              else and_then (direct_loop (num_bits2 - 4) rep0 s) (\<lambda>(rep0, r). reverse_loop 4 LZMA_ALIGN 1 1 (push_bit 4 rep0) r))
      (\<lambda>(rep0, r). Inr (rep0 + 1, r))) (\<lambda>(d, r'). keeps r r')"
    unfolding x prod.case Let_def n_def [symmetric] d_def [symmetric] by (rule yields_bind) auto
qed

subsection \<open>One turn\<close>

definition op_ok :: "header \<Rightarrow> decoder \<Rightarrow> lzma_op \<Rightarrow> decoder \<Rightarrow> bool" where
  "op_ok h d op d' \<longleftrightarrow> steps (rc d) (rc d') \<and>
    (case op of
       Literal \<Rightarrow> wf_dec h d' \<and> state d' < 7
     | Copy n \<Rightarrow> wf_dec h d' \<and> 7 \<le> state d' \<and> 0 < n \<and> n < 274
     | EndMarker \<Rightarrow> True)"

lemma decode_copy_yields:
  assumes h: "wf_header h" and d: "kind_ok h (Some p) d" and ps: "0 \<le> pos_state" "pos_state < 16"
  shows "yields X (decode_copy p pos_state d) (\<lambda>(op, d'). keeps (rc d) (rc d') \<and>
    (case op of Copy n \<Rightarrow> wf_dec h d' \<and> 7 \<le> state d' \<and> 0 < n \<and> n < 274 | Literal \<Rightarrow> False | EndMarker \<Rightarrow> True))"
    (is "yields X _ ?Q")
proof -
  have p: "p = LZMA_LEN_CODER \<or> p = LZMA_REP_LEN_CODER" and w: "wf_dec h d" and s1: "state d < 4 \<or> 7 \<le> state d"
    using d by (simp_all add: kind_ok_def)
  have g: "good (rc d)" "num_probs (rc d) = probs_size h" using w by (simp_all add: wf_dec_def)
  show ?thesis unfolding decode_copy_def
  proof (rule yields_bind [OF decode_len_yields [OF h g p ps]], clarify)
    fix len :: int and r
    assume r: "keeps (rc d) r" and len: "0 \<le> len" "len < 272"
    have g': "good r" "num_probs r = probs_size h" using r g by (simp_all add: keeps_def)
    have "yields X (and_then (decode_distance len r) (\<lambda>(dist, r).
        let d = d\<lparr>rc := r, state := state d + 7, rep0 := dist\<rparr>
        in if sint dist \<le> 0 then (if dist = 0 then Inr (EndMarker, d) else Inl Corrupted)
           else Inr (Copy (nat (len + 2)), d))) ?Q" if "state d < 4"
      by (rule yields_bind [OF decode_distance_yields [OF h g' len(1)]])
        (use w len that r g' in \<open>auto simp: Let_def wf_dec_def dist_ok_def keeps_def nat_less_iff\<close>)
    then show "yields X (if 4 \<le> state d then Inr (Copy (nat (len + 2)), d\<lparr>rc := r\<rparr>)
        else and_then (decode_distance len r) (\<lambda>(dist, r).
          let d = d\<lparr>rc := r, state := state d + 7, rep0 := dist\<rparr>
          in if sint dist \<le> 0 then (if dist = 0 then Inr (EndMarker, d) else Inl Corrupted)
             else Inr (Copy (nat (len + 2)), d))) ?Q"
      using w len s1 r g' by (auto simp: wf_dec_def nat_less_iff)
  qed
qed

lemma decode_match_yields:
  assumes h: "wf_header h" and d: "wf_dec h d" and ps: "0 \<le> pos_state" "pos_state < 16"
  shows "yields X (decode_match pos_state d) (\<lambda>(op, d'). keeps (rc d) (rc d') \<and>
    (case op of Copy n \<Rightarrow> wf_dec h d' \<and> 7 \<le> state d' \<and> 0 < n \<and> n < 274 | Literal \<Rightarrow> False | EndMarker \<Rightarrow> True))"
  unfolding decode_match_def
proof (rule yields_bind [OF decode_kind_yields [OF h d ps]], clarify)
  fix kind d1
  assume d1: "keeps (rc d) (rc d1)" "kind_ok h kind d1"
  show "yields X (case kind of None \<Rightarrow> Inr (Copy 1, d1) | Some prob2 \<Rightarrow> decode_copy prob2 pos_state d1)
    (\<lambda>(op, d'). keeps (rc d) (rc d') \<and>
      (case op of Copy n \<Rightarrow> wf_dec h d' \<and> 7 \<le> state d' \<and> 0 < n \<and> n < 274 | Literal \<Rightarrow> False | EndMarker \<Rightarrow> True))"
  proof (cases kind)
    case (Some p)
    show ?thesis unfolding Some option.case
      by (rule yields_weaken [OF decode_copy_yields [OF h d1(2) [unfolded Some] ps]]) (auto intro: keeps_trans [OF d1(1)])
  qed (use d1 in \<open>simp add: kind_ok_def\<close>)
qed

lemma next_op_yields:
  assumes h: "wf_header h" and d: "wf_dec h d" and mb: "7 \<le> state d \<Longrightarrow> yields X mb (\<lambda>_. True)"
  shows "yields X (next_op h pos mb d) (\<lambda>(op, d'). op_ok h d op d')"
proof -
  define ps where "ps = uint (pos AND ucast (pos_state_mask h))"
  have ps: "0 \<le> ps" "ps < 16" using word_mask_bound [of pos "pos_state_mask h"] h by (auto simp: ps_def wf_header_def)
  show ?thesis unfolding next_op_def Let_def ps_def [symmetric]
  proof (rule yields_bind [OF flag_yields [OF h d flag_index(11,12) [OF d ps]]], clarify)
    fix match r
    assume r: "steps (rc d) r" "wf_dec h (d\<lparr>rc := r\<rparr>)"
    have "yields X (and_then (decode_literal h pos mb (d\<lparr>rc := r\<rparr>)) (\<lambda>d. Inr (Literal, d))) (\<lambda>(op, d'). op_ok h d op d')"
      by (rule yields_bind [OF decode_literal_yields [OF h r(2)]]) (use mb in \<open>auto simp: op_ok_def intro: steps_trans [OF r(1)]\<close>)
    moreover have "yields X (decode_match ps (d\<lparr>rc := r\<rparr>)) (\<lambda>(op, d'). op_ok h d op d')"
      by (rule yields_weaken [OF decode_match_yields [OF h r(2) ps]])
        (auto simp: op_ok_def intro: steps_trans [OF r(1)] split: lzma_op.splits)
    ultimately show "yields X (if \<not> match then and_then (decode_literal h pos mb (d\<lparr>rc := r\<rparr>)) (\<lambda>d. Inr (Literal, d))
       else decode_match ps (d\<lparr>rc := r\<rparr>)) (\<lambda>(op, d'). op_ok h d op d')" by simp
  qed
qed

end
