(* ===== verification/Archival_Unlzma_Safe.thy ===== *)
theory Archival_Unlzma_Safe
  imports Archival_Unlzma_Ops
begin

text \<open>
  The dictionary of \<^verbatim>\<open>unlzma\<close>: which accesses are inside it, and that the main loop ends.
\<close>

subsection \<open>Positions\<close>

lemma u32_int: "int (unat (x :: u32)) < 4294967296"
proof -
  have "unat x < 4294967296" using u32_range [of x] by simp
  then show ?thesis by linarith
qed

lemma sint_nat: "sint (x :: u32) = (if unat x < 2147483648 then int (unat x) else int (unat x) - 4294967296)"
proof -
  have "sint x = signed_take_bit 31 (int (unat x))" by (simp add: sint_uint)
  also have "\<dots> = (int (unat x) + 2147483648) mod 4294967296 - 2147483648"
    by (simp add: signed_take_bit_eq_take_bit_shift take_bit_eq_mod)
  also have "\<dots> = (if unat x < 2147483648 then int (unat x) else int (unat x) - 4294967296)"
  proof (cases "unat x < 2147483648")
    case True
    then have "int (unat x) < 2147483648" by linarith
    then have "(int (unat x) + 2147483648) mod 4294967296 = int (unat x) + 2147483648" by (intro mod_pos_pos_trivial) linarith+
    then show ?thesis unfolding if_P [OF True] by linarith
  next
    case False
    have "(int (unat x) + 2147483648) mod 4294967296 = (int (unat x) + 2147483648 - 4294967296) mod 4294967296"
      by (rule minus_mod_self2 [symmetric])
    also have "\<dots> = int (unat x) + 2147483648 - 4294967296" using False u32_int [of x] by (intro mod_pos_pos_trivial) linarith+
    finally show ?thesis unfolding if_not_P [OF False] by linarith
  qed
  finally show ?thesis .
qed

lemma sint_negative: "sint (x :: u32) < 0 \<longleftrightarrow> 2147483648 \<le> unat x"
  unfolding sint_nat using u32_int [of x] by (simp add: not_less del: of_nat_less_iff unsigned_less int_eq_iff uint_nat)

lemma dist_ok_nat: "dist_ok r \<longleftrightarrow> 1 \<le> unat r \<and> unat r < 2147483648"
  unfolding dist_ok_def sint_nat using u32_int [of r] by (auto simp del: of_nat_unat)

lemma back_pos:
  assumes "p < 4294967296" "dist_ok r"
  shows "unat (of_nat p - r) = (if unat r \<le> p then p - unat r else p + 4294967296 - unat r)"
proof -
  have p: "unat (of_nat p :: u32) = p" using assms(1) by (intro unat_of_nat_small) simp
  show ?thesis using unat_sub_if' [of "of_nat p" r] assms(2) by (auto simp: p dist_ok_nat)
qed

lemma wrap_pos: "unat (x + (y :: u32)) = (if unat x + unat y < 4294967296 then unat x + unat y else unat x + unat y - 4294967296)"
  using u32_range [of x] u32_range [of y] by (simp add: unat_plus_if')

subsection \<open>The window\<close>

definition window :: "header \<Rightarrow> lzma \<Rightarrow> bool" where
  "window h s \<longleftrightarrow> buffer_pos s < unat (dict_size h) \<and>
    (unat (dst_size h) < unat (dict_size h) \<longrightarrow> global_pos s = 0 \<and> buffer_pos s \<le> unat (dst_size h))"

definition room :: "header \<Rightarrow> lzma \<Rightarrow> bool" where
  "room h s \<longleftrightarrow> window h s \<and> buffer_pos s < unat (buffer_size h)"

text \<open>Where the next literal looks for its matched byte: inside, or at the byte after the end of a dictionary that is cut
  to the size of the output.\<close>

definition lit_ok :: "header \<Rightarrow> lzma \<Rightarrow> bool" where
  "lit_ok h s \<longleftrightarrow>
    (let p = of_nat (buffer_pos s) - rep0 (dec s); q = p + dict_size h
     in 2147483648 \<le> unat p \<longrightarrow> 2147483648 \<le> unat q \<or> unat q < unat (buffer_size h) \<or>
        unat q = unat (buffer_size h) \<and> unat (dst_size h) < unat (dict_size h))"

definition past :: "header \<Rightarrow> lzma_stop set" where
  "past h = (if dst_size h < ucast (dict_size h) then {ReadOutside (unat (buffer_size h))} else {})"

lemma unat_dict: "unat (ucast (d :: u32) :: u64) = unat d"
  using u32_range [of d] take_bit_nat_eq_self [of "unat d" 64] by (simp add: unsigned_ucast_eq)

lemma past_iff: "e \<in> past h \<longleftrightarrow> unat (dst_size h) < unat (dict_size h) \<and> e = ReadOutside (unat (buffer_size h))"
  by (simp add: past_def word_less_nat_alt unat_dict)

lemma front_read:
  assumes "room h s" "dist_ok (rep0 (dec s))" "unat (of_nat (buffer_pos s) - rep0 (dec s)) < 2147483648"
  shows "unat (of_nat (buffer_pos s) - rep0 (dec s)) < unat (buffer_size h)"
proof -
  have p: "buffer_pos s < 4294967296" using assms(1) u32_range [of "dict_size h"] by (simp add: room_def window_def)
  show ?thesis using back_pos [OF p assms(2)] assms by (auto simp: dist_ok_nat room_def split: if_splits)
qed

lemma match_byte_yields:
  assumes "room h s" "dist_ok (rep0 (dec s))" "lit_ok h s"
  shows "yields (past h) (match_byte h s) (\<lambda>_. True)"
proof -
  define p where "p = of_nat (buffer_pos s) - rep0 (dec s)"
  define q where "q = p + dict_size h"
  have front: "unat p < 2147483648 \<Longrightarrow> p < buffer_size h" using front_read [OF assms(1,2)] by (simp add: p_def word_less_nat_alt)
  have behind: "2147483648 \<le> unat p \<Longrightarrow> \<not> 2147483648 \<le> unat q \<Longrightarrow> q < buffer_size h \<or> ReadOutside (unat q) \<in> past h"
    using assms(3) unfolding lit_ok_def Let_def p_def [symmetric] q_def [symmetric] by (auto simp: past_iff word_less_nat_alt)
  show ?thesis
    unfolding match_byte_def Let_def p_def [symmetric] q_def [symmetric] sint_negative buffer_at_def
    using front behind by (auto simp: yields_def not_le)
qed

lemma one_byte2_yields:
  assumes "wf_header h" "room h s"
  shows "yields X (one_byte2 h wr s) (\<lambda>s'. window h s' \<and> dec s' = dec s \<and>
    (if buffer_pos s + 1 = unat (dict_size h) then buffer_pos s' = 0 else buffer_pos s' = buffer_pos s + 1))"
  using assms unfolding one_byte2_def Let_def room_def window_def wf_header_def by (auto simp: Suc_le_eq)

text \<open>After a byte has been copied from inside, a literal may look at the position behind it.\<close>

lemma lit_ok_step:
  assumes h: "wf_header h" and s: "room h s" and r: "dist_ok (rep0 (dec s))"
    and read: "2147483648 \<le> unat (of_nat (buffer_pos s) - rep0 (dec s)) \<Longrightarrow>
      unat (of_nat (buffer_pos s) - rep0 (dec s) + dict_size h) < unat (buffer_size h)"
    and s': "dec s' = dec s" "if buffer_pos s + 1 = unat (dict_size h) then buffer_pos s' = 0 else buffer_pos s' = buffer_pos s + 1"
  shows "lit_ok h s'"
proof -
  define b where "b = buffer_pos s"
  define R where "R = unat (rep0 (dec s))"
  define D where "D = unat (dict_size h)"
  define N where "N = unat (dst_size h)"
  have R: "1 \<le> R" "R < 2147483648" using r by (simp_all add: R_def dist_ok_nat)
  have B: "unat (buffer_size h) = min N D" using h by (simp add: wf_header_def N_def D_def)
  have b: "b < D" "b < min N D" "D < 4294967296" using s B u32_range [of "dict_size h"] by (simp_all add: room_def window_def b_def D_def)
  have p: "unat (of_nat b - rep0 (dec s)) = (if R \<le> b then b - R else b + 4294967296 - R)"
    using back_pos [OF _ r, of b] b by (simp add: R_def)
  have p': "unat (of_nat (buffer_pos s') - rep0 (dec s)) = (if R \<le> buffer_pos s' then buffer_pos s' - R else buffer_pos s' + 4294967296 - R)"
    using back_pos [OF _ r, of "buffer_pos s'"] b s'(2) by (simp add: R_def b_def D_def split: if_splits)
  define P where "P = unat (of_nat b - rep0 (dec s))"
  define P' where "P' = unat (of_nat (buffer_pos s') - rep0 (dec s'))"
  have rd: "2147483648 \<le> P \<Longrightarrow> (if P + D < 4294967296 then P + D else P + D - 4294967296) < min N D"
    using read unfolding wrap_pos b_def [symmetric] D_def [symmetric] B P_def [symmetric] .
  have "2147483648 \<le> Q' \<or> Q' < min N D \<or> Q' = min N D \<and> N < D"
    if P': "2147483648 \<le> P'" and Q': "Q' = (if P' + D < 4294967296 then P' + D else P' + D - 4294967296)" for Q'
  proof (cases "b + 1 = D")
    case True
    then have "P' = 4294967296 - R" using p' s' R by (simp add: P'_def b_def D_def)
    then show ?thesis using Q' R b True by (auto split: if_splits)
  next
    case False
    then have "P' = (if R \<le> b + 1 then b + 1 - R else b + 1 + 4294967296 - R)" using p' s' by (simp add: P'_def b_def D_def)
    moreover have "b + D - R < min N D" if "\<not> R \<le> b"
    proof -
      have "P = b + 4294967296 - R" using p that by (simp add: P_def)
      moreover from this have "2147483648 \<le> P" using R by simp
      ultimately show ?thesis using rd R by (simp split: if_splits)
    qed
    then have "\<not> R \<le> b \<Longrightarrow> b + 1 + D - R \<le> min N D" by linarith
    ultimately show ?thesis using Q' R b P' by (auto simp: min_def split: if_splits)
  qed
  then show ?thesis unfolding lit_ok_def Let_def P'_def [symmetric] wrap_pos D_def [symmetric] N_def [symmetric] B by blast
qed

lemma pos_less: "p < 2 ^ 64 \<Longrightarrow> of_nat p < (x :: u64) \<longleftrightarrow> p < unat x"
  by (simp add: word_less_nat_alt unat_of_nat_small)

lemma window_bound: "window h s \<Longrightarrow> buffer_pos s < 2 ^ 64"
  using u32_range [of "dict_size h"] by (simp add: window_def)

text \<open>The string that is copied: every read is checked.\<close>

lemma string_loop_yields:
  assumes "wf_header h" "room h s" "dist_ok (rep0 (dec s))" "0 < len"
  shows "yields X (string_loop len h wr s) (\<lambda>s'. window h s' \<and> lit_ok h s' \<and> (\<exists>b. dec s' = dec s\<lparr>previous_byte := b\<rparr>))"
  using assms
proof (induction len arbitrary: s)
  case (Suc len)
  define p where "p = of_nat (buffer_pos s) - rep0 (dec s)"
  have read: "yields X (if sint p < 0 then let pos = p + dict_size h in if buffer_size h \<le> pos then Inl Corrupted else buffer_at h pos s
      else buffer_at h p s) (\<lambda>b. 2147483648 \<le> unat p \<longrightarrow> unat (p + dict_size h) < unat (buffer_size h))"
    using front_read [OF Suc.prems(2,3)] unfolding sint_negative p_def [symmetric]
    by (auto simp: Let_def buffer_at_def word_less_nat_alt word_le_nat_alt)
  show ?case unfolding string_loop.simps p_def [symmetric] Let_def [of p]
  proof (rule yields_bind [OF read])
    fix b
    assume p: "2147483648 \<le> unat p \<longrightarrow> unat (p + dict_size h) < unat (buffer_size h)"
    define t where "t = s\<lparr>dec := dec s\<lparr>previous_byte := b\<rparr>\<rparr>"
    have t: "room h t" "dist_ok (rep0 (dec t))" using Suc.prems by (simp_all add: t_def room_def window_def)
    show "yields X (and_then (one_byte2 h wr t) (\<lambda>s. if len \<noteq> 0 \<and> of_nat (buffer_pos s) < dst_size h then string_loop len h wr s else Inr s))
      (\<lambda>s'. window h s' \<and> lit_ok h s' \<and> (\<exists>b. dec s' = dec s\<lparr>previous_byte := b\<rparr>))"
    proof (rule yields_bind [OF one_byte2_yields [OF Suc.prems(1) t(1)]], elim conjE)
      fix s'
      assume s': "window h s'" "dec s' = dec t"
        "if buffer_pos t + 1 = unat (dict_size h) then buffer_pos s' = 0 else buffer_pos s' = buffer_pos t + 1"
      have l: "lit_ok h s'" by (rule lit_ok_step [OF Suc.prems(1) t _ s'(2,3)]) (use p in \<open>simp add: t_def p_def\<close>)
      have e: "\<exists>b. dec s' = dec s\<lparr>previous_byte := b\<rparr>" using s'(2) by (auto simp: t_def)
      have "yields X (string_loop len h wr s') (\<lambda>s'. window h s' \<and> lit_ok h s' \<and> (\<exists>b. dec s' = dec s\<lparr>previous_byte := b\<rparr>))"
        if "len \<noteq> 0" "of_nat (buffer_pos s') < dst_size h"
      proof -
        have "room h s'" using s'(1) that(2) pos_less [OF window_bound [OF s'(1)]] Suc.prems(1)
          by (simp add: room_def wf_header_def) (simp add: window_def)
        moreover have "dist_ok (rep0 (dec s'))" using t(2) s'(2) by simp
        ultimately show ?thesis
          by (rule yields_weaken [OF Suc.IH [OF Suc.prems(1)]]) (use that(1) e in auto)
      qed
      then show "yields X (if len \<noteq> 0 \<and> of_nat (buffer_pos s') < dst_size h then string_loop len h wr s' else Inr s')
          (\<lambda>s'. window h s' \<and> lit_ok h s' \<and> (\<exists>b. dec s' = dec s\<lparr>previous_byte := b\<rparr>))"
        using s'(1) l e by simp
    qed
  qed
qed simp

subsection \<open>The main loop\<close>

definition ready :: "header \<Rightarrow> lzma \<Rightarrow> bool" where
  "ready h s \<longleftrightarrow> window h s \<and> wf_dec h (dec s) \<and> (7 \<le> state (dec s) \<longrightarrow> lit_ok h s)"

lemma ready_room:
  assumes h: "wf_header h" and s: "ready h s" and more: "global_pos s + of_nat (buffer_pos s) < dst_size h"
  shows "room h s"
proof (cases "unat (dst_size h) < unat (dict_size h)")
  case True
  then have "of_nat (buffer_pos s) < dst_size h" using s more by (simp add: ready_def window_def)
  then have "buffer_pos s < unat (dst_size h)" using pos_less [OF window_bound, of h s "dst_size h"] s by (simp add: ready_def)
  then show ?thesis using s h by (simp add: ready_def room_def wf_header_def) (simp add: window_def)
next
  case False
  then show ?thesis using s h by (simp add: ready_def room_def wf_header_def) (simp add: window_def)
qed

lemma unlzma_turn_yields:
  assumes h: "wf_header h" and s: "ready h s" and more: "global_pos s + of_nat (buffer_pos s) < dst_size h"
  shows "yields (past h) (unlzma_turn h wr s)
    (\<lambda>(s', continue). left (rc (dec s')) < left (rc (dec s)) \<and> (continue \<longrightarrow> ready h s'))"
proof -
  have room: "room h s" using ready_room [OF assms] .
  have d: "wf_dec h (dec s)" using s by (simp add: ready_def)
  have mb: "yields (past h) (match_byte h s) (\<lambda>_. True)" if "7 \<le> state (dec s)"
    using match_byte_yields [OF room] d s that by (simp add: ready_def wf_dec_def)
  show ?thesis unfolding unlzma_turn_def
  proof (rule yields_bind [OF next_op_yields [OF h d mb]], assumption, clarify)
    fix op d'
    assume op: "op_ok h (dec s) op d'"
    have r: "room h (s\<lparr>dec := d'\<rparr>)" using room by (simp add: room_def window_def)
    have l: "left (rc d') < left (rc (dec s))" using op by (simp add: op_ok_def steps_def)
    show "yields (past h) (let s = s\<lparr>dec := d'\<rparr> in case op of
           Literal \<Rightarrow> and_then (one_byte2 h wr s) (\<lambda>s. Inr (s, True))
         | Copy len \<Rightarrow> and_then (string_loop len h wr s) (\<lambda>s. Inr (s, True))
         | EndMarker \<Rightarrow> Inr (s, False))
      (\<lambda>(s', continue). left (rc (dec s')) < left (rc (dec s)) \<and> (continue \<longrightarrow> ready h s'))"
    proof (cases op)
      case Literal
      then have "wf_dec h d'" "state d' < 7" using op by (simp_all add: op_ok_def)
      then show ?thesis unfolding Literal Let_def lzma_op.case
        by (intro yields_bind [OF one_byte2_yields [OF h r]]) (use l in \<open>auto simp: ready_def\<close>)
    next
      case (Copy n)
      then have w: "wf_dec h d'" and n: "0 < n" using op by (simp_all add: op_ok_def)
      then have "dist_ok (rep0 (dec (s\<lparr>dec := d'\<rparr>)))" by (simp add: wf_dec_def)
      then show ?thesis unfolding Copy Let_def lzma_op.case
        by (intro yields_bind [OF string_loop_yields [OF h r _ n]]) (use l w in \<open>auto simp: ready_def wf_dec_def\<close>)
    next
      case EndMarker
      then show ?thesis using l by simp
    qed
  qed
qed

lemma unlzma_loop_returns:
  assumes h: "wf_header h" and s: "ready h s"
  shows "\<exists>res. unlzma_loop h wr s = Some res \<and> yields (past h) res (\<lambda>_. True)"
  using s
proof (induction "left (rc (dec s))" arbitrary: s rule: less_induct)
  case less
  show ?case
  proof (cases "global_pos s + of_nat (buffer_pos s) < dst_size h")
    case False
    then show ?thesis by (simp add: unlzma_loop.simps [of h wr s])
  next
    case True
    note turn = unlzma_turn_yields [OF h less.prems True, of wr]
    show ?thesis
    proof (cases "unlzma_turn h wr s")
      case (Inl e)
      then show ?thesis using turn True by (simp add: unlzma_loop.simps [of h wr s] yields_def)
    next
      case (Inr x)
      then obtain s' continue where x: "unlzma_turn h wr s = Inr (s', continue)" by (cases x) auto
      then have "left (rc (dec s')) < left (rc (dec s))" "continue \<Longrightarrow> ready h s'" using turn by (simp_all add: yields_def)
      then show ?thesis using less.hyps [of s'] True x by (cases continue) (simp_all add: unlzma_loop.simps [of h wr s])
    qed
  qed
qed

subsection \<open>The whole stream\<close>

lemma small_mask: "k \<le> 4 \<Longrightarrow> uint (push_bit k 1 - 1 :: u32) < 16"
proof -
  assume "k \<le> 4"
  then have "k = 0 \<or> k = 1 \<or> k = 2 \<or> k = 3 \<or> k = 4" by auto
  then show ?thesis by auto
qed

lemma read_header_wf: "read_header bs = Inr h \<Longrightarrow> wf_header h"
proof -
  assume r: "read_header bs = Inr h"
  define i where "i = unat (bs ! 0) div 9"
  have "unat (bs ! 0) < 225" using r by (auto simp: read_header_def word_le_nat_alt split: if_splits)
  then have "i div 5 \<le> 4" by (simp add: i_def less_eq_div_iff_mult_less_eq flip: div_mult2_eq)
  then have m: "uint (push_bit (i div 5) 1 - 1 :: u32) < 16" "uint (push_bit (i mod 5) 1 - 1 :: u32) < 16"
    by (intro small_mask; simp)+
  have size: "unat (ucast (min n (ucast d)) :: u32) = min (unat n) (unat d)" for n :: u64 and d :: u32
  proof -
    have "unat (min n (ucast d)) = min (unat n) (unat d)" by (simp add: min_def word_le_nat_alt unat_dict)
    moreover have "min (unat n) (unat d) < 2 ^ 32" using u32_range [of d] by simp
    ultimately show ?thesis by (simp add: unsigned_ucast_eq take_bit_nat_eq_self)
  qed
  define d0 :: u32 where "d0 = of_nat (load_le (take 4 (drop 1 bs)))"
  define d where "d = (if d0 = 0 then d0 + 1 else d0)"
  define n :: u64 where "n = of_nat (load_le (take 8 (drop 5 bs)))"
  have "h = \<lparr>lc = unat (bs ! 0) mod 9, pos_state_mask = push_bit (i div 5) 1 - 1, literal_pos_mask = push_bit (i mod 5) 1 - 1,
      dict_size = d, dst_size = n, buffer_size = ucast (min n (ucast d))\<rparr>"
    using r unfolding read_header_def Let_def d0_def [symmetric] d_def [symmetric] n_def [symmetric] i_def [symmetric]
    by (simp split: if_splits)
  moreover have "unat (bs ! 0) mod 9 \<le> 8" by (simp add: less_Suc_eq_le [symmetric])
  moreover have "d \<noteq> 0" by (simp add: d_def)
  ultimately show ?thesis using m size by (simp add: wf_header_def)
qed

lemma init_loop_yields: "yields X (init_loop k r) (\<lambda>r'. probs r' = probs r \<and> num_probs r' = num_probs r)"
proof (induction k arbitrary: r)
  case (Suc k)
  show ?case unfolding init_loop.simps
    by (rule yields_bind [OF rc_do_normalize_yields], rule yields_weaken [OF Suc.IH]) auto
qed simp

lemma rc_init_yields: "yields X (rc_init file (\<lambda>_. 1024) n) (\<lambda>r. good r \<and> num_probs r = n)"
  unfolding rc_init_def by (rule yields_bind [OF init_loop_yields]) (simp add: good_def)

lemma start_ready:
  assumes "wf_header h" "good r" "num_probs r = probs_size h"
  shows "ready h (unlzma_start junk r)"
proof -
  have "0 < unat (dict_size h)" using assms(1) by (simp add: wf_header_def unat_gt_0)
  then show ?thesis using assms(2,3) by (simp add: ready_def unlzma_start_def window_def wf_dec_def dist_ok_def)
qed

lemma unpack_returns:
  "\<exists>res. unpack_lzma_stream wr junk bs file = Some res \<and>
    (case read_header bs of Inl e \<Rightarrow> res = Inl BadHeader | Inr h \<Rightarrow> yields (past h) res (\<lambda>_. True))"
proof (cases "read_header bs")
  case (Inl e)
  then have "e = BadHeader" by (auto simp: read_header_def Let_def split: if_splits)
  with Inl show ?thesis by (simp add: unpack_lzma_stream_def)
next
  case (Inr h)
  note h = read_header_wf [OF Inr]
  have init: "yields (past h) (rc_init file (\<lambda>_. 1024) (probs_size h)) (\<lambda>r. good r \<and> num_probs r = probs_size h)"
    by (rule rc_init_yields)
  show ?thesis
  proof (cases "rc_init file (\<lambda>_. 1024) (probs_size h)")
    case e: (Inl e)
    then show ?thesis using Inr init by (simp add: unpack_lzma_stream_def yields_def)
  next
    case r: (Inr r)
    then have "ready h (unlzma_start junk r)" using init by (intro start_ready [OF h]) (simp_all add: yields_def)
    from unlzma_loop_returns [OF h this, of wr] obtain res where res: "unlzma_loop h wr (unlzma_start junk r) = Some res"
      "yields (past h) res (\<lambda>_. True)" by blast
    have "yields (past h) (and_then res (unlzma_end wr)) (\<lambda>_. True)"
      by (rule yields_bind [OF res(2)]) (simp add: unlzma_end_def Let_def)
    then show ?thesis using Inr r res(1) by (simp add: unpack_lzma_stream_def)
  qed
qed

text \<open>C5: On every input, \<^verbatim>\<open>unlzma\<close> returns or dies at the end of the input, and every access to the probabilities and to
  the dictionary is inside its array, with one exception: where the announced size of the output is below the size of the
  dictionary, the byte behind the dictionary may be read.\<close>

theorem unlzma_memory_safe:
  "\<exists>res. unpack_lzma_stream wr junk bs file = Some res \<and>
    (case res of
       Inr _ \<Rightarrow> True
     | Inl e \<Rightarrow> e \<in> {BadHeader, UnexpectedEof, Corrupted} \<or>
         (case read_header bs of
            Inl _ \<Rightarrow> False
          | Inr h \<Rightarrow> unat (dst_size h) < unat (dict_size h) \<and> e = ReadOutside (unat (buffer_size h))))"
proof -
  obtain res where "unpack_lzma_stream wr junk bs file = Some res"
    "case read_header bs of Inl e \<Rightarrow> res = Inl BadHeader | Inr h \<Rightarrow> yields (past h) res (\<lambda>_. True)"
    using unpack_returns by blast
  then show ?thesis by (cases "read_header bs"; cases res) (auto simp: yields_def past_iff)
qed


end
