(* ===== verification/Archival_Unlzma_Window.thy ===== *)
theory Archival_Unlzma_Window
  imports Archival_Unlzma_Safe
begin

text \<open>
  The specification of \<^verbatim>\<open>unlzma\<close> keeps everything that has been decoded and copies from it; the program has a
  dictionary that is written out and overwritten when it is full.
\<close>

subsection \<open>Specification\<close>

definition in_reach :: "header \<Rightarrow> decoder \<Rightarrow> byte list \<Rightarrow> bool" where
  "in_reach h d out \<longleftrightarrow> unat (rep0 d) \<le> min (length out) (unat (dict_size h))"

definition lz_byte :: "header \<Rightarrow> decoder \<Rightarrow> byte list \<Rightarrow> lzma_stop + byte" where
  "lz_byte h d out = (if in_reach h d out then Inr (out ! (length out - unat (rep0 d))) else Inl Corrupted)"

fun lz_copy :: "nat \<Rightarrow> nat \<Rightarrow> byte list \<Rightarrow> byte list" where
  "lz_copy 0 dist out = out"
| "lz_copy (Suc n) dist out = lz_copy n dist (out @ [out ! (length out - dist)])"

text \<open>One packet: a literal, a match that stays within the dictionary and the announced size, or the end.\<close>

definition lz_turn :: "header \<Rightarrow> decoder \<Rightarrow> byte list \<Rightarrow> lzma_stop + decoder \<times> byte list \<times> bool" where
  "lz_turn h d out =
    and_then (next_op h (of_nat (length out)) (lz_byte h d out) d) (\<lambda>(op, d).
      case op of
        Literal \<Rightarrow> Inr (d, out @ [previous_byte d], True)
      | Copy n \<Rightarrow>
          if in_reach h d out \<and> length out + n \<le> unat (dst_size h) then
            let out = lz_copy n (unat (rep0 d)) out in Inr (d\<lparr>previous_byte := last out\<rparr>, out, True)
          else Inl Corrupted
      | EndMarker \<Rightarrow> Inr (d, out, False))"

partial_function (option) lz_loop :: "header \<Rightarrow> decoder \<Rightarrow> byte list \<Rightarrow> (lzma_stop + byte list) option" where
  "lz_loop h d out =
    (if length out < unat (dst_size h) then
       case lz_turn h d out of
         Inl e \<Rightarrow> Some (Inl e)
       | Inr (d, out, continue) \<Rightarrow> if continue then lz_loop h d out else Some (Inr out)
     else Some (Inr out))"

declare lz_loop.simps [code]

definition lz_decode :: "byte list \<Rightarrow> byte list list \<Rightarrow> (lzma_stop + byte list) option" where
  "lz_decode bs file =
    (case read_header bs of
       Inl e \<Rightarrow> Some (Inl e)
     | Inr h \<Rightarrow>
         (case rc_init file (\<lambda>_. 1024) (probs_size h) of
            Inl e \<Rightarrow> Some (Inl e)
          | Inr r \<Rightarrow> lz_loop h \<lparr>rc = r, previous_byte = 0, state = 0, rep0 = 1, rep1 = 1, rep2 = 1, rep3 = 1\<rparr> []))"

subsection \<open>The bytes that are decoded do not depend on unread ones\<close>

lemma and_then_Inr: "and_then m f = Inr y \<longleftrightarrow> (\<exists>x. m = Inr x \<and> f x = Inr y)"
  by (cases m) auto

lemma decode_literal_mb:
  "decode_literal h pos mb d = Inr x \<Longrightarrow> (\<And>b. mb = Inr b \<Longrightarrow> mb' = Inr b) \<Longrightarrow> decode_literal h pos mb' d = Inr x"
  by (cases mb) (auto simp: decode_literal_def Let_def and_then_Inr split: if_splits)

lemma next_op_mb:
  "next_op h pos mb d = Inr x \<Longrightarrow> (\<And>b. mb = Inr b \<Longrightarrow> mb' = Inr b) \<Longrightarrow> next_op h pos mb' d = Inr x"
  by (auto simp: next_op_def Let_def and_then_Inr split: if_splits) (metis decode_literal_mb)+

subsection \<open>The ring\<close>

definition ring :: "header \<Rightarrow> lzma \<Rightarrow> byte list \<Rightarrow> bool" where
  "ring h s out \<longleftrightarrow> (let D = unat (dict_size h); w = length (written s) in
    out = written s @ map (buffer s) [0..<buffer_pos s] \<and> buffer_pos s < D \<and>
    global_pos s = of_nat w \<and> total_written s = of_nat w \<and>
    (written s \<noteq> [] \<longrightarrow> D \<le> w \<and> D \<le> unat (dst_size h) \<and> (\<forall>i. buffer_pos s \<le> i \<and> i < D \<longrightarrow> buffer s i = written s ! (w - D + i))))"

lemma ring_read:
  assumes h: "wf_header h" "unat (dict_size h) \<le> 2147483648" and r: "ring h s out" and room: "room h s"
    and d: "dist_ok (rep0 (dec s))" "in_reach h (dec s) out"
  defines "p \<equiv> of_nat (buffer_pos s) - rep0 (dec s)"
  defines "q \<equiv> (if sint p < 0 then p + dict_size h else p)"
  shows "unat q < 2147483648" "q < buffer_size h" "buffer s (unat q) = out ! (length out - unat (rep0 (dec s)))"
proof -
  define D where "D = unat (dict_size h)"
  define R where "R = unat (rep0 (dec s))"
  define b where "b = buffer_pos s"
  have out: "out = written s @ map (buffer s) [0..<b]" "b < D" using r by (simp_all add: ring_def Let_def b_def D_def)
  have R: "1 \<le> R" "R \<le> D" "R \<le> length (written s) + b" using d out(1) by (simp_all add: R_def D_def dist_ok_nat in_reach_def)
  have D: "D \<le> 2147483648" using h(2) by (simp add: D_def)
  have p: "unat p = (if R \<le> b then b - R else b + 4294967296 - R)"
    using back_pos [OF _ d(1), of b] out(2) D by (simp add: p_def b_def R_def)
  have neg: "sint p < 0 \<longleftrightarrow> b < R" using p out(2) D R(2) by (auto simp: sint_negative)
  have q: "unat q = (if R \<le> b then b - R else b + D - R)"
    using p neg out(2) D R(2) by (auto simp: q_def wrap_pos D_def [symmetric])
  have B: "unat (buffer_size h) = min (unat (dst_size h)) D" using h(1) by (simp add: wf_header_def D_def)
  have w: "D \<le> length (written s)" "D \<le> unat (dst_size h)" "\<forall>i. b \<le> i \<and> i < D \<longrightarrow> buffer s i = written s ! (length (written s) - D + i)" if "b < R"
    using r that R(3) unfolding ring_def Let_def D_def [symmetric] b_def [symmetric] by (cases "written s = []"; simp)+
  show "unat q < 2147483648" using q R out(2) D by auto
  show "q < buffer_size h"
  proof (cases "R \<le> b")
    case True
    then show ?thesis using q R(1) room by (simp add: word_less_nat_alt room_def b_def less_imp_diff_less)
  next
    case False
    then show ?thesis using q R(1) w(2) out(2) by (simp add: word_less_nat_alt B)
  qed
  show "buffer s (unat q) = out ! (length out - unat (rep0 (dec s)))"
  proof (cases "R \<le> b")
    case True
    then have "\<not> length (written s) + b - R < length (written s)" "length (written s) + b - R - length (written s) = b - R" by simp_all
    then show ?thesis using True q R(1) out by (simp add: nth_append R_def [symmetric])
  next
    case False
    then have "b \<le> b + D - R \<and> b + D - R < D" using R(1,2) by linarith
    then have "buffer s (b + D - R) = written s ! (length (written s) - D + (b + D - R))" using w(3) False by (meson not_less)
    also have "length (written s) - D + (b + D - R) = length (written s) + b - R" using w(1) R(2) False by simp
    finally have "buffer s (b + D - R) = written s ! (length (written s) + b - R)" .
    moreover have "length (written s) + b - R < length (written s)" using False R(3) by linarith
    ultimately show ?thesis using q False out(1) by (simp add: nth_append R_def [symmetric])
  qed
qed

text \<open>A byte is put into the dictionary, which is written out when it is full.\<close>

lemma one_byte2_ring:
  assumes h: "wf_header h" and wr: "wr = (\<lambda>_ _. True)" and r: "ring h s out" and room: "room h s"
  obtains s' where "one_byte2 h wr s = Inr s'" "ring h s' (out @ [previous_byte (dec s)])" "dec s' = dec s"
proof -
  define D where "D = unat (dict_size h)"
  define w where "w = written s"
  define b where "b = buffer_pos s"
  define f where "f = (buffer s)(b := previous_byte (dec s))"
  have out: "out = w @ map (buffer s) [0..<b]" "b < D" "global_pos s = of_nat (length w)" "total_written s = of_nat (length w)"
    and full: "w \<noteq> [] \<Longrightarrow> D \<le> length w \<and> D \<le> unat (dst_size h) \<and> (\<forall>i. b \<le> i \<and> i < D \<longrightarrow> buffer s i = w ! (length w - D + i))"
    using r by (simp_all add: ring_def Let_def b_def D_def w_def)
  have bytes: "map f [0..<b + 1] = map (buffer s) [0..<b] @ [previous_byte (dec s)]" by (simp add: f_def)
  have bB: "b < unat (buffer_size h)" using room by (simp add: room_def b_def)
  have B: "unat (buffer_size h) = min (unat (dst_size h)) D" using h by (simp add: wf_header_def D_def)
  have dict: "(ucast (dict_size h) :: u64) = of_nat D" by (simp add: D_def)
  show thesis
  proof (cases "b + 1 = D")
    case True
    define s' where "s' = s\<lparr>buffer := f, buffer_pos := 0, global_pos := of_nat (length w + D), written := w @ map f [0..<D],
      total_written := of_nat (length w + D)\<rparr>"
    have "one_byte2 h wr s = Inr s'"
      using True bB wr out by (simp add: one_byte2_def Let_def f_def s'_def b_def [symmetric] w_def [symmetric] D_def [symmetric] dict)
    moreover have "ring h s' (out @ [previous_byte (dec s)])"
    proof -
      have "out @ [previous_byte (dec s)] = w @ map f [0..<D]"
        unfolding True [symmetric] bytes out(1) by simp
      then show ?thesis using True bB B by (simp add: ring_def Let_def s'_def D_def [symmetric] nth_append)
    qed
    ultimately show ?thesis using that by (simp add: s'_def)
  next
    case False
    define s' where "s' = s\<lparr>buffer := f, buffer_pos := b + 1\<rparr>"
    have "one_byte2 h wr s = Inr s'"
      using False bB by (simp add: one_byte2_def Let_def f_def s'_def b_def [symmetric] D_def [symmetric])
    moreover have "ring h s' (out @ [previous_byte (dec s)])"
      using False out bytes full by (auto simp: ring_def Let_def s'_def D_def [symmetric] w_def [symmetric] f_def)
    ultimately show ?thesis using that by (simp add: s'_def)
  qed
qed

lemma ring_length: "ring h s out \<Longrightarrow> length out = length (written s) + buffer_pos s"
  by (simp add: ring_def Let_def)

lemma ring_room:
  assumes h: "wf_header h" and r: "ring h s out" and n: "length out < unat (dst_size h)"
  shows "room h s"
proof -
  have b: "buffer_pos s < unat (dict_size h)" using r by (simp add: ring_def Let_def)
  have "written s = []" if "unat (dst_size h) < unat (dict_size h)" using r that by (auto simp: ring_def Let_def)
  then have "unat (dst_size h) < unat (dict_size h) \<Longrightarrow> global_pos s = 0" using r by (simp add: ring_def Let_def)
  then show ?thesis using b h n ring_length [OF r] by (simp add: room_def window_def wf_header_def)
qed

lemma in_reach_copy: "in_reach h d out \<Longrightarrow> in_reach h (d\<lparr>previous_byte := b\<rparr>) (out @ [c])"
  by (simp add: in_reach_def)

lemma string_loop_ring:
  assumes h: "wf_header h" "unat (dict_size h) \<le> 2147483648" and wr: "wr = (\<lambda>_ _. True)"
  shows "ring h s out \<Longrightarrow> dist_ok (rep0 (dec s)) \<Longrightarrow> in_reach h (dec s) out \<Longrightarrow> 0 < n \<Longrightarrow> length out + n \<le> unat (dst_size h) \<Longrightarrow>
    \<exists>s'. string_loop n h wr s = Inr s' \<and> ring h s' (lz_copy n (unat (rep0 (dec s))) out) \<and>
      dec s' = dec s\<lparr>previous_byte := last (lz_copy n (unat (rep0 (dec s))) out)\<rparr>"
proof (induction n arbitrary: s out)
  case (Suc n)
  have room: "room h s" using Suc.prems by (intro ring_room [OF h(1) Suc.prems(1)]) simp
  define p where "p = of_nat (buffer_pos s) - rep0 (dec s)"
  define q where "q = (if sint p < 0 then p + dict_size h else p)"
  define R where "R = unat (rep0 (dec s))"
  define c where "c = out ! (length out - R)"
  note read = ring_read [OF h Suc.prems(1) room Suc.prems(2,3), folded p_def, folded q_def, folded R_def, folded c_def]
  have e: "(if sint p < 0 then let pos = p + dict_size h in if buffer_size h \<le> pos then Inl Corrupted else buffer_at h pos s
      else buffer_at h p s) = Inr c"
    using read(2,3) by (auto simp: q_def buffer_at_def Let_def split: if_splits)
  have step: "string_loop (Suc n) h wr s = and_then (one_byte2 h wr (s\<lparr>dec := dec s\<lparr>previous_byte := c\<rparr>\<rparr>))
      (\<lambda>s. if n \<noteq> 0 \<and> of_nat (buffer_pos s) < dst_size h then string_loop n h wr s else Inr s)"
    unfolding string_loop.simps p_def [symmetric] Let_def [of p] e and_then.simps by (rule refl)
  define t where "t = s\<lparr>dec := dec s\<lparr>previous_byte := c\<rparr>\<rparr>"
  have t: "ring h t out" "room h t" using Suc.prems(1) room by (simp_all add: t_def ring_def room_def window_def Let_def)
  obtain s' where s': "one_byte2 h wr t = Inr s'" "ring h s' (out @ [c])" "dec s' = dec s\<lparr>previous_byte := c\<rparr>"
    using one_byte2_ring [OF h(1) wr t] by (auto simp: t_def)
  show ?case
  proof (cases n)
    case 0
    then show ?thesis using step s' by (simp add: t_def [symmetric] R_def [symmetric] c_def [symmetric])
  next
    case (Suc m)
    have "buffer_pos s' < unat (dst_size h)" using ring_length [OF s'(2)] Suc.prems(5) Suc by simp
    then have "of_nat (buffer_pos s') < dst_size h"
      using s'(2) u32_range [of "dict_size h"] by (subst pos_less) (simp_all add: ring_def Let_def)
    then have "string_loop (Suc n) h wr s = string_loop n h wr s'" using step s'(1) Suc by (simp add: t_def [symmetric])
    moreover have "in_reach h (dec s') (out @ [c])" unfolding s'(3) by (rule in_reach_copy [OF Suc.prems(3)])
    ultimately show ?thesis using Suc.IH [OF s'(2)] s'(3) Suc.prems(2,5) Suc
      by (simp add: R_def [symmetric] c_def [symmetric])
  qed
qed simp

subsection \<open>The loop\<close>

lemma lz_copy_length: "length (lz_copy n d out) = length out + n"
  by (induction n arbitrary: out) simp_all

lemma lz_copy_prefix: "n \<noteq> 0 \<Longrightarrow> lz_copy n d out \<noteq> []"
  using lz_copy_length [of n d out] by auto

lemma match_byte_ring:
  assumes h: "wf_header h" "unat (dict_size h) \<le> 2147483648" and r: "ring h s out" and room: "room h s" and d: "dist_ok (rep0 (dec s))"
    and b: "lz_byte h (dec s) out = Inr b"
  shows "match_byte h s = Inr b"
proof -
  have reach: "in_reach h (dec s) out" and b': "b = out ! (length out - unat (rep0 (dec s)))"
    using b by (simp_all add: lz_byte_def split: if_splits)
  show ?thesis using ring_read [OF h r room d reach]
    by (auto simp: match_byte_def Let_def buffer_at_def b' sint_negative split: if_splits)
qed

lemma turn_ring:
  assumes h: "wf_header h" "unat (dict_size h) \<le> 2147483648" and wr: "wr = (\<lambda>_ _. True)"
    and s: "ready h s" "ring h s out" "length out < unat (dst_size h)"
    and t: "lz_turn h (dec s) out = Inr (d', out', continue)"
  obtains s' where "unlzma_turn h wr s = Inr (s', continue)" "dec s' = d'" "ring h s' out'"
proof -
  have room: "room h s" using ring_room [OF h(1) s(2,3)] .
  have wf: "wf_dec h (dec s)" using s(1) by (simp add: ready_def)
  then have d: "dist_ok (rep0 (dec s))" by (simp add: wf_dec_def)
  have pos: "of_nat (length out) = of_nat (buffer_pos s) + global_pos s"
    using s(2) ring_length [OF s(2)] by (simp add: ring_def Let_def)
  obtain op d1 where op: "next_op h (of_nat (length out)) (lz_byte h (dec s) out) (dec s) = Inr (op, d1)"
    using t by (auto simp: lz_turn_def and_then_Inr)
  have nx: "next_op h (of_nat (buffer_pos s) + global_pos s) (match_byte h s) (dec s) = Inr (op, d1)"
    using next_op_mb [OF op match_byte_ring [OF h s(2) room d]] unfolding pos by simp
  have "yields (past h) (next_op h (of_nat (buffer_pos s) + global_pos s) (match_byte h s) (dec s)) (\<lambda>(op, d'). op_ok h (dec s) op d')"
    using s(1) d by (intro next_op_yields [OF h(1) wf] match_byte_yields [OF room]) (simp_all add: ready_def)
  then have ok: "op_ok h (dec s) op d1" by (simp add: nx)
  define s1 where "s1 = s\<lparr>dec := d1\<rparr>"
  have s1: "ring h s1 out" "room h s1" "dec s1 = d1" using s(2) room by (simp_all add: s1_def ring_def room_def window_def Let_def)
  show thesis
  proof (cases op)
    case Literal
    obtain s' where "one_byte2 h wr s1 = Inr s'" "ring h s' (out @ [previous_byte d1])" "dec s' = d1"
      using one_byte2_ring [OF h(1) wr s1(1,2)] s1(3) by auto
    moreover have "d' = d1" "out' = out @ [previous_byte d1]" "continue" using t op Literal by (auto simp: lz_turn_def)
    moreover from calculation have "unlzma_turn h wr s = Inr (s', continue)" using nx Literal by (simp add: unlzma_turn_def Let_def s1_def)
    ultimately show ?thesis by (intro that) simp_all
  next
    case (Copy n)
    have c: "in_reach h d1 out" "length out + n \<le> unat (dst_size h)" "continue"
      "d' = d1\<lparr>previous_byte := last (lz_copy n (unat (rep0 d1)) out)\<rparr>" "out' = lz_copy n (unat (rep0 d1)) out"
      using t op Copy by (auto simp: lz_turn_def Let_def split: if_splits)
    have n: "0 < n" "dist_ok (rep0 d1)" using ok Copy by (simp_all add: op_ok_def wf_dec_def)
    obtain s' where "string_loop n h wr s1 = Inr s'" "ring h s' out'" "dec s' = d'"
      using string_loop_ring [OF h wr s1(1)] s1(3) n c by auto
    then show ?thesis using that nx Copy c(3) by (simp add: unlzma_turn_def Let_def s1_def)
  next
    case EndMarker
    then show ?thesis using that [of s1] t op nx s1 by (simp add: lz_turn_def unlzma_turn_def Let_def s1_def)
  qed
qed

lemma lz_turn_grows: "lz_turn h d out = Inr (d', out', continue) \<Longrightarrow> length out < unat (dst_size h) \<Longrightarrow> length out' \<le> unat (dst_size h)"
proof -
  assume t: "lz_turn h d out = Inr (d', out', continue)" and n: "length out < unat (dst_size h)"
  then obtain op d1 where op: "next_op h (of_nat (length out)) (lz_byte h d out) d = Inr (op, d1)"
    by (auto simp: lz_turn_def and_then_Inr)
  show ?thesis using t n by (cases op) (auto simp: lz_turn_def op Let_def lz_copy_length split: if_splits)
qed

lemma ring_guard:
  assumes "ring h s out" "length out \<le> unat (dst_size h)"
  shows "global_pos s + of_nat (buffer_pos s) < dst_size h \<longleftrightarrow> length out < unat (dst_size h)"
proof -
  have "global_pos s + of_nat (buffer_pos s) = of_nat (length out)"
    using assms(1) ring_length [OF assms(1)] by (simp add: ring_def Let_def)
  moreover have "length out < 2 ^ 64" using assms(2) unsigned_less [of "dst_size h", where 'a = nat] by simp
  ultimately show ?thesis using pos_less by simp
qed

lemma loop_ring:
  assumes h: "wf_header h" "unat (dict_size h) \<le> 2147483648" and wr: "wr = (\<lambda>_ _. True)"
    and s: "ready h s" "ring h s out" "length out \<le> unat (dst_size h)"
    and l: "lz_loop h (dec s) out = Some (Inr res)"
  shows "\<exists>s'. unlzma_loop h wr s = Some (Inr s') \<and> ring h s' res"
  using s l
proof (induction "left (rc (dec s))" arbitrary: s out rule: less_induct)
  case less
  note guard = ring_guard [OF less.prems(2,3)]
  show ?case
  proof (cases "length out < unat (dst_size h)")
    case False
    then have "res = out" using less.prems(4) by (simp add: lz_loop.simps [of h "dec s" out])
    then show ?thesis using False guard less.prems(2) by (simp add: unlzma_loop.simps [of h wr s])
  next
    case True
    then obtain d' out' continue where t: "lz_turn h (dec s) out = Inr (d', out', continue)"
      using less.prems(4) by (auto simp: lz_loop.simps [of h "dec s" out] split: sum.splits)
    obtain s' where s': "unlzma_turn h wr s = Inr (s', continue)" "dec s' = d'" "ring h s' out'"
      using turn_ring [OF h wr less.prems(1,2) True t] .
    have "yields (past h) (unlzma_turn h wr s) (\<lambda>(s', continue). left (rc (dec s')) < left (rc (dec s)) \<and> (continue \<longrightarrow> ready h s'))"
      using unlzma_turn_yields [OF h(1) less.prems(1)] guard True by simp
    then have p: "left (rc (dec s')) < left (rc (dec s))" "continue \<Longrightarrow> ready h s'" by (simp_all add: s'(1))
    show ?thesis
    proof (cases continue)
      case c: True
      have "lz_loop h (dec s') out' = Some (Inr res)" using less.prems(4) True t s'(2) c by (simp add: lz_loop.simps [of h "dec s" out])
      from less.hyps [OF p(1) p(2) [OF c] s'(3) lz_turn_grows [OF t True] this] show ?thesis
        using guard True s'(1) c by (simp add: unlzma_loop.simps [of h wr s])
    next
      case False
      then have "res = out'" using less.prems(4) True t by (simp add: lz_loop.simps [of h "dec s" out])
      then show ?thesis using guard True s' False by (simp add: unlzma_loop.simps [of h wr s])
    qed
  qed
qed

text \<open>C8: The dictionary of \<^verbatim>\<open>unlzma\<close> implements the unbounded history of LZMA: a stream whose matches stay within the
  dictionary and the announced size is unpacked to exactly the bytes that the specification decodes, all of which are
  written, however often the dictionary wraps and whatever the heap held before.\<close>

theorem unlzma_refines_lz:
  assumes "read_header bs = Inr h" "unat (dict_size h) \<le> 2 ^ 31" "lz_decode bs file = Some (Inr out)"
  shows "unpack_lzma_stream (\<lambda>_ _. True) junk bs file = Some (Inr (out, of_nat (length out)))"
proof -
  note h = read_header_wf [OF assms(1)]
  have h2: "unat (dict_size h) \<le> 2147483648" using assms(2) by simp
  obtain r where r: "rc_init file (\<lambda>_. 1024) (probs_size h) = Inr r"
    "lz_loop h \<lparr>rc = r, previous_byte = 0, state = 0, rep0 = 1, rep1 = 1, rep2 = 1, rep3 = 1\<rparr> [] = Some (Inr out)"
    using assms(3) unfolding lz_decode_def assms(1) by (auto split: sum.splits)
  have "good r \<and> num_probs r = probs_size h" using rc_init_yields [of "{}" "file" "probs_size h"] r(1) by simp
  then have s: "ready h (unlzma_start junk r)" by (intro start_ready [OF h]) simp_all
  have "0 < unat (dict_size h)" using h by (simp add: wf_header_def unat_gt_0)
  then have g: "ring h (unlzma_start junk r) []" by (simp add: ring_def unlzma_start_def)
  have l: "lz_loop h (dec (unlzma_start junk r)) [] = Some (Inr out)" using r(2) by (simp add: unlzma_start_def)
  obtain s' where s': "unlzma_loop h (\<lambda>_ _. True) (unlzma_start junk r) = Some (Inr s')" "ring h s' out"
    using loop_ring [OF h h2 refl s g _ l] by auto
  have "unlzma_end (\<lambda>_ _. True) s' = Inr (out, of_nat (length out))"
    using s'(2) ring_length [OF s'(2)] by (simp add: unlzma_end_def ring_def Let_def)
  then show ?thesis using assms(1) r(1) s'(1) by (simp add: unpack_lzma_stream_def)
qed

text \<open>Twelve bytes through a dictionary of five, from three literals and a match.\<close>

lemma unlzma_refines_lz_witness:
  "unpack_lzma_stream (\<lambda>_ _. True) (\<lambda>_. 0) [0, 5, 0, 0, 0, 12, 0, 0, 0, 0, 0, 0, 0]
     [[0, 48, 153, 171, 218, 244, 217, 155, 7, 255, 255, 50, 60, 0, 0]] =
   Some (Inr ([97, 98, 99, 97, 98, 99, 97, 98, 99, 97, 98, 99], 12))"
proof -
  define bs :: "byte list" where "bs = [0, 5, 0, 0, 0, 12, 0, 0, 0, 0, 0, 0, 0]"
  obtain h where h: "read_header bs = Inr h" "dict_size h = 5"
    unfolding bs_def by (simp add: read_header_def load_le_def)
  have l: "lz_decode bs [[0, 48, 153, 171, 218, 244, 217, 155, 7, 255, 255, 50, 60, 0, 0]] =
      Some (Inr [97, 98, 99, 97, 98, 99, 97, 98, 99, 97, 98, 99])"
    unfolding bs_def by code_simp
  have "unat (dict_size h) \<le> 2 ^ 31" by (simp add: h(2))
  from unlzma_refines_lz [OF h(1) this l, of "\<lambda>_. 0"] show ?thesis by (simp add: bs_def)
qed

end
